(* ===== verification/Puppy_Prelude.thy ===== *)
theory Puppy_Prelude
  imports Main "HOL-Library.Word"
begin

text \<open>
  Shared vocabulary of the development: the kernel's integer types as words, the outcome of
  kernel code that may stop in a panic, and the generic lemmas on words, lists and outcomes that
  the component theories use.

  The collections: \<open>kernel_simps\<close> holds the equations of the outcome monad and of the small
  accessors every component unfolds; \<open>page_simps\<close> holds the facts on page numbers and offsets
  of 32-bit addresses.
\<close>

unbundle bit_operations_syntax

named_theorems kernel_simps \<open>equations of kernel outcomes and accessors\<close>
named_theorems page_simps \<open>page numbers and page offsets of 32-bit addresses\<close>

section \<open>Machine integers\<close>

type_synonym u8 = "8 word"
type_synonym u16 = "16 word"
type_synonym u32 = "32 word"
type_synonym u64 = "64 word"

section \<open>Outcomes of kernel code\<close>

text \<open>
  \<open>PANIC\<close> never returns (\<open>src/kernel/include/panic/panic.h\<close>): a call that panics ends in
  the fault \<open>Panic\<close> with the message of the source. \<open>OutOfBounds\<close> marks an array access
  outside its array, \<open>NullDeref\<close> an access through a null pointer and \<open>Dangling\<close> one
  through a pointer to a deleted object, which C++ leaves undefined. \<open>DivideError\<close> is a division
  by zero. \<open>PageFault a\<close> is the processor's exception on a kernel access to the virtual
  address \<open>a\<close>, and \<open>Diverges\<close> the outcome of a loop that does not end.
\<close>

datatype kfault = Panic string | OutOfBounds | NullDeref | Dangling | DivideError | PageFault u32 | Diverges

type_synonym 'a kernel = "kfault + 'a"

definition kbind :: "'a kernel \<Rightarrow> ('a \<Rightarrow> 'b kernel) \<Rightarrow> 'b kernel" where
  "kbind m f = (case m of Inl e \<Rightarrow> Inl e | Inr x \<Rightarrow> f x)"

lemma kbind_Inl [simp, kernel_simps]: "kbind (Inl e) f = Inl e"
  by (simp add: kbind_def)

lemma kbind_Inr [simp, kernel_simps]: "kbind (Inr x) f = f x"
  by (simp add: kbind_def)

lemma kbind_eq_Inr_iff: "kbind m f = Inr y \<longleftrightarrow> (\<exists>x. m = Inr x \<and> f x = Inr y)"
  by (cases m) auto

lemma kbind_eq_Inl_iff:
  "kbind m f = Inl e \<longleftrightarrow> m = Inl e \<or> (\<exists>x. m = Inr x \<and> f x = Inl e)"
  by (cases m) auto

lemma kbind_eq_InrE:
  assumes "kbind m f = Inr y"
  obtains x where "m = Inr x" and "f x = Inr y"
  using assms by (auto simp: kbind_eq_Inr_iff)

lemma kbind_cong [fundef_cong]:
  "m = m' \<Longrightarrow> (\<And>x. m' = Inr x \<Longrightarrow> f x = g x) \<Longrightarrow> kbind m f = kbind m' g"
  by (cases m') auto

lemma kbind_assoc: "kbind (kbind m f) g = kbind m (\<lambda>x. kbind (f x) g)"
  by (cases m) auto

text \<open>A loop of the kernel that stops at the first panic.\<close>

fun kfold :: "('a \<Rightarrow> 's \<Rightarrow> 's kernel) \<Rightarrow> 'a list \<Rightarrow> 's \<Rightarrow> 's kernel" where
  "kfold f [] s = Inr s"
| "kfold f (x # xs) s = kbind (f x s) (kfold f xs)"

lemma kfold_append: "kfold f (xs @ ys) s = kbind (kfold f xs s) (kfold f ys)"
  by (induction xs arbitrary: s) (auto simp: kbind_assoc intro!: kbind_cong)

lemma kfold_invariant:
  assumes "kfold f xs s = Inr t" and "P s"
    and "\<And>x s s'. x \<in> set xs \<Longrightarrow> P s \<Longrightarrow> f x s = Inr s' \<Longrightarrow> P s'"
  shows "P t"
  using assms
proof (induction xs arbitrary: s)
  case Nil
  then show ?case by simp
next
  case (Cons x xs)
  then obtain s' where s': "f x s = Inr s'" "kfold f xs s' = Inr t"
    by (auto simp: kbind_eq_Inr_iff)
  then have "P s'" using Cons.prems(2,3) by (meson list.set_intros(1))
  then show ?case using s'(2) Cons.prems(3) by (meson Cons.IH list.set_intros(2))
qed

lemma kfold_total:
  assumes "P s"
    and "\<And>x s. x \<in> set xs \<Longrightarrow> P s \<Longrightarrow> \<exists>s'. f x s = Inr s' \<and> P s'"
  shows "\<exists>t. kfold f xs s = Inr t \<and> P t"
  using assms
proof (induction xs arbitrary: s)
  case Nil
  then show ?case by simp
next
  case (Cons x xs)
  then obtain s' where "f x s = Inr s'" "P s'" by force
  with Cons show ?case by auto
qed

section \<open>Words\<close>

lemma word_le_max_diff:
  fixes a b m :: u32
  assumes "b \<le> m" and "a \<le> m - b"
  shows "unat a + unat b \<le> unat m"
  using assms by (simp add: word_le_nat_alt unat_sub)

lemma unat_plus_no_wrap:
  fixes a b :: u32
  assumes "unat a + unat b < 2 ^ 32"
  shows "unat (a + b) = unat a + unat b"
  using assms by (simp add: unat_word_ariths)

lemma u32_bound: "unat (x :: u32) < 4294967296"
proof -
  have "unat x < 2 ^ LENGTH(32)" by (rule unsigned_less)
  then show ?thesis by simp
qed

lemma u32_max_bound: "x \<noteq> - 1 \<Longrightarrow> unat (x :: u32) < 4294967295"
proof -
  assume "x \<noteq> - 1"
  then have "unat x \<noteq> unat (- 1 :: u32)" by (metis word_unat_eq_iff)
  moreover have "unat (- 1 :: u32) = 4294967295"
    by (simp add: unsigned_minus_1_eq_mask mask_eq_exp_minus_1)
  ultimately show ?thesis using u32_bound [of x] by linarith
qed

lemma unat_Suc_no_wrap:
  fixes a b :: u32
  assumes "a < b"
  shows "unat (a + 1) = unat a + 1"
proof -
  have "unat a + 1 < 2 ^ 32"
    using assms u32_bound [of b] by (simp add: word_less_nat_alt)
  then show ?thesis by (simp add: unat_word_ariths)
qed

lemma word_Suc_le_iff:
  fixes u w num :: u32
  assumes "u < num"
  shows "u + 1 \<le> w \<longleftrightarrow> u < w"
  by (simp add: word_le_nat_alt word_less_nat_alt unat_Suc_no_wrap [OF assms] Suc_le_eq)

lemma unat_of_nat_u32: "k < 2 ^ 32 \<Longrightarrow> unat (of_nat k :: u32) = k"
  by (simp add: unat_of_nat)

end
