(* ===== verification/Interval.thy ===== *)
theory Interval
  imports Puppy_Prelude
begin

text \<open>
  Intervals of 32-bit numbers, \<open>interval_t\<close> of \<open>src/kernel/include/libc/interval.h\<close> and
  \<open>src/kernel/src/libc/interval.cpp\<close>. Both bounds are \<open>uint32_t\<close> and inclusive. The record is
  extensible because \<open>region_t\<close> of the memory manager derives from \<open>interval_t\<close>.
  The lemmas read the operations as facts on the set of numbers an interval covers.
\<close>

record interval =
  ifrom :: u32
  ito :: u32

definition isize :: "'a interval_scheme \<Rightarrow> u32" where
  "isize i = ito i - ifrom i + 1"

definition thisBefore :: "'a interval_scheme \<Rightarrow> 'a interval_scheme \<Rightarrow> bool" where
  "thisBefore i other \<longleftrightarrow> ifrom other \<ge> ito i"

definition interval_eq :: "'a interval_scheme \<Rightarrow> 'a interval_scheme \<Rightarrow> bool" where
  "interval_eq i other \<longleftrightarrow> ifrom i = ifrom other \<and> ito i = ito other"

definition icontains :: "'a interval_scheme \<Rightarrow> u32 \<Rightarrow> bool" where
  "icontains i num \<longleftrightarrow> num \<ge> ifrom i \<and> num \<le> ito i"

definition icontains_interval :: "'a interval_scheme \<Rightarrow> 'a interval_scheme \<Rightarrow> bool" where
  "icontains_interval i other \<longleftrightarrow> icontains i (ifrom other) \<and> icontains i (ito other)"

definition icontainsAny :: "'a interval_scheme \<Rightarrow> 'a interval_scheme \<Rightarrow> bool" where
  "icontainsAny i other \<longleftrightarrow> icontains i (ifrom other) \<or> icontains i (ito other)"

definition iintersects :: "'a interval_scheme \<Rightarrow> 'a interval_scheme \<Rightarrow> bool" where
  "iintersects i other \<longleftrightarrow> icontainsAny i other \<or> icontainsAny other i"

lemmas interval_defs =
  isize_def thisBefore_def interval_eq_def icontains_def icontains_interval_def
  icontainsAny_def iintersects_def

section \<open>The numbers an interval covers\<close>

definition addrs :: "'a interval_scheme \<Rightarrow> u32 set" where
  "addrs i = {ifrom i..ito i}"

definition proper :: "'a interval_scheme \<Rightarrow> bool" where
  "proper i \<longleftrightarrow> ifrom i \<le> ito i"

lemma mem_addrs [simp]: "a \<in> addrs i \<longleftrightarrow> icontains i a"
  by (auto simp: addrs_def icontains_def)

lemma addrs_contains_interval:
  "proper j \<Longrightarrow> icontains_interval i j \<longleftrightarrow> addrs j \<subseteq> addrs i"
  by (auto simp: interval_defs addrs_def proper_def)

lemma addrs_disjoint_iff:
  "proper i \<Longrightarrow> proper j \<Longrightarrow> addrs i \<inter> addrs j = {} \<longleftrightarrow> ito i < ifrom j \<or> ito j < ifrom i"
  by (auto simp: addrs_def proper_def)

lemma iintersects_iff:
  "proper i \<Longrightarrow> proper j \<Longrightarrow> iintersects i j \<longleftrightarrow> addrs i \<inter> addrs j \<noteq> {}"
  by (subst addrs_disjoint_iff) (auto simp: interval_defs proper_def)

text \<open>
  The size of an interval is the number of addresses it covers, except for the interval that
  covers all of them: its size wraps to zero.
\<close>

lemma unat_isize:
  assumes "proper i" and "ifrom i \<noteq> 0 \<or> ito i \<noteq> - 1"
  shows "unat (isize i) = unat (ito i) - unat (ifrom i) + 1"
proof -
  have "unat (ito i) - unat (ifrom i) + 1 < 4294967296"
    using assms(2) u32_bound [of "ito i"] u32_max_bound [of "ito i"]
    by (auto simp: unat_gt_0 [symmetric])
  then show ?thesis
    using assms(1) by (simp add: isize_def proper_def unat_word_ariths unat_sub)
qed

end
