(* ===== verification/Interval_List.thy ===== *)
theory Interval_List
  imports Interval
begin

text \<open>
  \<open>IntervalList<T, max>\<close> of \<open>src/kernel/include/libc/intervals.h\<close>: the ordered list of address
  intervals from which the memory manager of a process and the kernel's own region table hand
  out address space. The backing \<open>slist\<close> is the list of its items in order. The template
  parameter \<open>max\<close> is an argument, and so is \<open>mk\<close>, the two-argument constructor of \<open>T\<close> that
  the code calls by \<open>range = {from, to}\<close>.

  The locale \<open>address_space\<close> is what the users of the list rely on; its interpretations are
  in the theories of the two users.
\<close>

section \<open>Operations\<close>

fun il_insert :: "'a interval_scheme list \<Rightarrow> 'a interval_scheme \<Rightarrow> 'a interval_scheme list" where
  "il_insert [] i = [i]"
| "il_insert (b # bs) i = (if thisBefore b i then b # il_insert bs i else i # b # bs)"

definition il_add :: "'a interval_scheme list \<Rightarrow> 'a interval_scheme \<Rightarrow> 'a interval_scheme list" where
  "il_add xs i =
     (if xs = [] then [i]
      else if length xs = 1 then (if thisBefore (hd xs) i then xs @ [i] else i # xs)
      else il_insert xs i)"

fun il_contains :: "'a interval_scheme list \<Rightarrow> u32 \<Rightarrow> 'a interval_scheme option" where
  "il_contains [] a = None"
| "il_contains (ival # is) a =
     (if ifrom ival > a then None
      else if icontains ival a then Some ival
      else il_contains is a)"

fun il_gap ::
  "(u32 \<Rightarrow> u32 \<Rightarrow> 'a interval_scheme) \<Rightarrow> u32 \<Rightarrow> 'a interval_scheme list \<Rightarrow> 'a interval_scheme option"
where
  "il_gap mk sz (i0 # i1 # is) =
     (if ifrom i1 > sz + ito i0 then Some (mk (ito i0 + 1) (sz + ito i0))
      else il_gap mk sz (i1 # is))"
| "il_gap mk sz is = None"

definition il_after ::
  "(u32 \<Rightarrow> u32 \<Rightarrow> 'a interval_scheme) \<Rightarrow> u32 \<Rightarrow> u32 \<Rightarrow> 'a interval_scheme \<Rightarrow> 'a interval_scheme option"
where
  "il_after mk bound sz ival =
     (if bound - ito ival \<ge> sz then Some (mk (ito ival + 1) (sz + ito ival)) else None)"

definition il_findFree ::
  "(u32 \<Rightarrow> u32 \<Rightarrow> 'a interval_scheme) \<Rightarrow> u32 \<Rightarrow> u32 \<Rightarrow> 'a interval_scheme list
    \<Rightarrow> 'a interval_scheme option"
where
  "il_findFree mk bound sz xs =
     (if sz = 0 then None
      else if xs = [] then Some (mk 0 (sz - 1))
      else if length xs = 1 then
        (if ifrom (hd xs) \<ge> sz then Some (mk 0 (sz - 1)) else il_after mk bound sz (hd xs))
      else (case il_gap mk sz xs of
              Some r \<Rightarrow> Some r
            | None \<Rightarrow> il_after mk bound sz (last xs)))"

definition il_add_size ::
  "(u32 \<Rightarrow> u32 \<Rightarrow> 'a interval_scheme) \<Rightarrow> u32 \<Rightarrow> u32 \<Rightarrow> 'a interval_scheme list
    \<Rightarrow> ('a interval_scheme \<times> 'a interval_scheme list) option"
where
  "il_add_size mk bound sz xs =
     (case il_findFree mk bound sz xs of
        None \<Rightarrow> None
      | Some r \<Rightarrow> Some (r, il_add xs r))"

fun il_del :: "'a interval_scheme list \<Rightarrow> 'a interval_scheme \<Rightarrow> bool \<times> 'a interval_scheme list" where
  "il_del [] i = (False, [])"
| "il_del (b # bs) i =
     (if interval_eq b i then (True, bs)
      else (let (found, bs') = il_del bs i in (found, b # bs')))"

fun il_foreach ::
  "('a interval_scheme \<Rightarrow> 's \<Rightarrow> bool \<times> 'a interval_scheme \<times> 's)
    \<Rightarrow> 'a interval_scheme list \<Rightarrow> 's \<Rightarrow> 'a interval_scheme list \<times> 's"
where
  "il_foreach f [] s = ([], s)"
| "il_foreach f (b # bs) s =
     (let (go, b', s') = f b s in
      if go then (let (bs', s'') = il_foreach f bs s' in (b' # bs', s'')) else (b' # bs, s'))"

section \<open>The invariant\<close>

text \<open>Every interval is proper and within the bound, and the intervals are apart and in order.\<close>

definition il_inv :: "u32 \<Rightarrow> 'a interval_scheme list \<Rightarrow> bool" where
  "il_inv bound xs \<longleftrightarrow>
     (\<forall>x \<in> set xs. proper x \<and> ito x \<le> bound) \<and> sorted_wrt (\<lambda>x y. ito x < ifrom y) xs"

definition covered :: "'a interval_scheme set \<Rightarrow> u32 set" where
  "covered X = (\<Union>x \<in> X. addrs x)"

lemma il_inv_Nil [simp]: "il_inv bound []"
  by (simp add: il_inv_def)

lemma il_inv_Cons:
  "il_inv bound (x # xs) \<longleftrightarrow>
     proper x \<and> ito x \<le> bound \<and> (\<forall>y \<in> set xs. ito x < ifrom y) \<and> il_inv bound xs"
  by (auto simp: il_inv_def)

lemma il_inv_proper: "il_inv bound xs \<Longrightarrow> x \<in> set xs \<Longrightarrow> proper x"
  by (simp add: il_inv_def)

lemma il_inv_disjoint:
  "il_inv bound xs \<Longrightarrow> x \<in> set xs \<Longrightarrow> y \<in> set xs \<Longrightarrow> x \<noteq> y \<Longrightarrow> addrs x \<inter> addrs y = {}"
proof (induction xs)
  case Nil
  then show ?case by simp
next
  case (Cons z zs)
  have "addrs z \<inter> addrs w = {}" if "w \<in> set zs" for w
    using that Cons.prems(1) by (metis il_inv_Cons addrs_disjoint_iff il_inv_proper)
  with Cons show ?case by (auto simp: il_inv_Cons)
qed

lemma il_add_eq_insert: "il_add xs i = il_insert xs i"
  by (cases xs; cases "tl xs") (auto simp: il_add_def)

lemma set_il_insert [simp]: "set (il_insert xs i) = insert i (set xs)"
  by (induction xs) auto

lemma length_il_insert [simp]: "length (il_insert xs i) = Suc (length xs)"
  by (induction xs) auto

lemma il_insert_inv:
  "il_inv bound xs \<Longrightarrow> proper i \<Longrightarrow> ito i \<le> bound \<Longrightarrow> \<forall>x \<in> set xs. addrs i \<inter> addrs x = {}
    \<Longrightarrow> il_inv bound (il_insert xs i)"
proof (induction xs)
  case Nil
  then show ?case by (simp add: il_inv_def)
next
  case (Cons b bs)
  have apart: "ito i < ifrom b \<or> ito b < ifrom i"
    using Cons.prems by (simp add: il_inv_Cons addrs_disjoint_iff)
  show ?case
  proof (cases "thisBefore b i")
    case True
    with apart Cons.prems have "ito b < ifrom i"
      by (auto simp: thisBefore_def il_inv_Cons proper_def)
    with True Cons show ?thesis by (simp add: il_inv_Cons)
  next
    case False
    with apart Cons.prems have "ito i < ifrom b" and "\<forall>y \<in> set bs. ito i < ifrom y"
      by (force simp: thisBefore_def il_inv_Cons proper_def)+
    with False Cons.prems show ?thesis by (simp add: il_inv_Cons)
  qed
qed

lemma il_contains_Some_iff:
  "il_inv bound xs \<Longrightarrow> il_contains xs a = Some x \<longleftrightarrow> x \<in> set xs \<and> icontains x a"
proof (induction xs)
  case Nil
  then show ?case by simp
next
  case (Cons b bs)
  have later: "a < ifrom y" if "y \<in> set bs" and "a \<le> ito b" for y
    using that Cons.prems by (meson il_inv_Cons order_le_less_trans)
  show ?case
  proof (cases "icontains b a")
    case True
    then show ?thesis using later by (auto simp: icontains_def dest: leD)
  next
    case False
    then show ?thesis
      using Cons later by (auto simp: il_inv_Cons icontains_def proper_def dest: leD)
  qed
qed

lemma il_contains_None_iff:
  "il_inv bound xs \<Longrightarrow> il_contains xs a = None \<longleftrightarrow> a \<notin> covered (set xs)"
  using il_contains_Some_iff [of bound xs a]
  by (cases "il_contains xs a") (auto simp: covered_def)

section \<open>Finding a free interval\<close>

text \<open>
  The search adds the size to the end of an interval in 32 bits. \<open>il_fits\<close> says that none of
  these sums wraps; it concerns all intervals but the last, whose distance to \<open>bound\<close> the code
  computes by a subtraction that cannot wrap. \<open>free_for\<close> is the contract of a search result.
\<close>

definition il_fits :: "u32 \<Rightarrow> 'a interval_scheme list \<Rightarrow> bool" where
  "il_fits sz xs \<longleftrightarrow> (\<forall>x \<in> set (butlast xs). unat sz + unat (ito x) < 2 ^ 32)"

definition free_for :: "u32 \<Rightarrow> u32 \<Rightarrow> 'a interval_scheme set \<Rightarrow> 'a interval_scheme \<Rightarrow> bool" where
  "free_for bound sz X r \<longleftrightarrow>
     proper r \<and> ito r \<le> bound \<and> isize r = sz \<and> (\<forall>x \<in> X. addrs r \<inter> addrs x = {})"

definition makes_interval :: "(u32 \<Rightarrow> u32 \<Rightarrow> 'a interval_scheme) \<Rightarrow> bool" where
  "makes_interval mk \<longleftrightarrow> (\<forall>a b. ifrom (mk a b) = a \<and> ito (mk a b) = b)"

lemma makes_intervalD [simp]:
  "makes_interval mk \<Longrightarrow> ifrom (mk a b) = a" "makes_interval mk \<Longrightarrow> ito (mk a b) = b"
  by (simp_all add: makes_interval_def)

lemma il_fits_Cons2: "il_fits sz (x # y # ys) \<longleftrightarrow> unat sz + unat (ito x) < 2 ^ 32 \<and> il_fits sz (y # ys)"
  by (simp add: il_fits_def)

text \<open>The interval of a given size right behind another one.\<close>

lemma behind:
  fixes t sz :: u32
  assumes mk: "makes_interval mk" and sz: "sz \<noteq> 0" and nowrap: "unat sz + unat t < 2 ^ 32"
  defines "r \<equiv> mk (t + 1) (sz + t)"
  shows "proper r" and "isize r = sz" and "t < ifrom r" and "unat (ito r) = unat sz + unat t"
proof -
  have pos: "0 < unat sz" using sz by (simp add: unat_gt_0)
  then have t1: "unat (t + 1) = unat t + 1" using nowrap by (simp add: unat_word_ariths)
  have st: "unat (sz + t) = unat sz + unat t" using nowrap by (rule unat_plus_no_wrap)
  show "proper r" "t < ifrom r" "unat (ito r) = unat sz + unat t"
    using mk pos t1 st by (simp_all add: r_def proper_def word_le_nat_alt word_less_nat_alt)
  show "isize r = sz" using mk by (simp add: r_def isize_def)
qed

lemma il_gap_sound:
  "il_inv bound xs \<Longrightarrow> il_fits sz xs \<Longrightarrow> makes_interval mk \<Longrightarrow> sz \<noteq> 0 \<Longrightarrow> il_gap mk sz xs = Some r
    \<Longrightarrow> free_for bound sz (set xs) r \<and> ito (hd xs) < ifrom r"
proof (induction mk sz xs rule: il_gap.induct)
  case (1 mk sz i0 i1 js)
  have order: "ito i0 < ifrom i1" "proper i1" "ito i1 \<le> bound" "proper i0"
    "\<forall>y \<in> set js. ito i1 < ifrom y"
    using "1.prems" by (auto simp: il_inv_Cons)
  show ?case
  proof (cases "ifrom i1 > sz + ito i0")
    case True
    then have r: "r = mk (ito i0 + 1) (sz + ito i0)" using "1.prems" by simp
    have nw: "unat sz + unat (ito i0) < 2 ^ 32" using "1.prems"(2) by (simp add: il_fits_Cons2)
    note b = behind [OF "1.prems"(3,4) nw, folded r]
    have below: "ito r < ifrom i1" using True r "1.prems"(3) by simp
    have "ito r < ifrom y" if "y \<in> set (i1 # js)" for y
      using that below order(2,5) by (auto simp: proper_def)
    moreover have "proper y" if "y \<in> set (i1 # js)" for y
      using that "1.prems"(1) by (auto simp: il_inv_Cons il_inv_proper)
    moreover have "ito r \<le> bound" using below order(2,3) by (simp add: proper_def)
    ultimately show ?thesis
      using b order(4) by (auto simp: free_for_def addrs_disjoint_iff)
  next
    case False
    then have "free_for bound sz (set (i1 # js)) r \<and> ito i1 < ifrom r"
      using 1 by (simp add: il_inv_Cons il_fits_Cons2)
    moreover from this have "addrs r \<inter> addrs i0 = {}" "ito i0 < ifrom r"
      using order by (auto simp: free_for_def addrs_disjoint_iff proper_def)
    ultimately show ?thesis by (simp add: free_for_def)
  qed
qed auto

lemma il_after_sound:
  assumes "il_inv bound (xs @ [x])" and "makes_interval mk" and "sz \<noteq> 0"
    and "il_after mk bound sz x = Some r"
  shows "free_for bound sz (set (xs @ [x])) r"
proof -
  have x: "ito x \<le> bound" "proper x" and before: "\<forall>y \<in> set xs. ito y < ifrom x \<and> proper y"
    using assms(1) by (auto simp: il_inv_def sorted_wrt_append)
  have r: "r = mk (ito x + 1) (sz + ito x)" and le: "sz \<le> bound - ito x"
    using assms(4) by (auto simp: il_after_def split: if_splits)
  have sum: "unat sz + unat (ito x) \<le> unat bound" using x(1) le by (rule word_le_max_diff)
  then have nw: "unat sz + unat (ito x) < 2 ^ 32" using u32_bound [of bound] by simp
  note b = behind [OF assms(2,3) nw, folded r]
  have "ito y < ifrom r \<and> proper y" if "y \<in> set (xs @ [x])" for y
    using that before x b(3) by (auto simp: proper_def)
  then show ?thesis
    using b sum by (auto simp: free_for_def addrs_disjoint_iff word_le_nat_alt)
qed

lemma il_findFree_cases:
  assumes "il_findFree mk bound sz (ys @ [x]) = Some r"
  obtains (front) "ys = []" and "r = mk 0 (sz - 1)" and "sz \<le> ifrom x"
    | (gap) "il_gap mk sz (ys @ [x]) = Some r"
    | (after) "il_after mk bound sz x = Some r"
proof (cases "ys = []")
  case True
  with assms show ?thesis
    by (cases "sz = 0"; cases "sz \<le> ifrom x") (auto simp: il_findFree_def intro: that)
next
  case False
  with assms show ?thesis
    by (cases "sz = 0"; cases "il_gap mk sz (ys @ [x])") (auto simp: il_findFree_def intro: that)
qed

lemma il_findFree_sound:
  assumes "il_inv bound xs" and "il_fits sz xs" and "makes_interval mk"
    and "xs = [] \<Longrightarrow> sz - 1 \<le> bound"
    and "il_findFree mk bound sz xs = Some r"
  shows "free_for bound sz (set xs) r"
proof -
  have sz: "sz \<noteq> 0" using assms(5) by (simp add: il_findFree_def split: if_splits)
  then have low: "proper (mk 0 (sz - 1))" "isize (mk 0 (sz - 1)) = sz" "ito (mk 0 (sz - 1)) = sz - 1"
    using assms(3) by (simp_all add: proper_def isize_def)
  show ?thesis
  proof (cases xs rule: rev_cases)
    case Nil
    then have "r = mk 0 (sz - 1)" using assms(5) sz by (simp add: il_findFree_def)
    with Nil low assms(4) show ?thesis by (simp add: free_for_def)
  next
    case (snoc ys x)
    show ?thesis
      using assms(5) [unfolded snoc]
    proof (cases rule: il_findFree_cases)
      case front
      have "sz - 1 < ifrom x"
        using front(3) unat_minus_one [OF sz] sz
        by (simp add: word_less_nat_alt word_le_nat_alt unat_gt_0 [symmetric])
      moreover have "proper x" "ito x \<le> bound" using assms(1) snoc by (auto simp: il_inv_def)
      ultimately show ?thesis
        using front low snoc
        by (auto simp: free_for_def addrs_disjoint_iff proper_def)
    next
      case gap
      then show ?thesis using il_gap_sound [OF assms(1-3) sz] snoc by blast
    next
      case after
      then show ?thesis using il_after_sound [of bound ys x] assms(1,3) sz snoc by blast
    qed
  qed
qed

text \<open>
  The search is complete behind the first interval: when it fails, no interval of this size that
  starts behind the first one and stays within the bound is free.
\<close>

lemma il_gap_None_room:
  fixes t sz :: u32
  assumes "proper r" and "isize r = sz" and "sz \<noteq> 0" and "t < ifrom r"
  shows "unat sz + unat t \<le> unat (ito r)"
proof -
  have "ifrom r \<noteq> 0" using assms(4) by (metis word_not_simps(1))
  then have "unat sz = unat (ito r) - unat (ifrom r) + 1"
    using unat_isize [OF assms(1)] assms(2) by simp
  then show ?thesis
    using assms(1,4) by (simp add: proper_def word_less_nat_alt word_le_nat_alt)
qed

lemma il_gap_complete:
  assumes "proper r" and "isize r = sz" and "sz \<noteq> 0"
  shows "il_inv bound xs \<Longrightarrow> il_fits sz xs \<Longrightarrow> il_gap mk sz xs = None \<Longrightarrow> xs \<noteq> []
    \<Longrightarrow> \<forall>x \<in> set xs. addrs r \<inter> addrs x = {} \<Longrightarrow> ito (hd xs) < ifrom r \<Longrightarrow> ito (last xs) < ifrom r"
proof (induction xs rule: induct_list012)
  case (3 i0 i1 js)
  have nw: "unat sz + unat (ito i0) < 2 ^ 32" using "3.prems"(2) by (simp add: il_fits_Cons2)
  have "unat sz + unat (ito i0) \<le> unat (ito r)"
    using il_gap_None_room [OF assms] "3.prems"(6) by simp
  moreover have "ifrom i1 \<le> sz + ito i0" using "3.prems"(3) by (auto split: if_splits)
  ultimately have "ifrom i1 \<le> ito r"
    using unat_plus_no_wrap [OF nw] by (simp add: word_le_nat_alt)
  then have "ito i1 < ifrom r"
    using "3.prems"(1,5) assms(1) by (auto simp: il_inv_Cons addrs_disjoint_iff)
  with 3 show ?case by (auto simp: il_inv_Cons il_fits_Cons2 split: if_splits)
qed auto

lemma il_findFree_complete:
  assumes inv: "il_inv bound xs" and fits: "il_fits sz xs" and sz: "sz \<noteq> 0" and ne: "xs \<noteq> []"
    and none: "il_findFree mk bound sz xs = None"
    and r: "free_for bound sz (set xs) r"
  shows "\<not> ito (hd xs) < ifrom r"
proof
  assume hd: "ito (hd xs) < ifrom r"
  have pr: "proper r" "isize r = sz" "ito r \<le> bound" "\<forall>x \<in> set xs. addrs r \<inter> addrs x = {}"
    using r by (auto simp: free_for_def)
  have gap: "length xs = 1 \<or> il_gap mk sz xs = None" and aft: "il_after mk bound sz (last xs) = None"
    using none sz ne by (auto simp: il_findFree_def last_conv_nth hd_conv_nth split: if_splits option.splits)
  have "ito (last xs) < ifrom r"
    using gap il_gap_complete [OF pr(1,2) sz inv fits _ ne pr(4) hd] hd ne
    by (auto simp: length_Suc_conv)
  then have "unat sz + unat (ito (last xs)) \<le> unat bound"
    using il_gap_None_room [OF pr(1,2) sz] pr(3) by (fastforce simp: word_le_nat_alt)
  then have "sz \<le> bound - ito (last xs)"
    by (simp add: word_le_nat_alt unat_sub)
  with aft show False by (simp add: il_after_def)
qed

text \<open>
  Without \<open>il_fits\<close> the search is unsound. A request of nearly 4 GB makes \<open>sz + ito i0\<close> wrap,
  the wrapped sum looks like a gap, and the code returns an interval that ends before it starts.
\<close>

lemma il_findFree_wraps:
  "il_findFree (\<lambda>f t. \<lparr>ifrom = f, ito = t\<rparr>) 0xFFFFFFFF 0xFFFFF000
     [\<lparr>ifrom = 0, ito = 0xFFF\<rparr>, \<lparr>ifrom = 0x1000, ito = 0x1FFF\<rparr>,
      \<lparr>ifrom = 0xC0000000, ito = 0xFFFFFFFF\<rparr>]
   = Some \<lparr>ifrom = 0x2000, ito = 0xFFF\<rparr>"
  by (simp add: il_findFree_def)

section \<open>Deleting an interval\<close>

lemma il_del_inv:
  "il_inv bound xs \<Longrightarrow> il_del xs i = (found, ys)
    \<Longrightarrow> il_inv bound ys \<and> set ys = {x \<in> set xs. \<not> interval_eq x i}
      \<and> (found \<longleftrightarrow> (\<exists>x \<in> set xs. interval_eq x i))"
proof (induction xs arbitrary: found ys)
  case Nil
  then show ?case by auto
next
  case (Cons b bs)
  obtain f zs where d: "il_del bs i = (f, zs)" by fastforce
  have IH: "il_inv bound zs \<and> set zs = {x \<in> set bs. \<not> interval_eq x i}
      \<and> (f \<longleftrightarrow> (\<exists>x \<in> set bs. interval_eq x i))"
    using Cons.IH [OF _ d] Cons.prems(1) by (simp add: il_inv_Cons)
  have "\<not> interval_eq x i" if "interval_eq b i" "x \<in> set bs" for x
    using that Cons.prems(1) by (fastforce simp: il_inv_Cons interval_eq_def proper_def)
  with IH d Cons.prems show ?case
    by (auto simp: il_inv_Cons split: if_splits)
qed

section \<open>The contract of an address space\<close>

locale address_space =
  fixes inv :: "'l \<Rightarrow> bool"
    and ivs :: "'l \<Rightarrow> 'a interval_scheme set"
    and bound :: u32
    and fits :: "u32 \<Rightarrow> 'l \<Rightarrow> bool"
    and find :: "u32 \<Rightarrow> 'l \<Rightarrow> 'a interval_scheme option"
    and add :: "'l \<Rightarrow> 'a interval_scheme \<Rightarrow> 'l"
    and del :: "'l \<Rightarrow> 'a interval_scheme \<Rightarrow> bool \<times> 'l"
    and contains :: "'l \<Rightarrow> u32 \<Rightarrow> 'a interval_scheme option"
  assumes find_free: "inv l \<Longrightarrow> fits sz l \<Longrightarrow> find sz l = Some r \<Longrightarrow> free_for bound sz (ivs l) r"
    and add_inv: "inv l \<Longrightarrow> proper r \<Longrightarrow> ito r \<le> bound \<Longrightarrow> \<forall>x \<in> ivs l. addrs r \<inter> addrs x = {}
      \<Longrightarrow> inv (add l r)"
    and ivs_add: "ivs (add l r) = insert r (ivs l)"
    and del_inv: "inv l \<Longrightarrow> del l r = (found, l') \<Longrightarrow> inv l'"
    and ivs_del: "inv l \<Longrightarrow> del l r = (found, l') \<Longrightarrow> ivs l' = {x \<in> ivs l. \<not> interval_eq x r}"
    and del_found: "inv l \<Longrightarrow> del l r = (found, l') \<Longrightarrow> found \<longleftrightarrow> (\<exists>x \<in> ivs l. interval_eq x r)"
    and contains_iff: "inv l \<Longrightarrow> contains l a = Some x \<longleftrightarrow> x \<in> ivs l \<and> icontains x a"
    and apart: "inv l \<Longrightarrow> x \<in> ivs l \<Longrightarrow> y \<in> ivs l \<Longrightarrow> x \<noteq> y \<Longrightarrow> addrs x \<inter> addrs y = {}"
    and ivs_proper: "inv l \<Longrightarrow> x \<in> ivs l \<Longrightarrow> proper x"
begin

lemma alloc_inv:
  assumes "inv l" and "free_for bound sz (ivs l) r"
  shows "inv (add l r)"
  using assms by (auto simp: free_for_def intro: add_inv)

lemma contains_None_iff: "inv l \<Longrightarrow> contains l a = None \<longleftrightarrow> a \<notin> covered (ivs l)"
  using contains_iff [of l a] by (cases "contains l a") (auto simp: covered_def)

lemma alloc_contains:
  assumes l: "inv l" and r: "free_for bound sz (ivs l) r"
  shows "contains (add l r) a = (if icontains r a then Some r else contains l a)"
proof (cases "icontains r a")
  case True
  then show ?thesis
    using contains_iff [OF alloc_inv [OF l r]] by (simp add: ivs_add)
next
  case False
  then have "contains (add l r) a = Some x \<longleftrightarrow> contains l a = Some x" for x
    using contains_iff [OF alloc_inv [OF l r]] contains_iff [OF l] by (auto simp: ivs_add)
  with False show ?thesis by (metis option.exhaust)
qed

lemma alloc_fresh:
  assumes "inv l" and "free_for bound sz (ivs l) r" and "icontains r a"
  shows "contains l a = None"
  using assms by (auto simp: contains_None_iff covered_def free_for_def disjoint_iff)

text \<open>Releasing what was just allocated gives the old intervals back.\<close>

lemma alloc_release:
  assumes l: "inv l" and r: "free_for bound sz (ivs l) r" and d: "del (add l r) r = (found, l')"
  shows "found" and "ivs l' = ivs l"
proof -
  have i: "inv (add l r)" using l r by (rule alloc_inv)
  have "\<not> interval_eq x r" if "x \<in> ivs l" for x
    using that r ivs_proper [OF l that]
    by (auto simp: free_for_def addrs_disjoint_iff interval_eq_def proper_def)
  then show "ivs l' = ivs l"
    using ivs_del [OF i d] by (auto simp: ivs_add interval_eq_def)
  show "found" using del_found [OF i d] by (simp add: ivs_add interval_eq_def)
qed

end

lemma interval_list_address_space:
  assumes "makes_interval mk"
  shows "address_space (il_inv bound) set bound (\<lambda>sz xs. il_fits sz xs \<and> (xs = [] \<longrightarrow> sz - 1 \<le> bound))
    (il_findFree mk bound) il_add il_del il_contains"
proof (unfold_locales, goal_cases)
  case (1 l sz r)
  then show ?case by (intro il_findFree_sound [OF _ _ assms]) simp_all
qed (simp_all add: il_add_eq_insert il_insert_inv il_del_inv il_contains_Some_iff il_inv_disjoint il_inv_proper)

end
