(* ===== verification/Kernel_Result.thy ===== *)
theory Kernel_Result
  imports Puppy_Prelude
begin

text \<open>
  \<open>kernel_result_t<T>\<close> of \<open>src/kernel/include/error/result.h\<close>: a value or a failure status,
  with a flag that records whether the holder looked at the outcome. Dropping a result nobody
  looked at panics, and so does taking the value out of a failure. Each accessor returns the
  result it leaves behind, since it sets the flag. \<open>using_result\<close> is the life of a temporary:
  an accessor is applied and the result is then destroyed.
\<close>

datatype kernel_status_t = SUCCESS | OUT_OF_MEMORY

datatype 'a kernel_result_value_t = RSuccess 'a | RStatus kernel_status_t

record 'a kernel_result_t =
  mOk :: bool
  mChecked :: bool
  mResult :: "'a kernel_result_value_t"

definition kernel_success :: "'a \<Rightarrow> 'a kernel_result_t" where
  "kernel_success arg = \<lparr>mOk = True, mChecked = False, mResult = RSuccess arg\<rparr>"

definition kernel_failure :: "kernel_status_t \<Rightarrow> 'a kernel_result_t kernel" where
  "kernel_failure e =
     (if e = SUCCESS then Inl (Panic ''constructing a failure result with SUCCESS status'')
      else Inr \<lparr>mOk = (e = SUCCESS), mChecked = False, mResult = RStatus e\<rparr>)"

definition kr_ok :: "'a kernel_result_t \<Rightarrow> bool \<times> 'a kernel_result_t" where
  "kr_ok r = (mOk r, r\<lparr>mChecked := True\<rparr>)"

definition kr_error :: "'a kernel_result_t \<Rightarrow> bool \<times> 'a kernel_result_t" where
  "kr_error r = (\<not> mOk r, r\<lparr>mChecked := True\<rparr>)"

definition kr_result :: "'a kernel_result_t \<Rightarrow> ('a \<times> 'a kernel_result_t) kernel" where
  "kr_result r =
     (let (ok, r') = kr_ok r in
      case mResult r of
        RSuccess v \<Rightarrow> (if ok then Inr (v, r') else Inl (Panic ''result extracted out of failure result''))
      | RStatus e \<Rightarrow> Inl (Panic ''result extracted out of failure result''))"

definition kr_result_into :: "'a kernel_result_t \<Rightarrow> 'a option \<times> 'a kernel_result_t" where
  "kr_result_into r =
     (let (ok, r') = kr_ok r in
      (case mResult r of RSuccess v \<Rightarrow> (if ok then Some v else None) | RStatus e \<Rightarrow> None, r'))"

definition kr_status :: "'a kernel_result_t \<Rightarrow> kernel_status_t \<times> 'a kernel_result_t" where
  "kr_status r =
     (let (ok, r') = kr_ok r in
      (case mResult r of RSuccess v \<Rightarrow> SUCCESS | RStatus e \<Rightarrow> (if ok then SUCCESS else e), r'))"

definition kr_destroy :: "'a kernel_result_t \<Rightarrow> unit kernel" where
  "kr_destroy r = (if \<not> mChecked r then Inl (Panic ''result not checked before destruction'') else Inr ())"

definition using_result :: "('a kernel_result_t \<Rightarrow> ('b \<times> 'a kernel_result_t) kernel) \<Rightarrow> 'a kernel_result_t \<Rightarrow> 'b kernel" where
  "using_result f r = kbind (f r) (\<lambda>(v, r'). kbind (kr_destroy r') (\<lambda>_. Inr v))"

lemmas kernel_result_defs =
  kernel_success_def kernel_failure_def kr_ok_def kr_error_def kr_result_def kr_result_into_def
  kr_status_def kr_destroy_def using_result_def

section \<open>Well-formed results\<close>

text \<open>The constructors keep the flag \<open>mOk\<close> in step with the union member that is live.\<close>

definition kr_wf :: "'a kernel_result_t \<Rightarrow> bool" where
  "kr_wf r \<longleftrightarrow> (case mResult r of RSuccess v \<Rightarrow> mOk r | RStatus e \<Rightarrow> \<not> mOk r \<and> e \<noteq> SUCCESS)"

definition kr_value :: "'a kernel_result_t \<Rightarrow> kernel_status_t + 'a" where
  "kr_value r = (case mResult r of RSuccess v \<Rightarrow> Inr v | RStatus e \<Rightarrow> Inl e)"

lemma kr_wf_success [simp]: "kr_wf (kernel_success v)"
  by (simp add: kernel_result_defs kr_wf_def)

lemma kr_value_success [simp]: "kr_value (kernel_success v) = Inr v"
  by (simp add: kernel_result_defs kr_value_def)

lemma mChecked_success [simp]: "\<not> mChecked (kernel_success v)"
  by (simp add: kernel_success_def)

lemma kernel_failure_Inr_iff:
  "kernel_failure e = Inr r \<longleftrightarrow> e \<noteq> SUCCESS \<and> r = \<lparr>mOk = False, mChecked = False, mResult = RStatus e\<rparr>"
  by (auto simp: kernel_failure_def)

lemma kr_wf_failure: "kernel_failure e = Inr r \<Longrightarrow> kr_wf r \<and> kr_value r = Inl e"
  by (auto simp: kernel_failure_Inr_iff kr_wf_def kr_value_def)

text \<open>Every accessor marks the result as checked, so what it leaves may be destroyed.\<close>

lemma kr_accessors_checked:
  "kr_destroy (snd (kr_ok r)) = Inr ()" "kr_destroy (snd (kr_error r)) = Inr ()"
  "kr_destroy (snd (kr_result_into r)) = Inr ()" "kr_destroy (snd (kr_status r)) = Inr ()"
  by (simp_all add: kernel_result_defs)

lemma using_result_value:
  assumes "kr_wf r"
  shows "using_result kr_result r =
    (case kr_value r of Inr v \<Rightarrow> Inr v | Inl e \<Rightarrow> Inl (Panic ''result extracted out of failure result''))"
  using assms
  by (auto simp: kernel_result_defs kr_wf_def kr_value_def split: kernel_result_value_t.splits)

lemma kr_result_into_value:
  "kr_wf r \<Longrightarrow> fst (kr_result_into r) = (case kr_value r of Inr v \<Rightarrow> Some v | Inl e \<Rightarrow> None)"
  by (auto simp: kernel_result_defs kr_wf_def kr_value_def split: kernel_result_value_t.splits)

lemma kr_status_value:
  "kr_wf r \<Longrightarrow> fst (kr_status r) = (case kr_value r of Inr v \<Rightarrow> SUCCESS | Inl e \<Rightarrow> e)"
  by (auto simp: kernel_result_defs kr_wf_def kr_value_def split: kernel_result_value_t.splits)

end
