(* ===== verification/Phys.thy ===== *)
theory Phys
  imports Kernel_Result
begin

text \<open>
  The physical page manager, \<open>src/kernel/src/mm/phys.cpp\<close> and \<open>src/kernel/include/mm/phys.h\<close>:
  one reference count of eight bits per 4 KB frame of the 4 GB physical address space, a cursor
  where the next search starts, and a running count of free frames. The array \<open>mPages\<close> has
  \<open>gNumPages\<close> entries; it is a function on indices, and an access at or past \<open>gNumPages\<close> is
  the fault \<open>OutOfBounds\<close>. An index computed from a 32-bit address is always within the array
  (\<open>index_less\<close>). The kernel is not preemptive, so the compare-and-exchange loop of
  \<open>decref\<close> succeeds at its first try.
\<close>

section \<open>State\<close>

definition gPageSize :: u32 where "gPageSize = 4096"

definition gNumPages :: u32 where "gNumPages = 0x100000"

record phys_page_t =
  usable :: bool
  refcnt :: u8

record pmm =
  mPages :: "u32 \<Rightarrow> phys_page_t"
  mLastChecked :: u32
  mTotalPages :: u32
  mLowestPage :: u32
  mHighestPage :: u32
  mFreePages :: u32

definition pmm_init :: pmm where
  "pmm_init = \<lparr>mPages = (\<lambda>_. \<lparr>usable = False, refcnt = 0\<rparr>), mLastChecked = 0, mTotalPages = 0,
     mLowestPage = 0, mHighestPage = 0, mFreePages = 0\<rparr>"

section \<open>Operations\<close>

definition offalignment :: "u32 \<Rightarrow> u32" where
  "offalignment addr = addr AND (gPageSize - 1)"

definition page_free :: "phys_page_t \<Rightarrow> bool" where
  "page_free p \<longleftrightarrow> refcnt p = 0"

definition page_incref :: "phys_page_t \<Rightarrow> u8 \<times> phys_page_t" where
  "page_incref p = (let rc = refcnt p + 1 in (rc, p\<lparr>refcnt := rc\<rparr>))"

definition page_decref :: "phys_page_t \<Rightarrow> u8 \<times> phys_page_t" where
  "page_decref p =
     (let ov = refcnt p in
      if ov = 0 then (0, p) else (let nv = ov - 1 in (nv, p\<lparr>refcnt := nv\<rparr>)))"

definition index :: "u32 \<Rightarrow> u32" where
  "index addr = addr div gPageSize"

definition set_page :: "u32 \<Rightarrow> phys_page_t \<Rightarrow> pmm \<Rightarrow> pmm" where
  "set_page i p s = s\<lparr>mPages := (mPages s)(i := p)\<rparr>"

definition addpage :: "u32 \<Rightarrow> pmm \<Rightarrow> pmm" where
  "addpage base s =
     (let i = index base;
          s = (if i < mLowestPage s then s\<lparr>mLowestPage := i\<rparr> else s);
          s = (if i > mHighestPage s then s\<lparr>mHighestPage := i\<rparr> else s);
          s = set_page i ((mPages s i)\<lparr>usable := True\<rparr>) s
      in s\<lparr>mTotalPages := mTotalPages s + 1, mFreePages := mFreePages s + 1\<rparr>)"

function addpages_loop :: "u32 \<Rightarrow> u32 \<Rightarrow> pmm \<Rightarrow> pmm" where
  "addpages_loop base len s =
     (if len \<ge> gPageSize then addpages_loop (base + gPageSize) (len - gPageSize) (addpage base s)
      else s)"
  by pat_completeness auto
termination
  by (relation "measure (\<lambda>(base, len, s). unat len)")
    (auto simp: gPageSize_def unat_sub word_le_nat_alt)

declare addpages_loop.simps [simp del]

definition addpages :: "u32 \<Rightarrow> u32 \<Rightarrow> pmm \<Rightarrow> pmm" where
  "addpages base len s =
     (let offset = offalignment base in
      if offset > 0 then addpages_loop (base - offset + gPageSize) (len - (gPageSize - offset)) s
      else addpages_loop base len s)"

definition reserve :: "u32 \<Rightarrow> pmm \<Rightarrow> pmm kernel" where
  "reserve base s =
     (let idx = index base in
      if usable (mPages s idx) = False then Inl (Panic ''trying to reserve a non-usable page'')
      else (let s = set_page idx ((mPages s idx)\<lparr>usable := False\<rparr>) s
            in Inr (s\<lparr>mFreePages := mFreePages s - 1\<rparr>)))"

lemma reserve_Inr:
  "reserve base s = Inr s' \<Longrightarrow>
     usable (mPages s (index base)) \<and> {i. usable (mPages s' i)} = {i. usable (mPages s i)} - {index base}"
  by (auto simp: reserve_def set_page_def Let_def split: if_splits)

function reserve_loop :: "u32 \<Rightarrow> u32 \<Rightarrow> pmm \<Rightarrow> pmm kernel" where
  "reserve_loop lo hi s =
     (if lo < hi then kbind (reserve lo s) (reserve_loop (lo + gPageSize) hi)
      else Inr s)"
  by pat_completeness auto
termination
proof (relation "measure (\<lambda>(b, e, s). card {i. usable (mPages s i)})", simp)
  fix b e :: u32 and s s' :: pmm
  assume "reserve b s = Inr s'"
  then have "{i. usable (mPages s' i)} \<subset> {i. usable (mPages s i)}"
    using reserve_Inr by blast
  then show "((b + gPageSize, e, s'), b, e, s) \<in> measure (\<lambda>(b, e, s). card {i. usable (mPages s i)})"
    by (simp add: psubset_card_mono)
qed

declare reserve_loop.simps [simp del]

definition reserve_range :: "u32 \<Rightarrow> u32 \<Rightarrow> pmm \<Rightarrow> pmm kernel" where
  "reserve_range lo hi s =
     (let offset = offalignment lo in
      reserve_loop (if offset > 0 then lo - offset else lo) hi s)"

fun alloc_loop :: "nat \<Rightarrow> u32 \<Rightarrow> pmm \<Rightarrow> (u32 kernel_result_t \<times> pmm) kernel" where
  "alloc_loop 0 idx s = kbind (kernel_failure OUT_OF_MEMORY) (\<lambda>r. Inr (r, s))"
| "alloc_loop (Suc n) idx s =
     (let idx = (if idx = gNumPages then 0 else idx) in
      if \<not> usable (mPages s idx) then alloc_loop n (idx + 1) s
      else if page_free (mPages s idx) then
        (let (rc, p) = page_incref (mPages s idx);
             s = set_page idx p s;
             s = s\<lparr>mLastChecked := idx\<rparr>;
             s = (if rc > 0 then s\<lparr>mFreePages := mFreePages s - 1\<rparr> else s)
         in Inr (kernel_success (gPageSize * idx), s))
      else alloc_loop n (idx + 1) s)"

definition phys_alloc :: "pmm \<Rightarrow> (u32 kernel_result_t \<times> pmm) kernel" where
  "phys_alloc s = alloc_loop (unat gNumPages) (mLastChecked s) s"

definition phys_alloc_at :: "u32 \<Rightarrow> pmm \<Rightarrow> (u32 \<times> pmm) kernel" where
  "phys_alloc_at base s =
     (let idx = index base in
      if \<not> usable (mPages s idx) then Inl (Panic ''trying to allocate a non-usable page'')
      else (let (rc, p) = page_incref (mPages s idx);
                s = set_page idx p s;
                s = (if rc = 1 then s\<lparr>mFreePages := mFreePages s - 1\<rparr> else s)
            in Inr (base, s)))"

definition phys_dealloc :: "u32 \<Rightarrow> pmm \<Rightarrow> pmm kernel" where
  "phys_dealloc base s =
     (let idx = index base in
      if page_free (mPages s idx) \<or> \<not> usable (mPages s idx)
      then Inl (Panic ''trying to deallocate a free/unusable page'')
      else (let (rc, p) = page_decref (mPages s idx);
                s = set_page idx p s
            in Inr (if rc = 0 then s\<lparr>mFreePages := mFreePages s + 1\<rparr> else s)))"

definition phys_refcount :: "u32 \<Rightarrow> pmm \<Rightarrow> u32" where
  "phys_refcount base s =
     (let idx = index base in
      if \<not> usable (mPages s idx) then 0 else ucast (refcnt (mPages s idx)))"

text \<open>
  \<open>blocked_page\<close> is the inner loop of \<open>allocContiguousPages\<close>: the first \<open>u < num\<close> whose page
  cannot be used. The outer loop moves \<open>page_idx\<close> past it, so it ends within the array.
\<close>

function blocked_page :: "u32 \<Rightarrow> u32 \<Rightarrow> u32 \<Rightarrow> pmm \<Rightarrow> u32 option kernel" where
  "blocked_page page_idx u num s =
     (if u < num then
        (if page_idx + u \<ge> gNumPages then Inl OutOfBounds
         else if \<not> usable (mPages s (page_idx + u)) \<or> \<not> page_free (mPages s (page_idx + u))
         then Inr (Some u)
         else blocked_page page_idx (u + 1) num s)
      else Inr None)"
  by pat_completeness auto
termination
  by (relation "measure (\<lambda>(i, u, num, s). unat num - unat u)")
    (auto simp: unat_Suc_no_wrap word_less_nat_alt)

declare blocked_page.simps [simp del]

definition page_avail :: "pmm \<Rightarrow> u32 \<Rightarrow> bool" where
  "page_avail s i \<longleftrightarrow> usable (mPages s i) \<and> page_free (mPages s i)"

definition blocked_post :: "u32 \<Rightarrow> u32 \<Rightarrow> u32 \<Rightarrow> pmm \<Rightarrow> u32 option kernel \<Rightarrow> bool" where
  "blocked_post i u num s res \<longleftrightarrow>
     (case res of
        Inr None \<Rightarrow> \<forall>w. u \<le> w \<and> w < num \<longrightarrow> i + w < gNumPages \<and> page_avail s (i + w)
      | Inr (Some v) \<Rightarrow> u \<le> v \<and> v < num \<and> i + v < gNumPages \<and> \<not> page_avail s (i + v)
          \<and> (\<forall>w. u \<le> w \<and> w < v \<longrightarrow> i + w < gNumPages \<and> page_avail s (i + w))
      | Inl e \<Rightarrow> e = OutOfBounds
          \<and> (\<exists>v. u \<le> v \<and> v < num \<and> i + v \<ge> gNumPages
             \<and> (\<forall>w. u \<le> w \<and> w < v \<longrightarrow> i + w < gNumPages \<and> page_avail s (i + w))))"

lemma blocked_page_spec: "blocked_post i u num s (blocked_page i u num s)"
proof (induction i u num s rule: blocked_page.induct)
  case (1 i u num s)
  show ?case
  proof (cases "u < num \<and> i + u < gNumPages \<and> page_avail s (i + u)")
    case True
    then have step: "blocked_page i u num s = blocked_page i (u + 1) num s"
      by (auto simp: blocked_page.simps [of i u num s] page_avail_def)
    have split: "u \<le> w \<longleftrightarrow> w = u \<or> u + 1 \<le> w" for w
      using True by (auto simp: word_Suc_le_iff)
    have "blocked_post i (u + 1) num s (blocked_page i (u + 1) num s)"
      using True "1.IH" by (auto simp: page_avail_def)
    then show ?thesis
      using True unfolding step blocked_post_def
      by (auto simp: split split: sum.splits option.splits)
  next
    case False
    then show ?thesis
      by (auto simp: blocked_page.simps [of i u num s] blocked_post_def page_avail_def)
  qed
qed

lemma blocked_page_Some:
  assumes "blocked_page i 0 num s = Inr (Some v)"
  shows "unat (i + v) = unat i + unat v" and "unat i + unat v < unat gNumPages"
    and "v < num" and "\<not> page_avail s (i + v)"
    and "\<And>w. w < v \<Longrightarrow> page_avail s (i + w)"
proof -
  note post = blocked_page_spec [of i 0 num s, unfolded assms blocked_post_def, simplified]
  then show "v < num" "\<not> page_avail s (i + v)" "\<And>w. w < v \<Longrightarrow> page_avail s (i + w)"
    by auto
  have i: "i < gNumPages" using post by (metis add.right_neutral word_gt_0)
  have "unat i + unat v < unat gNumPages"
  proof (rule ccontr)
    assume "\<not> unat i + unat v < unat gNumPages"
    then have "gNumPages - i \<le> v" using i by (simp add: word_le_nat_alt word_less_nat_alt unat_sub)
    moreover have "gNumPages - i \<noteq> v" using post by auto
    ultimately have "gNumPages - i < v" by simp
    then have "i + (gNumPages - i) < gNumPages" using post by blast
    then show False by simp
  qed
  then show "unat i + unat v < unat gNumPages" and "unat (i + v) = unat i + unat v"
    by (simp_all add: gNumPages_def unat_word_ariths)
qed

function contiguous_loop :: "u32 \<Rightarrow> u32 \<Rightarrow> pmm \<Rightarrow> (bool \<times> u32 \<times> pmm) kernel" where
  "contiguous_loop num page_idx s =
     kbind (blocked_page page_idx 0 num s) (\<lambda>b.
       case b of
         None \<Rightarrow>
           kbind (kfold (\<lambda>u s. kbind (phys_alloc_at ((page_idx + u) * gPageSize) s) (\<lambda>(_, s). Inr s))
                   (map of_nat [0..<unat num]) s)
             (\<lambda>s. Inr (True, page_idx * gPageSize, s))
       | Some u \<Rightarrow>
           (let page_idx = page_idx + u + 1 in
            if page_idx > mHighestPage s then Inr (False, 0, s)
            else contiguous_loop num page_idx s))"
  by pat_completeness auto
termination
proof (relation "measure (\<lambda>(num, i, s). unat gNumPages - unat i)", simp)
  fix num i v j :: u32 and s :: pmm and b :: "u32 option"
  assume b: "blocked_page i 0 num s = Inr b" and v: "b = Some v" and j: "j = i + v + 1"
  have *: "unat (i + v) = unat i + unat v" "unat i + unat v < unat gNumPages"
    using b v blocked_page_Some by blast+
  then have "i + v < gNumPages" by (simp add: word_less_nat_alt)
  then have "unat j = unat i + unat v + 1" using j * by (simp add: unat_Suc_no_wrap)
  with * show "((num, j, s), num, i, s) \<in> measure (\<lambda>(num, i, s). unat gNumPages - unat i)"
    by simp
qed

declare contiguous_loop.simps [simp del]

definition allocContiguousPages :: "u32 \<Rightarrow> pmm \<Rightarrow> (bool \<times> u32 \<times> pmm) kernel" where
  "allocContiguousPages num s = contiguous_loop num (mLowestPage s) s"

definition gettotalpages :: "pmm \<Rightarrow> u32" where "gettotalpages s = mTotalPages s"

definition getfreepages :: "pmm \<Rightarrow> u32" where "getfreepages s = mFreePages s"

definition gettotalmem :: "pmm \<Rightarrow> u32" where "gettotalmem s = mTotalPages s * gPageSize"

definition getfreemem :: "pmm \<Rightarrow> u32" where "getfreemem s = mFreePages s * gPageSize"

lemmas phys_defs =
  addpage_def reserve_def phys_alloc_at_def phys_dealloc_def phys_refcount_def set_page_def
  page_free_def page_incref_def page_decref_def Let_def

section \<open>Page numbers\<close>

lemma index_less [simp]: "index addr < gNumPages"
proof -
  have "unat addr div 4096 < 1048576" using u32_bound [of addr] by (simp add: less_mult_imp_div_less)
  then show ?thesis
    by (simp add: index_def gPageSize_def gNumPages_def word_less_nat_alt unat_div_distrib)
qed

lemma index_page [simp]: "i < gNumPages \<Longrightarrow> index (gPageSize * i) = i"
proof -
  assume i: "i < gNumPages"
  then have "unat (gPageSize * i) = 4096 * unat i"
    by (simp add: gPageSize_def gNumPages_def word_less_nat_alt unat_word_ariths)
  then show ?thesis
    by (simp add: index_def gPageSize_def word_unat_eq_iff unat_div_distrib)
qed

lemma index_page' [simp]: "i < gNumPages \<Longrightarrow> index (i * gPageSize) = i"
  by (metis index_page mult.commute)

lemma offalignment_mod: "unat (offalignment a) = unat a mod 4096"
proof -
  have "offalignment a = take_bit 12 a"
    by (simp add: offalignment_def gPageSize_def take_bit_eq_mask mask_eq_exp_minus_1)
  then show ?thesis by (simp add: take_bit_eq_mod unat_mod_distrib)
qed

lemma offalignment_page [simp]: "offalignment (gPageSize * i) = 0"
proof -
  have "unat (gPageSize * i) mod 4096 = 0"
    by (simp add: gPageSize_def unat_word_ariths mod_mod_cancel)
  then show ?thesis by (metis offalignment_mod unat_eq_zero)
qed

section \<open>The invariant\<close>

text \<open>
  The running count is the number of usable frames that nobody references; usable frames lie
  within the recorded bounds of the array, and only usable frames are referenced.
\<close>

definition free_set :: "pmm \<Rightarrow> u32 set" where
  "free_set s = {i. page_avail s i}"

definition pmm_inv :: "pmm \<Rightarrow> bool" where
  "pmm_inv s \<longleftrightarrow>
     unat (mFreePages s) = card (free_set s)
   \<and> (\<forall>i. usable (mPages s i) \<longrightarrow> i \<le> mHighestPage s)
   \<and> (\<forall>i. refcnt (mPages s i) \<noteq> 0 \<longrightarrow> usable (mPages s i))
   \<and> mLowestPage s = 0 \<and> mHighestPage s < gNumPages \<and> mLastChecked s < gNumPages"

lemma finite_free_set [simp]: "finite (free_set s)"
  by simp

lemma free_set_bound: "pmm_inv s \<Longrightarrow> free_set s \<subseteq> {..<gNumPages}"
  by (auto simp: pmm_inv_def free_set_def page_avail_def)

lemma card_u32_lessThan: "card {..<(n :: u32)} = unat n"
proof -
  have "bij_betw unat {..<n} {..<unat n}"
    unfolding bij_betw_def
  proof
    show "inj_on unat {..<n}" by (simp add: inj_on_def word_unat_eq_iff)
    show "unat ` {..<n} = {..<unat n}"
    proof (intro equalityI subsetI)
      fix k assume "k \<in> {..<unat n}"
      then have k: "k < unat n" by simp
      then have "unat (of_nat k :: u32) = k" using u32_bound [of n] by (simp add: unat_of_nat)
      then show "k \<in> unat ` {..<n}"
        using k by (intro image_eqI [where x = "of_nat k :: u32"]) (simp_all add: word_less_nat_alt)
    qed (auto simp: word_less_nat_alt)
  qed
  then show ?thesis using bij_betw_same_card by fastforce
qed

lemma card_free_set_bound: "pmm_inv s \<Longrightarrow> card (free_set s) \<le> 1048576"
  using card_mono [OF _ free_set_bound] card_u32_lessThan [of gNumPages]
  by (simp add: gNumPages_def)

lemma free_pos: "pmm_inv s \<Longrightarrow> page_avail s i \<Longrightarrow> mFreePages s \<noteq> 0"
proof -
  assume "pmm_inv s" "page_avail s i"
  then have "card (free_set s) \<noteq> 0" by (auto simp: free_set_def)
  with \<open>pmm_inv s\<close> show ?thesis by (auto simp: pmm_inv_def)
qed

lemma pmm_init_inv: "pmm_inv pmm_init"
  by (simp add: pmm_inv_def pmm_init_def free_set_def page_avail_def gNumPages_def)

section \<open>Allocation of any frame\<close>

definition take_page :: "u32 \<Rightarrow> pmm \<Rightarrow> pmm" where
  "take_page j s =
     s\<lparr>mPages := (mPages s)(j := (mPages s j)\<lparr>refcnt := 1\<rparr>),
       mLastChecked := j, mFreePages := mFreePages s - 1\<rparr>"

definition oom :: "u32 kernel_result_t" where
  "oom = \<lparr>mOk = False, mChecked = False, mResult = RStatus OUT_OF_MEMORY\<rparr>"

lemma kernel_failure_oom [simp]: "kernel_failure OUT_OF_MEMORY = Inr oom"
  by (simp add: kernel_failure_def oom_def)

lemma oom_value [simp]: "kr_value oom = Inl OUT_OF_MEMORY" "kr_wf oom" "\<not> mChecked oom"
  by (simp_all add: oom_def kr_value_def kr_wf_def)

lemma alloc_loop_spec:
  assumes "idx \<le> gNumPages"
  shows "(\<exists>j < gNumPages. page_avail s j \<and>
            alloc_loop n idx s = Inr (kernel_success (gPageSize * j), take_page j s))
       \<or> (alloc_loop n idx s = Inr (oom, s)
          \<and> (\<forall>k < n. \<not> page_avail s (of_nat ((unat idx + k) mod unat gNumPages))))"
  using assms
proof (induction n arbitrary: idx)
  case 0
  then show ?case by simp
next
  case (Suc n)
  define i where "i = (if idx = gNumPages then 0 else idx)"
  have i: "i < gNumPages" using Suc.prems by (auto simp: i_def gNumPages_def)
  show ?case
  proof (cases "page_avail s i")
    case True
    then have "alloc_loop (Suc n) idx s = Inr (kernel_success (gPageSize * i), take_page i s)"
      by (simp add: i_def [symmetric] page_avail_def page_free_def page_incref_def set_page_def
          take_page_def Let_def)
    with i True show ?thesis by blast
  next
    case False
    then have step: "alloc_loop (Suc n) idx s = alloc_loop n (i + 1) s"
      by (simp add: i_def [symmetric] page_avail_def Let_def)
    have le: "i + 1 \<le> gNumPages" and u: "unat (i + 1) = unat i + 1"
      using i unat_Suc_no_wrap [OF i] by (simp_all add: word_le_nat_alt word_less_nat_alt)
    have "unat idx mod unat gNumPages = unat i"
      using i Suc.prems by (auto simp: i_def word_less_nat_alt)
    then have shift: "(unat idx + k) mod unat gNumPages = (unat i + k) mod unat gNumPages" for k
      by (metis mod_add_left_eq)
    have "\<not> page_avail s (of_nat ((unat i + 0) mod unat gNumPages))"
      using False i by (simp add: word_less_nat_alt)
    then show ?thesis
      using Suc.IH [OF le] unfolding step u shift
      by (auto simp: less_Suc_eq_0_disj)
  qed
qed

lemma phys_alloc_cases:
  assumes "mLastChecked s < gNumPages"
  obtains (some) j where "j < gNumPages" and "page_avail s j"
      and "phys_alloc s = Inr (kernel_success (gPageSize * j), take_page j s)"
    | (none) "phys_alloc s = Inr (oom, s)" and "\<And>i. i < gNumPages \<Longrightarrow> \<not> page_avail s i"
proof -
  have "\<not> page_avail s i"
    if none: "\<forall>k < unat gNumPages. \<not> page_avail s (of_nat ((unat (mLastChecked s) + k) mod unat gNumPages))"
      and i: "i < gNumPages" for i
  proof -
    let ?N = "unat gNumPages" and ?c = "unat (mLastChecked s)"
    define k where "k = (unat i + (?N - ?c)) mod ?N"
    have "k < ?N" by (simp add: k_def gNumPages_def)
    moreover have "(?c + k) mod ?N = unat i"
    proof -
      have "(?c + k) mod ?N = (?c + (unat i + (?N - ?c))) mod ?N"
        unfolding k_def by (simp add: mod_add_right_eq)
      also have "?c + (unat i + (?N - ?c)) = unat i + ?N"
        using assms by (simp add: word_less_nat_alt)
      finally show ?thesis using i by (simp add: word_less_nat_alt)
    qed
    moreover have "of_nat (unat i) = i" by simp
    ultimately show ?thesis using none by metis
  qed
  moreover have "mLastChecked s \<le> gNumPages" using assms by simp
  note alloc_loop_spec [OF this, of s "unat gNumPages", folded phys_alloc_def]
  ultimately show ?thesis using that by blast
qed

section \<open>Every operation keeps the invariant\<close>

definition refs :: "pmm \<Rightarrow> u32 \<Rightarrow> nat" where
  "refs s i = unat (refcnt (mPages s i))"

definition is_usable :: "pmm \<Rightarrow> u32 \<Rightarrow> bool" where
  "is_usable s i \<longleftrightarrow> usable (mPages s i)"

lemma refs_bound: "refs s i < 256"
proof -
  have "unat (refcnt (mPages s i)) < 2 ^ LENGTH(8)" by (rule unsigned_less)
  then show ?thesis by (simp add: refs_def)
qed

lemma page_avail_refs: "page_avail s i \<longleftrightarrow> is_usable s i \<and> refs s i = 0"
  by (simp add: page_avail_def page_free_def is_usable_def refs_def unat_0_iff)

lemma pmm_inv_usable: "pmm_inv s \<Longrightarrow> refs s i \<noteq> 0 \<Longrightarrow> is_usable s i"
  by (auto simp: pmm_inv_def refs_def is_usable_def unat_gt_0)

lemma pmm_inv_usable_less: "pmm_inv s \<Longrightarrow> is_usable s i \<Longrightarrow> i < gNumPages"
  by (auto simp: pmm_inv_def is_usable_def)

text \<open>The one shape of update all reference-counting operations make: one frame and the count.\<close>

lemma pmm_inv_frame_update:
  assumes inv: "pmm_inv s" and i: "is_usable s i" and p: "usable p"
    and n: "unat n = card (if refcnt p = 0 then insert i (free_set s) else free_set s - {i})"
    and c: "c < gNumPages"
  shows "pmm_inv (s\<lparr>mPages := (mPages s)(i := p), mLastChecked := c, mFreePages := n\<rparr>)"
proof -
  have "free_set (s\<lparr>mPages := (mPages s)(i := p), mLastChecked := c, mFreePages := n\<rparr>)
      = (if refcnt p = 0 then insert i (free_set s) else free_set s - {i})"
    using p by (auto simp: free_set_def page_avail_def page_free_def)
  with assms show ?thesis by (auto simp: pmm_inv_def is_usable_def)
qed

lemma unat_dec_card:
  assumes "pmm_inv s" and "page_avail s i"
  shows "unat (mFreePages s - 1) = card (free_set s - {i})"
  using assms unat_minus_one [OF free_pos [OF assms]]
  by (simp add: pmm_inv_def free_set_def)

lemma unat_inc_card:
  assumes "pmm_inv s" and "\<not> page_avail s i"
  shows "unat (mFreePages s + 1) = card (insert i (free_set s))"
  using assms card_free_set_bound [OF assms(1)]
  by (simp add: pmm_inv_def free_set_def unat_word_ariths)

lemma take_page_inv:
  assumes "pmm_inv s" and "page_avail s j" and "j < gNumPages"
  shows "pmm_inv (take_page j s)"
  using assms pmm_inv_frame_update [OF assms(1), of j "(mPages s j)\<lparr>refcnt := 1\<rparr>" "mFreePages s - 1" j]
  by (simp add: take_page_def unat_dec_card page_avail_refs is_usable_def)

lemma refs_take_page: "refs (take_page j s) = (refs s)(j := 1)"
  by (auto simp: refs_def take_page_def)

lemma usable_take_page: "is_usable (take_page j s) = is_usable s"
  by (auto simp: fun_eq_iff is_usable_def take_page_def)

lemma pmm_same_cursor: "(s :: pmm)\<lparr>mPages := m, mLastChecked := mLastChecked s, mFreePages := n\<rparr> = s\<lparr>mPages := m, mFreePages := n\<rparr>"
  by simp

lemma phys_alloc_at_ok:
  assumes inv: "pmm_inv s" and u: "is_usable s (index base)" and r: "refs s (index base) < 255"
  shows "\<exists>s'. phys_alloc_at base s = Inr (base, s') \<and> pmm_inv s'
    \<and> refs s' = (refs s)(index base := Suc (refs s (index base))) \<and> is_usable s' = is_usable s"
proof -
  let ?i = "index base"
  define p where "p = (mPages s ?i)\<lparr>refcnt := refcnt (mPages s ?i) + 1\<rparr>"
  have up: "unat (refcnt p) = Suc (refs s ?i)"
    using r by (simp add: p_def refs_def unat_word_ariths)
  then have nz: "refcnt p \<noteq> 0" by (metis nat.distinct(1) unat_0)
  have one: "refcnt p = 1 \<longleftrightarrow> page_avail s ?i"
    using u by (auto simp: page_avail_refs refs_def is_usable_def p_def unat_0_iff)
  define n where "n = (if refcnt p = 1 then mFreePages s - 1 else mFreePages s)"
  have n: "unat n = card (free_set s - {?i})"
    using inv unat_dec_card [OF inv] one
    by (auto simp: n_def pmm_inv_def free_set_def)
  define s' where "s' = s\<lparr>mPages := (mPages s)(?i := p), mLastChecked := mLastChecked s, mFreePages := n\<rparr>"
  have "phys_alloc_at base s = Inr (base, s')"
    using u by (simp add: phys_defs s'_def n_def p_def is_usable_def pmm_same_cursor)
  moreover have "pmm_inv s'"
    using pmm_inv_frame_update [OF inv u, of p n "mLastChecked s"] inv u nz n
    by (simp add: s'_def p_def is_usable_def pmm_inv_def)
  moreover have "refs s' = (refs s)(?i := Suc (refs s ?i))"
    using up by (auto simp: refs_def s'_def)
  moreover have "is_usable s' = is_usable s"
    by (auto simp: fun_eq_iff is_usable_def s'_def p_def)
  ultimately show ?thesis by blast
qed

lemma phys_dealloc_ok:
  assumes inv: "pmm_inv s" and r: "0 < refs s (index base)"
  shows "\<exists>s'. phys_dealloc base s = Inr s' \<and> pmm_inv s'
    \<and> refs s' = (refs s)(index base := refs s (index base) - 1) \<and> is_usable s' = is_usable s"
proof -
  let ?i = "index base"
  have u: "is_usable s ?i" using inv r by (intro pmm_inv_usable) simp_all
  have c0: "refcnt (mPages s ?i) \<noteq> 0" using r by (auto simp: refs_def)
  define p where "p = (mPages s ?i)\<lparr>refcnt := refcnt (mPages s ?i) - 1\<rparr>"
  have up: "unat (refcnt p) = refs s ?i - 1"
    using unat_minus_one [OF c0] by (simp add: p_def refs_def)
  have na: "\<not> page_avail s ?i" using r by (simp add: page_avail_refs)
  define n where "n = (if refcnt p = 0 then mFreePages s + 1 else mFreePages s)"
  have n: "unat n = card (if refcnt p = 0 then insert ?i (free_set s) else free_set s - {?i})"
    using inv unat_inc_card [OF inv na] na
    by (auto simp: n_def pmm_inv_def free_set_def)
  define s' where "s' = s\<lparr>mPages := (mPages s)(?i := p), mLastChecked := mLastChecked s, mFreePages := n\<rparr>"
  have "phys_dealloc base s = Inr s'"
    using u c0 by (simp add: phys_defs s'_def n_def p_def is_usable_def pmm_same_cursor)
  moreover have "pmm_inv s'"
    using pmm_inv_frame_update [OF inv u _ n, of "mLastChecked s"] inv u
    by (simp add: s'_def p_def is_usable_def pmm_inv_def)
  moreover have "refs s' = (refs s)(?i := refs s ?i - 1)"
    using up by (auto simp: refs_def s'_def)
  moreover have "is_usable s' = is_usable s"
    by (auto simp: fun_eq_iff is_usable_def s'_def p_def)
  ultimately show ?thesis by blast
qed

lemma phys_alloc_ok:
  assumes inv: "pmm_inv s" and a: "phys_alloc s = Inr (r, s')"
  shows "kr_wf r \<and> \<not> mChecked r"
    and "kr_value r = Inr b \<Longrightarrow> pmm_inv s' \<and> offalignment b = 0 \<and> page_avail s (index b)
      \<and> refs s' = (refs s)(index b := 1) \<and> is_usable s' = is_usable s"
    and "kr_value r = Inl e \<Longrightarrow> e = OUT_OF_MEMORY \<and> s' = s \<and> free_set s = {}"
proof -
  have c: "mLastChecked s < gNumPages" using inv by (simp add: pmm_inv_def)
  have "(kr_wf r \<and> \<not> mChecked r) \<and>
    (kr_value r = Inr b \<longrightarrow> pmm_inv s' \<and> offalignment b = 0 \<and> page_avail s (index b)
      \<and> refs s' = (refs s)(index b := 1) \<and> is_usable s' = is_usable s) \<and>
    (kr_value r = Inl e \<longrightarrow> e = OUT_OF_MEMORY \<and> s' = s \<and> free_set s = {})"
    using c
  proof (cases rule: phys_alloc_cases)
    case (some j)
    then have r: "r = kernel_success (gPageSize * j)" "s' = take_page j s" using a by auto
    moreover have "offalignment (gPageSize * j) = 0" by (rule offalignment_page)
    ultimately show ?thesis
      using some(1,2) inv
      by (auto simp: take_page_inv refs_take_page usable_take_page)
  next
    case none
    then have "free_set s = {}" using free_set_bound [OF inv] by (auto simp: free_set_def)
    with none a show ?thesis by auto
  qed
  then show "kr_wf r \<and> \<not> mChecked r"
    and "kr_value r = Inr b \<Longrightarrow> pmm_inv s' \<and> offalignment b = 0 \<and> page_avail s (index b)
      \<and> refs s' = (refs s)(index b := 1) \<and> is_usable s' = is_usable s"
    and "kr_value r = Inl e \<Longrightarrow> e = OUT_OF_MEMORY \<and> s' = s \<and> free_set s = {}"
    by blast+
qed

lemma phys_alloc_total:
  assumes "pmm_inv s"
  shows "\<exists>r s'. phys_alloc s = Inr (r, s')"
proof -
  have "mLastChecked s < gNumPages" using assms by (simp add: pmm_inv_def)
  then show ?thesis by (cases rule: phys_alloc_cases) auto
qed

lemma addpage_ok:
  assumes inv: "pmm_inv s" and n: "\<not> is_usable s (index base)"
  shows "pmm_inv (addpage base s)" and "refs (addpage base s) = refs s"
    and "is_usable (addpage base s) = (is_usable s)(index base := True)"
proof -
  let ?i = "index base" and ?s = "addpage base s"
  have z: "refcnt (mPages s ?i) = 0" using inv n by (auto simp: pmm_inv_def is_usable_def)
  have na: "\<not> page_avail s ?i" using n by (simp add: page_avail_refs)
  have pages: "mPages ?s = (mPages s)(?i := (mPages s ?i)\<lparr>usable := True\<rparr>)"
    and free: "mFreePages ?s = mFreePages s + 1" and cur: "mLastChecked ?s = mLastChecked s"
    and high: "mHighestPage ?s = (if ?i > mHighestPage s then ?i else mHighestPage s)"
    and low: "mLowestPage ?s = mLowestPage s"
    using inv by (auto simp: phys_defs pmm_inv_def)
  have "free_set ?s = insert ?i (free_set s)"
    using z by (auto simp: free_set_def page_avail_def page_free_def pages)
  moreover have "\<forall>i. usable (mPages ?s i) \<longrightarrow> i \<le> mHighestPage ?s"
    using inv by (auto simp: pages high pmm_inv_def dest: order_trans)
  ultimately show "pmm_inv ?s"
    using inv unat_inc_card [OF inv na]
    by (auto simp: pmm_inv_def pages free cur high low)
  show "refs ?s = refs s" and "is_usable ?s = (is_usable s)(?i := True)"
    by (auto simp: fun_eq_iff refs_def is_usable_def pages)
qed

lemma reserve_ok:
  assumes inv: "pmm_inv s" and a: "page_avail s (index base)"
  shows "\<exists>s'. reserve base s = Inr s' \<and> pmm_inv s' \<and> refs s' = refs s
    \<and> is_usable s' = (is_usable s)(index base := False)"
proof -
  let ?i = "index base"
  define s' where "s' = s\<lparr>mPages := (mPages s)(?i := (mPages s ?i)\<lparr>usable := False\<rparr>),
    mFreePages := mFreePages s - 1\<rparr>"
  have "reserve base s = Inr s'"
    using a by (simp add: phys_defs page_avail_def s'_def)
  moreover have "free_set s' = free_set s - {?i}"
    by (auto simp: free_set_def page_avail_def page_free_def s'_def)
  then have "pmm_inv s'"
    using inv a unat_dec_card [OF inv a]
    by (auto simp: pmm_inv_def s'_def page_avail_def page_free_def)
  moreover have "refs s' = refs s" "is_usable s' = (is_usable s)(?i := False)"
    by (auto simp: fun_eq_iff refs_def is_usable_def s'_def)
  ultimately show ?thesis by blast
qed

section \<open>The contract of a frame allocator\<close>

text \<open>
  What the virtual memory code relies on: frames are handed out only while nobody references
  them, and the three operations move the reference count of one frame by one.
\<close>

locale frame_allocator =
  fixes inv :: "'s \<Rightarrow> bool"
    and count :: "'s \<Rightarrow> u32 \<Rightarrow> nat"
    and present :: "'s \<Rightarrow> u32 \<Rightarrow> bool"
    and frame :: "u32 \<Rightarrow> u32"
    and limit :: nat
    and alloc :: "'s \<Rightarrow> (u32 kernel_result_t \<times> 's) kernel"
    and share :: "u32 \<Rightarrow> 's \<Rightarrow> (u32 \<times> 's) kernel"
    and release :: "u32 \<Rightarrow> 's \<Rightarrow> 's kernel"
  assumes alloc_total: "inv s \<Longrightarrow> \<exists>r s'. alloc s = Inr (r, s')"
    and alloc_wf: "inv s \<Longrightarrow> alloc s = Inr (r, s') \<Longrightarrow> kr_wf r"
    and alloc_some: "inv s \<Longrightarrow> alloc s = Inr (r, s') \<Longrightarrow> kr_value r = Inr b \<Longrightarrow>
      inv s' \<and> present s (frame b) \<and> count s (frame b) = 0 \<and> count s' = (count s)(frame b := 1)
      \<and> present s' = present s"
    and alloc_none: "inv s \<Longrightarrow> alloc s = Inr (r, s') \<Longrightarrow> kr_value r = Inl e \<Longrightarrow>
      e = OUT_OF_MEMORY \<and> s' = s \<and> (\<forall>f. present s f \<longrightarrow> count s f \<noteq> 0)"
    and share_ok: "inv s \<Longrightarrow> present s (frame b) \<Longrightarrow> count s (frame b) < limit \<Longrightarrow>
      \<exists>s'. share b s = Inr (b, s') \<and> inv s' \<and> count s' = (count s)(frame b := Suc (count s (frame b)))
        \<and> present s' = present s"
    and release_ok: "inv s \<Longrightarrow> 0 < count s (frame b) \<Longrightarrow>
      \<exists>s'. release b s = Inr s' \<and> inv s' \<and> count s' = (count s)(frame b := count s (frame b) - 1)
        \<and> present s' = present s"
    and count_present: "inv s \<Longrightarrow> count s f \<noteq> 0 \<Longrightarrow> present s f"
begin

lemma alloc_not_referenced:
  assumes "inv s" and "alloc s = Inr (r, s')" and "kr_value r = Inr b" and "0 < count s f"
  shows "f \<noteq> frame b"
  using alloc_some [OF assms(1-3)] assms(4) by auto

lemma alloc_twice_distinct:
  assumes "inv s" and "alloc s = Inr (r, s')" and "kr_value r = Inr b"
    and "alloc s' = Inr (r', s'')" and "kr_value r' = Inr b'"
  shows "frame b \<noteq> frame b'"
  using alloc_some [OF assms(1-3)] alloc_not_referenced [OF _ assms(4,5), of "frame b"] by auto

lemma alloc_release:
  assumes "inv s" and "alloc s = Inr (r, s')" and "kr_value r = Inr b"
  shows "\<exists>s''. release b s' = Inr s'' \<and> inv s'' \<and> count s'' = count s \<and> present s'' = present s"
  using alloc_some [OF assms] release_ok [of s' b] by (auto simp: fun_upd_idem)

lemma share_release:
  assumes "inv s" and "0 < count s (frame b)" and "count s (frame b) < limit"
  shows "\<exists>s' s''. share b s = Inr (b, s') \<and> release b s' = Inr s'' \<and> inv s'' \<and> count s'' = count s"
proof -
  obtain s' where s': "share b s = Inr (b, s')" "inv s'"
    "count s' = (count s)(frame b := Suc (count s (frame b)))"
    using share_ok [OF assms(1) count_present [OF assms(1)] assms(3)] assms(2) by auto
  then obtain s'' where "release b s' = Inr s''" "inv s''" "count s'' = count s"
    using release_ok [OF s'(2), of b] by auto
  with s' show ?thesis by blast
qed

end

interpretation frames: frame_allocator pmm_inv refs is_usable index 255 phys_alloc phys_alloc_at phys_dealloc
proof (unfold_locales, goal_cases)
  case (1 s)
  then show ?case by (rule phys_alloc_total)
next
  case (2 s r s')
  then show ?case by (rule conjunct1 [OF phys_alloc_ok(1)])
next
  case (3 s r s' b)
  then show ?case using phys_alloc_ok(2) [OF 3(1,2)] by (auto simp: page_avail_refs)
next
  case (4 s r s' e)
  then show ?case
    using phys_alloc_ok(3) [OF 4(1,2)] by (fastforce simp: free_set_def page_avail_refs)
next
  case (5 s b)
  then show ?case by (rule phys_alloc_at_ok)
next
  case (6 s b)
  then show ?case by (rule phys_dealloc_ok)
next
  case (7 s f)
  then show ?case by (rule pmm_inv_usable)
qed

section \<open>Allocation of contiguous frames\<close>

definition free_run :: "pmm \<Rightarrow> nat \<Rightarrow> u32 \<Rightarrow> bool" where
  "free_run s j num \<longleftrightarrow>
     (\<forall>u < unat num. j + u < unat gNumPages \<and> page_avail s (of_nat (j + u)))"

definition run_frames :: "u32 \<Rightarrow> u32 \<Rightarrow> u32 set" where
  "run_frames j num = (\<lambda>u. j + of_nat u) ` {..<unat num}"

lemma kfold_map: "kfold f (map g xs) s = kfold (\<lambda>x. f (g x)) xs s"
  by (induction xs arbitrary: s) (auto intro!: kbind_cong)

lemma phys_alloc_at_high: "phys_alloc_at base s = Inr (b, s') \<Longrightarrow> mHighestPage s' = mHighestPage s"
  by (auto simp: phys_defs split: if_splits)

lemma kfold_alloc_at:
  assumes "pmm_inv s" and "distinct fs" and "\<forall>f \<in> set fs. f < gNumPages \<and> page_avail s f"
  shows "\<exists>s'. kfold (\<lambda>f s. kbind (phys_alloc_at (f * gPageSize) s) (\<lambda>(_, s). Inr s)) fs s = Inr s'
    \<and> pmm_inv s' \<and> refs s' = (\<lambda>f. if f \<in> set fs then 1 else refs s f) \<and> is_usable s' = is_usable s"
  using assms
proof (induction fs arbitrary: s)
  case Nil
  then show ?case by simp
next
  case (Cons f fs)
  have f: "index (f * gPageSize) = f" "is_usable s f" "refs s f = 0"
    using Cons.prems(3) by (auto simp: page_avail_refs)
  obtain t where t: "phys_alloc_at (f * gPageSize) s = Inr (f * gPageSize, t)" "pmm_inv t"
    "refs t = (refs s)(f := 1)" "is_usable t = is_usable s"
    using frames.share_ok [OF Cons.prems(1), of "f * gPageSize"] f by auto
  have "\<forall>g \<in> set fs. g < gNumPages \<and> page_avail t g"
    using Cons.prems(2,3) t(3,4) by (auto simp: page_avail_refs)
  then obtain s' where
    "kfold (\<lambda>f s. kbind (phys_alloc_at (f * gPageSize) s) (\<lambda>(_, s). Inr s)) fs t = Inr s'"
    "pmm_inv s'" "refs s' = (\<lambda>f. if f \<in> set fs then 1 else refs t f)" "is_usable s' = is_usable t"
    using Cons.IH [OF t(2)] Cons.prems(2) by auto
  with t show ?case by (auto simp: fun_eq_iff)
qed

lemma blocked_page_no_fault:
  assumes inv: "pmm_inv s" and h: "mHighestPage s < gNumPages - 1" and i: "i < gNumPages"
  shows "\<exists>b. blocked_page i 0 num s = Inr b"
proof (rule ccontr)
  assume "\<nexists>b. blocked_page i 0 num s = Inr b"
  then obtain e where "blocked_page i 0 num s = Inl e" by (cases "blocked_page i 0 num s") auto
  then obtain v where v: "gNumPages \<le> i + v"
    and below: "\<And>w. w < v \<Longrightarrow> i + w < gNumPages \<and> page_avail s (i + w)"
    using blocked_page_spec [of i 0 num s] by (auto simp: blocked_post_def)
  have "gNumPages - 1 - i < v"
  proof (rule ccontr)
    assume "\<not> gNumPages - 1 - i < v"
    then have "unat v \<le> unat (gNumPages - 1) - unat i" "unat i \<le> unat (gNumPages - 1)"
      using i by (auto simp: not_less word_le_nat_alt word_less_nat_alt unat_sub gNumPages_def)
    then show False using v by (simp add: gNumPages_def word_le_nat_alt unat_word_ariths)
  qed
  then have "page_avail s (i + (gNumPages - 1 - i))" using below by blast
  then have "usable (mPages s (gNumPages - 1))" by (simp add: page_avail_def)
  then show False using inv h by (auto simp: pmm_inv_def dest: leD)
qed

lemma blocked_page_None_run:
  assumes "blocked_page i 0 num s = Inr None" and "i < gNumPages"
  shows "free_run s (unat i) num"
    and "\<forall>u < num. i + u < gNumPages \<and> page_avail s (i + u)"
    and "\<forall>u < unat num. (of_nat (unat i + u) :: u32) = i + of_nat u"
proof -
  show all: "\<forall>u < num. i + u < gNumPages \<and> page_avail s (i + u)"
    using blocked_page_spec [of i 0 num s] assms by (simp add: blocked_post_def)
  show eq: "\<forall>u < unat num. (of_nat (unat i + u) :: u32) = i + of_nat u" by simp
  have "unat i + u < unat gNumPages" if "u < unat num" for u
    using that
  proof (induction u)
    case 0
    then show ?case using assms(2) by (simp add: word_less_nat_alt)
  next
    case (Suc u)
    then have less: "unat i + u < unat gNumPages" by simp
    have u32: "unat (of_nat (Suc u) :: u32) = Suc u"
      using Suc.prems u32_bound [of num] by (simp add: unat_of_nat del: of_nat_Suc)
    then have "(of_nat (Suc u) :: u32) < num"
      using Suc.prems by (simp add: word_less_nat_alt del: of_nat_Suc)
    then have "i + of_nat (Suc u) < gNumPages" using all by blast
    then show ?case
      using less u32 by (simp add: word_less_nat_alt unat_word_ariths gNumPages_def del: of_nat_Suc)
  qed
  moreover have "page_avail s (of_nat (unat i + u))" if "u < unat num" for u
  proof -
    have "unat (of_nat u :: u32) = u"
      using that u32_bound [of num] by (simp add: unat_of_nat)
    then have "(of_nat u :: u32) < num" using that by (simp add: word_less_nat_alt)
    then show ?thesis using all eq that by simp
  qed
  ultimately show "free_run s (unat i) num" by (simp add: free_run_def)
qed

lemma run_frames_bij:
  "inj_on (\<lambda>u. (j :: u32) + of_nat u) {..<unat (num :: u32)}"
proof (rule inj_onI)
  fix x y assume "x \<in> {..<unat num}" "y \<in> {..<unat num}" "j + of_nat x = j + of_nat y"
  then have "(of_nat x :: u32) = of_nat y" "x < 2 ^ 32" "y < 2 ^ 32"
    using u32_bound [of num] by auto
  then show "x = y" by (metis unat_of_nat_u32)
qed

lemma contiguous_alloc:
  assumes inv: "pmm_inv s" and b: "blocked_page i 0 num s = Inr None"
  shows "\<exists>s'. kfold (\<lambda>u s. kbind (phys_alloc_at ((i + u) * gPageSize) s) (\<lambda>(_, s). Inr s))
      (map of_nat [0..<unat num]) s = Inr s' \<and> pmm_inv s'
    \<and> refs s' = (\<lambda>f. if f \<in> run_frames i num then 1 else refs s f) \<and> is_usable s' = is_usable s"
proof -
  let ?g = "\<lambda>u. i + of_nat u" and ?fs = "map (\<lambda>u. i + of_nat u) [0..<unat num]"
  have d: "distinct ?fs" using run_frames_bij by (simp add: distinct_map atLeast0LessThan)
  have av: "\<forall>f \<in> set ?fs. f < gNumPages \<and> page_avail s f"
  proof
    fix f assume "f \<in> set ?fs"
    then obtain u where u: "u < unat num" "f = i + of_nat u" by auto
    then have "(of_nat u :: u32) < num"
      using u32_bound [of num] by (simp add: word_less_nat_alt unat_of_nat)
    then show "f < gNumPages \<and> page_avail s f"
      using u blocked_page_spec [of i 0 num s] b by (simp add: blocked_post_def)
  qed
  have "set ?fs = run_frames i num" by (auto simp: run_frames_def)
  then show ?thesis
    using kfold_alloc_at [OF inv d av] by (simp only: kfold_map)
qed

lemma contiguous_loop_spec:
  assumes "pmm_inv s" and "mHighestPage s < gNumPages - 1" and "i \<le> mHighestPage s"
  shows "(\<exists>j s'. contiguous_loop num i s = Inr (True, j * gPageSize, s') \<and> free_run s (unat j) num
            \<and> pmm_inv s' \<and> refs s' = (\<lambda>f. if f \<in> run_frames j num then 1 else refs s f)
            \<and> is_usable s' = is_usable s)
       \<or> (contiguous_loop num i s = Inr (False, 0, s) \<and> (\<forall>j \<ge> unat i. \<not> free_run s j num))"
  using assms
proof (induction num i s rule: contiguous_loop.induct)
  case (1 num i s)
  have i: "i < gNumPages" using "1.prems" by (auto simp: pmm_inv_def)
  obtain b where b: "blocked_page i 0 num s = Inr b"
    using blocked_page_no_fault [OF "1.prems"(1,2) i] by blast
  show ?case
  proof (cases b)
    case None
    obtain s' where kf: "kfold (\<lambda>u s. kbind (phys_alloc_at ((i + u) * gPageSize) s) (\<lambda>(_, s). Inr s))
        (map of_nat [0..<unat num]) s = Inr s'" and post: "pmm_inv s'"
      "refs s' = (\<lambda>f. if f \<in> run_frames i num then 1 else refs s f)" "is_usable s' = is_usable s"
      using contiguous_alloc [OF "1.prems"(1) b [unfolded None]] by blast
    have "contiguous_loop num i s = Inr (True, i * gPageSize, s')"
      using b None kf by (subst contiguous_loop.simps) simp
    moreover note post
    moreover have "free_run s (unat i) num" using blocked_page_None_run b None i by blast
    ultimately show ?thesis by blast
  next
    case (Some v)
    note v = blocked_page_Some [OF b [unfolded Some]]
    have "i + v < gNumPages" using v(1,2) by (simp add: word_less_nat_alt)
    then have next_: "unat (i + v + 1) = unat i + unat v + 1" using v(1) by (simp add: unat_Suc_no_wrap)
    have skip: "\<not> free_run s j num" if "unat i \<le> j" "j \<le> unat i + unat v" for j
    proof
      assume run: "free_run s j num"
      have "unat i + unat v - j < unat num" using that v(3) by (simp add: word_less_nat_alt)
      then have "page_avail s (of_nat (j + (unat i + unat v - j)))"
        using run by (auto simp: free_run_def)
      then have "page_avail s (i + v)" using that by simp
      with v(4) show False ..
    qed
    show ?thesis
    proof (cases "i + v + 1 > mHighestPage s")
      case True
      have "\<not> free_run s j num" if "unat i + unat v + 1 \<le> j" for j
      proof
        assume run: "free_run s j num"
        have "0 < unat num" using v(3) by (metis unat_gt_0 word_not_simps(1))
        then have j: "j < unat gNumPages" "page_avail s (of_nat j)"
          using run by (auto simp: free_run_def)
        then have "unat (of_nat j :: u32) = j" by (simp add: gNumPages_def unat_of_nat)
        then have "i + v + 1 \<le> of_nat j" using that next_ by (simp add: word_le_nat_alt)
        moreover have "of_nat j \<le> mHighestPage s"
          using j(2) "1.prems"(1) by (auto simp: pmm_inv_def page_avail_def)
        ultimately show False using True by simp
      qed
      with skip have "\<forall>j \<ge> unat i. \<not> free_run s j num" by (metis not_less_eq_eq Suc_eq_plus1)
      moreover have "contiguous_loop num i s = Inr (False, 0, s)"
        using b Some True by (subst contiguous_loop.simps) simp
      ultimately show ?thesis by blast
    next
      case False
      then have step: "contiguous_loop num i s = contiguous_loop num (i + v + 1) s"
        using b Some by (subst contiguous_loop.simps) simp
      have "(\<forall>j \<ge> unat (i + v + 1). \<not> free_run s j num) \<Longrightarrow> (\<forall>j \<ge> unat i. \<not> free_run s j num)"
        using skip next_ by (metis not_less_eq_eq Suc_eq_plus1)
      with "1.IH" [OF b Some refl False "1.prems"(1,2)] False show ?thesis
        unfolding step by auto
    qed
  qed
qed

section \<open>Adding ranges of frames\<close>

definition range_pages :: "u32 \<Rightarrow> u32 \<Rightarrow> u32 set" where
  "range_pages base len = {i. unat (index base) \<le> unat i \<and> unat i < unat (index base) + unat len div 4096}"

lemma index_next:
  assumes "unat base + 4096 < 2 ^ 32"
  shows "unat (index (base + gPageSize)) = unat (index base) + 1"
  using assms by (simp add: index_def gPageSize_def unat_div_distrib unat_word_ariths)

lemma range_pages_step:
  assumes "unat base + unat len \<le> 2 ^ 32" and "gPageSize \<le> len"
  shows "range_pages base len = insert (index base)
    (if gPageSize \<le> len - gPageSize then range_pages (base + gPageSize) (len - gPageSize) else {})"
proof -
  have l: "unat (len - gPageSize) = unat len - 4096" "4096 \<le> unat len"
    using assms(2) by (simp_all add: gPageSize_def unat_sub word_le_nat_alt)
  have d: "unat len div 4096 = Suc ((unat len - 4096) div 4096)"
    using l(2) by (simp add: le_div_geq)
  show ?thesis
  proof (cases "gPageSize \<le> len - gPageSize")
    case True
    then have "unat base + 4096 < 2 ^ 32" using assms(1) l by (simp add: gPageSize_def word_le_nat_alt)
    note n = index_next [OF this]
    show ?thesis
      using True d l n by (auto simp: range_pages_def word_unat_eq_iff)
  next
    case False
    then have "(unat len - 4096) div 4096 = 0"
      using l by (simp add: gPageSize_def word_le_nat_alt)
    with False d show ?thesis by (auto simp: range_pages_def word_unat_eq_iff)
  qed
qed

lemma addpages_loop_ok:
  assumes "pmm_inv s" and "unat base + unat len \<le> 2 ^ 32"
    and "\<forall>i \<in> range_pages base len. \<not> is_usable s i"
  shows "pmm_inv (addpages_loop base len s) \<and> refs (addpages_loop base len s) = refs s
    \<and> is_usable (addpages_loop base len s) = (\<lambda>i. is_usable s i \<or> i \<in> range_pages base len)"
  using assms
proof (induction base len s rule: addpages_loop.induct)
  case (1 base len s)
  show ?case
  proof (cases "gPageSize \<le> len")
    case False
    then have "range_pages base len = {}"
      by (auto simp: range_pages_def gPageSize_def word_le_nat_alt)
    with False "1.prems" show ?thesis by (simp add: addpages_loop.simps [of base len s])
  next
    case True
    note rp = range_pages_step [OF "1.prems"(2) True]
    have nu: "\<not> is_usable s (index base)" using rp "1.prems"(3) by blast
    note a = addpage_ok [OF "1.prems"(1) nu]
    have l: "unat (len - gPageSize) = unat len - 4096" "4096 \<le> unat len"
      using True by (simp_all add: gPageSize_def unat_sub word_le_nat_alt)
    show ?thesis
    proof (cases "gPageSize \<le> len - gPageSize")
      case more: True
      have nw: "unat base + 4096 < 2 ^ 32"
        using more "1.prems"(2) l by (simp add: gPageSize_def word_le_nat_alt)
      then have "unat (base + gPageSize) + unat (len - gPageSize) \<le> 2 ^ 32"
        using "1.prems"(2) l by (simp add: gPageSize_def unat_word_ariths)
      moreover have "index base \<notin> range_pages (base + gPageSize) (len - gPageSize)"
        using index_next [OF nw] by (simp add: range_pages_def)
      then have "\<forall>i \<in> range_pages (base + gPageSize) (len - gPageSize). \<not> is_usable (addpage base s) i"
        using "1.prems"(3) rp more a(3) by auto
      ultimately have IH: "pmm_inv (addpages_loop (base + gPageSize) (len - gPageSize) (addpage base s))"
        "refs (addpages_loop (base + gPageSize) (len - gPageSize) (addpage base s)) = refs s"
        "is_usable (addpages_loop (base + gPageSize) (len - gPageSize) (addpage base s)) =
          (\<lambda>i. is_usable (addpage base s) i \<or> i \<in> range_pages (base + gPageSize) (len - gPageSize))"
        using "1.IH" [OF True a(1)] a(2) by auto
      have step: "addpages_loop base len s = addpages_loop (base + gPageSize) (len - gPageSize) (addpage base s)"
        using True by (simp add: addpages_loop.simps [of base len s])
      show ?thesis
        unfolding step IH rp using IH(1) more a(3) by auto
    next
      case False
      then have "addpages_loop base len s = addpage base s"
        using True by (simp add: addpages_loop.simps [of base len s]
            addpages_loop.simps [of "base + gPageSize" "len - gPageSize" "addpage base s"])
      with a False rp show ?thesis by (auto simp: fun_eq_iff)
    qed
  qed
qed

definition whole_pages :: "u32 \<Rightarrow> u32 \<Rightarrow> u32 set" where
  "whole_pages base len =
     {i. unat base \<le> 4096 * unat i \<and> 4096 * unat i + 4096 \<le> unat base + unat len}"

lemma range_pages_aligned:
  assumes "offalignment base = 0"
  shows "range_pages base len = whole_pages base len"
proof -
  have "unat base mod 4096 = 0" using assms by (metis offalignment_mod unat_0)
  then obtain k where k: "unat base = 4096 * k" by (metis dvd_def mod_0_imp_dvd)
  then have "unat (index base) = k" by (simp add: index_def gPageSize_def unat_div_distrib)
  with k show ?thesis by (auto simp: range_pages_def whole_pages_def)
qed

lemma whole_page_arith:
  fixes q off i l :: nat
  assumes "0 < off" and "off < 4096"
  shows "4096 * q + off \<le> 4096 * i \<longleftrightarrow> q + 1 \<le> i"
    and "4096 - off \<le> l \<Longrightarrow>
      i < q + 1 + (l - (4096 - off)) div 4096 \<longleftrightarrow> 4096 * i + 4096 \<le> 4096 * q + off + l"
  using assms by linarith+

lemma addpages_start:
  assumes len: "unat base + unat len \<le> 2 ^ 32" and off: "offalignment base \<noteq> 0"
    and room: "gPageSize - offalignment base \<le> len"
  defines "base' \<equiv> base - offalignment base + gPageSize" and "len' \<equiv> len - (gPageSize - offalignment base)"
  shows "unat base' + unat len' \<le> 2 ^ 32" and "range_pages base' len' = whole_pages base len"
proof -
  let ?o = "offalignment base"
  have o: "unat ?o = unat base mod 4096" by (rule offalignment_mod)
  then have o4: "unat ?o < 4096" "unat ?o \<le> unat base" by simp_all
  have pos: "0 < unat ?o" using off by (simp add: unat_gt_0)
  have "unat (gPageSize - ?o) = 4096 - unat ?o"
    using o4 by (simp add: gPageSize_def unat_sub word_le_nat_alt)
  then have l': "unat len' = unat len - (4096 - unat ?o)" "4096 - unat ?o \<le> unat len"
    using room by (simp_all add: len'_def unat_sub word_le_nat_alt)
  have diff: "unat (base - ?o) = unat base - unat ?o"
    using o4 by (simp add: unat_sub word_le_nat_alt)
  have mult: "unat base - unat ?o = 4096 * (unat base div 4096)" using o by (simp add: minus_mod_eq_mult_div)
  show sum: "unat base' + unat len' \<le> 2 ^ 32" and "range_pages base' len' = whole_pages base len"
  proof -
    let ?q = "unat base div 4096"
    have b: "unat base = 4096 * ?q + unat ?o" using o by simp
    have sum': "4096 * ?q + 4096 + unat len' \<le> 2 ^ 32" using len l' b o4 by linarith
    have "4096 * ?q + 4096 < 2 ^ 32 \<or> unat len' = 0" using sum' by auto
    then show "unat base' + unat len' \<le> 2 ^ 32"
    proof
      assume "4096 * ?q + 4096 < 2 ^ 32"
      then have "unat base' = 4096 * ?q + 4096"
        using diff mult by (simp add: base'_def gPageSize_def unat_word_ariths)
      with sum' show ?thesis by simp
    next
      assume "unat len' = 0"
      then show ?thesis using u32_bound [of base'] by simp
    qed
    show "range_pages base' len' = whole_pages base len"
    proof (cases "4096 * ?q + 4096 < 2 ^ 32")
      case True
      then have "unat base' = 4096 * ?q + 4096"
        using diff mult by (simp add: base'_def gPageSize_def unat_word_ariths)
      then have "unat (index base') = ?q + 1"
        by (simp add: index_def gPageSize_def unat_div_distrib)
      moreover have "unat base \<le> 4096 * i \<longleftrightarrow> ?q + 1 \<le> i" for i
        using whole_page_arith(1) [OF pos o4(1)] b by metis
      moreover have "i < ?q + 1 + unat len' div 4096 \<longleftrightarrow> 4096 * i + 4096 \<le> unat base + unat len" for i
        using whole_page_arith(2) [OF pos o4(1) l'(2)] b l'(1) by metis
      ultimately show ?thesis by (auto simp: range_pages_def whole_pages_def)
    next
      case False
      then have z: "unat len' = 0" "unat base + unat len = 4096 * ?q + 4096" using sum' l' b len by auto
      then have "whole_pages base len = {}" using b pos by (auto simp: whole_pages_def)
      with z show ?thesis by (auto simp: range_pages_def)
    qed
  qed
qed

lemma addpages_ok:
  assumes "pmm_inv s" and "unat base + unat len \<le> 2 ^ 32"
    and "offalignment base = 0 \<or> gPageSize - offalignment base \<le> len"
    and "\<forall>i \<in> whole_pages base len. \<not> is_usable s i"
  shows "pmm_inv (addpages base len s) \<and> refs (addpages base len s) = refs s
    \<and> is_usable (addpages base len s) = (\<lambda>i. is_usable s i \<or> i \<in> whole_pages base len)"
proof (cases "offalignment base = 0")
  case True
  then show ?thesis
    using addpages_loop_ok [OF assms(1,2)] assms(4) range_pages_aligned [OF True]
    by (simp add: addpages_def)
next
  case False
  then have room: "gPageSize - offalignment base \<le> len" and pos: "0 < offalignment base"
    using assms(3) by (auto simp: word_gt_0)
  note st = addpages_start [OF assms(2) False room]
  show ?thesis
    using addpages_loop_ok [OF assms(1) st(1)] assms(4) st(2) pos
    by (simp add: addpages_def Let_def)
qed

text \<open>
  When the range does not reach the next page boundary, the subtraction from \<open>len\<close> wraps and the
  loop runs over almost the whole address space: 256 bytes at \<open>0x1800\<close> become 4 GB.
\<close>

lemma addpages_loop_usable: "is_usable s i \<Longrightarrow> is_usable (addpages_loop base len s) i"
proof (induction base len s rule: addpages_loop.induct)
  case (1 base len s)
  moreover have "is_usable (addpage base s) i"
    using "1.prems" by (auto simp: is_usable_def phys_defs)
  ultimately show ?case by (subst addpages_loop.simps) auto
qed

lemma addpages_short:
  assumes "offalignment base \<noteq> 0" and "len < gPageSize - offalignment base"
  shows "is_usable (addpages base len s) (index (base - offalignment base + gPageSize))"
proof -
  let ?o = "offalignment base" and ?b = "base - offalignment base + gPageSize"
  have o: "unat ?o < 4096" using offalignment_mod [of base] by simp
  then have d: "unat (gPageSize - ?o) = 4096 - unat ?o"
    by (simp add: gPageSize_def unat_sub word_le_nat_alt)
  have "gPageSize \<le> len - (gPageSize - ?o)"
    using assms(2) d unat_sub_if' [of len "gPageSize - ?o"]
    by (simp add: word_le_nat_alt word_less_nat_alt) (simp add: gPageSize_def)
  moreover have "is_usable (addpage ?b s) (index ?b)"
    by (simp add: is_usable_def phys_defs)
  ultimately have "is_usable (addpages_loop ?b (len - (gPageSize - ?o)) s) (index ?b)"
    by (subst addpages_loop.simps) (simp add: addpages_loop_usable)
  then show ?thesis using assms(1) by (simp add: addpages_def Let_def word_gt_0)
qed

section \<open>Runs of the allocator\<close>

text \<open>
  A run is a sequence of calls from the empty manager, each call as its callers make it. Beside
  the manager the run carries the number of references that callers hold on each frame. A call
  that panics ends the run with the fault; an allocation that finds no frame changes nothing.
\<close>

datatype pmm_op = Add u32 | Reserve u32 | Alloc | Share u32 | Release u32

fun pmm_do :: "pmm_op \<Rightarrow> pmm \<times> (u32 \<Rightarrow> nat) \<Rightarrow> (pmm \<times> (u32 \<Rightarrow> nat)) kernel" where
  "pmm_do (Add b) (s, R) = Inr (addpage b s, R)"
| "pmm_do (Reserve b) (s, R) = kbind (reserve b s) (\<lambda>s. Inr (s, R))"
| "pmm_do Alloc (s, R) = kbind (phys_alloc s) (\<lambda>(r, s).
     case kr_value r of Inr b \<Rightarrow> Inr (s, R(index b := Suc (R (index b)))) | Inl _ \<Rightarrow> Inr (s, R))"
| "pmm_do (Share b) (s, R) =
     kbind (phys_alloc_at b s) (\<lambda>(_, s). Inr (s, R(index b := Suc (R (index b)))))"
| "pmm_do (Release b) (s, R) =
     kbind (phys_dealloc b s) (\<lambda>s. Inr (s, R(index b := R (index b) - 1)))"

definition pmm_run :: "pmm_op list \<Rightarrow> (pmm \<times> (u32 \<Rightarrow> nat)) kernel" where
  "pmm_run ops = kfold pmm_do ops (pmm_init, \<lambda>_. 0)"

text \<open>
  What the code leaves to its callers: a frame is added only while it is not usable, reserved only
  while nobody references it, and shared only while it has fewer than 255 references, the range
  of the 8-bit count.
\<close>

fun orderly :: "pmm \<times> (u32 \<Rightarrow> nat) \<Rightarrow> pmm_op \<Rightarrow> bool" where
  "orderly (s, R) (Add b) = (\<not> is_usable s (index b))"
| "orderly (s, R) (Reserve b) = (R (index b) = 0)"
| "orderly (s, R) (Share b) = (R (index b) < 255)"
| "orderly (s, R) _ = True"

fun orderly_from :: "pmm \<times> (u32 \<Rightarrow> nat) \<Rightarrow> pmm_op list \<Rightarrow> bool" where
  "orderly_from x [] = True"
| "orderly_from x (p # ps) =
     (orderly x p \<and> (case pmm_do p x of Inr y \<Rightarrow> orderly_from y ps | Inl _ \<Rightarrow> True))"

lemma phys_alloc_at_usable: "phys_alloc_at b s = Inr x \<Longrightarrow> is_usable s (index b)"
  by (auto simp: phys_alloc_at_def is_usable_def Let_def split: if_splits)

lemma phys_dealloc_refs: "phys_dealloc b s = Inr s' \<Longrightarrow> 0 < refs s (index b)"
  by (auto simp: phys_dealloc_def refs_def page_free_def unat_gt_0 Let_def split: if_splits)

lemma reserve_usable: "reserve b s = Inr s' \<Longrightarrow> is_usable s (index b)"
  by (auto simp: reserve_def is_usable_def Let_def split: if_splits)

lemma pmm_do_Alloc:
  assumes "pmm_do Alloc (s, R) = Inr (s', R')"
  shows "\<exists>r. phys_alloc s = Inr (r, s')
    \<and> R' = (case kr_value r of Inr b \<Rightarrow> R(index b := Suc (R (index b))) | Inl _ \<Rightarrow> R)"
proof -
  obtain r t where t: "phys_alloc s = Inr (r, t)"
    and "(case kr_value r of Inr b \<Rightarrow> Inr (t, R(index b := Suc (R (index b)))) | Inl _ \<Rightarrow> Inr (t, R))
      = (Inr (s', R') :: (pmm \<times> (u32 \<Rightarrow> nat)) kernel)"
    using assms by (auto simp: kbind_eq_Inr_iff)
  then show ?thesis by (cases "kr_value r") auto
qed

lemma pmm_do_orderly:
  assumes "pmm_inv s" and "refs s = R" and "orderly (s, R) p" and "pmm_do p (s, R) = Inr (s', R')"
  shows "pmm_inv s' \<and> refs s' = R'"
proof (cases p)
  case (Add b)
  then show ?thesis using assms addpage_ok by auto
next
  case (Reserve b)
  then have r: "reserve b s = Inr s'" "R' = R" "R (index b) = 0"
    using assms(3,4) by (auto simp: kbind_eq_Inr_iff)
  then have "page_avail s (index b)" using assms(2) reserve_usable by (auto simp: page_avail_refs)
  then show ?thesis using r assms(1,2) reserve_ok by fastforce
next
  case Alloc
  then obtain r where "phys_alloc s = Inr (r, s')"
    and "R' = (case kr_value r of Inr b \<Rightarrow> R(index b := Suc (R (index b))) | Inl _ \<Rightarrow> R)"
    using assms(4) pmm_do_Alloc by blast
  then show ?thesis
    using assms(1,2) frames.alloc_some [of s r s'] frames.alloc_none [of s r s']
    by (cases "kr_value r") auto
next
  case (Share b)
  then obtain b' where "phys_alloc_at b s = Inr (b', s')" and "R' = R(index b := Suc (R (index b)))"
    using assms(4) by (auto simp: kbind_eq_Inr_iff)
  then show ?thesis
    using Share assms(1-3) frames.share_ok [of s b] phys_alloc_at_usable by fastforce
next
  case (Release b)
  then have "phys_dealloc b s = Inr s'" and "R' = R(index b := R (index b) - 1)"
    using assms(4) by (auto simp: kbind_eq_Inr_iff)
  then show ?thesis
    using assms(1,2) frames.release_ok [of s b] phys_dealloc_refs by fastforce
qed

lemma pmm_run_from:
  assumes "kfold pmm_do ops (s, R) = Inr (s', R')" and "orderly_from (s, R) ops"
    and "pmm_inv s" and "refs s = R"
  shows "pmm_inv s' \<and> refs s' = R'"
  using assms
proof (induction ops arbitrary: s R)
  case Nil
  then show ?case by simp
next
  case (Cons p ops)
  then obtain t T where t: "pmm_do p (s, R) = Inr (t, T)" by (auto simp: kbind_eq_Inr_iff)
  with Cons.prems have "kfold pmm_do ops (t, T) = Inr (s', R')" "orderly_from (t, T) ops"
    "orderly (s, R) p" by auto
  moreover have "pmm_inv t \<and> refs t = T"
    using pmm_do_orderly [OF Cons.prems(3,4) calculation(3) t] .
  ultimately show ?case using Cons.IH by blast
qed

text \<open>Without any discipline the counts are still exact up to the width of the count.\<close>

definition counts_mod :: "pmm \<Rightarrow> (u32 \<Rightarrow> nat) \<Rightarrow> bool" where
  "counts_mod s R \<longleftrightarrow> (\<forall>f. refs s f = R f mod 256)"

lemma phys_alloc_refs:
  assumes "mLastChecked s < gNumPages" and "phys_alloc s = Inr (r, s')"
  shows "mLastChecked s' < gNumPages"
    and "case kr_value r of Inr b \<Rightarrow> refs s (index b) = 0 \<and> refs s' = (refs s)(index b := 1) | Inl _ \<Rightarrow> s' = s"
proof -
  have "mLastChecked s' < gNumPages \<and> (case kr_value r of
      Inr b \<Rightarrow> refs s (index b) = 0 \<and> refs s' = (refs s)(index b := 1) | Inl _ \<Rightarrow> s' = s)"
    using assms(1)
  proof (cases rule: phys_alloc_cases)
    case (some j)
    then show ?thesis
      using assms by (auto simp: page_avail_refs refs_take_page) (auto simp: take_page_def)
  next
    case none
    then show ?thesis using assms by auto
  qed
  then show "mLastChecked s' < gNumPages"
    and "case kr_value r of Inr b \<Rightarrow> refs s (index b) = 0 \<and> refs s' = (refs s)(index b := 1) | Inl _ \<Rightarrow> s' = s"
    by blast+
qed

lemma phys_alloc_at_refs:
  "phys_alloc_at b s = Inr (b', s') \<Longrightarrow> mLastChecked s' = mLastChecked s
    \<and> refs s' = (refs s)(index b := Suc (refs s (index b)) mod 256)"
  by (auto simp: phys_defs refs_def fun_eq_iff unat_word_ariths split: if_splits)

lemma phys_dealloc_refs':
  "phys_dealloc b s = Inr s' \<Longrightarrow> mLastChecked s' = mLastChecked s
    \<and> refs s' = (refs s)(index b := refs s (index b) - 1)"
  by (auto simp: phys_defs refs_def fun_eq_iff unat_sub word_le_nat_alt unat_gt_0 Suc_le_eq split: if_splits)

lemma pred_mod: "0 < n mod 256 \<Longrightarrow> (n - 1) mod 256 = n mod 256 - (1 :: nat)"
  by (cases n) (auto simp: mod_Suc split: if_splits)

lemma pmm_do_counts_mod:
  assumes "counts_mod s R" and "mLastChecked s < gNumPages" and "pmm_do p (s, R) = Inr (s', R')"
  shows "counts_mod s' R' \<and> mLastChecked s' < gNumPages"
proof (cases p)
  case (Add b)
  then show ?thesis
    using assms by (auto simp: counts_mod_def refs_def phys_defs split: if_splits)
next
  case (Reserve b)
  then show ?thesis
    using assms by (auto simp: kbind_eq_Inr_iff counts_mod_def refs_def phys_defs split: if_splits)
next
  case Alloc
  then obtain r where r: "phys_alloc s = Inr (r, s')"
    and "R' = (case kr_value r of Inr b \<Rightarrow> R(index b := Suc (R (index b))) | Inl _ \<Rightarrow> R)"
    using assms(3) pmm_do_Alloc by blast
  then show ?thesis
    using assms(1,2) phys_alloc_refs [OF assms(2) r]
    by (cases "kr_value r") (auto simp: counts_mod_def mod_Suc)
next
  case (Share b)
  then obtain b' where "phys_alloc_at b s = Inr (b', s')" and "R' = R(index b := Suc (R (index b)))"
    using assms(3) by (auto simp: kbind_eq_Inr_iff)
  then show ?thesis
    using assms(1,2) phys_alloc_at_refs [of b s b' s'] by (auto simp: counts_mod_def mod_Suc_eq)
next
  case (Release b)
  then have d: "phys_dealloc b s = Inr s'" and "R' = R(index b := R (index b) - 1)"
    using assms(3) by (auto simp: kbind_eq_Inr_iff)
  moreover have "0 < R (index b) mod 256"
    using phys_dealloc_refs [OF d] assms(1) by (simp add: counts_mod_def)
  then have "(R (index b) - 1) mod 256 = R (index b) mod 256 - 1" by (rule pred_mod)
  ultimately show ?thesis
    using assms(1,2) phys_dealloc_refs' [OF d] by (auto simp: counts_mod_def)
qed

lemma pmm_run_counts_mod:
  "kfold pmm_do ops (s, R) = Inr (s', R') \<Longrightarrow> counts_mod s R \<Longrightarrow> mLastChecked s < gNumPages \<Longrightarrow>
    counts_mod s' R'"
proof (induction ops arbitrary: s R)
  case Nil
  then show ?case by simp
next
  case (Cons p ops)
  then obtain t T where "pmm_do p (s, R) = Inr (t, T)" by (auto simp: kbind_eq_Inr_iff)
  with Cons show ?case using pmm_do_counts_mod [of s R p t T] by auto
qed

section \<open>Properties\<close>


definition example_ops :: "pmm_op list" where
  "example_ops = [Add 0x3000, Add 0x4000, Alloc, Share 0x3000, Share 0x3000, Release 0x3000]"

lemma example_ops_run:
  "\<exists>s. pmm_run example_ops = Inr (s, (\<lambda>_. 0)(3 := 2)) \<and> is_usable s = (\<lambda>i. i = 3 \<or> i = 4)
    \<and> orderly_from (pmm_init, \<lambda>_. 0) example_ops"
proof -
  define s where "s = addpage 0x4000 (addpage 0x3000 pmm_init)"
  have n: "unat gNumPages = Suc (Suc (Suc (Suc 1048572)))" by (simp add: gNumPages_def)
  have pages: "mPages s = (\<lambda>i. \<lparr>usable = i = 3 \<or> i = 4, refcnt = 0\<rparr>)" and cur: "mLastChecked s = 0"
    by (auto simp: s_def phys_defs pmm_init_def index_def gPageSize_def fun_eq_iff)
  have "phys_alloc s = Inr (kernel_success (gPageSize * 3), take_page 3 s)"
    unfolding phys_alloc_def n alloc_loop.simps
    by (simp add: pages cur gNumPages_def page_free_def page_incref_def set_page_def take_page_def Let_def)
  moreover have "index (gPageSize * 3) = 3" "index 0x3000 = 3" "index 0x4000 = 4"
    by (simp_all add: index_def gPageSize_def)
  moreover have "\<not> is_usable pmm_init 3" "\<not> is_usable (addpage 0x3000 pmm_init) 4"
    by (simp_all add: is_usable_def phys_defs pmm_init_def index_def gPageSize_def)
  ultimately show ?thesis
    by (simp add: pmm_run_def example_ops_def s_def [symmetric])
      (simp add: phys_defs take_page_def pages is_usable_def fun_eq_iff)
qed


text \<open>
  C2: while a frame is free, \<open>alloc\<close> returns the page-aligned address of a usable frame with no
  references, gives it one reference and touches no other frame; it reports
  \<open>OUT_OF_MEMORY\<close>, leaving everything as it was, only when no frame is free. The search
  therefore reaches every frame from wherever the cursor stands.
\<close>

theorem phys_alloc_spec:
  assumes "pmm_inv s"
  shows "if mFreePages s = 0 then phys_alloc s = Inr (oom, s)
    else \<exists>b s'. phys_alloc s = Inr (kernel_success b, s') \<and> offalignment b = 0
      \<and> is_usable s (index b) \<and> refs s (index b) = 0 \<and> refs s' = (refs s)(index b := 1)
      \<and> is_usable s' = is_usable s \<and> mFreePages s' = mFreePages s - 1 \<and> pmm_inv s'"
proof -
  have "mLastChecked s < gNumPages" using assms by (simp add: pmm_inv_def)
  then show ?thesis
  proof (cases rule: phys_alloc_cases)
    case (some j)
    then show ?thesis
      using free_pos [OF assms some(2)] take_page_inv [OF assms some(2,1)]
      by (auto simp: page_avail_refs refs_take_page usable_take_page)
        (auto simp: take_page_def intro!: exI [of _ "gPageSize * j"])
  next
    case none
    then have "free_set s = {}" using free_set_bound [OF assms] by (auto simp: free_set_def)
    then have "mFreePages s = 0" using assms by (simp add: pmm_inv_def unat_0_iff)
    with none show ?thesis by simp
  qed
qed

theorem phys_alloc_spec_witness:
  "\<exists>b s'. phys_alloc (addpage 0x3000 pmm_init) = Inr (kernel_success b, s') \<and> index b = 3"
proof -
  let ?s = "addpage 0x3000 pmm_init"
  have inv: "pmm_inv ?s"
    by (rule addpage_ok(1) [OF pmm_init_inv]) (simp add: is_usable_def pmm_init_def)
  have free: "mFreePages ?s = 1"
    by (simp add: addpage_def set_page_def pmm_init_def Let_def)
  have only: "is_usable ?s i \<Longrightarrow> i = 3" for i
    by (auto simp: is_usable_def addpage_def set_page_def pmm_init_def Let_def index_def gPageSize_def
        split: if_splits)
  from phys_alloc_spec [OF inv] free only show ?thesis by auto
qed

text \<open>
  C3: \<open>allocContiguousPages\<close> returns the first frame of a run of \<open>num\<close> free frames and gives each
  frame of the run one reference, and when it fails there is no such run anywhere and nothing was
  allocated. This needs the last frame of the array not to be in use: the code looks past the
  array otherwise.
\<close>

theorem allocContiguousPages_spec:
  assumes "pmm_inv s" and "mHighestPage s < gNumPages - 1"
  shows "(\<exists>j s'. allocContiguousPages num s = Inr (True, j * gPageSize, s') \<and> free_run s (unat j) num
            \<and> pmm_inv s' \<and> refs s' = (\<lambda>f. if f \<in> run_frames j num then 1 else refs s f))
       \<or> (allocContiguousPages num s = Inr (False, 0, s) \<and> (\<forall>j. \<not> free_run s j num))"
proof -
  have "mLowestPage s = 0" using assms(1) by (simp add: pmm_inv_def)
  then show ?thesis
    using contiguous_loop_spec [OF assms, of 0 num] unfolding allocContiguousPages_def by auto
qed

theorem allocContiguousPages_witness:
  "\<exists>s'. allocContiguousPages 2 (addpages 0x2800 0x3000 pmm_init) = Inr (True, 0x3000, s')"
proof -
  let ?s = "addpages 0x2800 0x3000 pmm_init"
  have s: "?s = addpage 0x4000 (addpage 0x3000 pmm_init)"
    by (simp add: addpages_def offalignment_def gPageSize_def addpages_loop.simps)
  have inv: "pmm_inv ?s" unfolding s
    by (intro addpage_ok(1) pmm_init_inv)
      (simp_all add: is_usable_def addpage_def set_page_def pmm_init_def Let_def index_def gPageSize_def)
  have high: "mHighestPage ?s = 4" unfolding s
    by (simp add: addpage_def set_page_def pmm_init_def Let_def index_def gPageSize_def)
  have av: "page_avail ?s i \<longleftrightarrow> i = 3 \<or> i = 4" for i unfolding s
    by (simp add: page_avail_def page_free_def addpage_def set_page_def pmm_init_def Let_def index_def
        gPageSize_def)
  have run: "free_run ?s 3 2"
    by (auto simp: free_run_def av gNumPages_def dest!: less_2_cases)
  have start: "j = 3" if "free_run ?s (unat j) 2" for j :: u32
  proof -
    have "unat j = 3"
      using spec [OF that [unfolded free_run_def], of 0] spec [OF that [unfolded free_run_def], of 1]
      by (auto simp: av)
    then show ?thesis by (simp add: word_unat_eq_iff)
  qed
  have "mHighestPage ?s < gNumPages - 1" unfolding high by (simp add: gNumPages_def)
  then obtain j s' where "allocContiguousPages 2 ?s = Inr (True, j * gPageSize, s')" "free_run ?s (unat j) 2"
    using allocContiguousPages_spec [OF inv, of 2] run by blast
  moreover from this(2) have "j = 3" by (rule start)
  ultimately show ?thesis by (simp add: gPageSize_def)
qed



text \<open>
  C5: the reference count has eight bits and no overflow check. The 256th reference to a frame
  turns its count to zero, and the frame is available to the next allocation although its other
  holders still use it; the running count of free frames does not see it.
\<close>

theorem refcount_overflow_frees_page:
  assumes "is_usable s (index b)" and "refs s (index b) = 255"
  shows "\<exists>s'. phys_alloc_at b s = Inr (b, s') \<and> page_avail s' (index b)
    \<and> getfreepages s' = getfreepages s \<and> phys_refcount b s' = 0"
proof -
  have "refcnt (mPages s (index b)) = 255"
    using assms(2) by (simp add: refs_def word_unat_eq_iff)
  then show ?thesis
    using assms(1) by (simp add: phys_defs is_usable_def page_avail_def getfreepages_def)
qed

theorem refcount_overflow_witness:
  "\<exists>s'. phys_alloc_at 0x3000 (set_page 3 \<lparr>usable = True, refcnt = 255\<rparr> pmm_init) = Inr (0x3000, s')
    \<and> page_avail s' 3"
  using refcount_overflow_frees_page [of "set_page 3 \<lparr>usable = True, refcnt = 255\<rparr> pmm_init" "0x3000"]
  by (fastforce simp: is_usable_def refs_def set_page_def index_def gPageSize_def)

end
