(* ===== verification/Page_Entry.thy ===== *)
theory Page_Entry
  imports Phys
begin

text \<open>
  The 32-bit entries of page directories and page tables, the mapping options and the pair of
  indices of a virtual address, from \<open>src/kernel/src/mm/virt.cpp\<close> and
  \<open>src/kernel/include/mm/virt.h\<close>. A bit field of the macro \<open>DEFINE_BOOL_FIELD\<close> is a value of
  \<open>te_field\<close> or \<open>de_field\<close>; its getter and setter read and write the bit at its offset.
\<close>

section \<open>Bit fields\<close>

definition field_get :: "nat \<Rightarrow> u32 \<Rightarrow> bool" where
  "field_get offset v \<longleftrightarrow> v AND push_bit offset 1 \<noteq> 0"

definition field_set :: "nat \<Rightarrow> bool \<Rightarrow> u32 \<Rightarrow> u32" where
  "field_set offset b v = (if b then v OR push_bit offset 1 else v AND NOT (push_bit offset 1))"

lemma bit_pow: "bit (2 ^ k :: u32) n \<longleftrightarrow> n = k \<and> k < 32"
  by (auto simp: bit_exp_iff)

lemma field_get_bit: "field_get k v \<longleftrightarrow> bit v k"
  by (simp add: field_get_def and_exp_eq_0_iff_not_bit)

lemma bit_field_set: "k < 32 \<Longrightarrow> bit (field_set k b v) n \<longleftrightarrow> (if n = k then b else bit v n)"
  by (auto simp: field_set_def bit_or_iff bit_and_iff bit_not_iff bit_pow dest: bit_imp_le_length)

lemma field_get_set [simp]: "j < 32 \<Longrightarrow> field_get k (field_set j b v) \<longleftrightarrow> (if k = j then b else field_get k v)"
  by (simp add: field_get_bit bit_field_set)

definition gFlagsBitmask :: u32 where "gFlagsBitmask = 0xFFF"

section \<open>Directory entries\<close>

datatype de_field = DPresent | DRw | DUser | DWritethrough | DCacheoff | DAccessed | DFourmb

fun de_offset :: "de_field \<Rightarrow> nat" where
  "de_offset DPresent = 0"
| "de_offset DRw = 1"
| "de_offset DUser = 2"
| "de_offset DWritethrough = 3"
| "de_offset DCacheoff = 4"
| "de_offset DAccessed = 5"
| "de_offset DFourmb = 7"

definition de_get :: "de_field \<Rightarrow> u32 \<Rightarrow> bool" where
  "de_get f v = field_get (de_offset f) v"

definition de_set :: "de_field \<Rightarrow> bool \<Rightarrow> u32 \<Rightarrow> u32" where
  "de_set f b v = field_set (de_offset f) b v"

definition de_table :: "u32 \<Rightarrow> u32" where
  "de_table v = v AND 0xFFFFF000"

definition de_set_table :: "u32 \<Rightarrow> u32 \<Rightarrow> u32 kernel" where
  "de_set_table p v =
     (if p AND gFlagsBitmask \<noteq> 0
      then Inl (Panic ''trying to set page directory entry to non-page aligned'')
      else Inr ((v AND gFlagsBitmask) OR p))"

section \<open>Table entries\<close>

datatype te_field =
  Present | Rw | User | Writethrough | Cacheoff | Accessed | Dirty | Global | Frompmm | Cow | Zpmap

fun te_offset :: "te_field \<Rightarrow> nat" where
  "te_offset Present = 0"
| "te_offset Rw = 1"
| "te_offset User = 2"
| "te_offset Writethrough = 3"
| "te_offset Cacheoff = 4"
| "te_offset Accessed = 5"
| "te_offset Dirty = 6"
| "te_offset Global = 8"
| "te_offset Frompmm = 9"
| "te_offset Cow = 10"
| "te_offset Zpmap = 10"

definition te_get :: "te_field \<Rightarrow> u32 \<Rightarrow> bool" where
  "te_get f v = field_get (te_offset f) v"

definition te_set :: "te_field \<Rightarrow> bool \<Rightarrow> u32 \<Rightarrow> u32" where
  "te_set f b v = field_set (te_offset f) b v"

definition te_page :: "u32 \<Rightarrow> u32" where
  "te_page v = v AND 0xFFFFF000"

definition te_set_page :: "u32 \<Rightarrow> u32 \<Rightarrow> u32 kernel" where
  "te_set_page p v =
     (if p AND gFlagsBitmask \<noteq> 0
      then Inl (Panic ''trying to set page table entry to non-page aligned'')
      else Inr ((v AND gFlagsBitmask) OR p))"

lemma te_offset_less [simp]: "te_offset f < 12"
  by (cases f) simp_all

lemma te_offset_eq_iff: "te_offset f = te_offset g \<longleftrightarrow> f = g \<or> {f, g} = {Cow, Zpmap}"
  by (cases f; cases g) (simp_all add: doubleton_eq_iff)

lemma te_get_set: "te_get f (te_set g b v) \<longleftrightarrow> (if te_offset f = te_offset g then b else te_get f v)"
proof -
  have "te_offset g < 32" using te_offset_less [of g] by linarith
  then show ?thesis by (simp add: te_get_def te_set_def)
qed

section \<open>Page numbers and offsets of addresses\<close>

definition page :: "u32 \<Rightarrow> u32" where
  "page addr = addr AND NOT (gPageSize - 1)"

definition offset :: "u32 \<Rightarrow> u32" where
  "offset addr = addr AND (gPageSize - 1)"

lemma page_mask: "gPageSize - 1 = mask 12" "gFlagsBitmask = mask 12" "(0xFFFFF000 :: u32) = NOT (mask 12)"
  by (simp_all add: gPageSize_def gFlagsBitmask_def mask_eq_exp_minus_1)

lemma bit_page: "bit (page a) n \<longleftrightarrow> 12 \<le> n \<and> bit a n"
  unfolding page_def page_mask
  by (auto simp: bit_and_iff bit_not_iff bit_mask_iff dest: bit_imp_le_length)

lemma bit_offset: "bit (offset a) n \<longleftrightarrow> n < 12 \<and> bit a n"
  unfolding offset_def page_mask by (auto simp: bit_and_iff bit_mask_iff dest: bit_imp_le_length)

lemma te_page_eq_page: "te_page v = page v"
  unfolding te_page_def page_def page_mask by simp

lemma page_or_offset: "page a + offset a = a"
proof -
  have "page a + offset a = page a OR offset a"
    by (rule disjunctive_add) (auto simp: bit_page bit_offset)
  also have "\<dots> = a"
    by (rule bit_word_eqI) (auto simp: bit_or_iff bit_page bit_offset)
  finally show ?thesis .
qed

lemma page_page [simp]: "page (page a) = page a"
  by (rule bit_word_eqI) (simp add: bit_page)

lemma offset_page [simp]: "offset (page a) = 0"
  by (rule bit_word_eqI) (simp add: bit_page bit_offset)

lemma page_aligned: "offset a = 0 \<Longrightarrow> page a = a"
  by (metis add.right_neutral page_or_offset)

text \<open>Setting the page of an entry keeps its flags, and setting flags keeps its page.\<close>

lemma te_set_page_aligned:
  "offset p = 0 \<Longrightarrow> te_set_page p v = Inr (offset v OR p)"
  unfolding te_set_page_def offset_def page_mask by simp

lemma bit_te_set_page:
  assumes "offset p = 0"
  shows "bit (offset v OR p) n \<longleftrightarrow> (if n < 12 then bit v n else bit p n)"
proof -
  have "\<not> bit p n" if "n < 12" using assms that by (metis bit_0_eq bit_offset bot_apply bot_bool_def)
  then show ?thesis by (auto simp: bit_or_iff bit_offset)
qed

lemma aligned_low_bits: "offset p = 0 \<Longrightarrow> bit p n \<Longrightarrow> 12 \<le> n"
  using bit_page page_aligned by metis

lemma te_page_set_page [simp]: "offset p = 0 \<Longrightarrow> te_page (offset v OR p) = p"
  by (rule bit_word_eqI)
    (auto simp: te_page_eq_page bit_page bit_te_set_page dest: aligned_low_bits)

lemma te_get_set_page [simp]: "offset p = 0 \<Longrightarrow> te_get f (offset v OR p) = te_get f v"
  by (simp add: te_get_def field_get_bit bit_te_set_page)

lemma te_page_te_set [simp]: "te_page (te_set f b v) = te_page v"
proof (rule bit_word_eqI)
  fix n
  show "bit (te_page (te_set f b v)) n \<longleftrightarrow> bit (te_page v) n"
    using less_trans [OF te_offset_less [of f], of 32] less_le_trans [OF te_offset_less [of f], of n]
    by (auto simp: te_page_eq_page bit_page te_set_def bit_field_set)
qed

section \<open>Mapping options\<close>

record map_options_t =
  o_rw :: bool
  o_user :: bool
  o_clear :: bool
  o_frompmm :: bool
  o_cow :: bool
  o_cached :: bool
  o_global :: bool

definition map_options_default :: map_options_t where
  "map_options_default =
     \<lparr>o_rw = True, o_user = False, o_clear = False, o_frompmm = False,
      o_cow = False, o_cached = True, o_global = False\<rparr>"

definition map_options :: "bool \<Rightarrow> bool \<Rightarrow> bool \<Rightarrow> bool \<Rightarrow> map_options_t" where
  "map_options rw user clear frompmm =
     \<lparr>o_rw = rw, o_user = user, o_clear = clear, o_frompmm = frompmm,
      o_cow = False, o_cached = True, o_global = False\<rparr>"

definition map_options_kernel :: map_options_t where
  "map_options_kernel = map_options True False False False"

definition map_options_userspace :: map_options_t where
  "map_options_userspace = map_options True True False False"

section \<open>Paging indices\<close>

record PagingIndices =
  pi_dir :: u32
  pi_tbl :: u32

definition pi_of_virt :: "u32 \<Rightarrow> PagingIndices" where
  "pi_of_virt virt = \<lparr>pi_dir = drop_bit 22 virt, pi_tbl = drop_bit 12 virt AND 0x3FF\<rparr>"

definition pi_incr :: "PagingIndices \<Rightarrow> PagingIndices" where
  "pi_incr ix =
     (if pi_tbl ix + 1 = 1024
      then \<lparr>pi_dir = (if pi_dir ix + 1 = 1024 then 0 else pi_dir ix + 1), pi_tbl = 0\<rparr>
      else ix\<lparr>pi_tbl := pi_tbl ix + 1\<rparr>)"

definition pi_lt :: "PagingIndices \<Rightarrow> PagingIndices \<Rightarrow> bool" where
  "pi_lt a b \<longleftrightarrow> pi_dir a < pi_dir b \<or> pi_tbl a < pi_tbl b"

definition pi_address :: "PagingIndices \<Rightarrow> u32" where
  "pi_address ix = 0x400000 * pi_dir ix + 0x1000 * pi_tbl ix"

definition gKernelBase :: u32 where "gKernelBase = 0xC0000000"

definition iskernel :: "u32 \<Rightarrow> bool" where
  "iskernel addr \<longleftrightarrow> gKernelBase \<le> addr"

text \<open>
  The indices as numbers: the directory index is the address divided by 4 MB, the table index the
  page number modulo 1024, and \<open>pi_address\<close> recovers the page of the address.
\<close>

lemma unat_pi_dir: "unat (pi_dir (pi_of_virt v)) = unat v div 4194304"
  by (simp add: pi_of_virt_def drop_bit_eq_div unat_div_distrib)

lemma unat_pi_tbl: "unat (pi_tbl (pi_of_virt v)) = unat v div 4096 mod 1024"
proof -
  have "(0x3FF :: u32) = mask 10" by (simp add: mask_eq_exp_minus_1)
  then have "pi_tbl (pi_of_virt v) = take_bit 10 (drop_bit 12 v)"
    by (simp only: pi_of_virt_def PagingIndices.simps take_bit_eq_mask)
  then show ?thesis
    by (simp add: take_bit_eq_mod drop_bit_eq_div unat_div_distrib unat_mod_distrib)
qed

lemma pi_dir_less [simp]: "pi_dir (pi_of_virt v) < 1024"
  using u32_bound [of v] by (simp add: word_less_nat_alt unat_pi_dir less_mult_imp_div_less)

lemma pi_tbl_less [simp]: "pi_tbl (pi_of_virt v) < 1024"
  by (simp add: word_less_nat_alt unat_pi_tbl)

lemma unat_offset: "unat (offset v) = unat v mod 4096"
  using offalignment_mod [of v] by (simp add: offset_def offalignment_def)

lemma unat_page: "unat (page v) = 4096 * (unat v div 4096)"
proof -
  have "offset v \<le> v" by (simp add: word_le_nat_alt unat_offset)
  then have "unat (page v) = unat v - unat (offset v)"
    by (metis add_diff_cancel_right' page_or_offset unat_sub)
  then show ?thesis by (simp add: unat_offset minus_mod_eq_mult_div)
qed

lemma unat_pi_address:
  assumes "pi_dir ix < 1024" and "pi_tbl ix < 1024"
  shows "unat (pi_address ix) = 4194304 * unat (pi_dir ix) + 4096 * unat (pi_tbl ix)"
proof -
  have "unat (pi_dir ix) < 1024" "unat (pi_tbl ix) < 1024"
    using assms by (simp_all add: word_less_nat_alt)
  then show ?thesis by (simp add: pi_address_def unat_word_ariths)
qed

lemma pi_address_of_virt: "pi_address (pi_of_virt v) = page v"
proof -
  have "unat v div 4194304 = unat v div 4096 div 1024" by (simp add: div_mult2_eq [symmetric])
  moreover have "1024 * (unat v div 4096 div 1024) + unat v div 4096 mod 1024 = unat v div 4096"
    by simp
  ultimately have "unat (pi_address (pi_of_virt v)) = unat (page v)"
    unfolding unat_pi_address [OF pi_dir_less pi_tbl_less] unat_pi_dir unat_pi_tbl unat_page
    by linarith
  then show ?thesis by (simp add: word_unat_eq_iff)
qed

lemma pi_of_virt_address:
  assumes "pi_dir ix < 1024" and "pi_tbl ix < 1024"
  shows "pi_of_virt (pi_address ix) = ix"
proof -
  have "unat (pi_dir ix) < 1024" "unat (pi_tbl ix) < 1024"
    using assms by (simp_all add: word_less_nat_alt)
  then have "unat (pi_dir (pi_of_virt (pi_address ix))) = unat (pi_dir ix)"
    "unat (pi_tbl (pi_of_virt (pi_address ix))) = unat (pi_tbl ix)"
    by (simp_all add: unat_pi_dir unat_pi_tbl unat_pi_address [OF assms])
  then show ?thesis by (simp add: word_unat_eq_iff)
qed

lemma pi_of_virt_eq_iff: "pi_of_virt a = pi_of_virt b \<longleftrightarrow> page a = page b"
  by (metis pi_address_of_virt pi_of_virt_address pi_dir_less pi_tbl_less)

lemma pi_of_virt_page [simp]: "pi_of_virt (page v) = pi_of_virt v"
  by (simp add: pi_of_virt_eq_iff)

end
