(* ===== verification/Paging.thy ===== *)
theory Paging
  imports Page_Entry Interval_List
begin

text \<open>
  Physical memory, the processor's walk of the page tables and the kernel's accesses through
  virtual addresses. The page manager (\<open>src/kernel/src/mm/virt.cpp\<close>) edits page tables only
  through the window at \<open>gPageTableAddress\<close>, so every access of the model goes through the walk.

  Physical memory is a map from a page base and an offset below 4096 to a byte. The walk reads
  4 KB entries in supervisor mode with write protection on, as \<open>loader.s\<close> sets it up. The
  accessed and dirty bits the processor sets and the TLB are left out: the kernel reads neither
  bit, and calls \<open>invtlb\<close> after every change of an entry.
\<close>

section \<open>Physical memory\<close>

type_synonym memory = "u32 \<Rightarrow> u32 \<Rightarrow> u8"

definition word_of_bytes :: "u8 \<Rightarrow> u8 \<Rightarrow> u8 \<Rightarrow> u8 \<Rightarrow> u32" where
  "word_of_bytes a b c d =
     ucast a OR push_bit 8 (ucast b) OR push_bit 16 (ucast c) OR push_bit 24 (ucast d)"

definition byte_of_word :: "u32 \<Rightarrow> nat \<Rightarrow> u8" where
  "byte_of_word w k = ucast (drop_bit (8 * k) w)"

definition load_word :: "memory \<Rightarrow> u32 \<Rightarrow> u32 \<Rightarrow> u32" where
  "load_word m p a = word_of_bytes (m p a) (m p (a + 1)) (m p (a + 2)) (m p (a + 3))"

definition store_word :: "u32 \<Rightarrow> u32 \<Rightarrow> u32 \<Rightarrow> memory \<Rightarrow> memory" where
  "store_word p a w m =
     m(p := (m p)(a := byte_of_word w 0, a + 1 := byte_of_word w 1,
                  a + 2 := byte_of_word w 2, a + 3 := byte_of_word w 3))"

lemma word_of_bytes_of_word [simp]:
  "word_of_bytes (byte_of_word w 0) (byte_of_word w 1) (byte_of_word w 2) (byte_of_word w 3) = w"
proof (rule bit_word_eqI)
  fix n assume n: "n < LENGTH(32)"
  show "bit (word_of_bytes (byte_of_word w 0) (byte_of_word w 1) (byte_of_word w 2) (byte_of_word w 3)) n
          = bit w n"
  proof -
    have "n < 8 \<or> 8 \<le> n \<and> n < 16 \<or> 16 \<le> n \<and> n < 24 \<or> 24 \<le> n \<and> n < 32" using n by auto
    then show ?thesis
      by (elim disjE) (auto simp: word_of_bytes_def byte_of_word_def bit_or_iff bit_push_bit_iff
          bit_unsigned_iff bit_drop_bit_eq dest: le_Suc_ex)
  qed
qed

text \<open>A page viewed as its 1024 words: the word at slot \<open>i\<close> is at offset \<open>4 * i\<close>.\<close>

definition slot_word :: "memory \<Rightarrow> u32 \<Rightarrow> u32 \<Rightarrow> u32" where
  "slot_word m p i = load_word m p (4 * i)"

definition set_slot :: "u32 \<Rightarrow> u32 \<Rightarrow> u32 \<Rightarrow> memory \<Rightarrow> memory" where
  "set_slot p i w m = store_word p (4 * i) w m"

lemma slot_bytes_distinct:
  fixes i j :: u32
  assumes "i < 1024" and "j < 1024" and "i \<noteq> j" and "unat a < 4" and "unat b < 4"
  shows "4 * i + a \<noteq> 4 * j + b"
proof
  assume eq: "4 * i + a = 4 * j + b"
  have "unat i < 1024" "unat j < 1024" using assms(1,2) by (simp_all add: word_less_nat_alt)
  then have "unat (4 * i + a) = 4 * unat i + unat a" "unat (4 * j + b) = 4 * unat j + unat b"
    using assms(4,5) by (simp_all add: unat_word_ariths)
  with eq assms(4,5) have "unat i = unat j" by presburger
  with assms(3) show False by (simp add: word_unat_eq_iff)
qed

lemma slot_word_set_slot:
  assumes "i < 1024" and "j < 1024"
  shows "slot_word (set_slot p i w m) p j = (if i = j then w else slot_word m p j)"
proof (cases "i = j")
  case True
  then show ?thesis
    by (simp add: slot_word_def set_slot_def load_word_def store_word_def del: One_nat_def)
next
  case False
  have byte: "store_word p (4 * i) w m p (4 * j + b) = m p (4 * j + b)" if "unat b < 4" for b
  proof -
    have "4 * j + b \<noteq> 4 * i + a" if "unat a < 4" for a
      using slot_bytes_distinct [OF assms False that \<open>unat b < 4\<close>] by (rule not_sym)
    from this [of 0] this [of 1] this [of 2] this [of 3] show ?thesis
      unfolding store_word_def by simp
  qed
  from byte [of 0] byte [of 1] byte [of 2] byte [of 3] show ?thesis
    using False by (simp add: slot_word_def set_slot_def load_word_def)
qed

lemma set_slot_other [simp]: "p \<noteq> q \<Longrightarrow> set_slot p i w m q = m q"
  by (simp add: set_slot_def store_word_def)

lemma slot_word_cong: "m p = m' p \<Longrightarrow> slot_word m p i = slot_word m' p i"
  by (simp add: slot_word_def load_word_def)

lemma slot_word_other [simp]: "p \<noteq> q \<Longrightarrow> slot_word (set_slot p i w m) q j = slot_word m q j"
  by (rule slot_word_cong) simp

section \<open>State of the page manager\<close>

text \<open>
  \<open>vmm\<close> is the machine state the page manager works on: the page allocator, physical memory,
  the page directory register, the memory counters of the current process (none before the first
  process runs) and the fields of \<open>VirtualPageManager\<close>.
\<close>

record memstats_t =
  available :: u32
  allocated :: u32
  pagefaults :: u32

record Heap =
  h_low :: u32
  h_high :: u32
  h_current :: u32

record vmm =
  vm_pmm :: pmm
  vm_mem :: memory
  vm_cr3 :: u32
  vm_stats :: "memstats_t option"
  mKernelHeap :: "Heap option"
  mKernelRegions :: "interval list"
  mScratchLow :: u32
  mScratchHigh :: u32

section \<open>The walk\<close>

definition pde :: "vmm \<Rightarrow> u32 \<Rightarrow> u32" where
  "pde s d = slot_word (vm_mem s) (page (vm_cr3 s)) d"

definition table_at :: "vmm \<Rightarrow> u32 \<Rightarrow> u32" where
  "table_at s d = de_table (pde s d)"

definition pte :: "vmm \<Rightarrow> PagingIndices \<Rightarrow> u32" where
  "pte s ix = slot_word (vm_mem s) (table_at s (pi_dir ix)) (pi_tbl ix)"

definition walk :: "bool \<Rightarrow> u32 \<Rightarrow> vmm \<Rightarrow> u32 kernel" where
  "walk wr v s =
     (let ix = pi_of_virt v; d = pde s (pi_dir ix); t = pte s ix in
      if de_get DPresent d \<and> (wr \<longrightarrow> de_get DRw d) \<and> te_get Present t \<and> (wr \<longrightarrow> te_get Rw t)
      then Inr (te_page t) else Inl (PageFault v))"

definition vload :: "u32 \<Rightarrow> vmm \<Rightarrow> u32 kernel" where
  "vload v s = kbind (walk False v s) (\<lambda>p. Inr (load_word (vm_mem s) p (offset v)))"

definition vstore :: "u32 \<Rightarrow> u32 \<Rightarrow> vmm \<Rightarrow> vmm kernel" where
  "vstore v w s =
     kbind (walk True v s) (\<lambda>p. Inr (s\<lparr>vm_mem := store_word p (offset v) w (vm_mem s)\<rparr>))"

definition vload_byte :: "u32 \<Rightarrow> vmm \<Rightarrow> u8 kernel" where
  "vload_byte v s = kbind (walk False v s) (\<lambda>p. Inr (vm_mem s p (offset v)))"

definition vstore_byte :: "u32 \<Rightarrow> u8 \<Rightarrow> vmm \<Rightarrow> vmm kernel" where
  "vstore_byte v b s =
     kbind (walk True v s)
       (\<lambda>p. Inr (s\<lparr>vm_mem := (vm_mem s)(p := (vm_mem s p)(offset v := b))\<rparr>))"

definition bzero :: "u32 \<Rightarrow> nat \<Rightarrow> vmm \<Rightarrow> vmm kernel" where
  "bzero v n = kfold (\<lambda>k. vstore_byte (v + of_nat k) 0) [0..<n]"

definition memcopy :: "u32 \<Rightarrow> u32 \<Rightarrow> nat \<Rightarrow> vmm \<Rightarrow> vmm kernel" where
  "memcopy src dst n =
     kfold (\<lambda>k s. kbind (vload_byte (src + of_nat k) s) (\<lambda>b. vstore_byte (dst + of_nat k) b s)) [0..<n]"

section \<open>The page table window\<close>

definition gPageDirectoryAddress :: u32 where "gPageDirectoryAddress = 0xFFBFF000"

definition gPageTableAddress :: u32 where "gPageTableAddress = gPageDirectoryAddress + gPageSize"

definition gPageTable :: "u32 \<Rightarrow> u32 \<Rightarrow> u32" where
  "gPageTable dir tbl = gPageTableAddress + gPageSize * dir + 4 * tbl"

definition entry_load :: "PagingIndices \<Rightarrow> vmm \<Rightarrow> u32 kernel" where
  "entry_load ix = vload (gPageTable (pi_dir ix) (pi_tbl ix))"

definition entry_update :: "PagingIndices \<Rightarrow> (u32 \<Rightarrow> u32 kernel) \<Rightarrow> vmm \<Rightarrow> vmm kernel" where
  "entry_update ix f s =
     kbind (entry_load ix s) (\<lambda>v. kbind (f v) (\<lambda>w. vstore (gPageTable (pi_dir ix) (pi_tbl ix)) w s))"

text \<open>
  \<open>paging_ok\<close>: every directory entry names a table of its own, and the last table maps the
  tables themselves, so that the window shows entry \<open>(d, t)\<close> at its \<open>(d, t)\<close> slot.
\<close>

abbreviation slots :: "u32 set" where "slots \<equiv> {d. d < 1024}"

definition paging_frames :: "vmm \<Rightarrow> u32 set" where
  "paging_frames s = insert (page (vm_cr3 s)) (table_at s ` slots)"

definition paging_ok :: "vmm \<Rightarrow> bool" where
  "paging_ok s \<longleftrightarrow>
     inj_on (table_at s) slots \<and> page (vm_cr3 s) \<notin> table_at s ` slots
   \<and> (\<forall>d<1024. de_get DPresent (pde s d) \<and> de_get DRw (pde s d)
        \<and> te_get Present (pte s \<lparr>pi_dir = 1023, pi_tbl = d\<rparr>) \<and> te_get Rw (pte s \<lparr>pi_dir = 1023, pi_tbl = d\<rparr>)
        \<and> te_page (pte s \<lparr>pi_dir = 1023, pi_tbl = d\<rparr>) = table_at s d)"

definition set_pte :: "PagingIndices \<Rightarrow> u32 \<Rightarrow> vmm \<Rightarrow> vmm" where
  "set_pte ix w s = s\<lparr>vm_mem := set_slot (table_at s (pi_dir ix)) (pi_tbl ix) w (vm_mem s)\<rparr>"

lemma unat_gPageTable:
  assumes "d < 1024" and "t < 1024"
  shows "unat (gPageTable d t) = 4290772992 + 4096 * unat d + 4 * unat t"
proof -
  have "unat d < 1024" "unat t < 1024" using assms by (simp_all add: word_less_nat_alt)
  then show ?thesis
    by (simp add: gPageTable_def gPageTableAddress_def gPageDirectoryAddress_def gPageSize_def
        unat_word_ariths)
qed

lemma window_arith:
  fixes d t :: nat
  assumes "d < 1024" and "t < 1024"
  defines "n \<equiv> 4290772992 + 4096 * d + 4 * t"
  shows "n div 4194304 = 1023" and "n div 4096 mod 1024 = d" and "n mod 4096 = 4 * t"
proof -
  have n: "n = 4 * t + 4096 * (d + 1024 * 1023)" by (simp add: n_def)
  have q: "n div 4096 = d + 1024 * 1023" unfolding n using assms(2) by simp
  show "n div 4096 mod 1024 = d" unfolding q mod_mult_self2 using assms(1) by simp
  have "n div 4194304 = n div 4096 div 1024" by (simp add: div_mult2_eq [symmetric])
  then show "n div 4194304 = 1023" unfolding q using assms(1) by simp
  show "n mod 4096 = 4 * t" unfolding n mod_mult_self2 using assms(2) by simp
qed

lemma window_indices:
  assumes "d < 1024" and "t < 1024"
  shows "pi_of_virt (gPageTable d t) = \<lparr>pi_dir = 1023, pi_tbl = d\<rparr>"
    and "offset (gPageTable d t) = 4 * t"
proof -
  have b: "unat d < 1024" "unat t < 1024" using assms by (simp_all add: word_less_nat_alt)
  have u: "unat (pi_dir (pi_of_virt (gPageTable d t))) = 1023"
    "unat (pi_tbl (pi_of_virt (gPageTable d t))) = unat d"
    "unat (offset (gPageTable d t)) = unat (4 * t)"
    unfolding unat_pi_dir unat_pi_tbl unat_offset unat_gPageTable [OF assms] window_arith [OF b]
    using b by (simp_all add: unat_word_ariths)
  then have "pi_dir (pi_of_virt (gPageTable d t)) = 1023"
    "pi_tbl (pi_of_virt (gPageTable d t)) = d" "offset (gPageTable d t) = 4 * t"
    by (simp_all add: word_unat_eq_iff)
  then show "pi_of_virt (gPageTable d t) = \<lparr>pi_dir = 1023, pi_tbl = d\<rparr>"
    and "offset (gPageTable d t) = 4 * t" by simp_all
qed

lemma window_walk:
  assumes "paging_ok s" and "d < 1024" and "t < 1024"
  shows "walk wr (gPageTable d t) s = Inr (table_at s d)"
  using assms by (simp add: walk_def window_indices paging_ok_def Let_def)

lemma entry_load_ok:
  assumes "paging_ok s" and "pi_dir ix < 1024" and "pi_tbl ix < 1024"
  shows "entry_load ix s = Inr (pte s ix)"
  using assms by (simp add: entry_load_def vload_def window_walk window_indices pte_def slot_word_def)

lemma entry_update_ok:
  assumes "paging_ok s" and "pi_dir ix < 1024" and "pi_tbl ix < 1024"
  shows "entry_update ix f s = kbind (f (pte s ix)) (\<lambda>w. Inr (set_pte ix w s))"
  using assms
  by (simp add: entry_update_def entry_load_ok vstore_def window_walk window_indices set_pte_def
      set_slot_def)

text \<open>Writing an entry outside the last table changes that entry alone and keeps the window.\<close>

lemma set_pte_fields [simp]:
  "vm_pmm (set_pte ix w s) = vm_pmm s" "vm_cr3 (set_pte ix w s) = vm_cr3 s"
  "vm_stats (set_pte ix w s) = vm_stats s" "mKernelHeap (set_pte ix w s) = mKernelHeap s"
  "mKernelRegions (set_pte ix w s) = mKernelRegions s"
  "mScratchLow (set_pte ix w s) = mScratchLow s" "mScratchHigh (set_pte ix w s) = mScratchHigh s"
  by (simp_all add: set_pte_def)

lemma vm_mem_set_pte:
  "vm_mem (set_pte ix w s) = set_slot (table_at s (pi_dir ix)) (pi_tbl ix) w (vm_mem s)"
  by (simp add: set_pte_def)

lemma table_not_directory: "paging_ok s \<Longrightarrow> d < 1024 \<Longrightarrow> table_at s d \<noteq> page (vm_cr3 s)"
  by (metis (mono_tags, lifting) imageI mem_Collect_eq paging_ok_def)

lemma table_at_inj:
  "paging_ok s \<Longrightarrow> d < 1024 \<Longrightarrow> e < 1024 \<Longrightarrow> table_at s d = table_at s e \<longleftrightarrow> d = e"
  by (auto simp: paging_ok_def inj_on_def)

lemma pde_set_pte:
  assumes "paging_ok s" and "pi_dir ix < 1024"
  shows "pde (set_pte ix w s) = pde s"
  using table_not_directory [OF assms] by (simp add: fun_eq_iff pde_def vm_mem_set_pte)

lemma table_at_set_pte:
  assumes "paging_ok s" and "pi_dir ix < 1024"
  shows "table_at (set_pte ix w s) = table_at s"
  using pde_set_pte [OF assms] by (simp add: fun_eq_iff table_at_def)

lemma pte_set_pte:
  assumes "paging_ok s" and "pi_dir ix < 1024" and "pi_tbl ix < 1024"
    and "pi_dir jx < 1024" and "pi_tbl jx < 1024"
  shows "pte (set_pte ix w s) jx = (if ix = jx then w else pte s jx)"
proof (cases "pi_dir ix = pi_dir jx")
  case True
  then show ?thesis
    using assms by (auto simp: pte_def table_at_set_pte vm_mem_set_pte slot_word_set_slot)
next
  case False
  then have "table_at s (pi_dir ix) \<noteq> table_at s (pi_dir jx)"
    using assms by (simp add: table_at_inj)
  then show ?thesis
    using False assms by (auto simp: pte_def table_at_set_pte vm_mem_set_pte)
qed

lemma paging_frames_set_pte:
  assumes "paging_ok s" and "pi_dir ix < 1024"
  shows "paging_frames (set_pte ix w s) = paging_frames s"
  by (simp add: paging_frames_def table_at_set_pte [OF assms])

lemma paging_ok_set_pte:
  assumes "paging_ok s" and "pi_dir ix < 1024" and "pi_tbl ix < 1024" and "pi_dir ix \<noteq> 1023"
  shows "paging_ok (set_pte ix w s)"
proof -
  have "pte (set_pte ix w s) \<lparr>pi_dir = 1023, pi_tbl = d\<rparr> = pte s \<lparr>pi_dir = 1023, pi_tbl = d\<rparr>" if "d < 1024" for d
    using assms that by (subst pte_set_pte) auto
  then show ?thesis
    using assms(1) table_at_set_pte [OF assms(1,2), of w] pde_set_pte [OF assms(1,2), of w]
    by (simp add: paging_ok_def)
qed

text \<open>
  A change of memory outside the paging frames changes no translation.
\<close>

lemma paging_cong:
  assumes "vm_cr3 s' = vm_cr3 s" and "\<And>p. p \<in> paging_frames s \<Longrightarrow> vm_mem s' p = vm_mem s p"
  shows "\<And>d. pde s' d = pde s d"
    and "\<And>d. d < 1024 \<Longrightarrow> table_at s' d = table_at s d"
    and "\<And>ix. pi_dir ix < 1024 \<Longrightarrow> pte s' ix = pte s ix"
    and "paging_ok s' = paging_ok s"
    and "paging_frames s' = paging_frames s"
proof -
  show pde: "pde s' d = pde s d" for d
    unfolding pde_def assms(1) using assms(2) by (intro slot_word_cong) (simp add: paging_frames_def)
  then show tab: "table_at s' d = table_at s d" for d
    by (simp add: table_at_def)
  show pte: "pte s' ix = pte s ix" if "pi_dir ix < 1024" for ix
    unfolding pte_def tab using assms(2) that by (intro slot_word_cong) (simp add: paging_frames_def)
  show "paging_frames s' = paging_frames s" using tab assms(1) by (simp add: paging_frames_def)
  show "paging_ok s' = paging_ok s"
    using tab assms(1) pde pte by (simp add: paging_ok_def inj_on_def)
qed

lemma walk_cong:
  assumes "vm_cr3 s' = vm_cr3 s" and "\<And>p. p \<in> paging_frames s \<Longrightarrow> vm_mem s' p = vm_mem s p"
  shows "walk wr v s' = walk wr v s"
  using paging_cong [OF assms] by (simp add: walk_def Let_def)

section \<open>Clearing and copying a page\<close>

lemma page_plus:
  assumes "offset v = 0" and "k < 4096"
  shows "page (v + of_nat k) = v" and "offset (v + of_nat k) = of_nat k"
proof -
  have v: "unat v mod 4096 = 0" using assms(1) by (metis unat_eq_zero unat_offset)
  then obtain q where q: "unat v = 4096 * q" by (metis dvd_def mod_0_imp_dvd)
  then have "q < 1048576" using u32_bound [of v] by simp
  then have u: "unat (v + of_nat k) = 4096 * q + k"
    using q assms(2) by (simp add: unat_word_ariths unat_of_nat)
  then have "unat (page (v + of_nat k)) = unat v" "unat (offset (v + of_nat k)) = unat (of_nat k :: u32)"
    using q assms(2) by (simp_all add: unat_page unat_offset unat_of_nat)
  then show "page (v + of_nat k) = v" and "offset (v + of_nat k) = of_nat k"
    by (simp_all add: word_unat_eq_iff)
qed

lemma pi_of_virt_plus: "offset v = 0 \<Longrightarrow> k < 4096 \<Longrightarrow> pi_of_virt (v + of_nat k) = pi_of_virt v"
  by (metis page_plus(1) pi_of_virt_page)

lemma walk_same_page:
  "walk wr v s = Inr p \<Longrightarrow> pi_of_virt v' = pi_of_virt v \<Longrightarrow> walk wr v' s = Inr p"
  by (simp add: walk_def Let_def split: if_splits)

lemma walk_plus:
  "walk wr v s = Inr p \<Longrightarrow> offset v = 0 \<Longrightarrow> k < 4096 \<Longrightarrow> walk wr (v + of_nat k) s = Inr p"
  by (rule walk_same_page) (simp_all add: pi_of_virt_plus)

definition put_page :: "u32 \<Rightarrow> nat \<Rightarrow> (u32 \<Rightarrow> u8) \<Rightarrow> vmm \<Rightarrow> vmm" where
  "put_page p n f s =
     s\<lparr>vm_mem := (vm_mem s)(p := (\<lambda>a. if unat a < n then f a else vm_mem s p a))\<rparr>"

lemma put_page_fields [simp]:
  "vm_pmm (put_page p n f s) = vm_pmm s" "vm_cr3 (put_page p n f s) = vm_cr3 s"
  "vm_stats (put_page p n f s) = vm_stats s" "mKernelHeap (put_page p n f s) = mKernelHeap s"
  "mKernelRegions (put_page p n f s) = mKernelRegions s"
  "mScratchLow (put_page p n f s) = mScratchLow s" "mScratchHigh (put_page p n f s) = mScratchHigh s"
  by (simp_all add: put_page_def)

lemma vm_mem_put_page [simp]: "q \<noteq> p \<Longrightarrow> vm_mem (put_page p n f s) q = vm_mem s q"
  by (simp add: put_page_def)

lemma vm_mem_put_page_same [simp]: "unat a < n \<Longrightarrow> vm_mem (put_page p n f s) p a = f a"
  by (simp add: put_page_def)

lemma put_page_0 [simp]: "put_page p 0 f s = s"
  by (simp add: put_page_def)

lemma put_page_Suc:
  assumes "n < 4096"
  shows "(put_page p n f s)\<lparr>vm_mem := (vm_mem (put_page p n f s))
           (p := (vm_mem (put_page p n f s) p)(of_nat n := f (of_nat n)))\<rparr> = put_page p (Suc n) f s"
proof -
  have "a = of_nat n \<longleftrightarrow> unat a = n" for a :: u32
    using assms by (simp add: word_unat_eq_iff unat_of_nat)
  then show ?thesis by (auto simp: put_page_def fun_eq_iff less_Suc_eq intro!: arg_cong [where f = "\<lambda>m. s\<lparr>vm_mem := m\<rparr>"])
qed

lemma paging_put_page:
  assumes "p \<notin> paging_frames s"
  shows "pde (put_page p n f s) d = pde s d"
    and "d < 1024 \<Longrightarrow> table_at (put_page p n f s) d = table_at s d"
    and "pi_dir ix < 1024 \<Longrightarrow> pte (put_page p n f s) ix = pte s ix"
    and "paging_ok (put_page p n f s) = paging_ok s"
    and "paging_frames (put_page p n f s) = paging_frames s"
    and "walk wr v (put_page p n f s) = walk wr v s"
proof -
  have "vm_mem (put_page p n f s) q = vm_mem s q" if "q \<in> paging_frames s" for q
    using that assms by (intro vm_mem_put_page) auto
  note c = paging_cong [OF put_page_fields(2) this] walk_cong [OF put_page_fields(2) this]
  show "pde (put_page p n f s) d = pde s d" by (rule c)
  show "d < 1024 \<Longrightarrow> table_at (put_page p n f s) d = table_at s d" by (rule c)
  show "pi_dir ix < 1024 \<Longrightarrow> pte (put_page p n f s) ix = pte s ix" by (rule c)
  show "paging_ok (put_page p n f s) = paging_ok s" by (rule c)
  show "paging_frames (put_page p n f s) = paging_frames s" by (rule c)
  show "walk wr v (put_page p n f s) = walk wr v s" by (rule c)
qed

lemma bzero_page:
  assumes "walk True v s = Inr p" and "offset v = 0" and "p \<notin> paging_frames s" and "n \<le> 4096"
  shows "bzero v n s = Inr (put_page p n (\<lambda>_. 0) s)"
  using assms(4)
proof (induction n)
  case 0
  then show ?case by (simp add: bzero_def)
next
  case (Suc n)
  have "walk True (v + of_nat n) (put_page p n (\<lambda>_. 0) s) = Inr p"
    using assms Suc.prems by (simp add: paging_put_page walk_plus)
  then have "vstore_byte (v + of_nat n) 0 (put_page p n (\<lambda>_. 0) s) = Inr (put_page p (Suc n) (\<lambda>_. 0) s)"
    using Suc.prems assms(2) put_page_Suc [of n p "\<lambda>_. 0" s]
    by (simp add: vstore_byte_def page_plus)
  then show ?case using Suc by (simp add: bzero_def kfold_append)
qed

lemma memcopy_page:
  assumes "walk False src s = Inr p" and "walk True dst s = Inr q"
    and "offset src = 0" and "offset dst = 0" and "q \<notin> paging_frames s" and "p \<noteq> q" and "n \<le> 4096"
  shows "memcopy src dst n s = Inr (put_page q n (vm_mem s p) s)"
  using assms(7)
proof (induction n)
  case 0
  then show ?case by (simp add: memcopy_def)
next
  case (Suc n)
  let ?t = "put_page q n (vm_mem s p) s"
  have "walk True (dst + of_nat n) ?t = Inr q" "walk False (src + of_nat n) ?t = Inr p"
    using assms Suc.prems by (simp_all add: paging_put_page walk_plus)
  then have "kbind (vload_byte (src + of_nat n) ?t) (\<lambda>b. vstore_byte (dst + of_nat n) b ?t)
      = Inr (put_page q (Suc n) (vm_mem s p) s)"
    using Suc.prems assms put_page_Suc [of n q "vm_mem s p" s]
    by (simp add: vstore_byte_def vload_byte_def page_plus)
  then show ?case using Suc by (simp add: memcopy_def kfold_append)
qed

lemma slot_bytes:
  fixes i :: u32
  assumes "i < 1024"
  shows "unat (4 * i) < 4096" "unat (4 * i + 1) < 4096" "unat (4 * i + 2) < 4096" "unat (4 * i + 3) < 4096"
proof -
  have "unat i < 1024" using assms by (simp add: word_less_nat_alt)
  then show "unat (4 * i) < 4096" "unat (4 * i + 1) < 4096" "unat (4 * i + 2) < 4096" "unat (4 * i + 3) < 4096"
    by (simp_all add: unat_word_ariths)
qed

lemma slot_word_bytes:
  assumes "i < 1024" and "\<And>a. unat a < 4096 \<Longrightarrow> m p a = m' q a"
  shows "slot_word m p i = slot_word m' q i"
  using slot_bytes [OF assms(1)] assms(2) by (simp add: slot_word_def load_word_def)

lemma slot_zero:
  assumes "i < 1024" and "\<And>a. unat a < 4096 \<Longrightarrow> m p a = 0"
  shows "slot_word m p i = 0"
  using slot_bytes [OF assms(1)] assms(2) by (simp add: slot_word_def load_word_def word_of_bytes_def)

definition paging_held :: "vmm \<Rightarrow> bool" where
  "paging_held s \<longleftrightarrow> (\<forall>q \<in> paging_frames s. \<not> page_avail (vm_pmm s) (index q))"

lemma paging_held_fresh: "paging_held s \<Longrightarrow> page_avail (vm_pmm s) (index p) \<Longrightarrow> p \<notin> paging_frames s"
  by (auto simp: paging_held_def)

section \<open>A concrete state\<close>

text \<open>
  An address space with its directory at 4 KB and its 1024 tables from 1 MB on, nothing mapped but
  the tables themselves; frames below \<open>0x600\<close> are held, those up to \<open>0x1000\<close> free.
\<close>

definition page_of_words :: "(u32 \<Rightarrow> u32) \<Rightarrow> u32 \<Rightarrow> u8" where
  "page_of_words f a = byte_of_word (f (a div 4)) (unat a mod 4)"

definition example_words :: "u32 \<Rightarrow> u32 \<Rightarrow> u32" where
  "example_words p i =
     (if p = 0x1000 \<or> p = 0x4FF000 then (0x100000 + 0x1000 * i) OR 3 else 0)"

definition example_pmm :: pmm where
  "example_pmm = \<lparr>mPages = (\<lambda>i. \<lparr>usable = i < 0x1000, refcnt = (if i < 0x600 then 1 else 0)\<rparr>),
     mLastChecked = 0, mTotalPages = 0x1000, mLowestPage = 0, mHighestPage = 0xFFF, mFreePages = 0xA00\<rparr>"

definition example_vmm :: vmm where
  "example_vmm = \<lparr>vm_pmm = example_pmm, vm_mem = (\<lambda>p. page_of_words (example_words p)), vm_cr3 = 0x1000,
     vm_stats = Some \<lparr>available = 0, allocated = 0, pagefaults = 0\<rparr>, mKernelHeap = None, mKernelRegions = [],
     mScratchLow = 0xC8000000, mScratchHigh = 0xC8800FFF\<rparr>"

lemma slot_word_page_of_words:
  assumes "i < 1024"
  shows "slot_word (\<lambda>p. page_of_words (f p)) p i = f p i"
proof -
  have u: "unat i < 1024" using assms by (simp add: word_less_nat_alt)
  have "(4 * i + b) div 4 = i \<and> unat (4 * i + b) mod 4 = unat b" if "unat b < 4" for b
  proof -
    have n: "unat (4 * i + b) = 4 * unat i + unat b" using u that by (simp add: unat_word_ariths)
    then have "unat ((4 * i + b) div 4) = unat i" using that by (simp add: unat_div_distrib)
    moreover have "unat (4 * i + b) mod 4 = unat b" using n that by simp
    ultimately show ?thesis by (simp add: word_unat_eq_iff)
  qed
  from this [of 0] this [of 1] this [of 2] this [of 3] show ?thesis
    using word_of_bytes_of_word [of "f p i"]
    by (simp add: slot_word_def load_word_def page_of_words_def del: word_of_bytes_of_word)
qed

lemma entry_or_flags:
  assumes "offset p = 0" and "page x = 0"
  shows "te_page (p OR x) = p" and "te_get f (p OR x) = te_get f x" and "de_table (p OR x) = p"
    and "de_get g (p OR x) = de_get g x"
proof -
  have x: "\<not> bit x n" if "12 \<le> n" for n using assms(2) that bit_page [of x n] by auto
  show t: "te_page (p OR x) = p"
    by (rule bit_word_eqI) (auto simp: te_page_eq_page bit_page bit_or_iff x dest: aligned_low_bits [OF assms(1)])
  then show "de_table (p OR x) = p" by (simp add: de_table_def te_page_def)
  show "te_get f (p OR x) = te_get f x"
    using aligned_low_bits [OF assms(1), of "te_offset f"] te_offset_less [of f]
    by (auto simp: te_get_def field_get_bit bit_or_iff simp del: te_offset_less)
  have "de_offset g < 12" by (cases g) simp_all
  then show "de_get g (p OR x) = de_get g x"
    using aligned_low_bits [OF assms(1), of "de_offset g"]
    by (auto simp: de_get_def field_get_bit bit_or_iff)
qed

lemma example_table: 
  assumes "d < 1024"
  shows "offset (0x100000 + 0x1000 * d :: u32) = 0" "unat (0x100000 + 0x1000 * d :: u32) = 0x100000 + 0x1000 * unat d"
proof -
  have "unat d < 1024" using assms by (simp add: word_less_nat_alt)
  then show u: "unat (0x100000 + 0x1000 * d :: u32) = 0x100000 + 0x1000 * unat d"
    by (simp add: unat_word_ariths)
  have "(0x100000 + 0x1000 * unat d) mod 4096 = 0" by (simp add: mod_eq_0_iff_dvd)
  then have "unat (offset (0x100000 + 0x1000 * d :: u32)) = 0" by (simp add: unat_offset u)
  then show "offset (0x100000 + 0x1000 * d :: u32) = 0" by (simp add: unat_eq_zero)
qed

lemma flags_3: "page 3 = (0 :: u32)" "te_get Present 3" "te_get Rw 3" "\<not> te_get Frompmm 3" "de_get DPresent 3" "de_get DRw 3"
  by (simp_all add: page_def gPageSize_def te_get_def de_get_def field_get_def)

lemma example_paging:
  assumes "d < 1024"
  shows "pde example_vmm d = (0x100000 + 0x1000 * d) OR 3" and "table_at example_vmm d = 0x100000 + 0x1000 * d"
proof -
  have "page 0x1000 = (0x1000 :: u32)" by (simp add: page_def gPageSize_def)
  then show p: "pde example_vmm d = (0x100000 + 0x1000 * d) OR 3"
    using assms by (simp add: pde_def example_vmm_def slot_word_page_of_words) (simp add: example_words_def)
  show "table_at example_vmm d = 0x100000 + 0x1000 * d"
    using example_table [OF assms] flags_3 by (simp add: table_at_def p entry_or_flags)
qed

lemma example_table_inj:
  "d < 1024 \<Longrightarrow> e < 1024 \<Longrightarrow> 0x100000 + 0x1000 * d = 0x100000 + 0x1000 * (e :: u32) \<Longrightarrow> d = e"
  using example_table(2) [of d] example_table(2) [of e] by (simp add: word_unat_eq_iff)

lemma example_pte:
  assumes "pi_dir ix < 1024" and "pi_tbl ix < 1024"
  shows "pte example_vmm ix = (if pi_dir ix = 1023 then (0x100000 + 0x1000 * pi_tbl ix) OR 3 else 0)"
proof -
  have t: "0x100000 + 0x1000 * pi_dir ix = (0x4FF000 :: u32) \<longleftrightarrow> pi_dir ix = 1023"
    using example_table_inj [OF assms(1), of 1023] by auto
  have "0x100000 + 0x1000 * pi_dir ix \<noteq> (0x1000 :: u32)"
    using example_table(2) [OF assms(1)] by (auto simp: word_unat_eq_iff)
  then show ?thesis
    using assms by (simp add: pte_def example_paging) (simp add: example_vmm_def slot_word_page_of_words example_words_def t)
qed

lemma example_paging_ok: "paging_ok example_vmm"
proof -
  have "inj_on (table_at example_vmm) slots"
    by (auto simp: inj_on_def example_paging dest: example_table_inj)
  moreover have "page (vm_cr3 example_vmm) \<noteq> table_at example_vmm d" if "d < 1024" for d
    using example_table(2) [OF that] that
    by (simp add: example_paging) (auto simp: example_vmm_def page_def gPageSize_def word_unat_eq_iff)
  ultimately show ?thesis
    using flags_3 example_table
    by (auto simp: paging_ok_def example_paging example_pte entry_or_flags)
qed

lemma example_pmm_inv: "pmm_inv example_pmm"
proof -
  have "free_set example_pmm = {i. 0x600 \<le> i \<and> i < 0x1000}"
    by (auto simp: free_set_def page_avail_def page_free_def example_pmm_def not_less)
  also have "\<dots> = of_nat ` {0x600..<0x1000}"
  proof (safe)
    fix i :: u32 assume "0x600 \<le> i" "i < 0x1000"
    then show "i \<in> of_nat ` {0x600..<0x1000}"
      by (intro image_eqI [of _ _ "unat i"]) (simp_all add: word_le_nat_alt word_less_nat_alt)
  qed (simp_all add: word_le_nat_alt word_less_nat_alt unat_of_nat)
  finally have free: "free_set example_pmm = of_nat ` {0x600..<0x1000}" .
  have "inj_on (of_nat :: nat \<Rightarrow> u32) {0x600..<0x1000}"
  proof (rule inj_onI)
    fix x y :: nat assume "x \<in> {0x600..<0x1000}" "y \<in> {0x600..<0x1000}" and eq: "(of_nat x :: u32) = of_nat y"
    then have "x < 2 ^ 32" "y < 2 ^ 32" by simp_all
    with eq show "x = y" by (metis unat_of_nat_u32)
  qed
  then have card: "card (free_set example_pmm) = 0xA00"
    unfolding free by (simp only: card_image card_atLeastLessThan)
  have "i < 0x600 \<Longrightarrow> i < (0x1000 :: u32)" "i < 0x1000 \<Longrightarrow> i \<le> (0xFFF :: u32)" for i
    by (simp_all add: word_less_nat_alt word_le_nat_alt)
  with card show ?thesis
    by (simp add: pmm_inv_def) (simp add: example_pmm_def gNumPages_def)
qed

lemma example_held: "paging_held example_vmm"
proof -
  have "index (0x100000 + 0x1000 * d) < 0x600" if "d < 1024" for d
  proof -
    have "unat (index (0x100000 + 0x1000 * d)) = (0x100000 + 0x1000 * unat d) div 4096"
      using example_table(2) [OF that] by (simp add: index_def gPageSize_def unat_div_distrib)
    then show ?thesis using that by (simp add: word_less_nat_alt)
  qed
  moreover have "index (page 0x1000) < 0x600" by (simp add: page_def index_def gPageSize_def)
  ultimately show ?thesis
    unfolding paging_held_def paging_frames_def
    by (auto simp: example_paging) (auto simp: example_vmm_def example_pmm_def page_avail_def page_free_def)
qed

end
