(* ===== verification/Virt.thy ===== *)
theory Virt
  imports Paging
begin

text \<open>
  The operations of \<open>VirtualPageManager\<close> on the current address space, from
  \<open>src/kernel/src/mm/virt.cpp\<close>: mapping and unmapping of pages, the options of a mapping, zero
  pages and copy on write, ranges, and scratch pages. The source's \<open>map\<close> and \<open>unmap\<close> are
  \<open>vm_map\<close> and \<open>vm_unmap\<close> here. The fields of an entry that one statement sequence sets are one
  read, change and write of the entry. A loop that steps a page address is \<open>for_pages\<close>: its guard
  looks at the address alone, and after $2^{20}$ steps the address is back at its start, so a loop
  whose guard still holds then never ends.
\<close>

section \<open>Loops over pages\<close>

fun page_loop :: "nat \<Rightarrow> (u32 \<Rightarrow> bool) \<Rightarrow> (u32 \<Rightarrow> 's \<Rightarrow> 's kernel) \<Rightarrow> u32 \<Rightarrow> 's \<Rightarrow> 's kernel" where
  "page_loop 0 c f i s = (if c i then Inl Diverges else Inr s)"
| "page_loop (Suc n) c f i s = (if c i then kbind (f i s) (page_loop n c f (i + gPageSize)) else Inr s)"

definition for_pages :: "(u32 \<Rightarrow> bool) \<Rightarrow> (u32 \<Rightarrow> 's \<Rightarrow> 's kernel) \<Rightarrow> u32 \<Rightarrow> 's \<Rightarrow> 's kernel" where
  "for_pages c f i s = page_loop 0x100000 c f i s"

definition page_at :: "u32 \<Rightarrow> nat \<Rightarrow> u32" where
  "page_at i k = i + gPageSize * of_nat k"

lemma page_at_Cons: "map (page_at i) [0..<Suc n] = i # map (page_at (i + gPageSize)) [0..<n]"
proof -
  have "page_at (i + gPageSize) k = page_at i (Suc k)" for k
    by (simp add: page_at_def algebra_simps)
  then show ?thesis
    by (simp add: upt_conv_Cons map_Suc_upt [symmetric] del: upt_Suc) (simp add: page_at_def)
qed

lemma page_loop_kfold:
  assumes "n \<le> m" and "\<forall>k<n. c (page_at i k)" and "\<not> c (page_at i n)"
  shows "page_loop m c f i s = kfold f (map (page_at i) [0..<n]) s"
  using assms
proof (induction n arbitrary: m i s)
  case 0
  then show ?case by (cases m) (simp_all add: page_at_def)
next
  case (Suc n)
  then obtain m' where m: "m = Suc m'" "n \<le> m'" by (cases m) auto
  have next_page: "page_at (i + gPageSize) k = page_at i (Suc k)" for k
    by (simp add: page_at_def algebra_simps)
  have "c i" using Suc.prems(2) [rule_format, of 0] by (simp add: page_at_def)
  moreover have "page_loop m' c f (i + gPageSize) t = kfold f (map (page_at (i + gPageSize)) [0..<n]) t" for t
    using Suc.prems m(2) by (intro Suc.IH) (auto simp: next_page)
  ultimately show ?case unfolding m(1) page_at_Cons by (auto intro!: kbind_cong)
qed

lemma for_pages_kfold:
  assumes "n \<le> 1048576" and "\<forall>k<n. c (page_at i k)" and "\<not> c (page_at i n)"
  shows "for_pages c f i s = kfold f (map (page_at i) [0..<n]) s"
  unfolding for_pages_def using assms by (intro page_loop_kfold) simp_all

section \<open>Operations\<close>

definition gZeroPagePhysical :: u32 where "gZeroPagePhysical = 0"

definition count_allocated :: "u32 \<Rightarrow> u32 \<Rightarrow> vmm \<Rightarrow> vmm" where
  "count_allocated virt amount s =
     (if iskernel virt then s
      else s\<lparr>vm_stats := map_option (\<lambda>p. p\<lparr>allocated := allocated p + amount\<rparr>) (vm_stats s)\<rparr>)"

definition map_entry :: "map_options_t \<Rightarrow> bool \<Rightarrow> u32 \<Rightarrow> u32 \<Rightarrow> u32 kernel" where
  "map_entry options rw phys v =
     (let v = te_set Present True v;
          v = te_set Rw rw v;
          v = te_set User (o_user options) v;
          v = te_set Cacheoff (\<not> o_cached options) v;
          v = te_set Global (o_global options) v;
          v = te_set Frompmm (o_frompmm options) v;
          v = te_set Cow (o_cow options) v
      in te_set_page phys v)"

definition vm_map :: "u32 \<Rightarrow> u32 \<Rightarrow> map_options_t \<Rightarrow> vmm \<Rightarrow> (u32 \<times> vmm) kernel" where
  "vm_map phys virt options s =
     (let indices = pi_of_virt virt;
          mustprotect = (o_clear options \<and> \<not> o_rw options)
      in kbind (entry_update indices (map_entry options (mustprotect \<or> o_rw options) phys) s) (\<lambda>s.
         kbind (if o_clear options
                then kbind (bzero virt (unat gPageSize) s) (\<lambda>s.
                       if mustprotect then entry_update indices (\<lambda>v. Inr (te_set Rw False v)) s
                       else Inr s)
                else Inr s) (\<lambda>s.
         Inr (virt, count_allocated virt gPageSize s))))"

definition maprange :: "u32 \<Rightarrow> u32 \<Rightarrow> u32 \<Rightarrow> map_options_t \<Rightarrow> vmm \<Rightarrow> (u32 \<times> vmm) kernel" where
  "maprange physlow physhigh virt options s =
     (let physlow = page physlow;
          physhigh = (if physhigh > page physhigh then page physhigh + gPageSize else physhigh)
      in kbind (for_pages (\<lambda>phys. phys < physhigh)
                  (\<lambda>phys (virt, s). kbind (vm_map phys virt options s) (\<lambda>(_, s). Inr (virt + gPageSize, s)))
                  physlow (virt, s)) Inr)"

definition mapped_options :: "u32 \<Rightarrow> map_options_t \<Rightarrow> map_options_t" where
  "mapped_options v opts =
     opts\<lparr>o_rw := te_get Rw v, o_user := te_get User v, o_frompmm := te_get Frompmm v,
          o_cached := \<not> te_get Cacheoff v, o_global := te_get Global v, o_cow := te_get Cow v\<rparr>"

definition mapping :: "u32 \<Rightarrow> vmm \<Rightarrow> u32 kernel" where
  "mapping virt s =
     (let b = page virt; ofs = offset virt in
      kbind (entry_load (pi_of_virt b) s) (\<lambda>v.
        Inr (if te_get Present v then te_page v + ofs else 0)))"

text \<open>\<open>mapped\<close> and \<open>zeroPageMapped\<close> return the options they store through their pointer.\<close>

definition mapped_with :: "u32 \<Rightarrow> map_options_t \<Rightarrow> vmm \<Rightarrow> map_options_t option kernel" where
  "mapped_with virt opts s =
     kbind (entry_load (pi_of_virt (page virt)) s) (\<lambda>v.
       Inr (if te_get Present v then Some (mapped_options v opts) else None))"

definition mapped :: "u32 \<Rightarrow> vmm \<Rightarrow> bool kernel" where
  "mapped virt s = kbind (mapped_with virt map_options_default s) (\<lambda>r. Inr (r \<noteq> None))"

definition zeroPageMapped :: "u32 \<Rightarrow> map_options_t \<Rightarrow> vmm \<Rightarrow> map_options_t option kernel" where
  "zeroPageMapped virt opts s =
     kbind (entry_load (pi_of_virt (page virt)) s) (\<lambda>v.
       Inr (if \<not> te_get Present v \<and> te_get Zpmap v then Some (mapped_options v opts) else None))"

definition vm_alloc :: "vmm \<Rightarrow> (u32 \<times> vmm) kernel" where
  "vm_alloc s =
     kbind (phys_alloc (vm_pmm s)) (\<lambda>(r, p).
     kbind (using_result kr_result r) (\<lambda>phys. Inr (phys, s\<lparr>vm_pmm := p\<rparr>)))"

definition vm_dealloc :: "u32 \<Rightarrow> vmm \<Rightarrow> vmm kernel" where
  "vm_dealloc phys s = kbind (phys_dealloc phys (vm_pmm s)) (\<lambda>p. Inr (s\<lparr>vm_pmm := p\<rparr>))"

definition vm_alloc_at :: "u32 \<Rightarrow> vmm \<Rightarrow> vmm kernel" where
  "vm_alloc_at phys s = kbind (phys_alloc_at phys (vm_pmm s)) (\<lambda>(_, p). Inr (s\<lparr>vm_pmm := p\<rparr>))"

definition mapAnyPhysicalPage :: "u32 \<Rightarrow> map_options_t \<Rightarrow> vmm \<Rightarrow> (u32 \<times> vmm) kernel" where
  "mapAnyPhysicalPage virt options s =
     kbind (mapped virt s) (\<lambda>m.
       if m then Inr (virt, s)
       else kbind (vm_alloc s) (\<lambda>(phys, s).
            kbind (vm_map phys virt (options\<lparr>o_frompmm := True\<rparr>) s) (\<lambda>(_, s). Inr (virt, s))))"

definition vm_unmap :: "u32 \<Rightarrow> vmm \<Rightarrow> vmm kernel" where
  "vm_unmap virt s =
     (let indices = pi_of_virt virt in
      kbind (entry_load indices s) (\<lambda>v.
        let wasthere = te_get Present v; isfrompmm = te_get Frompmm v in
        if isfrompmm \<and> \<not> wasthere
        then Inl (Panic ''non-present page cannot be backed by physical memory'')
        else
          kbind (entry_update indices
                   (\<lambda>v. Inr (te_set Frompmm False (te_set Zpmap False (te_set Present False v)))) s) (\<lambda>s.
          kbind (if isfrompmm
                 then kbind (entry_load indices s) (\<lambda>v. vm_dealloc (te_page v) s)
                 else Inr s) (\<lambda>s.
          kbind (entry_update indices (te_set_page 0) s) (\<lambda>s.
          Inr (if wasthere then count_allocated virt (- gPageSize) s else s))))))"

definition unmaprange :: "u32 \<Rightarrow> u32 \<Rightarrow> vmm \<Rightarrow> vmm kernel" where
  "unmaprange low high s = for_pages (\<lambda>low. low < high) vm_unmap low s"

definition mapZeroPage :: "u32 \<Rightarrow> map_options_t \<Rightarrow> vmm \<Rightarrow> (u32 \<times> vmm) kernel" where
  "mapZeroPage virt opts s =
     kbind (entry_update (pi_of_virt virt)
        (\<lambda>v. let v = te_set Present False v;
                 v = te_set Rw (o_rw opts) v;
                 v = te_set User (o_user opts) v
             in kbind (te_set_page gZeroPagePhysical v) (\<lambda>v.
                Inr (te_set Frompmm False (te_set Zpmap True v)))) s) (\<lambda>s. Inr (virt, s))"

definition mapZeroPage_range :: "u32 \<Rightarrow> u32 \<Rightarrow> map_options_t \<Rightarrow> vmm \<Rightarrow> (u32 \<times> vmm) kernel" where
  "mapZeroPage_range lo hi opts s =
     kbind (for_pages (\<lambda>i. i \<le> hi) (\<lambda>i s. kbind (mapZeroPage i opts s) (\<lambda>(_, s). Inr s)) lo s)
       (\<lambda>s. Inr (lo, s))"

definition isZeroPageAccess :: "u32 \<Rightarrow> vmm \<Rightarrow> bool kernel" where
  "isZeroPageAccess virt s =
     kbind (entry_load (pi_of_virt (page virt)) s) (\<lambda>v.
       Inr (te_page v = gZeroPagePhysical \<and> te_get Present v = False))"

definition isCOWAccess :: "u32 \<Rightarrow> u32 \<Rightarrow> vmm \<Rightarrow> bool kernel" where
  "isCOWAccess errcode virt s =
     kbind (entry_load (pi_of_virt (page virt)) s) (\<lambda>v.
       Inr (te_get Present v = True \<and> te_get Rw v = False \<and> te_get Cow v = True
            \<and> 0x3 = errcode AND 0x3))"

definition newoptions :: "u32 \<Rightarrow> map_options_t \<Rightarrow> vmm \<Rightarrow> (u32 \<times> vmm) kernel" where
  "newoptions virt options s =
     (let indices = pi_of_virt (page virt) in
      kbind (entry_load indices s) (\<lambda>v.
        if te_get Present v \<or> te_get Zpmap v
        then kbind (entry_update indices
               (\<lambda>v. let v = te_set Rw (o_rw options) v;
                        v = te_set User (o_user options) v;
                        v = te_set Cacheoff (\<not> o_cached options) v;
                        v = te_set Global (o_global options) v;
                        v = te_set Frompmm (o_frompmm options) v
                    in Inr (te_set Cow (o_cow options) v)) s) (\<lambda>s. Inr (virt, s))
        else Inr (gPageSize - 1, s)))"

definition markCOW :: "u32 \<Rightarrow> vmm \<Rightarrow> (u32 \<times> vmm) kernel" where
  "markCOW virt s =
     kbind (mapped_with virt map_options_default s) (\<lambda>r.
       case r of Some opts \<Rightarrow> newoptions virt (opts\<lparr>o_rw := False, o_cow := True\<rparr>) s
               | None \<Rightarrow> Inr (gPageSize - 1, s))"

text \<open>
  The search over paging indices visits at most $2^{20}$ of them before it is back at its start.
\<close>

fun find_page_loop :: "nat \<Rightarrow> PagingIndices \<Rightarrow> PagingIndices \<Rightarrow> vmm \<Rightarrow> u32 kernel" where
  "find_page_loop 0 ilow ihigh s = (if pi_lt ilow ihigh then Inl Diverges else Inr (gPageSize - 1))"
| "find_page_loop (Suc n) ilow ihigh s =
     (if pi_lt ilow ihigh
      then kbind (mapped (pi_address ilow) s) (\<lambda>m.
             if m then find_page_loop n (pi_incr ilow) ihigh s else Inr (pi_address ilow))
      else Inr (gPageSize - 1))"

definition findPageWithinRange :: "u32 \<Rightarrow> u32 \<Rightarrow> vmm \<Rightarrow> u32 kernel" where
  "findPageWithinRange low high s =
     find_page_loop 0x100000 (pi_of_virt low) (pi_of_virt high) s"

definition mapPageWithinRange :: "u32 \<Rightarrow> u32 \<Rightarrow> map_options_t \<Rightarrow> vmm \<Rightarrow> (u32 \<times> vmm) kernel" where
  "mapPageWithinRange low high options s =
     kbind (findPageWithinRange low high s) (\<lambda>pg.
       if pg AND 1 \<noteq> 0 then Inr (pg, s) else mapAnyPhysicalPage pg options s)"

record scratch_page_t =
  sp_address :: u32
  sp_owned :: bool

definition sp_bool :: "scratch_page_t \<Rightarrow> bool" where
  "sp_bool sp \<longleftrightarrow> sp_address sp \<noteq> 0 \<and> sp_address sp AND 1 = 0"

definition sp_move :: "scratch_page_t \<Rightarrow> scratch_page_t \<times> scratch_page_t" where
  "sp_move p = (\<lparr>sp_address = sp_address p, sp_owned = sp_owned p\<rparr>, p\<lparr>sp_address := 0\<rparr>)"

definition sp_reset :: "scratch_page_t \<Rightarrow> u32 \<times> scratch_page_t" where
  "sp_reset sp = (sp_address sp, sp\<lparr>sp_address := 0\<rparr>)"

definition sp_destroy :: "scratch_page_t \<Rightarrow> vmm \<Rightarrow> vmm kernel" where
  "sp_destroy sp s = (if sp_bool sp then vm_unmap (sp_address sp) s else Inr s)"

definition getScratchPage :: "map_options_t \<Rightarrow> vmm \<Rightarrow> (scratch_page_t \<times> vmm) kernel" where
  "getScratchPage op s =
     kbind (mapPageWithinRange (mScratchLow s) (mScratchHigh s) (op\<lparr>o_clear := True\<rparr>) s)
       (\<lambda>(a, s). Inr (\<lparr>sp_address = a, sp_owned = True\<rparr>, s))"

definition getScratchPage_phys :: "u32 \<Rightarrow> map_options_t \<Rightarrow> vmm \<Rightarrow> (scratch_page_t \<times> vmm) kernel" where
  "getScratchPage_phys phys op s =
     kbind (findPageWithinRange (mScratchLow s) (mScratchHigh s) s) (\<lambda>vaddr.
     kbind (vm_map phys vaddr op s) (\<lambda>(_, s).
     Inr (\<lparr>sp_address = vaddr, sp_owned = False\<rparr>, s)))"

definition clonePage :: "u32 \<Rightarrow> map_options_t \<Rightarrow> vmm \<Rightarrow> (u32 kernel_result_t \<times> vmm) kernel" where
  "clonePage virt options s =
     (let pg = page virt in
      kbind (phys_alloc (vm_pmm s)) (\<lambda>(phys_result, p).
      let s = s\<lparr>vm_pmm := p\<rparr> in
      kbind (using_result (\<lambda>r. Inr (kr_result_into r)) phys_result) (\<lambda>ok.
        case ok of
          Some phys \<Rightarrow>
            kbind (getScratchPage_phys phys map_options_default s) (\<lambda>(sp, s).
            kbind (memcopy pg (sp_address sp) (unat gPageSize) s) (\<lambda>s.
            kbind (sp_destroy sp s) (\<lambda>s.
            let opts = options\<lparr>o_frompmm := True, o_cow := False, o_rw := True\<rparr> in
            kbind (vm_unmap pg s) (\<lambda>s.
            kbind (vm_map phys pg opts s) (\<lambda>(_, s).
            Inr (kernel_success phys, s))))))
        | None \<Rightarrow> kbind (kernel_failure OUT_OF_MEMORY) (\<lambda>r. Inr (r, s)))))"

section \<open>What mapping and unmapping do\<close>

text \<open>
  Addresses below the window: the page tables themselves are not remapped there.
\<close>

definition below_window :: "u32 \<Rightarrow> bool" where
  "below_window v \<longleftrightarrow> v < 0xFFC00000"

lemma below_window_dir: "below_window v \<Longrightarrow> pi_dir (pi_of_virt v) \<noteq> 1023"
proof -
  assume "below_window v"
  then have "unat v < 4290772992" by (simp add: below_window_def word_less_nat_alt)
  then have "unat (pi_dir (pi_of_virt v)) \<noteq> 1023" by (simp add: unat_pi_dir less_mult_imp_div_less)
  then show ?thesis by auto
qed

abbreviation entry :: "vmm \<Rightarrow> u32 \<Rightarrow> u32" where
  "entry s v \<equiv> pte s (pi_of_virt v)"

lemma entry_set:
  assumes "paging_ok s"
  shows "entry (set_pte (pi_of_virt v) w s) u = (if page u = page v then w else entry s u)"
  using pte_set_pte [OF assms, of "pi_of_virt v" "pi_of_virt u" w]
  by (auto simp: pi_of_virt_eq_iff)

lemma entry_load_virt: "paging_ok s \<Longrightarrow> entry_load (pi_of_virt v) s = Inr (entry s v)"
  by (simp add: entry_load_ok)

lemma entry_update_virt:
  "paging_ok s \<Longrightarrow> entry_update (pi_of_virt v) f s = kbind (f (entry s v)) (\<lambda>w. Inr (set_pte (pi_of_virt v) w s))"
  by (simp add: entry_update_ok)

lemma paging_ok_set_entry:
  "paging_ok s \<Longrightarrow> below_window v \<Longrightarrow> paging_ok (set_pte (pi_of_virt v) w s)"
  by (simp add: paging_ok_set_pte below_window_dir)

text \<open>The counters of the process are read by no other part of the manager.\<close>

lemma count_allocated_fields [simp]:
  "vm_pmm (count_allocated v a s) = vm_pmm s" "vm_mem (count_allocated v a s) = vm_mem s"
  "vm_cr3 (count_allocated v a s) = vm_cr3 s" "mKernelHeap (count_allocated v a s) = mKernelHeap s"
  "mKernelRegions (count_allocated v a s) = mKernelRegions s"
  "mScratchLow (count_allocated v a s) = mScratchLow s" "mScratchHigh (count_allocated v a s) = mScratchHigh s"
  by (simp_all add: count_allocated_def)

lemma paging_same_mem:
  assumes "vm_mem s' = vm_mem s" and "vm_cr3 s' = vm_cr3 s"
  shows "pde s' = pde s" and "table_at s' = table_at s" and "pte s' = pte s"
    and "paging_ok s' = paging_ok s" and "paging_frames s' = paging_frames s" and "walk wr v s' = walk wr v s"
proof -
  show a: "pde s' = pde s" by (simp add: fun_eq_iff pde_def assms)
  then show b: "table_at s' = table_at s" by (simp add: fun_eq_iff table_at_def)
  then show c: "pte s' = pte s" by (simp add: fun_eq_iff pte_def assms)
  show "paging_ok s' = paging_ok s" by (simp add: paging_ok_def a b c assms)
  show "paging_frames s' = paging_frames s" by (simp add: paging_frames_def b assms)
  show "walk wr v s' = walk wr v s" by (simp add: walk_def a c)
qed

lemmas paging_count_allocated [simp] = paging_same_mem [OF count_allocated_fields(2,3)]

lemma paging_set_pmm [simp]:
  "pde (s\<lparr>vm_pmm := p\<rparr>) = pde s" "table_at (s\<lparr>vm_pmm := p\<rparr>) = table_at s" "pte (s\<lparr>vm_pmm := p\<rparr>) = pte s"
  "paging_ok (s\<lparr>vm_pmm := p\<rparr>) = paging_ok s" "paging_frames (s\<lparr>vm_pmm := p\<rparr>) = paging_frames s"
  "walk wr v (s\<lparr>vm_pmm := p\<rparr>) = walk wr v s"
  by (rule paging_same_mem; simp)+

definition entry_maps :: "map_options_t \<Rightarrow> u32 \<Rightarrow> u32 \<Rightarrow> bool" where
  "entry_maps options phys w \<longleftrightarrow>
     te_page w = phys \<and> te_get Present w \<and> te_get Rw w = o_rw options \<and> te_get User w = o_user options
   \<and> te_get Cacheoff w = (\<not> o_cached options) \<and> te_get Global w = o_global options
   \<and> te_get Frompmm w = o_frompmm options \<and> te_get Cow w = o_cow options"

lemma map_entry_ok:
  assumes "offset phys = 0"
  shows "\<exists>w. map_entry options rw phys v = Inr w \<and> entry_maps (options\<lparr>o_rw := rw\<rparr>) phys w"
  using assms by (simp add: map_entry_def te_set_page_aligned entry_maps_def te_get_set Let_def)

lemma entry_maps_set_rw: "entry_maps options phys w \<Longrightarrow> entry_maps (options\<lparr>o_rw := b\<rparr>) phys (te_set Rw b w)"
  by (simp add: entry_maps_def te_get_set)

lemma store_word_twice: "store_word p a w (store_word p a v m) = store_word p a w m"
  by (auto simp: store_word_def fun_eq_iff)

lemma set_slot_upd_other: "q \<noteq> p \<Longrightarrow> set_slot q i w (m(p := g)) = (set_slot q i w m)(p := g)"
  by (simp add: set_slot_def store_word_def fun_upd_twist)

lemma set_pte_put_page:
  assumes "paging_ok s" and "p \<notin> paging_frames s" and "pi_dir ix < 1024"
  shows "set_pte ix w (put_page p n f s) = put_page p n f (set_pte ix w s)"
proof -
  have "table_at s (pi_dir ix) \<noteq> p" using assms by (auto simp: paging_frames_def)
  then show ?thesis
    using assms by (simp add: set_pte_def paging_put_page) (simp add: put_page_def set_slot_upd_other cong: if_cong)
qed

lemma set_pte_twice:
  assumes "paging_ok s" and "pi_dir ix < 1024"
  shows "set_pte ix w (set_pte ix v s) = set_pte ix w s"
  using table_at_set_pte [OF assms, of v]
  by (simp add: set_pte_def set_slot_def store_word_twice)

text \<open>The state \<open>vm_map\<close> leaves, for the entry \<open>w\<close> it writes.\<close>

definition after_map :: "u32 \<Rightarrow> u32 \<Rightarrow> map_options_t \<Rightarrow> u32 \<Rightarrow> vmm \<Rightarrow> vmm" where
  "after_map phys virt options w s =
     count_allocated virt gPageSize
       (if o_clear options then put_page phys 4096 (\<lambda>_. 0) (set_pte (pi_of_virt virt) w s)
        else set_pte (pi_of_virt virt) w s)"

lemma vm_map_ok:
  assumes ok: "paging_ok s" and v: "below_window virt" and p: "offset phys = 0"
    and c: "o_clear options \<longrightarrow> offset virt = 0 \<and> phys \<notin> paging_frames s"
  shows "\<exists>w. entry_maps options phys w \<and> vm_map phys virt options s = Inr (virt, after_map phys virt options w s)"
proof -
  let ?ix = "pi_of_virt virt" and ?rw = "o_clear options \<and> \<not> o_rw options \<or> o_rw options"
  obtain w where w: "map_entry options ?rw phys (entry s virt) = Inr w"
    and ew: "entry_maps (options\<lparr>o_rw := ?rw\<rparr>) phys w"
    using map_entry_ok [OF p] by blast
  let ?t = "set_pte ?ix w s"
  have okt: "paging_ok ?t" using ok v by (rule paging_ok_set_entry)
  show ?thesis
  proof (cases "o_clear options")
    case False
    then have "?rw = o_rw options" by auto
    then show ?thesis
      using False w ew ok
      by (auto simp: vm_map_def entry_update_virt after_map_def Let_def)
  next
    case True
    have nf: "phys \<notin> paging_frames ?t" using c True ok by (simp add: paging_frames_set_pte)
    have "de_get DPresent (pde ?t (pi_dir ?ix)) \<and> de_get DRw (pde ?t (pi_dir ?ix))"
      using okt by (simp add: paging_ok_def)
    then have "walk True virt ?t = Inr phys"
      using ew True ok by (simp add: walk_def entry_set entry_maps_def Let_def)
    then have bz: "bzero virt (unat gPageSize) ?t = Inr (put_page phys 4096 (\<lambda>_. 0) ?t)"
      using bzero_page [OF _ _ nf, of virt 4096] c True by (simp add: gPageSize_def)
    let ?u = "put_page phys 4096 (\<lambda>_. 0) ?t"
    have oku: "paging_ok ?u" using okt nf by (simp add: paging_put_page)
    show ?thesis
    proof (cases "o_rw options")
      case rw: True
      then have "entry_maps options phys w" using ew by (simp add: entry_maps_def)
      then show ?thesis
        using True rw w ok bz by (auto simp: vm_map_def entry_update_virt after_map_def Let_def)
    next
      case ro: False
      let ?w = "te_set Rw False (entry ?u virt)"
      have eu: "entry ?u virt = w" using okt nf ok by (simp add: paging_put_page entry_set)
      have "set_pte ?ix ?w ?u = put_page phys 4096 (\<lambda>_. 0) (set_pte ?ix ?w s)"
        using okt nf ok by (simp add: set_pte_put_page set_pte_twice)
      moreover have "entry_maps options phys ?w"
        using entry_maps_set_rw [OF ew, of False] ro eu by (simp add: entry_maps_def)
      ultimately show ?thesis
        using True ro w ok bz oku by (auto simp: vm_map_def entry_update_virt after_map_def Let_def)
    qed
  qed
qed

lemma after_map_fields [simp]:
  "vm_pmm (after_map phys virt options w s) = vm_pmm s"
  "vm_cr3 (after_map phys virt options w s) = vm_cr3 s"
  "mKernelHeap (after_map phys virt options w s) = mKernelHeap s"
  "mKernelRegions (after_map phys virt options w s) = mKernelRegions s"
  "mScratchLow (after_map phys virt options w s) = mScratchLow s"
  "mScratchHigh (after_map phys virt options w s) = mScratchHigh s"
  by (simp_all add: after_map_def)

lemma after_map_paging:
  assumes "paging_ok s" and "below_window virt" and "o_clear options \<longrightarrow> phys \<notin> paging_frames s"
  shows "paging_ok (after_map phys virt options w s)"
    and "entry (after_map phys virt options w s) u = (if page u = page virt then w else entry s u)"
    and "table_at (after_map phys virt options w s) d = table_at s d \<or> \<not> d < 1024"
    and "paging_frames (after_map phys virt options w s) = paging_frames s"
proof -
  let ?t = "set_pte (pi_of_virt virt) w s"
  have t: "paging_ok ?t" "paging_frames ?t = paging_frames s" "table_at ?t = table_at s"
    using assms by (simp_all add: paging_ok_set_entry paging_frames_set_pte table_at_set_pte)
  show "paging_ok (after_map phys virt options w s)"
    "entry (after_map phys virt options w s) u = (if page u = page virt then w else entry s u)"
    "paging_frames (after_map phys virt options w s) = paging_frames s"
    "table_at (after_map phys virt options w s) d = table_at s d \<or> \<not> d < 1024"
    using t assms by (auto simp: after_map_def paging_put_page entry_set)
qed

lemma after_map_mem:
  assumes "paging_ok s" and "q \<notin> paging_frames s" and "unat a < 4096"
  shows "vm_mem (after_map phys virt options w s) q a = (if o_clear options \<and> q = phys then 0 else vm_mem s q a)"
proof -
  have "table_at s (pi_dir (pi_of_virt virt)) \<noteq> q" using assms by (auto simp: paging_frames_def)
  then have "vm_mem (set_pte (pi_of_virt virt) w s) q = vm_mem s q" by (simp add: vm_mem_set_pte)
  then show ?thesis using assms(3) by (auto simp: after_map_def put_page_def)
qed

text \<open>Reading the mapping of an address, in terms of its entry.\<close>

lemma read_entry_ok:
  assumes "paging_ok s"
  shows "mapping v s = Inr (if te_get Present (entry s v) then te_page (entry s v) + offset v else 0)"
    and "mapped_with v opts s = Inr (if te_get Present (entry s v) then Some (mapped_options (entry s v) opts) else None)"
    and "mapped v s = Inr (te_get Present (entry s v))"
    and "zeroPageMapped v opts s = Inr (if \<not> te_get Present (entry s v) \<and> te_get Zpmap (entry s v)
           then Some (mapped_options (entry s v) opts) else None)"
    and "isZeroPageAccess v s = Inr (te_page (entry s v) = gZeroPagePhysical \<and> \<not> te_get Present (entry s v))"
    and "isCOWAccess err v s = Inr (te_get Present (entry s v) \<and> \<not> te_get Rw (entry s v) \<and> te_get Cow (entry s v)
           \<and> err AND 0x3 = 0x3)"
  using assms
  by (auto simp: mapping_def mapped_with_def mapped_def zeroPageMapped_def isZeroPageAccess_def
      isCOWAccess_def entry_load_virt Let_def)

lemma mapped_options_entry:
  "entry_maps options phys w \<Longrightarrow> mapped_options w opts = options\<lparr>o_clear := o_clear opts\<rparr>"
  by (simp add: mapped_options_def entry_maps_def)

section \<open>Unmapping\<close>

definition after_unmap :: "u32 \<Rightarrow> u32 \<Rightarrow> pmm \<Rightarrow> vmm \<Rightarrow> vmm" where
  "after_unmap virt w p s =
     (let t = set_pte (pi_of_virt virt) w (s\<lparr>vm_pmm := p\<rparr>) in
      if te_get Present (entry s virt) then count_allocated virt (- gPageSize) t else t)"

definition entry_cleared :: "u32 \<Rightarrow> bool" where
  "entry_cleared w \<longleftrightarrow> te_page w = 0 \<and> \<not> te_get Present w \<and> \<not> te_get Frompmm w \<and> \<not> te_get Zpmap w"

lemma offset_0 [simp]: "offset 0 = 0"
  by (simp add: offset_def)

lemma set_pte_set_pmm: "set_pte ix w (s\<lparr>vm_pmm := p\<rparr>) = (set_pte ix w s)\<lparr>vm_pmm := p\<rparr>"
  by (simp add: set_pte_def)

lemma vm_unmap_ok:
  assumes ok: "paging_ok s" and v: "below_window virt"
    and there: "te_get Frompmm (entry s virt) \<longrightarrow> te_get Present (entry s virt)"
    and rel: "if te_get Frompmm (entry s virt) then phys_dealloc (te_page (entry s virt)) (vm_pmm s) = Inr p
      else p = vm_pmm s"
  shows "\<exists>w. entry_cleared w \<and> vm_unmap virt s = Inr (after_unmap virt w p s)"
proof -
  let ?ix = "pi_of_virt virt"
  let ?w = "te_set Frompmm False (te_set Zpmap False (te_set Present False (entry s virt)))"
  have okt: "paging_ok (set_pte ?ix ?w s)" "entry (set_pte ?ix ?w s) virt = ?w"
    using ok v by (simp_all add: paging_ok_set_entry entry_set)
  have w: "te_set_page 0 ?w = Inr (offset ?w OR 0)" by (rule te_set_page_aligned) simp
  have "entry_cleared (offset ?w OR 0)"
    using te_page_set_page [of 0 ?w] te_get_set_page [of 0 _ ?w]
    by (simp add: entry_cleared_def te_get_set)
  moreover have "vm_unmap virt s = Inr (after_unmap virt (offset ?w OR 0) p s)"
  proof (cases "te_get Frompmm (entry s virt)")
    case True
    then show ?thesis
      using ok okt there rel w
      by (simp add: vm_unmap_def entry_load_virt entry_update_virt Let_def after_unmap_def vm_dealloc_def
          set_pte_set_pmm set_pte_twice)
  next
    case False
    then show ?thesis
      using ok okt rel w
      by (simp add: vm_unmap_def entry_load_virt entry_update_virt Let_def after_unmap_def set_pte_twice)
  qed
  ultimately show ?thesis by blast
qed

lemma vm_unmap_panics:
  assumes "paging_ok s" and "te_get Frompmm (entry s virt)" and "\<not> te_get Present (entry s virt)"
  shows "vm_unmap virt s = Inl (Panic ''non-present page cannot be backed by physical memory'')"
  using assms by (simp add: vm_unmap_def entry_load_virt)

lemma after_unmap_fields [simp]:
  "vm_pmm (after_unmap virt w p s) = p" "vm_cr3 (after_unmap virt w p s) = vm_cr3 s"
  "mKernelHeap (after_unmap virt w p s) = mKernelHeap s"
  "mKernelRegions (after_unmap virt w p s) = mKernelRegions s"
  "mScratchLow (after_unmap virt w p s) = mScratchLow s" "mScratchHigh (after_unmap virt w p s) = mScratchHigh s"
  by (simp_all add: after_unmap_def Let_def)

lemma after_unmap_paging:
  assumes "paging_ok s" and "below_window virt"
  shows "paging_ok (after_unmap virt w p s)"
    and "entry (after_unmap virt w p s) u = (if page u = page virt then w else entry s u)"
    and "table_at (after_unmap virt w p s) = table_at s"
    and "paging_frames (after_unmap virt w p s) = paging_frames s"
  using assms
  by (simp_all add: after_unmap_def paging_ok_set_entry entry_set table_at_set_pte paging_frames_set_pte Let_def)

lemma after_unmap_mem:
  assumes "paging_ok s" and "q \<notin> paging_frames s"
  shows "vm_mem (after_unmap virt w p s) q = vm_mem s q"
proof -
  have "table_at s (pi_dir (pi_of_virt virt)) \<noteq> q" using assms by (auto simp: paging_frames_def)
  then show ?thesis by (simp add: after_unmap_def vm_mem_set_pte Let_def)
qed

lemma example_entry: "below_window v \<Longrightarrow> entry example_vmm v = 0"
  using example_pte [of "pi_of_virt v"] below_window_dir [of v] by simp

section \<open>Properties of mapping\<close>

text \<open>C8: \<open>map\<close> makes every address of the page resolve to the frame with the options asked for, changes the
  translation of no other page and the contents of no frame but the page tables and, when asked to
  clear, the frame it maps; the allocator is untouched and the page table window stays intact.\<close>

theorem vm_map_spec:
  assumes "paging_ok s" and "below_window virt" and "offset phys = 0"
    and "o_clear options \<longrightarrow> offset virt = 0 \<and> phys \<notin> paging_frames s"
  shows "\<exists>s'. vm_map phys virt options s = Inr (virt, s') \<and> paging_ok s' \<and> vm_pmm s' = vm_pmm s
    \<and> (\<forall>u opts. page u = page virt \<longrightarrow> mapping u s' = Inr (phys + offset u)
          \<and> mapped_with u opts s' = Inr (Some (options\<lparr>o_clear := o_clear opts\<rparr>)))
    \<and> (\<forall>u opts. page u \<noteq> page virt \<longrightarrow> mapping u s' = mapping u s
          \<and> mapped_with u opts s' = mapped_with u opts s \<and> zeroPageMapped u opts s' = zeroPageMapped u opts s)
    \<and> (\<forall>q a. q \<notin> paging_frames s \<and> unat a < 4096 \<longrightarrow>
          vm_mem s' q a = (if o_clear options \<and> q = phys then 0 else vm_mem s q a))"
proof -
  obtain w where w: "entry_maps options phys w"
    and m: "vm_map phys virt options s = Inr (virt, after_map phys virt options w s)" (is "_ = Inr (_, ?s')")
    using vm_map_ok [OF assms] by blast
  note p = after_map_paging [OF assms(1,2), of options phys w]
  have ok: "paging_ok ?s'" using p(1) assms(4) by blast
  have e: "entry ?s' u = (if page u = page virt then w else entry s u)" for u
    using p(2) assms(4) by blast
  have same: "mapping u ?s' = Inr (phys + offset u) \<and> mapped_with u opts ?s' = Inr (Some (options\<lparr>o_clear := o_clear opts\<rparr>))"
    if "page u = page virt" for u opts
    using w that by (simp add: read_entry_ok [OF ok] e mapped_options_entry [OF w]) (simp add: entry_maps_def)
  have other: "mapping u ?s' = mapping u s \<and> mapped_with u opts ?s' = mapped_with u opts s
      \<and> zeroPageMapped u opts ?s' = zeroPageMapped u opts s" if "page u \<noteq> page virt" for u opts
    using that by (simp add: read_entry_ok [OF ok] read_entry_ok [OF assms(1)] e)
  show ?thesis
    using m ok same other after_map_mem [OF assms(1)] by (intro exI [of _ ?s']) simp
qed

lemma vm_map_witness:
  "\<exists>s'. vm_map 0x600000 0x8000 map_options_userspace example_vmm = Inr (0x8000, s') \<and> paging_ok s'
     \<and> mapping 0x8123 s' = Inr 0x600123 \<and> mapping 0xA000 s' = mapping 0xA000 example_vmm"
proof -
  have "below_window 0x8000" "offset 0x600000 = 0" "page 0x8123 = 0x8000" "page 0x8000 = 0x8000" "page 0xA000 = 0xA000" "offset 0x8123 = 0x123"
    by (simp_all add: below_window_def offset_def page_def gPageSize_def)
  then show ?thesis
    using vm_map_spec [OF example_paging_ok, of "0x8000" "0x600000" map_options_userspace]
    by (auto simp: map_options_userspace_def map_options_def)
qed

text \<open>C9: \<open>unmap\<close> of a page that is mapped from the page allocator releases exactly one reference of its frame;
  of any other page it releases none. Afterwards no address of the page is mapped, neither to memory nor to
  the zero page, every other page translates as before and all memory outside the page tables is as it was.\<close>

theorem vm_unmap_spec:
  assumes "paging_ok s" and "below_window virt" and "pmm_inv (vm_pmm s)"
    and "te_get Frompmm (entry s virt) \<longrightarrow>
      te_get Present (entry s virt) \<and> 0 < refs (vm_pmm s) (index (te_page (entry s virt)))"
  shows "\<exists>s'. vm_unmap virt s = Inr s' \<and> paging_ok s' \<and> pmm_inv (vm_pmm s')
    \<and> refs (vm_pmm s') = (if te_get Frompmm (entry s virt)
        then (refs (vm_pmm s))(index (te_page (entry s virt)) := refs (vm_pmm s) (index (te_page (entry s virt))) - 1)
        else refs (vm_pmm s))
    \<and> (\<forall>u opts. page u = page virt \<longrightarrow> mapping u s' = Inr 0 \<and> mapped_with u opts s' = Inr None
          \<and> zeroPageMapped u opts s' = Inr None)
    \<and> (\<forall>u opts. page u \<noteq> page virt \<longrightarrow> mapping u s' = mapping u s
          \<and> mapped_with u opts s' = mapped_with u opts s \<and> zeroPageMapped u opts s' = zeroPageMapped u opts s)
    \<and> (\<forall>q. q \<notin> paging_frames s \<longrightarrow> vm_mem s' q = vm_mem s q)"
proof -
  let ?e = "entry s virt"
  obtain p where p: "if te_get Frompmm ?e then phys_dealloc (te_page ?e) (vm_pmm s) = Inr p else p = vm_pmm s"
    and inv: "pmm_inv p"
    and refs: "refs p = (if te_get Frompmm ?e
        then (refs (vm_pmm s))(index (te_page ?e) := refs (vm_pmm s) (index (te_page ?e)) - 1) else refs (vm_pmm s))"
    using assms(3,4) phys_dealloc_ok [OF assms(3), of "te_page ?e"] by (cases "te_get Frompmm ?e") auto
  obtain w where w: "entry_cleared w" and u: "vm_unmap virt s = Inr (after_unmap virt w p s)" (is "_ = Inr ?s'")
    using vm_unmap_ok [OF assms(1,2) _ p] assms(4) by blast
  note pg = after_unmap_paging [OF assms(1,2), of w p]
  have same: "mapping u ?s' = Inr 0 \<and> mapped_with u opts ?s' = Inr None \<and> zeroPageMapped u opts ?s' = Inr None"
    if "page u = page virt" for u opts
    using w that by (simp add: read_entry_ok [OF pg(1)] pg(2) entry_cleared_def)
  have other: "mapping u ?s' = mapping u s \<and> mapped_with u opts ?s' = mapped_with u opts s
      \<and> zeroPageMapped u opts ?s' = zeroPageMapped u opts s" if "page u \<noteq> page virt" for u opts
    using that by (simp add: read_entry_ok [OF pg(1)] read_entry_ok [OF assms(1)] pg(2))
  show ?thesis
    using u pg(1) inv refs same other after_unmap_mem [OF assms(1)] by (intro exI [of _ ?s']) simp
qed

lemma vm_unmap_witness:
  "\<exists>s'. vm_unmap 0x8000 (set_pte (pi_of_virt 0x8000) (0x500000 OR 0x207) example_vmm) = Inr s'
     \<and> refs (vm_pmm s') 0x500 = 0 \<and> mapping 0x8123 s' = Inr 0"
proof -
  let ?s = "set_pte (pi_of_virt 0x8000) (0x500000 OR 0x207) example_vmm"
  have bw: "below_window 0x8000" by (simp add: below_window_def)
  have "paging_ok ?s" "entry ?s 0x8000 = 0x500000 OR 0x207"
    using example_paging_ok bw by (simp_all add: paging_ok_set_entry entry_set)
  moreover have "te_page (0x500000 OR 0x207) = 0x500000" "te_get Frompmm (0x500000 OR 0x207)" "te_get Present (0x500000 OR 0x207)"
    "index 0x500000 = 0x500" "page 0x8123 = page 0x8000"
    by (simp_all add: te_page_def te_get_def field_get_def index_def page_def gPageSize_def)
  moreover have "vm_pmm ?s = example_pmm" "refs example_pmm 0x500 = 1"
    by (simp_all add: example_vmm_def) (simp add: refs_def example_pmm_def)
  ultimately show ?thesis
    using vm_unmap_spec [of ?s "0x8000"] bw example_pmm_inv by auto
qed

end
