(* ===== verification/Cow.thy ===== *)
theory Cow
  imports Virt
begin

text \<open>
  The search for an unmapped page, scratch pages and the copy of a page on a write fault
  (\<open>findPageWithinRange\<close>, \<open>getScratchPage\<close>, \<open>clonePage\<close> of \<open>src/kernel/src/mm/virt.cpp\<close>).
\<close>

section \<open>Searching a range\<close>

lemma page_number_next:
  fixes v :: u32
  assumes "unat v + 4096 < 2 ^ 32"
  shows "unat (v + 4096) div 4096 = Suc (unat v div 4096)"
  using assms by (simp add: unat_word_ariths)

lemma pi_incr_virt:
  assumes "unat v + 4096 < 2 ^ 32"
  shows "pi_incr (pi_of_virt v) = pi_of_virt (v + gPageSize)"
proof -
  let ?q = "unat v div 4096"
  have q: "?q div 1024 < 1024" "Suc ?q < 1048576" using assms by auto
  have d: "unat x div 4194304 = unat x div 4096 div 1024" for x :: u32
    by (simp add: div_mult2_eq [symmetric])
  have t: "pi_tbl (pi_of_virt v) + 1 = 1024 \<longleftrightarrow> Suc (?q mod 1024) = 1024"
    by (simp add: word_unat_eq_iff unat_word_ariths unat_pi_tbl)
  have td: "unat (pi_tbl (pi_of_virt v) + 1) = Suc (?q mod 1024)"
    by (simp add: unat_word_ariths unat_pi_tbl)
  have dd: "unat (pi_dir (pi_of_virt v) + 1) = Suc (?q div 1024)"
    using q(1) by (simp add: unat_word_ariths unat_pi_dir d)
  have de: "pi_dir (pi_of_virt v) + 1 = 1024 \<longleftrightarrow> Suc (?q div 1024) = 1024"
    by (simp add: word_unat_eq_iff dd)
  show ?thesis
  proof (cases "Suc (?q mod 1024) = 1024")
    case True
    then have "Suc ?q div 1024 = Suc (?q div 1024)" "Suc ?q mod 1024 = 0"
      by (simp_all add: div_Suc mod_Suc)
    moreover from this have "Suc (?q div 1024) \<noteq> 1024" using q(2) by linarith
    ultimately show ?thesis
      using True page_number_next [OF assms]
      by (simp add: pi_incr_def t de gPageSize_def) (simp add: word_unat_eq_iff dd unat_pi_dir unat_pi_tbl d)
  next
    case False
    then have "Suc ?q div 1024 = ?q div 1024" "Suc ?q mod 1024 = Suc (?q mod 1024)"
      by (simp_all add: div_Suc mod_Suc)
    then show ?thesis
      using False page_number_next [OF assms]
      by (simp add: pi_incr_def t gPageSize_def) (simp add: word_unat_eq_iff td unat_pi_dir unat_pi_tbl d)
  qed
qed

lemma pi_lt_pages:
  assumes "a \<le> b"
  shows "pi_lt (pi_of_virt a) (pi_of_virt b) \<longleftrightarrow> unat a div 4096 < unat b div 4096"
proof -
  have d: "unat x div 4194304 = unat x div 4096 div 1024" for x :: u32
    by (simp add: div_mult2_eq [symmetric])
  define q r where "q = unat a div 4096" and "r = unat b div 4096"
  have "q \<le> r" using assms by (simp add: q_def r_def word_le_nat_alt div_le_mono)
  have "q div 1024 < r div 1024 \<or> q mod 1024 < r mod 1024 \<longleftrightarrow> q < r"
  proof (cases "q div 1024 = r div 1024")
    case True
    then have "q mod 1024 < r mod 1024 \<longleftrightarrow> q < r"
      using div_mult_mod_eq [of q 1024] div_mult_mod_eq [of r 1024] by linarith
    then show ?thesis using True by simp
  next
    case False
    then have "q div 1024 < r div 1024" using \<open>q \<le> r\<close> by (simp add: div_le_mono le_neq_implies_less)
    moreover then have "q < r" using \<open>q \<le> r\<close> by (metis le_neq_implies_less less_irrefl)
    ultimately show ?thesis by simp
  qed
  then show ?thesis
    by (simp add: pi_lt_def word_less_nat_alt unat_pi_dir unat_pi_tbl d q_def r_def)
qed

definition page_count :: "u32 \<Rightarrow> u32 \<Rightarrow> nat" where
  "page_count low high = unat high div 4096 - unat low div 4096"

lemma unat_next_page:
  fixes a :: u32
  assumes "unat a div 4096 < unat b div 4096" and "offset a = 0"
  shows "unat a + 4096 < 2 ^ 32" and "a + gPageSize \<le> b" and "offset (a + gPageSize) = 0"
    and "page_count a b = Suc (page_count (a + gPageSize) b)"
proof -
  have m: "unat a mod 4096 = 0" using assms(2) by (metis unat_eq_zero unat_offset)
  then have a: "unat a + 4096 \<le> unat b"
    using assms(1) div_mult_mod_eq [of "unat a" 4096] div_mult_mod_eq [of "unat b" 4096] by linarith
  then show w: "unat a + 4096 < 2 ^ 32" using u32_bound [of b] by simp
  then have u: "unat (a + gPageSize) = unat a + 4096" by (simp add: gPageSize_def unat_word_ariths)
  then show "a + gPageSize \<le> b" using a by (simp add: word_le_nat_alt)
  have "unat (offset (a + gPageSize)) = 0" using m by (simp add: unat_offset u)
  then show "offset (a + gPageSize) = 0" by (simp add: unat_eq_zero)
  show "page_count a b = Suc (page_count (a + gPageSize) b)"
    using assms(1) by (simp add: page_count_def u)
qed

lemma find_page_loop_find:
  assumes "paging_ok s" and "low \<le> high" and "offset low = 0" and "page_count low high \<le> n"
  shows "find_page_loop n (pi_of_virt low) (pi_of_virt high) s =
    Inr (case List.find (\<lambda>a. \<not> te_get Present (entry s a)) (map (page_at low) [0..<page_count low high]) of
           Some a \<Rightarrow> a | None \<Rightarrow> gPageSize - 1)"
  using assms(2-4)
proof (induction n arbitrary: low)
  case 0
  then have "\<not> unat low div 4096 < unat high div 4096" by (simp add: page_count_def)
  then show ?case using 0 by (simp add: pi_lt_pages)
next
  case (Suc n)
  show ?case
  proof (cases "unat low div 4096 < unat high div 4096")
    case True
    note nx = unat_next_page [OF True Suc.prems(2)]
    let ?l = "low + gPageSize"
    have list: "map (page_at low) [0..<page_count low high] = low # map (page_at ?l) [0..<page_count ?l high]"
      unfolding nx(4) by (rule page_at_Cons)
    have "find_page_loop n (pi_of_virt ?l) (pi_of_virt high) s =
      Inr (case List.find (\<lambda>a. \<not> te_get Present (entry s a)) (map (page_at ?l) [0..<page_count ?l high]) of
           Some a \<Rightarrow> a | None \<Rightarrow> gPageSize - 1)"
      using nx Suc.prems(3) by (intro Suc.IH) simp_all
    then show ?thesis
      using True Suc.prems assms(1) nx(1)
      by (simp add: list pi_lt_pages pi_address_of_virt page_aligned read_entry_ok pi_incr_virt)
  next
    case False
    then show ?thesis using Suc.prems by (simp add: pi_lt_pages page_count_def)
  qed
qed

lemma findPageWithinRange_find:
  assumes "paging_ok s" and "low \<le> high"
  shows "findPageWithinRange low high s =
    Inr (case List.find (\<lambda>a. \<not> te_get Present (entry s a)) (map (page_at (page low)) [0..<page_count low high]) of
           Some a \<Rightarrow> a | None \<Rightarrow> 0xFFF)"
proof -
  have le: "page low \<le> high" using assms(2) by (simp add: word_le_nat_alt unat_page)
  have c: "page_count (page low) high = page_count low high"
    by (simp add: page_count_def unat_page)
  have "page_count low high \<le> 1048576"
    using u32_bound [of high] by (simp add: page_count_def)
  then have "find_page_loop 1048576 (pi_of_virt (page low)) (pi_of_virt high) s =
    Inr (case List.find (\<lambda>a. \<not> te_get Present (entry s a)) (map (page_at (page low)) [0..<page_count low high]) of
           Some a \<Rightarrow> a | None \<Rightarrow> gPageSize - 1)"
    using find_page_loop_find [OF assms(1) le] by (simp add: c)
  then show ?thesis
    by (simp add: findPageWithinRange_def gPageSize_def split: option.splits)
qed

text \<open>C10: \<open>findPageWithinRange\<close> returns the first page of the range that is not mapped, and the odd
  value 0xFFF when every page of the range is mapped; the loop ends.\<close>

theorem findPageWithinRange_spec:
  assumes "paging_ok s" and "low \<le> high"
  shows "findPageWithinRange low high s =
    Inr (case List.find (\<lambda>a. mapped a s = Inr False) (map (page_at (page low)) [0..<page_count low high]) of
           Some a \<Rightarrow> a | None \<Rightarrow> 0xFFF)"
  using findPageWithinRange_find [OF assms] by (simp add: read_entry_ok [OF assms(1)])

lemma findPageWithinRange_witness:
  "0xC8000000 \<le> (0xC8002000 :: u32) \<and> findPageWithinRange 0xC8000000 0xC8002000 example_vmm = Inr 0xC8000000"
proof -
  have l: "(0xC8000000 :: u32) \<le> 0xC8002000" "page 0xC8000000 = (0xC8000000 :: u32)" "below_window 0xC8000000"
    by (simp_all add: page_def gPageSize_def below_window_def)
  have "page_count 0xC8000000 0xC8002000 = 2" by (simp add: page_count_def)
  then have "map (page_at 0xC8000000) [0..<page_count 0xC8000000 0xC8002000] = [0xC8000000, 0xC8001000]"
    by (simp add: page_at_def gPageSize_def numeral_2_eq_2)
  moreover have "mapped 0xC8000000 example_vmm = Inr False"
    using l(3) by (simp add: read_entry_ok example_paging_ok example_entry te_get_def field_get_def)
  ultimately show ?thesis
    using findPageWithinRange_spec [OF example_paging_ok l(1)] l by simp
qed

section \<open>Scratch pages and copy on write\<close>

definition scratch_free :: "vmm \<Rightarrow> u32 \<Rightarrow> bool" where
  "scratch_free s v \<longleftrightarrow>
     findPageWithinRange (mScratchLow s) (mScratchHigh s) s = Inr v
   \<and> v \<noteq> 0 \<and> offset v = 0 \<and> iskernel v \<and> below_window v"

lemma getScratchPage_phys_ok:
  assumes "paging_ok s" and "scratch_free s v" and "offset phys = 0"
    and "o_clear op \<longrightarrow> phys \<notin> paging_frames s"
  shows "\<exists>w. entry_maps op phys w \<and>
    getScratchPage_phys phys op s = Inr (\<lparr>sp_address = v, sp_owned = False\<rparr>, after_map phys v op w s)"
  using vm_map_ok [OF assms(1) _ assms(3), of v op] assms(2,4)
  by (auto simp: getScratchPage_phys_def scratch_free_def)

lemma even_aligned: "offset v = 0 \<Longrightarrow> v AND 1 = 0"
  by (rule bit_word_eqI) (auto simp: bit_and_iff bit_1_iff dest: aligned_low_bits)

lemma sp_destroy_ok:
  assumes "paging_ok s" and "v \<noteq> 0" and "offset v = 0" and "below_window v"
    and "\<not> te_get Frompmm (entry s v)"
  shows "\<exists>w. entry_cleared w \<and>
    sp_destroy \<lparr>sp_address = v, sp_owned = ow\<rparr> s = Inr (after_unmap v w (vm_pmm s) s)"
  using vm_unmap_ok [OF assms(1,4), of "vm_pmm s"] assms(2,3,5) even_aligned [OF assms(3)]
  by (auto simp: sp_destroy_def sp_bool_def)

lemma offset_offalignment: "offset b = offalignment b"
  by (simp add: offset_def offalignment_def)

lemma phys_alloc_taken:
  assumes "pmm_inv s" and "phys_alloc s = Inr (r, s')" and "kr_value r = Inr b"
  shows "pmm_inv s'" and "offset b = 0" and "page_avail s (index b)" and "refs s' = (refs s)(index b := 1)"
    and "is_usable s' = is_usable s"
  using phys_alloc_ok(2) [OF assms] by (simp_all add: offset_offalignment)

lemma walk_entry:
  assumes "paging_ok s" and "te_get Present (entry s v)" and "wr \<longrightarrow> te_get Rw (entry s v)"
  shows "walk wr v s = Inr (te_page (entry s v))"
  using assms by (simp add: walk_def paging_ok_def Let_def)

lemma memory_off_tables:
  assumes "paging_ok s" and "q \<notin> paging_frames s"
  shows "vm_mem (set_pte (pi_of_virt v) w s) q = vm_mem s q"
  using after_unmap_mem [OF assms, of v w "vm_pmm s"] by (simp add: after_unmap_def Let_def split: if_splits)

text \<open>The copy made in the scratch page, then the scratch page let go.\<close>

lemma copy_through_scratch:
  assumes ok: "paging_ok s" and sc: "scratch_free s v" and ph: "offset phys = 0" "phys \<notin> paging_frames s"
    and pg: "offset pg = 0" "page v \<noteq> page pg" and there: "te_get Present (entry s pg)"
    and old: "te_page (entry s pg) \<noteq> phys" "te_page (entry s pg) \<notin> paging_frames s"
  shows "\<exists>sp s1 s2 s'. getScratchPage_phys phys map_options_default s = Inr (sp, s1)
    \<and> memcopy pg (sp_address sp) (unat gPageSize) s1 = Inr s2 \<and> sp_destroy sp s2 = Inr s'
    \<and> paging_ok s' \<and> paging_frames s' = paging_frames s \<and> vm_pmm s' = vm_pmm s
    \<and> (\<forall>u. page u \<noteq> page v \<longrightarrow> entry s' u = entry s u) \<and> entry_cleared (entry s' v)
    \<and> (\<forall>a. unat a < 4096 \<longrightarrow> vm_mem s' phys a = vm_mem s (te_page (entry s pg)) a)
    \<and> (\<forall>q. q \<notin> paging_frames s \<and> q \<noteq> phys \<longrightarrow> vm_mem s' q = vm_mem s q)"
proof -
  have v: "offset v = 0" "v \<noteq> 0" "below_window v" using sc by (auto simp: scratch_free_def)
  let ?o = map_options_default and ?old = "te_page (entry s pg)"
  have nc: "\<not> o_clear ?o" "o_rw ?o" "\<not> o_frompmm ?o" by (simp_all add: map_options_default_def)
  obtain w where w: "entry_maps ?o phys w" and g: "getScratchPage_phys phys ?o s =
      Inr (\<lparr>sp_address = v, sp_owned = False\<rparr>, after_map phys v ?o w s)" (is "_ = Inr (?sp, ?s1)")
    using getScratchPage_phys_ok [OF ok sc ph(1)] nc by blast
  note m1 = after_map_paging [OF ok v(3), of ?o phys w]
  have ok1: "paging_ok ?s1" and f1: "paging_frames ?s1 = paging_frames s"
    and e1: "entry ?s1 u = (if page u = page v then w else entry s u)" for u using m1 nc by blast+
  have mem1: "vm_mem ?s1 q = vm_mem s q" if "q \<notin> paging_frames s" for q
    using that ok nc by (simp add: after_map_def memory_off_tables)
  let ?s2 = "put_page phys 4096 (vm_mem ?s1 ?old) ?s1"
  have cp: "memcopy pg v (unat gPageSize) ?s1 = Inr ?s2"
  proof -
    have "walk False pg ?s1 = Inr ?old" "walk True v ?s1 = Inr phys"
      using ok1 there w pg nc by (simp_all add: walk_entry e1 entry_maps_def)
    then show ?thesis
      using memcopy_page [of pg ?s1 ?old v phys 4096] pg(1) v(1) ph(2) old f1 by (simp add: gPageSize_def)
  qed
  have p2: "paging_ok ?s2" "paging_frames ?s2 = paging_frames s" "entry ?s2 u = entry ?s1 u" for u
    using ok1 ph(2) f1 by (simp_all add: paging_put_page)
  have "\<not> te_get Frompmm (entry ?s2 v)" using w nc p2(3) e1 by (simp add: entry_maps_def)
  then obtain w2 where w2: "entry_cleared w2" and d: "sp_destroy ?sp ?s2 = Inr (after_unmap v w2 (vm_pmm ?s2) ?s2)"
    using sp_destroy_ok [OF p2(1) v(2,1,3)] by blast
  note m3 = after_unmap_paging [OF p2(1) v(3), of w2 "vm_pmm ?s2"]
  have "vm_mem (after_unmap v w2 (vm_pmm ?s2) ?s2) q = vm_mem ?s2 q" if "q \<notin> paging_frames s" for q
    using after_unmap_mem [OF p2(1)] that p2(2) by blast
  then show ?thesis
    using g cp d m3 w2 e1 p2 mem1 ph(2) old(2)
    by (intro exI [of _ ?sp] exI [of _ ?s1] exI [of _ ?s2] exI [of _ "after_unmap v w2 (vm_pmm ?s2) ?s2"]) auto
qed

lemma using_result_into:
  "kr_wf r \<Longrightarrow> using_result (\<lambda>r. Inr (kr_result_into r)) r = Inr (case kr_value r of Inr v \<Rightarrow> Some v | Inl e \<Rightarrow> None)"
  by (auto simp: kernel_result_defs kr_wf_def kr_value_def split: kernel_result_value_t.splits)

lemma below_window_page: "below_window v \<Longrightarrow> below_window (page v)"
proof -
  have "page v \<le> v" by (simp add: word_le_nat_alt unat_page)
  then show "below_window v \<Longrightarrow> below_window (page v)" by (simp add: below_window_def)
qed

lemma clonePage_oom:
  assumes "pmm_inv (vm_pmm s)" and "free_set (vm_pmm s) = {}"
  shows "\<exists>r. clonePage virt options s = Inr (r, s) \<and> kr_value r = Inl OUT_OF_MEMORY"
proof -
  obtain r p where a: "phys_alloc (vm_pmm s) = Inr (r, p)" using phys_alloc_total [OF assms(1)] by blast
  have wf: "kr_wf r" using phys_alloc_ok(1) [OF assms(1) a] by simp
  obtain e where e: "kr_value r = Inl e"
    using phys_alloc_taken(3) [OF assms(1) a] assms(2) by (cases "kr_value r") (auto simp: free_set_def)
  then have "p = vm_pmm s" using phys_alloc_ok(3) [OF assms(1) a] by simp
  then show ?thesis
    using a wf e by (auto simp: clonePage_def using_result_into Let_def kernel_failure_def kr_value_def)
qed

lemma find_page_loop_cong:
  assumes "paging_ok s" and "paging_ok s'" and "\<And>v. te_get Present (entry s' v) = te_get Present (entry s v)"
  shows "find_page_loop n a b s' = find_page_loop n a b s"
  using assms by (induction n arbitrary: a) (simp_all add: read_entry_ok)

lemma scratch_free_cong:
  assumes "scratch_free s v" and "paging_ok s" and "paging_ok s'"
    and "\<And>v. te_get Present (entry s' v) = te_get Present (entry s v)"
    and "mScratchLow s' = mScratchLow s" and "mScratchHigh s' = mScratchHigh s"
  shows "scratch_free s' v"
  using assms find_page_loop_cong [OF assms(2-4)] by (simp add: scratch_free_def findPageWithinRange_def)

lemma scratch_free_not_mapped:
  assumes "scratch_free s v" and "paging_ok s"
  shows "\<not> te_get Present (entry s v)"
proof -
  have "find_page_loop n a b s = Inr v \<Longrightarrow> v \<noteq> gPageSize - 1 \<Longrightarrow> \<not> te_get Present (entry s v)" for n a b
    using assms(2) by (induction n arbitrary: a) (auto simp: read_entry_ok split: if_splits)
  moreover have "v \<noteq> gPageSize - 1"
    using assms(1) by (auto simp: scratch_free_def gPageSize_def iskernel_def gKernelBase_def)
  ultimately show ?thesis using assms(1) by (auto simp: scratch_free_def findPageWithinRange_def)
qed

lemma clonePage_ok:
  assumes ok: "paging_ok s" and inv: "pmm_inv (vm_pmm s)" and held: "paging_held s"
    and free: "free_set (vm_pmm s) \<noteq> {}" and v: "below_window virt"
    and sc: "scratch_free s sp" and spv: "page sp \<noteq> page virt"
    and there: "te_get Present (entry s virt)"
    and user: "te_page (entry s virt) \<notin> paging_frames s" "\<not> page_avail (vm_pmm s) (index (te_page (entry s virt)))"
    and counted: "te_get Frompmm (entry s virt) \<longrightarrow> 0 < refs (vm_pmm s) (index (te_page (entry s virt)))"
  shows "\<exists>phys s'. clonePage virt options s = Inr (kernel_success phys, s') \<and> offset phys = 0
    \<and> page_avail (vm_pmm s) (index phys) \<and> paging_ok s' \<and> pmm_inv (vm_pmm s')
    \<and> (\<forall>u opts. page u = page virt \<longrightarrow> mapping u s' = Inr (phys + offset u)
         \<and> mapped_with u opts s' = Inr (Some (options\<lparr>o_frompmm := True, o_cow := False, o_rw := True, o_clear := o_clear opts\<rparr>)))
    \<and> (\<forall>u opts. page u \<noteq> page virt \<longrightarrow> mapping u s' = mapping u s)
    \<and> (o_clear options = False \<longrightarrow> (\<forall>a. unat a < 4096 \<longrightarrow> vm_mem s' phys a = vm_mem s (te_page (entry s virt)) a))
    \<and> (\<forall>q a. q \<notin> paging_frames s \<and> q \<noteq> phys \<and> unat a < 4096 \<longrightarrow> vm_mem s' q a = vm_mem s q a)
    \<and> refs (vm_pmm s') = (let R = (refs (vm_pmm s))(index phys := 1) in
         if te_get Frompmm (entry s virt)
         then R(index (te_page (entry s virt)) := R (index (te_page (entry s virt))) - 1) else R)"
proof -
  let ?old = "te_page (entry s virt)" and ?o = "options\<lparr>o_frompmm := True, o_cow := False, o_rw := True\<rparr>"
  obtain r p where a: "phys_alloc (vm_pmm s) = Inr (r, p)" using phys_alloc_total [OF inv] by blast
  have wf: "kr_wf r" using phys_alloc_ok(1) [OF inv a] by simp
  obtain phys where r: "kr_value r = Inr phys"
    using phys_alloc_ok(3) [OF inv a] free by (cases "kr_value r") auto
  note t = phys_alloc_taken [OF inv a r]
  let ?s0 = "s\<lparr>vm_pmm := p\<rparr>" and ?pg = "page virt"
  have fresh: "phys \<notin> paging_frames s" using held t(3) by (rule paging_held_fresh)
  have neq: "index phys \<noteq> index ?old" "?old \<noteq> phys" using t(3) user(2) by auto
  have sc0: "scratch_free ?s0 sp" by (rule scratch_free_cong [OF sc]) (simp_all add: ok)
  obtain spg s1 s2 s3 where c: "getScratchPage_phys phys map_options_default ?s0 = Inr (spg, s1)"
    "memcopy ?pg (sp_address spg) (unat gPageSize) s1 = Inr s2" "sp_destroy spg s2 = Inr s3"
    and ok3: "paging_ok s3" and f3: "paging_frames s3 = paging_frames s" and p3: "vm_pmm s3 = p"
    and e3: "\<forall>u. page u \<noteq> page sp \<longrightarrow> entry s3 u = entry s u" "entry_cleared (entry s3 sp)"
    and n3: "\<forall>a. unat a < 4096 \<longrightarrow> vm_mem s3 phys a = vm_mem s ?old a"
    and m3: "\<forall>q. q \<notin> paging_frames s \<and> q \<noteq> phys \<longrightarrow> vm_mem s3 q = vm_mem s q"
    using copy_through_scratch [of ?s0 sp phys ?pg] ok sc0 t(2) fresh spv there user(1) neq by auto
  have ev: "entry s3 virt = entry s virt" "entry s3 ?pg = entry s virt" using e3(1) spv by auto
  obtain p' where p': "if te_get Frompmm (entry s virt) then phys_dealloc ?old p = Inr p' else p' = p"
    and inv': "pmm_inv p'"
    and refs': "refs p' = (let R = (refs (vm_pmm s))(index phys := 1) in
         if te_get Frompmm (entry s virt) then R(index ?old := R (index ?old) - 1) else R)"
    using phys_dealloc_ok [OF t(1), of ?old] counted t(1,4) neq by (cases "te_get Frompmm (entry s virt)") auto
  have bw: "below_window ?pg" using v by (rule below_window_page)
  obtain w where w: "vm_unmap ?pg s3 = Inr (after_unmap ?pg w p' s3)" (is "_ = Inr ?s4")
    using vm_unmap_ok [OF ok3 bw, unfolded ev p3, OF _ p'] there by blast
  note p4 = after_unmap_paging [OF ok3 bw, of w p']
  obtain w' where w': "entry_maps ?o phys w'" and m: "vm_map phys ?pg ?o ?s4 = Inr (?pg, after_map phys ?pg ?o w' ?s4)" (is "_ = Inr (_, ?s5)")
    using vm_map_ok [OF p4(1) bw t(2), of ?o] p4(4) f3 fresh by auto
  note p5 = after_map_paging [OF p4(1) bw, of ?o phys w']
  have ok5: "paging_ok ?s5" and e5: "entry ?s5 u = (if page u = page virt then w' else entry s3 u)" for u
    using p5 p4 f3 fresh by auto
  have fin: "clonePage virt options s = Inr (kernel_success phys, ?s5)"
    using a wf r c w m by (simp add: clonePage_def using_result_into Let_def)
  have mem: "vm_mem ?s5 q a = (if o_clear options \<and> q = phys then 0 else vm_mem s3 q a)"
    if "q \<notin> paging_frames s" "unat a < 4096" for q a
    using after_map_mem [OF p4(1)] after_unmap_mem [OF ok3] that p4(4) f3 by simp
  have "mapping u ?s5 = mapping u s" if "page u \<noteq> page virt" for u
  proof (cases "page u = page sp")
    case True
    then have "entry s u = entry s sp" "entry s3 u = entry s3 sp" by (metis pi_of_virt_eq_iff)+
    then show ?thesis
      using that e3(2) scratch_free_not_mapped [OF sc ok]
      by (simp add: read_entry_ok [OF ok5] read_entry_ok [OF ok] e5 entry_cleared_def)
  qed (use that e3(1) in \<open>simp add: read_entry_ok [OF ok5] read_entry_ok [OF ok] e5\<close>)
  moreover have "mapping u ?s5 = Inr (phys + offset u) \<and> mapped_with u opts ?s5 = Inr (Some (?o\<lparr>o_clear := o_clear opts\<rparr>))"
    if "page u = page virt" for u opts
    using that w' by (simp add: read_entry_ok [OF ok5] e5 mapped_options_entry [OF w']) (simp add: entry_maps_def)
  ultimately show ?thesis
    using fin t(2,3) ok5 inv' refs' mem n3 m3 fresh
    by (intro exI [of _ phys] exI [of _ ?s5]) auto
qed

text \<open>C7: a page that is copied on a write fault gets a fresh frame of its own with the same contents: the
  page is remapped to it writable and no longer copy-on-write, the old frame loses the one reference the page held
  and keeps its contents, no other frame changes, and every other page translates as before.\<close>

theorem clonePage_spec:
  assumes ok: "paging_ok s" and inv: "pmm_inv (vm_pmm s)" and held: "paging_held s"
    and free: "free_set (vm_pmm s) \<noteq> {}" and v: "below_window virt"
    and sc: "scratch_free s sp" and spv: "page sp \<noteq> page virt"
    and there: "te_get Present (entry s virt)"
    and user: "te_page (entry s virt) \<notin> paging_frames s" "\<not> page_avail (vm_pmm s) (index (te_page (entry s virt)))"
    and counted: "te_get Frompmm (entry s virt) \<longrightarrow> 0 < refs (vm_pmm s) (index (te_page (entry s virt)))"
  shows "\<exists>r phys s'. clonePage virt options s = Inr (r, s') \<and> kr_value r = Inr phys
    \<and> page_avail (vm_pmm s) (index phys) \<and> paging_ok s' \<and> pmm_inv (vm_pmm s')
    \<and> (\<forall>u opts. page u = page virt \<longrightarrow> mapping u s' = Inr (phys + offset u)
         \<and> mapped_with u opts s' = Inr (Some (options\<lparr>o_frompmm := True, o_cow := False, o_rw := True, o_clear := o_clear opts\<rparr>)))
    \<and> (\<forall>u opts. page u \<noteq> page virt \<longrightarrow> mapping u s' = mapping u s)
    \<and> (o_clear options = False \<longrightarrow> (\<forall>a. unat a < 4096 \<longrightarrow> vm_mem s' phys a = vm_mem s (te_page (entry s virt)) a))
    \<and> (\<forall>q a. q \<notin> paging_frames s \<and> q \<noteq> phys \<and> unat a < 4096 \<longrightarrow> vm_mem s' q a = vm_mem s q a)
    \<and> refs (vm_pmm s') = (let R = (refs (vm_pmm s))(index phys := 1) in
         if te_get Frompmm (entry s virt)
         then R(index (te_page (entry s virt)) := R (index (te_page (entry s virt))) - 1) else R)"
  using clonePage_ok [OF assms, of options] kr_value_success by metis

definition example_cow :: vmm where
  "example_cow = set_pte (pi_of_virt 0x8000) (0x500000 OR 0x605) example_vmm"

lemma example_cow_ok:
  "paging_ok example_cow" "paging_held example_cow" "vm_pmm example_cow = example_pmm"
  "entry example_cow v = (if page v = 0x8000 then 0x500000 OR 0x605 else entry example_vmm v)"
proof -
  have bw: "below_window 0x8000" by (simp add: below_window_def)
  have p: "page 0x8000 = (0x8000 :: u32)" by (simp add: page_def gPageSize_def)
  show "paging_ok example_cow"
    "entry example_cow v = (if page v = 0x8000 then 0x500000 OR 0x605 else entry example_vmm v)"
    unfolding example_cow_def using example_paging_ok bw by (simp_all add: paging_ok_set_entry entry_set p)
  show "vm_pmm example_cow = example_pmm" by (simp add: example_cow_def) (simp add: example_vmm_def)
  then show "paging_held example_cow"
    using example_held example_paging_ok
    by (simp add: paging_held_def example_cow_def paging_frames_set_pte)
qed

lemma example_cow_scratch: "scratch_free example_cow 0xC8000000"
proof -
  have l: "page 0xC8000000 = (0xC8000000 :: u32)" "below_window 0xC8000000"
    by (simp_all add: page_def gPageSize_def below_window_def)
  have lt: "pi_lt (pi_of_virt 0xC8000000) (pi_of_virt 0xC8800FFF)"
    by (subst pi_lt_pages) simp_all
  have "entry example_cow 0xC8000000 = 0" using l by (simp add: example_cow_ok(4) example_entry)
  then have "mapped 0xC8000000 example_cow = Inr False"
    by (simp add: read_entry_ok example_cow_ok(1) te_get_def field_get_def)
  then have "find_page_loop (Suc n) (pi_of_virt 0xC8000000) (pi_of_virt 0xC8800FFF) example_cow = Inr 0xC8000000" for n
    using lt l(1) by (simp add: pi_address_of_virt)
  from this [of 1048575] show ?thesis
    using l by (simp add: scratch_free_def findPageWithinRange_def example_cow_def offset_def gPageSize_def
        iskernel_def gKernelBase_def) (simp add: example_vmm_def)
qed

lemma example_cow_frame: "0x500000 \<notin> paging_frames example_cow"
proof -
  have ne: "0x100000 + 0x1000 * d \<noteq> (0x500000 :: u32)" if "d < 1024" for d
  proof -
    have "unat d < 1024" using that by (simp add: word_less_nat_alt)
    then show ?thesis using example_table(2) [OF that] by (auto simp: word_unat_eq_iff)
  qed
  have "page (vm_cr3 example_vmm) = 0x1000" by (simp add: example_vmm_def page_def gPageSize_def)
  then show ?thesis
    using ne example_paging_ok
    by (auto simp: example_cow_def paging_frames_set_pte) (auto simp: paging_frames_def example_paging)
qed

lemma clonePage_witness:
  "\<exists>r phys s'. clonePage 0x8123 map_options_userspace example_cow = Inr (r, s') \<and> kr_value r = Inr phys
     \<and> mapping 0x8123 s' = Inr (phys + 0x123) \<and> vm_mem s' phys 0x123 = vm_mem example_cow 0x500000 0x123
     \<and> refs (vm_pmm s') 0x500 = 0"
proof -
  have e: "te_page (0x500000 OR 0x605) = 0x500000" "te_get Present (0x500000 OR 0x605)"
    "te_get Frompmm (0x500000 OR 0x605)" "index 0x500000 = 0x500" "page 0x8123 = (0x8000 :: u32)"
    "page 0xC8000000 = (0xC8000000 :: u32)" "below_window 0x8123" "offset 0x8123 = 0x123"
    by (simp_all add: te_page_def te_get_def field_get_def index_def page_def offset_def gPageSize_def below_window_def)
  have r: "refs example_pmm 0x500 = 1" "\<not> page_avail example_pmm 0x500"
    by (simp_all add: refs_def example_pmm_def page_avail_def page_free_def)
  have "0x600 \<in> free_set example_pmm"
    by (simp add: free_set_def page_avail_def page_free_def example_pmm_def)
  then have "free_set example_pmm \<noteq> {}" by blast
  then show ?thesis
    using clonePage_spec [OF example_cow_ok(1) _ example_cow_ok(2) _ e(7) example_cow_scratch, of map_options_userspace]
      example_pmm_inv example_cow_frame r e
    by (fastforce simp: example_cow_ok map_options_userspace_def map_options_def Let_def)
qed

end
