(* ===== verification/Kernel_Heap.thy ===== *)
theory Kernel_Heap
  imports Cow
begin

text \<open>
  The kernel's break and its address regions: \<open>Heap\<close> (\<open>src/kernel/src/mm/heap.cpp\<close>), the
  \<open>KernelHeap\<close> of the page manager that backs each block with a fresh frame, and the regions of
  the kernel's gigabyte (\<open>src/kernel/src/mm/virt.cpp\<close>). A heap takes its blocks from the virtual
  method \<open>oneblock\<close>, here an argument of \<open>sbrk\<close>; \<open>blocksize\<close> is overridden nowhere. The address
  \<open>addr_kernel_start\<close> the linker provides is a parameter of \<open>setheap\<close>.
\<close>

section \<open>Heaps\<close>

definition Heap_new :: "u32 \<Rightarrow> u32 \<Rightarrow> Heap" where
  "Heap_new low high = \<lparr>h_low = low, h_high = high, h_current = low\<rparr>"

definition blocksize :: u32 where "blocksize = gPageSize"

definition heap_size :: "Heap \<Rightarrow> u32" where
  "heap_size h = h_current h - h_low h"

definition heap_maxsize :: "Heap \<Rightarrow> u32" where
  "heap_maxsize h = h_high h - h_low h"

text \<open>
  The loop of \<open>sbrk\<close> runs once per block: it starts with a multiple of the block size and takes
  one block off it in every round.
\<close>

fun sbrk_loop :: "(Heap \<Rightarrow> 's \<Rightarrow> (u32 \<times> 's) kernel) \<Rightarrow> u32 \<Rightarrow> nat \<Rightarrow> Heap \<Rightarrow> 's \<Rightarrow> (u32 \<times> Heap \<times> 's) kernel" where
  "sbrk_loop oneblock cur 0 h s = Inr (cur, h, s)"
| "sbrk_loop oneblock cur (Suc n) h s =
     (if h_current h \<ge> h_high h then Inr (0, h, s)
      else kbind (oneblock h s) (\<lambda>(more, s).
        if more = 0 then Inr (0, h, s)
        else sbrk_loop oneblock cur n (h\<lparr>h_current := h_current h + blocksize\<rparr>) s))"

definition round_to_block :: "u32 \<Rightarrow> u32" where
  "round_to_block amount =
     (if amount mod blocksize \<noteq> 0 then (amount - amount mod blocksize) + blocksize else amount)"

definition sbrk :: "(Heap \<Rightarrow> 's \<Rightarrow> (u32 \<times> 's) kernel) \<Rightarrow> u32 \<Rightarrow> Heap \<Rightarrow> 's \<Rightarrow> (u32 \<times> Heap \<times> 's) kernel" where
  "sbrk oneblock amount h s =
     (if amount = 0 then Inr (h_current h, h, s)
      else sbrk_loop oneblock (h_current h) (unat (round_to_block amount div blocksize)) h s)"

section \<open>The kernel heap\<close>

definition kernel_oneblock :: "Heap \<Rightarrow> vmm \<Rightarrow> (u32 \<times> vmm) kernel" where
  "kernel_oneblock h s =
     (let opts = map_options_default\<lparr>o_rw := True, o_user := False, o_clear := True\<rparr> in
      kbind (vm_alloc s) (\<lambda>(block, s).
      kbind (vm_map block (h_current h) opts s) (\<lambda>(_, s).
      Inr (h_current h, s))))"

definition ksbrk :: "u32 \<Rightarrow> vmm \<Rightarrow> (u32 \<times> vmm) kernel" where
  "ksbrk amount s =
     (case mKernelHeap s of
        None \<Rightarrow> Inl (Panic ''kernel heap never initialized. can't allocate.'')
      | Some h \<Rightarrow>
          kbind (sbrk kernel_oneblock amount h s) (\<lambda>(ptr, h, s).
            if ptr = 0 then Inl (Panic ''kernel heap allocation failed'')
            else Inr (ptr, s\<lparr>mKernelHeap := Some h\<rparr>)))"

definition getheap :: "vmm \<Rightarrow> u32 kernel" where
  "getheap s = (case mKernelHeap s of Some h \<Rightarrow> Inr (h_current h) | None \<Rightarrow> Inl NullDeref)"

definition getheapbegin :: "vmm \<Rightarrow> u32 kernel" where
  "getheapbegin s = (case mKernelHeap s of Some h \<Rightarrow> Inr (h_low h) | None \<Rightarrow> Inl NullDeref)"

definition getheapend :: "vmm \<Rightarrow> u32 kernel" where
  "getheapend s = (case mKernelHeap s of Some h \<Rightarrow> Inr (h_high h) | None \<Rightarrow> Inl NullDeref)"

section \<open>Kernel regions\<close>

definition kernel_bound :: u32 where "kernel_bound = 0x40000000"

definition mk_interval :: "u32 \<Rightarrow> u32 \<Rightarrow> interval" where
  "mk_interval f t = \<lparr>ifrom = f, ito = t\<rparr>"

definition addKernelRegion :: "u32 \<Rightarrow> u32 \<Rightarrow> vmm \<Rightarrow> vmm" where
  "addKernelRegion low high s =
     s\<lparr>mKernelRegions := il_add (mKernelRegions s) (mk_interval (low - gKernelBase) (high - gKernelBase))\<rparr>"

definition round_to_page :: "u32 \<Rightarrow> u32" where
  "round_to_page sz = (if offset sz > 0 then sz - offset sz + gPageSize else sz)"

definition findKernelRegion :: "u32 \<Rightarrow> vmm \<Rightarrow> interval option" where
  "findKernelRegion sz s =
     (case il_findFree mk_interval kernel_bound (round_to_page sz) (mKernelRegions s) of
        Some rgn \<Rightarrow> Some (mk_interval (ifrom rgn + gKernelBase) (ito rgn + gKernelBase))
      | None \<Rightarrow> None)"

definition delKernelRegion :: "interval \<Rightarrow> vmm \<Rightarrow> vmm" where
  "delKernelRegion rgn s =
     s\<lparr>mKernelRegions := snd (il_del (mKernelRegions s)
         (mk_interval (ifrom rgn - gKernelBase) (ito rgn - gKernelBase)))\<rparr>"

text \<open>The region \<open>isWithinKernelRegion\<close> stores is relative to the base of the kernel.\<close>

definition isWithinKernelRegion :: "u32 \<Rightarrow> vmm \<Rightarrow> interval option" where
  "isWithinKernelRegion address s = il_contains (mKernelRegions s) (address - gKernelBase)"

definition gScratchPagesSize :: u32 where "gScratchPagesSize = 0x801000"

definition setheap :: "u32 \<Rightarrow> u32 \<Rightarrow> u32 \<Rightarrow> vmm \<Rightarrow> vmm kernel" where
  "setheap kernel_start heap sz s =
     (if mKernelHeap s \<noteq> None then Inl (Panic ''cannot change kernel heap - size is non-zero'')
      else if sz = 0 then Inl (Panic ''cannot set an empty kernel heap'')
      else
        (let h = Heap_new heap (heap + sz - 1);
             s = s\<lparr>mKernelHeap := Some h\<rparr>;
             s = addKernelRegion kernel_start (h_high h) s
         in case findKernelRegion gScratchPagesSize s of
              None \<Rightarrow> Inl (Panic ''failed to find memory for scratch pages!'')
            | Some spr \<Rightarrow>
                Inr (addKernelRegion (ifrom spr) (ito spr)
                       (s\<lparr>mScratchLow := ifrom spr, mScratchHigh := ito spr\<rparr>))))"

interpretation kernel_regions:
  address_space "il_inv kernel_bound" set kernel_bound
    "\<lambda>sz xs. il_fits sz xs \<and> (xs = [] \<longrightarrow> sz - 1 \<le> kernel_bound)"
    "il_findFree mk_interval kernel_bound" il_add il_del il_contains
  by (rule interval_list_address_space) (simp add: makes_interval_def mk_interval_def)

section \<open>The contract of a block source\<close>

text \<open>
  What \<open>sbrk\<close> relies on: a block source with room left backs the block at the break, keeps what is
  backed already and uses one unit of room.
\<close>

locale block_source =
  fixes inv :: "'s \<Rightarrow> bool"
    and room :: "'s \<Rightarrow> nat"
    and backed :: "'s \<Rightarrow> u32 \<Rightarrow> bool"
    and good :: "u32 \<Rightarrow> bool"
    and oneblock :: "Heap \<Rightarrow> 's \<Rightarrow> (u32 \<times> 's) kernel"
  assumes oneblock_ok: "inv s \<Longrightarrow> 0 < room s \<Longrightarrow> good (h_current h) \<Longrightarrow>
      \<exists>s'. oneblock h s = Inr (h_current h, s') \<and> inv s' \<and> Suc (room s') = room s
        \<and> backed s' (h_current h) \<and> (\<forall>v. backed s v \<longrightarrow> backed s' v)"
    and good_nonzero: "good v \<Longrightarrow> v \<noteq> 0"
begin

lemma sbrk_loop_ok:
  assumes "inv s" and "n \<le> room s"
    and "\<forall>k<n. good (page_at (h_current h) k) \<and> page_at (h_current h) k < h_high h"
  shows "\<exists>s'. sbrk_loop oneblock c n h s = Inr (c, h\<lparr>h_current := page_at (h_current h) n\<rparr>, s')
    \<and> inv s' \<and> room s = room s' + n \<and> (\<forall>k<n. backed s' (page_at (h_current h) k))
    \<and> (\<forall>v. backed s v \<longrightarrow> backed s' v)"
  using assms
proof (induction n arbitrary: h s)
  case 0
  then show ?case by (auto simp: page_at_def)
next
  case (Suc n)
  have p0: "page_at (h_current h) 0 = h_current h" by (simp add: page_at_def)
  with Suc.prems(3) have g: "good (h_current h)" "h_current h < h_high h" by force+
  obtain s1 where s1: "oneblock h s = Inr (h_current h, s1)" "inv s1" "Suc (room s1) = room s"
    "backed s1 (h_current h)" "\<forall>v. backed s v \<longrightarrow> backed s1 v"
    using oneblock_ok [OF Suc.prems(1) _ g(1)] Suc.prems(2) by auto
  let ?h = "h\<lparr>h_current := h_current h + blocksize\<rparr>"
  have nx: "page_at (h_current ?h) k = page_at (h_current h) (Suc k)" for k
    by (simp add: page_at_def blocksize_def algebra_simps)
  have "\<forall>k<n. good (page_at (h_current ?h) k) \<and> page_at (h_current ?h) k < h_high ?h"
    using Suc.prems(3) unfolding nx by auto
  then obtain s' where s': "sbrk_loop oneblock c n ?h s1 = Inr (c, ?h\<lparr>h_current := page_at (h_current ?h) n\<rparr>, s')"
    "inv s'" "room s1 = room s' + n" "\<forall>k<n. backed s' (page_at (h_current ?h) k)" "\<forall>v. backed s1 v \<longrightarrow> backed s' v"
    using Suc.IH [of s1 ?h] s1(2,3) Suc.prems(2) by auto
  have "backed s' (page_at (h_current h) k)" if "k < Suc n" for k
    using that s'(4,5) s1(4) p0 unfolding nx by (cases k) auto
  moreover have "sbrk_loop oneblock c (Suc n) h s = Inr (c, h\<lparr>h_current := page_at (h_current h) (Suc n)\<rparr>, s')"
    using s1(1) g good_nonzero s'(1) unfolding nx by auto
  ultimately show ?case using s' s1 by auto
qed

end

lemma free_set_refs: "free_set s = {i. is_usable s i \<and> refs s i = 0}"
  by (auto simp: free_set_def page_avail_refs)

lemma vm_alloc_ok:
  assumes inv: "pmm_inv (vm_pmm s)" and free: "free_set (vm_pmm s) \<noteq> {}"
  shows "\<exists>phys p. vm_alloc s = Inr (phys, s\<lparr>vm_pmm := p\<rparr>) \<and> pmm_inv p \<and> offset phys = 0
    \<and> page_avail (vm_pmm s) (index phys) \<and> refs p = (refs (vm_pmm s))(index phys := 1)
    \<and> is_usable p = is_usable (vm_pmm s) \<and> free_set p = free_set (vm_pmm s) - {index phys}"
proof -
  obtain r p where a: "phys_alloc (vm_pmm s) = Inr (r, p)" using phys_alloc_total [OF inv] by blast
  have wf: "kr_wf r" using phys_alloc_ok(1) [OF inv a] by simp
  obtain phys where r: "kr_value r = Inr phys"
    using phys_alloc_ok(3) [OF inv a] free by (cases "kr_value r") auto
  note t = phys_alloc_taken [OF inv a r]
  have "vm_alloc s = Inr (phys, s\<lparr>vm_pmm := p\<rparr>)"
    using a wf r by (simp add: vm_alloc_def using_result_value)
  moreover have "free_set p = free_set (vm_pmm s) - {index phys}"
    using t(4,5) by (auto simp: free_set_refs)
  ultimately show ?thesis using t by blast
qed

lemma paging_held_shrink:
  "paging_held s \<Longrightarrow> paging_frames s' = paging_frames s \<Longrightarrow> free_set (vm_pmm s') \<subseteq> free_set (vm_pmm s) \<Longrightarrow> paging_held s'"
  by (auto simp: paging_held_def free_set_def)

definition vm_inv :: "vmm \<Rightarrow> bool" where
  "vm_inv s \<longleftrightarrow> paging_ok s \<and> pmm_inv (vm_pmm s) \<and> paging_held s"

definition free_frames :: "vmm \<Rightarrow> nat" where
  "free_frames s = card (free_set (vm_pmm s))"

definition writable :: "vmm \<Rightarrow> u32 \<Rightarrow> bool" where
  "writable s v \<longleftrightarrow> (\<exists>p. walk True v s = Inr p)"

definition block_address :: "u32 \<Rightarrow> bool" where
  "block_address v \<longleftrightarrow> v \<noteq> 0 \<and> offset v = 0 \<and> below_window v"

lemma writable_entry: "paging_ok s \<Longrightarrow> writable s v \<longleftrightarrow> te_get Present (entry s v) \<and> te_get Rw (entry s v)"
  by (auto simp: writable_def walk_def paging_ok_def Let_def)

lemma kernel_oneblock_ok:
  assumes inv: "vm_inv s" and room: "0 < free_frames s" and v: "block_address (h_current h)"
  shows "\<exists>s'. kernel_oneblock h s = Inr (h_current h, s') \<and> vm_inv s' \<and> Suc (free_frames s') = free_frames s
    \<and> writable s' (h_current h) \<and> (\<forall>v. writable s v \<longrightarrow> writable s' v)"
proof -
  let ?v = "h_current h" and ?o = "map_options_default\<lparr>o_rw := True, o_user := False, o_clear := True\<rparr>"
  have free: "free_set (vm_pmm s) \<noteq> {}" using room by (auto simp: free_frames_def)
  obtain phys p where a: "vm_alloc s = Inr (phys, s\<lparr>vm_pmm := p\<rparr>)" "pmm_inv p" "offset phys = 0"
    "page_avail (vm_pmm s) (index phys)" "free_set p = free_set (vm_pmm s) - {index phys}"
    using vm_alloc_ok [OF _ free] inv by (auto simp: vm_inv_def)
  let ?t = "s\<lparr>vm_pmm := p\<rparr>"
  have ok: "paging_ok ?t" using inv by (simp add: vm_inv_def)
  have fresh: "phys \<notin> paging_frames ?t"
    using inv a(4) by (simp add: vm_inv_def paging_held_fresh)
  have bw: "below_window ?v" "offset ?v = 0" using v by (simp_all add: block_address_def)
  obtain w where w: "entry_maps ?o phys w" and m: "vm_map phys ?v ?o ?t = Inr (?v, after_map phys ?v ?o w ?t)" (is "_ = Inr (_, ?s')")
    using vm_map_ok [OF ok bw(1) a(3), of ?o] bw fresh by auto
  note p = after_map_paging [OF ok bw(1), of ?o phys w]
  have ok': "paging_ok ?s'" and f: "paging_frames ?s' = paging_frames s"
    and e: "entry ?s' u = (if page u = page ?v then w else entry s u)" for u
    using p fresh by auto
  have "paging_held ?s'"
    by (rule paging_held_shrink [OF _ f]) (use inv a(5) in \<open>auto simp: vm_inv_def\<close>)
  then have "vm_inv ?s'" using ok' a(2) by (simp add: vm_inv_def)
  moreover have "Suc (free_frames ?s') = free_frames s"
    using a(5) card_Suc_Diff1 [OF finite_free_set, of "index phys" "vm_pmm s"] a(4)
    by (simp add: free_frames_def) (simp add: free_set_def)
  moreover have "writable ?s' u \<longleftrightarrow> page u = page ?v \<or> writable s u" for u
    using w inv by (auto simp: writable_entry [OF ok'] writable_entry vm_inv_def e entry_maps_def)
  ultimately show ?thesis using a(1) m by (auto simp: kernel_oneblock_def Let_def)
qed

interpretation kheap: block_source vm_inv free_frames writable block_address kernel_oneblock
proof (unfold_locales, goal_cases)
  case (1 s h)
  then show ?case by (rule kernel_oneblock_ok)
next
  case (2 v)
  then show ?case by (simp add: block_address_def)
qed

lemma round_to_block_mod:
  assumes "amount \<le> 0xFFFFF000"
  shows "unat (round_to_block amount) mod 4096 = 0" and "amount \<le> round_to_block amount"
    and "amount \<noteq> 0 \<Longrightarrow> unat (round_to_block amount) < unat amount + 4096"
proof -
  let ?m = "unat amount mod 4096"
  have a: "unat amount \<le> 4294963200" using assms by (simp add: word_le_nat_alt)
  have z: "amount mod 4096 = 0 \<longleftrightarrow> ?m = 0" by (simp add: word_unat_eq_iff unat_mod_distrib)
  have sub: "unat (amount - amount mod 4096) = unat amount - ?m"
    by (simp add: unat_sub word_le_nat_alt unat_mod_distrib)
  have q: "unat amount - ?m = 4096 * (unat amount div 4096)" by (simp add: minus_mod_eq_mult_div)
  have r: "unat (round_to_block amount) = (if ?m = 0 then unat amount else unat amount - ?m + 4096)"
  proof (cases "?m = 0")
    case False
    moreover have "?m \<le> unat amount" by simp
    ultimately have "unat amount - ?m < 4294963200" using a by linarith
    then have "unat amount - ?m + 4096 < 2 ^ 32" by simp
    then show ?thesis
      using False z sub by (simp add: round_to_block_def blocksize_def gPageSize_def unat_word_ariths)
  qed (use z in \<open>simp add: round_to_block_def blocksize_def gPageSize_def\<close>)
  show "unat (round_to_block amount) mod 4096 = 0" unfolding r by (simp add: q)
  show "amount \<le> round_to_block amount"
    using mod_less_divisor [of 4096 "unat amount"] by (simp add: word_le_nat_alt r) linarith
  show "unat (round_to_block amount) < unat amount + 4096" unfolding r by simp
qed

lemma writable_page:
  assumes "pi_of_virt u = pi_of_virt v"
  shows "writable s u = writable s v"
  using assms by (simp add: writable_def walk_def Let_def)

lemma page_at_unat:
  assumes "unat v + 4096 * k < 2 ^ 32"
  shows "unat (page_at v k) = unat v + 4096 * k"
proof -
  have "k < 1048576" using assms by simp
  then show ?thesis using assms by (simp add: page_at_def gPageSize_def unat_word_ariths unat_of_nat)
qed

lemma byte_in_page:
  assumes "offset v = 0" and "unat v + unat b < 2 ^ 32"
  shows "pi_of_virt (v + b) = pi_of_virt (page_at v (unat b div 4096))"
proof -
  obtain q where q: "unat v = 4096 * q" using assms(1) by (metis dvd_def mod_0_imp_dvd unat_eq_zero unat_offset)
  let ?k = "unat b div 4096"
  have k: "4096 * ?k \<le> unat b" by simp
  have "unat (page_at v ?k) = unat v + 4096 * ?k" using assms(2) k by (intro page_at_unat) linarith
  moreover have "unat (v + b) = unat v + unat b" using assms(2) by (rule unat_plus_no_wrap)
  ultimately have "unat (page (v + b)) = unat (page (page_at v ?k))"
    by (simp add: unat_page q)
  then show ?thesis by (simp add: pi_of_virt_eq_iff word_unat_eq_iff)
qed

text \<open>C11: \<open>ksbrk\<close> with enough free frames returns the old break, moves the break up by the amount rounded to
  pages, and leaves every byte of the new range writable; the page manager's invariant and everything that
  was writable stay so, and exactly one frame per page is consumed.\<close>

theorem ksbrk_spec:
  assumes inv: "vm_inv s" and h: "mKernelHeap s = Some h" and amount: "amount \<noteq> 0" "amount \<le> 0xFFFFF000"
    and n: "n = unat (round_to_block amount div gPageSize)" and room: "n \<le> free_frames s"
    and range: "offset (h_current h) = 0" "iskernel (h_current h)"
      "unat (h_current h) + 4096 * n \<le> unat (h_high h) + 1" "h_high h < 0xFFC00000"
  shows "\<exists>s'. ksbrk amount s = Inr (h_current h, s') \<and> vm_inv s'
    \<and> mKernelHeap s' = Some (h\<lparr>h_current := h_current h + round_to_block amount\<rparr>)
    \<and> free_frames s = free_frames s' + n
    \<and> (\<forall>b. unat b < unat amount \<longrightarrow> writable s' (h_current h + b))
    \<and> (\<forall>v. writable s v \<longrightarrow> writable s' v)"
proof -
  let ?c = "h_current h" and ?r = "round_to_block amount"
  note rb = round_to_block_mod [OF amount(2)]
  have rn: "unat ?r = 4096 * n"
    using rb(1) mult_div_mod_eq [of 4096 "unat ?r"] by (simp add: n gPageSize_def unat_div_distrib)
  have hi: "unat (h_high h) < 0xFFC00000" using range(4) by (simp add: word_less_nat_alt)
  have at: "unat (page_at ?c k) = unat ?c + 4096 * k" if "k \<le> n" for k
    using that range(3) hi by (intro page_at_unat) simp
  have good: "\<forall>k<n. block_address (page_at ?c k) \<and> page_at ?c k < h_high h"
  proof (intro allI impI)
    fix k assume k: "k < n"
    then have u: "unat (page_at ?c k) = unat ?c + 4096 * k" using at by simp
    moreover have "unat ?c mod 4096 = 0" using range(1) by (metis unat_eq_zero unat_offset)
    ultimately have "unat (offset (page_at ?c k)) = 0" by (simp add: unat_offset)
    moreover have "unat (page_at ?c k) < unat (h_high h)" using u k range(3) by linarith
    moreover have "unat ?c \<noteq> 0" using range(2) by (auto simp: iskernel_def gKernelBase_def word_le_nat_alt)
    ultimately show "block_address (page_at ?c k) \<and> page_at ?c k < h_high h"
      using hi u by (auto simp: block_address_def below_window_def word_less_nat_alt unat_eq_zero)
  qed
  obtain s' where s': "sbrk_loop kernel_oneblock ?c n h s = Inr (?c, h\<lparr>h_current := page_at ?c n\<rparr>, s')"
    "vm_inv s'" "free_frames s = free_frames s' + n" "\<forall>k<n. writable s' (page_at ?c k)" "\<forall>v. writable s v \<longrightarrow> writable s' v"
    using kheap.sbrk_loop_ok [OF inv room good] by blast
  have brk: "page_at ?c n = ?c + ?r"
    using at [of n] rn range(3) hi by (simp add: word_unat_eq_iff unat_plus_no_wrap)
  have nz: "?c \<noteq> 0" using range(2) by (auto simp: iskernel_def gKernelBase_def)
  have "writable s' (?c + b)" if "unat b < unat amount" for b
  proof -
    have "unat b < 4096 * n" using that rb(2) rn by (simp add: word_le_nat_alt)
    then have "unat b div 4096 < n" by (simp add: less_mult_imp_div_less mult.commute)
    moreover have "unat ?c + unat b < 2 ^ 32" using \<open>unat b < 4096 * n\<close> range(3) hi by simp
    ultimately show ?thesis
      using writable_page [OF byte_in_page [OF range(1), of b], of s'] s'(4) by simp
  qed
  moreover have "writable (s'\<lparr>mKernelHeap := x\<rparr>) v = writable s' v" "vm_inv (s'\<lparr>mKernelHeap := x\<rparr>) = vm_inv s'"
    "free_frames (s'\<lparr>mKernelHeap := x\<rparr>) = free_frames s'" for x v
    using paging_same_mem [of "s'\<lparr>mKernelHeap := x\<rparr>" s']
    by (simp_all add: writable_def vm_inv_def free_frames_def paging_held_def)
  ultimately show ?thesis
    using s' nz h amount(1) brk n by (auto simp: ksbrk_def sbrk_def blocksize_def)
qed

definition example_heap :: vmm where
  "example_heap = example_vmm\<lparr>mKernelHeap := Some (Heap_new 0xD0000000 0xD7FFFFFF)\<rparr>"

lemma example_heap_inv: "vm_inv example_heap" "free_frames example_heap = 2560"
proof -
  have "vm_inv example_vmm"
    using example_paging_ok example_held example_pmm_inv by (simp add: vm_inv_def) (simp add: example_vmm_def)
  then show "vm_inv example_heap"
    using paging_same_mem [of example_heap example_vmm]
    by (simp add: vm_inv_def example_heap_def paging_held_def)
  have "card (free_set example_pmm) = unat (mFreePages example_pmm)"
    using example_pmm_inv by (simp add: pmm_inv_def)
  then show "free_frames example_heap = 2560"
    by (simp add: free_frames_def example_heap_def example_vmm_def) (simp add: example_pmm_def)
qed

lemma ksbrk_witness:
  "\<exists>s'. ksbrk 5000 example_heap = Inr (0xD0000000, s') \<and> free_frames s' = 2558 \<and> writable s' 0xD0001000"
proof -
  let ?h = "Heap_new 0xD0000000 0xD7FFFFFF"
  have h: "mKernelHeap example_heap = Some ?h" by (simp add: example_heap_def)
  have n: "2 = unat (round_to_block 5000 div gPageSize)"
    by (simp add: round_to_block_def blocksize_def gPageSize_def)
  show ?thesis
    using ksbrk_spec [OF example_heap_inv(1) h _ _ n]
    by (auto simp: example_heap_inv(2) Heap_new_def offset_def gPageSize_def iskernel_def gKernelBase_def
        dest!: spec [of _ "0x1000 :: u32"])
qed

text \<open>A request above \<open>0xFFFFF000\<close> bytes rounds to zero blocks: it succeeds and provides no memory.\<close>

lemma sbrk_wraps: "sbrk oneblock 0xFFFFF001 h s = Inr (h_current h, h, s)"
  by (simp add: sbrk_def round_to_block_def blocksize_def gPageSize_def)

section \<open>Setting up the kernel's regions\<close>

lemma kernel_offset_le_iff:
  "gKernelBase \<le> a \<Longrightarrow> gKernelBase \<le> b \<Longrightarrow> a - gKernelBase \<le> b - gKernelBase \<longleftrightarrow> a \<le> b"
  by (simp add: word_le_nat_alt unat_sub) linarith

lemma unat_kernel_address:
  "unat a < 0x40000000 \<Longrightarrow> unat (a + gKernelBase) = unat a + 0xC0000000"
  by (simp add: gKernelBase_def unat_word_ariths)

lemma mk_interval_fields [simp]: "ifrom (mk_interval f t) = f" "ito (mk_interval f t) = t"
  by (simp_all add: mk_interval_def)

text \<open>The free area found next to a single region.\<close>

lemma findFree_single:
  assumes "proper x" and "unat (ito x) + unat sz < 0x40000000" and "sz \<noteq> 0"
  shows "\<exists>r. il_findFree mk_interval kernel_bound sz [x] = Some r \<and> free_for kernel_bound sz {x} r
    \<and> unat (ito r) + 1 = unat (ifrom r) + unat sz \<and> unat (ito r) < 0x40000000"
proof -
  have inv: "il_inv kernel_bound [x]"
    using assms by (simp add: il_inv_def kernel_bound_def word_le_nat_alt)
  have sum: "unat (sz + ito x) = unat sz + unat (ito x)" using assms(2) by (simp add: unat_plus_no_wrap)
  have suc: "unat (ito x + 1) = unat (ito x) + 1" using assms(2) by (simp add: unat_word_ariths)
  have dec: "unat (sz - 1) + 1 = unat sz" using assms(3) by (simp add: unat_minus_one unat_gt_0)
  have fit: "sz \<le> kernel_bound - ito x"
    using assms(2) by (simp add: kernel_bound_def word_le_nat_alt unat_sub)
  obtain r where r: "il_findFree mk_interval kernel_bound sz [x] = Some r"
    and c: "r = mk_interval 0 (sz - 1) \<or> r = mk_interval (ito x + 1) (sz + ito x)"
    using fit assms(3) by (cases "sz \<le> ifrom x") (auto simp: il_findFree_def il_after_def)
  have "free_for kernel_bound sz (set [x]) r"
    by (rule kernel_regions.find_free [OF inv _ r]) (simp add: il_fits_def)
  moreover have "unat (ito r) + 1 = unat (ifrom r) + unat sz \<and> unat (ito r) < 0x40000000"
    using c sum suc dec assms(2) by auto
  ultimately show ?thesis using r by simp
qed

text \<open>C12: \<open>setheap\<close> records the kernel image with its heap as one region and reserves a scratch area of
  8 MB and a page behind or before it: the two do not overlap, and an address of the kernel is in a region exactly when it is
  in one of them.\<close>

theorem setheap_spec:
  assumes fresh: "mKernelHeap s = None" "mKernelRegions s = []" and sz: "sz \<noteq> 0"
    and he: "he = heap + sz - 1" and order: "gKernelBase \<le> ks" "ks \<le> he"
    and room: "unat (he - gKernelBase) + 0x801000 < 0x40000000"
  shows "\<exists>s'. setheap ks heap sz s = Inr s' \<and> il_inv kernel_bound (mKernelRegions s')
    \<and> mKernelHeap s' = Some (Heap_new heap he)
    \<and> unat (mScratchHigh s') + 1 = unat (mScratchLow s') + 0x801000 \<and> gKernelBase \<le> mScratchLow s'
    \<and> (mScratchHigh s' < ks \<or> he < mScratchLow s')
    \<and> (\<forall>a \<ge> gKernelBase. isWithinKernelRegion a s' \<noteq> None \<longleftrightarrow>
         ks \<le> a \<and> a \<le> he \<or> mScratchLow s' \<le> a \<and> a \<le> mScratchHigh s')"
proof -
  define x where "x = mk_interval (ks - gKernelBase) (he - gKernelBase)"
  have hb: "gKernelBase \<le> he" using order by simp
  have px: "proper x" using order hb by (simp add: x_def proper_def kernel_offset_le_iff)
  obtain r where r: "il_findFree mk_interval kernel_bound 0x801000 [x] = Some r"
    "free_for kernel_bound 0x801000 {x} r" "unat (ito r) + 1 = unat (ifrom r) + 0x801000" "unat (ito r) < 0x40000000"
    using findFree_single [OF px, of "0x801000"] room by (auto simp: x_def)
  define lo hi where "lo = ifrom r + gKernelBase" and "hi = ito r + gKernelBase"
  have fr: "unat (ifrom r) < 0x40000000" using r(3,4) by linarith
  have u: "unat lo = unat (ifrom r) + 0xC0000000" "unat hi = unat (ito r) + 0xC0000000"
    using fr r(4) by (simp_all add: lo_def hi_def unat_kernel_address)
  have restore: "mk_interval (lo - gKernelBase) (hi - gKernelBase) = r" by (simp add: lo_def hi_def mk_interval_def)
  have kb: "gKernelBase \<le> lo" "gKernelBase \<le> hi" using u by (simp_all add: gKernelBase_def word_le_nat_alt)
  have inv: "il_inv kernel_bound [x]"
    using px room by (simp add: il_inv_def x_def kernel_bound_def word_le_nat_alt)
  have fr': "free_for kernel_bound 0x801000 (set [x]) r" using r(2) by simp
  have roundp: "round_to_page gScratchPagesSize = 0x801000"
    by (simp add: round_to_page_def gScratchPagesSize_def offset_def gPageSize_def)
  define s' where "s' = addKernelRegion lo hi (s\<lparr>mKernelHeap := Some (Heap_new heap he),
      mKernelRegions := [x], mScratchLow := lo, mScratchHigh := hi\<rparr>)"
  have "setheap ks heap sz s = Inr s'"
    using fresh sz r(1) roundp
    by (simp add: setheap_def he Heap_new_def findKernelRegion_def addKernelRegion_def il_add_def s'_def
        x_def lo_def hi_def)
  moreover have regions: "mKernelRegions s' = il_add [x] r" by (simp add: s'_def addKernelRegion_def restore)
  moreover have "il_inv kernel_bound (il_add [x] r)" by (rule kernel_regions.alloc_inv [OF inv fr'])
  moreover have "hi < ks \<or> he < lo"
  proof -
    have "ito r < ifrom x \<or> ito x < ifrom r"
      using fr' px by (auto simp: free_for_def addrs_disjoint_iff)
    then show ?thesis
      using kernel_offset_le_iff [OF order(1) kb(2)] kernel_offset_le_iff [OF kb(1) hb]
      by (auto simp: x_def lo_def hi_def not_le [symmetric])
  qed
  moreover have "isWithinKernelRegion a s' \<noteq> None \<longleftrightarrow> ks \<le> a \<and> a \<le> he \<or> lo \<le> a \<and> a \<le> hi"
    if a: "gKernelBase \<le> a" for a
  proof -
    have "isWithinKernelRegion a s' = (if icontains r (a - gKernelBase) then Some r
        else il_contains [x] (a - gKernelBase))"
      unfolding isWithinKernelRegion_def regions by (rule kernel_regions.alloc_contains [OF inv fr'])
    then have "isWithinKernelRegion a s' \<noteq> None \<longleftrightarrow> icontains r (a - gKernelBase) \<or> icontains x (a - gKernelBase)"
      by (auto simp: icontains_def)
    moreover have "icontains r (a - gKernelBase) \<longleftrightarrow> lo \<le> a \<and> a \<le> hi"
      using kernel_offset_le_iff [OF kb(1) a] kernel_offset_le_iff [OF a kb(2)] by (simp add: icontains_def lo_def hi_def)
    moreover have "icontains x (a - gKernelBase) \<longleftrightarrow> ks \<le> a \<and> a \<le> he"
      using kernel_offset_le_iff [OF order(1) a] kernel_offset_le_iff [OF a hb] by (simp add: icontains_def x_def)
    ultimately show ?thesis by blast
  qed
  moreover have "mScratchLow s' = lo" "mScratchHigh s' = hi" "mKernelHeap s' = Some (Heap_new heap he)"
    by (simp_all add: s'_def addKernelRegion_def)
  ultimately show ?thesis using u r(3) kb(1) by auto
qed

lemma setheap_witness:
  "\<exists>s'. setheap 0xC0100000 0xC0800000 0x8000000 example_vmm = Inr s' \<and> 0xC87FFFFF < mScratchLow s'
     \<and> isWithinKernelRegion 0xC0900000 s' \<noteq> None"
proof -
  have e: "mKernelHeap example_vmm = None" "mKernelRegions example_vmm = []" by (simp_all add: example_vmm_def)
  have "\<not> unat h + 1 = unat l + 0x801000 \<or> \<not> h < (0xC0100000 :: u32) \<or> \<not> 0xC0000000 \<le> l" for h l :: u32
    by (auto simp: word_le_nat_alt word_less_nat_alt)
  then show ?thesis
    using setheap_spec [OF e, of "0x8000000" "0xC87FFFFF" "0xC0800000" "0xC0100000"]
    by (fastforce simp: gKernelBase_def)
qed

end
