(* ===== verification/Address_Space.thy ===== *)
theory Address_Space
  imports Kernel_Heap
begin

text \<open>
  Whole address spaces (\<open>src/kernel/src/mm/virt.cpp\<close>): \<open>createAddressSpace\<close> builds the page
  directory of a new process, \<open>cloneAddressSpace\<close> adds copy-on-write duplicates of the current
  process's pages to one, \<open>cleanAddressSpace\<close> gives the frames of the current process back, and
  \<open>mapOtherProcessPage\<close> maps a page of another process. New directories and tables are written
  through scratch pages, as in the source: a scratch page is unmapped where its variable goes out
  of scope.
\<close>

section \<open>Operations\<close>

definition gPresentBit :: u32 where "gPresentBit = 0x1"
definition gWritableBit :: u32 where "gWritableBit = 0x2"
definition gUserBit :: u32 where "gUserBit = 0x4"
definition gGlobalBit :: u32 where "gGlobalBit = 0x100"
definition gNewPhysicalPageBit :: u32 where "gNewPhysicalPageBit = 0x200"

definition newPageDirBits :: u32 where
  "newPageDirBits = gPresentBit OR gWritableBit OR gUserBit OR gNewPhysicalPageBit"

definition new_table_options :: map_options_t where
  "new_table_options = map_options_default\<lparr>o_rw := True, o_user := False, o_clear := True\<rparr>"

definition table_options :: map_options_t where
  "table_options = map_options_default\<lparr>o_rw := True, o_user := False\<rparr>"

text \<open>One new, cleared page table, entered in slot \<open>i\<close> of the directory seen at \<open>pageDir\<close>.\<close>

definition new_table :: "u32 \<Rightarrow> u32 \<Rightarrow> vmm \<Rightarrow> vmm kernel" where
  "new_table pageDir i s =
     kbind (vm_alloc s) (\<lambda>(pPageTbl, s).
     kbind (vstore (pageDir + 4 * i) (pPageTbl OR newPageDirBits) s) (\<lambda>s.
     kbind (getScratchPage_phys pPageTbl new_table_options s) (\<lambda>(pageTblScratch, s).
     sp_destroy pageTblScratch s)))"

definition share_table :: "u32 \<Rightarrow> u32 \<Rightarrow> vmm \<Rightarrow> vmm kernel" where
  "share_table pageDir i s =
     kbind (vload (gPageDirectoryAddress + 4 * i) s) (\<lambda>w. vstore (pageDir + 4 * i) w s)"

definition indices_from :: "nat \<Rightarrow> nat \<Rightarrow> u32 list" where
  "indices_from a b = map of_nat [a..<b]"

definition map_directory :: "u32 \<Rightarrow> u32 \<Rightarrow> vmm \<Rightarrow> vmm kernel" where
  "map_directory pageDir pPageDir s =
     kbind (vload (pageDir + 4 * 1022) s) (\<lambda>pageDir1022.
     kbind (getScratchPage_phys (pageDir1022 AND NOT newPageDirBits) table_options s) (\<lambda>(pageTblScratch, s).
     kbind (vstore (sp_address pageTblScratch + 4 * 1023) (pPageDir OR gPresentBit OR gWritableBit OR gUserBit) s) (\<lambda>s.
     sp_destroy pageTblScratch s)))"

definition map_own_table :: "u32 \<Rightarrow> u32 \<Rightarrow> u32 \<Rightarrow> vmm \<Rightarrow> vmm kernel" where
  "map_own_table pageDir pageTbl i s =
     kbind (vload (pageDir + 4 * i) s) (\<lambda>w.
       vstore (pageTbl + 4 * i) (w AND NOT (gUserBit OR gNewPhysicalPageBit)) s)"

definition map_tables :: "u32 \<Rightarrow> vmm \<Rightarrow> vmm kernel" where
  "map_tables pageDir s =
     kbind (vload (pageDir + 4 * 1023) s) (\<lambda>pageDir1023.
     kbind (getScratchPage_phys (pageDir1023 AND NOT newPageDirBits) table_options s) (\<lambda>(pageTblScratch, s).
     let pageTbl = sp_address pageTblScratch in
     kbind (kfold (map_own_table pageDir pageTbl) (indices_from 0 768) s) (\<lambda>s.
     kbind (kfold (share_table pageTbl) (indices_from 768 1022) s) (\<lambda>s.
     kbind (kfold (map_own_table pageDir pageTbl) (indices_from 1022 1024) s) (\<lambda>s.
     sp_destroy pageTblScratch s)))))"

definition createAddressSpace :: "vmm \<Rightarrow> (u32 \<times> vmm) kernel" where
  "createAddressSpace s =
     kbind (vm_alloc s) (\<lambda>(pPageDir, s).
     kbind (getScratchPage_phys pPageDir new_table_options s) (\<lambda>(pageDirScratch, s).
     let pageDir = sp_address pageDirScratch in
     kbind (kfold (new_table pageDir) (indices_from 0 768) s) (\<lambda>s.
     kbind (kfold (share_table pageDir) (indices_from 768 1022) s) (\<lambda>s.
     kbind (kfold (new_table pageDir) (indices_from 1022 1024) s) (\<lambda>s.
     kbind (map_directory pageDir pPageDir s) (\<lambda>s.
     kbind (map_tables pageDir s) (\<lambda>s.
     kbind (sp_destroy pageDirScratch s) (\<lambda>s.
     Inr (pPageDir, s)))))))))"

definition clone_entry :: "u32 \<Rightarrow> u32 \<Rightarrow> PagingIndices \<Rightarrow> vmm \<Rightarrow> vmm kernel" where
  "clone_entry pageTbl j indices s =
     kbind (entry_load indices s) (\<lambda>tbl.
       if \<not> te_get Present tbl then Inr s
       else
         kbind (if te_get Rw tbl
                then kbind (markCOW (pi_address indices) s)
                       (\<lambda>(_, s). Inr (te_set Rw False (te_set Cow True tbl), s))
                else Inr (tbl, s)) (\<lambda>(tbl, s).
         kbind (vstore (pageTbl + 4 * j) tbl s) (\<lambda>s.
         if te_get Frompmm tbl then vm_alloc_at (te_page tbl) s else Inr s)))"

definition clone_table :: "u32 \<Rightarrow> u32 \<Rightarrow> PagingIndices \<times> vmm \<Rightarrow> (PagingIndices \<times> vmm) kernel" where
  "clone_table pageDir i = (\<lambda>(indices, s).
     kbind (vload (pageDir + 4 * i) s) (\<lambda>w.
     kbind (getScratchPage_phys (w AND NOT gFlagsBitmask) new_table_options s) (\<lambda>(pageTblScratch, s).
     let pageTbl = sp_address pageTblScratch in
     kbind (kfold (\<lambda>j (indices, s). kbind (clone_entry pageTbl j indices s) (\<lambda>s. Inr (pi_incr indices, s)))
              (indices_from 0 1024) (indices, s)) (\<lambda>(indices, s).
     kbind (sp_destroy pageTblScratch s) (\<lambda>s. Inr (indices, s))))))"

definition cloneAddressSpace :: "vmm \<Rightarrow> (u32 \<times> vmm) kernel" where
  "cloneAddressSpace s =
     kbind (createAddressSpace s) (\<lambda>(newCR3, s).
     kbind (getScratchPage_phys newCR3 table_options s) (\<lambda>(pageDirScratch, s).
     kbind (kfold (clone_table (sp_address pageDirScratch)) (indices_from 0 768) (pi_of_virt 0, s)) (\<lambda>(_, s).
     kbind (sp_destroy pageDirScratch s) (\<lambda>s.
     Inr (newCR3, s)))))"

definition clean_entry :: "u32 \<Rightarrow> u32 \<Rightarrow> vmm \<Rightarrow> vmm kernel" where
  "clean_entry i j s =
     kbind (entry_load \<lparr>pi_dir = i, pi_tbl = j\<rparr> s) (\<lambda>tbl.
       if te_get Present tbl \<and> te_get Frompmm tbl then vm_dealloc (te_page tbl) s else Inr s)"

definition clean_table :: "u32 \<Rightarrow> vmm \<Rightarrow> vmm kernel" where
  "clean_table i s =
     (if i \<ge> 768 \<and> i \<le> 1021 then Inr s
      else kbind (kfold (clean_entry i) (indices_from 0 1024) s) (\<lambda>s.
           kbind (mapping (gPageTable i 0) s) (\<lambda>m. vm_dealloc m s)))"

definition cleanAddressSpace :: "vmm \<Rightarrow> vmm kernel" where
  "cleanAddressSpace s = kfold clean_table (indices_from 0 1024) s"

definition mapOtherProcessPage :: "u32 \<Rightarrow> u32 \<Rightarrow> u32 \<Rightarrow> map_options_t \<Rightarrow> vmm \<Rightarrow> (u32 \<times> vmm) kernel" where
  "mapOtherProcessPage other_cr3 otherVirt selfVirt op s =
     (let indices = pi_of_virt otherVirt in
      kbind (getScratchPage map_options_kernel s) (\<lambda>(other_pd, s).
      let pd = sp_address other_pd;
          leave = (\<lambda>r s. kbind (sp_destroy other_pd s) (\<lambda>s. Inr (r, s)))
      in
      kbind (vm_unmap pd s) (\<lambda>s.
      kbind (vm_map other_cr3 pd map_options_kernel s) (\<lambda>(_, s).
      kbind (vload (pd + 4 * pi_dir indices) s) (\<lambda>otherPageDirEntry.
      if otherPageDirEntry AND 1 = 0 then leave 0 s
      else
        kbind (vm_unmap pd s) (\<lambda>s.
        kbind (vm_map (page otherPageDirEntry) pd map_options_kernel s) (\<lambda>(_, s).
        kbind (vload (pd + 4 * pi_tbl indices) s) (\<lambda>otherPageTblEntry.
        if otherPageTblEntry AND 1 = 0 then leave 0 s
        else
          let isFromPMM = otherPageTblEntry AND 0x200 \<noteq> 0;
              otherPage = page otherPageTblEntry
          in
          kbind (if isFromPMM then vm_alloc_at otherPage s else Inr s) (\<lambda>s.
          kbind (vm_map otherPage selfVirt (op\<lparr>o_frompmm := isFromPMM\<rparr>) s) (\<lambda>(_, s).
          leave selfVirt s))))))))))"

end
