(* ===== verification/Space_Steps.thy ===== *)
theory Space_Steps
  imports Address_Space
begin

text \<open>
  The steps an address space is built from: reading and writing the words of a mapped page, a
  session with a scratch page (open, change the frame, let go), new page tables, shared ones and
  the tables of the window. \<open>evolves\<close> is the relation every step keeps: the current address space
  translates as before and memory changes in the named frames only.
\<close>

section \<open>Words of a mapped page\<close>

lemma slot_address:
  assumes "offset v = 0" and "i < 1024"
  shows "pi_of_virt (v + 4 * i) = pi_of_virt v" and "offset (v + 4 * i) = 4 * i"
proof -
  have "unat i < 1024" using assms(2) by (simp add: word_less_nat_alt)
  moreover have "(of_nat (4 * unat i) :: u32) = 4 * i" by simp
  ultimately show "pi_of_virt (v + 4 * i) = pi_of_virt v" and "offset (v + 4 * i) = 4 * i"
    using pi_of_virt_plus [OF assms(1), of "4 * unat i"] page_plus(2) [OF assms(1), of "4 * unat i"] by auto
qed

definition put_slot :: "u32 \<Rightarrow> u32 \<Rightarrow> u32 \<Rightarrow> vmm \<Rightarrow> vmm" where
  "put_slot p i w s = s\<lparr>vm_mem := set_slot p i w (vm_mem s)\<rparr>"

lemma put_slot_fields [simp]:
  "vm_pmm (put_slot p i w s) = vm_pmm s" "vm_cr3 (put_slot p i w s) = vm_cr3 s"
  "vm_stats (put_slot p i w s) = vm_stats s" "mKernelHeap (put_slot p i w s) = mKernelHeap s"
  "mKernelRegions (put_slot p i w s) = mKernelRegions s"
  "mScratchLow (put_slot p i w s) = mScratchLow s" "mScratchHigh (put_slot p i w s) = mScratchHigh s"
  by (simp_all add: put_slot_def)

lemma paging_put_slot:
  assumes "p \<notin> paging_frames s"
  shows "pde (put_slot p i w s) d = pde s d"
    and "pi_dir ix < 1024 \<Longrightarrow> pte (put_slot p i w s) ix = pte s ix"
    and "paging_ok (put_slot p i w s) = paging_ok s"
    and "paging_frames (put_slot p i w s) = paging_frames s"
    and "walk wr v (put_slot p i w s) = walk wr v s"
proof -
  have "vm_mem (put_slot p i w s) q = vm_mem s q" if "q \<in> paging_frames s" for q
  proof -
    have "p \<noteq> q" using that assms by blast
    then show ?thesis by (simp add: put_slot_def)
  qed
  note c = paging_cong [OF put_slot_fields(2) this] walk_cong [OF put_slot_fields(2) this]
  show "pde (put_slot p i w s) d = pde s d" by (rule c)
  show "pi_dir ix < 1024 \<Longrightarrow> pte (put_slot p i w s) ix = pte s ix" by (rule c)
  show "paging_ok (put_slot p i w s) = paging_ok s" by (rule c)
  show "paging_frames (put_slot p i w s) = paging_frames s" by (rule c)
  show "walk wr v (put_slot p i w s) = walk wr v s" by (rule c)
qed

lemma vload_slot:
  assumes "walk False v s = Inr p" and "offset v = 0" and "i < 1024"
  shows "vload (v + 4 * i) s = Inr (slot_word (vm_mem s) p i)"
  using walk_same_page [OF assms(1) slot_address(1) [OF assms(2,3)]] slot_address(2) [OF assms(2,3)]
  by (simp add: vload_def slot_word_def)

lemma vstore_slot:
  assumes "walk True v s = Inr p" and "offset v = 0" and "i < 1024"
  shows "vstore (v + 4 * i) w s = Inr (put_slot p i w s)"
  using walk_same_page [OF assms(1) slot_address(1) [OF assms(2,3)]] slot_address(2) [OF assms(2,3)]
  by (simp add: vstore_def put_slot_def set_slot_def)

lemma slot_word_put_slot:
  "i < 1024 \<Longrightarrow> j < 1024 \<Longrightarrow> slot_word (vm_mem (put_slot p i w s)) q j = (if q = p \<and> i = j then w else slot_word (vm_mem s) q j)"
  by (cases "q = p") (auto simp: put_slot_def slot_word_set_slot)

lemma vm_mem_put_slot: "q \<noteq> p \<Longrightarrow> vm_mem (put_slot p i w s) q = vm_mem s q"
  by (simp add: put_slot_def)

section \<open>Changes that keep the current address space\<close>

text \<open>
  \<open>evolves v F s s'\<close>: from \<open>s\<close> to \<open>s'\<close> the current address space translates as before, up to the flags
  of the unmapped scratch page \<open>v\<close>, and memory outside the page tables changes in the frames \<open>F\<close> only.
\<close>

definition evolves :: "u32 \<Rightarrow> u32 set \<Rightarrow> vmm \<Rightarrow> vmm \<Rightarrow> bool" where
  "evolves v F s s' \<longleftrightarrow>
     vm_cr3 s' = vm_cr3 s \<and> vm_stats s' = vm_stats s \<and> mScratchLow s' = mScratchLow s \<and> mScratchHigh s' = mScratchHigh s
   \<and> paging_ok s' \<and> paging_frames s' = paging_frames s \<and> pde s' = pde s
   \<and> (\<forall>u. te_get Present (entry s' u) = te_get Present (entry s u))
   \<and> (\<forall>u. page u \<noteq> page v \<longrightarrow> entry s' u = entry s u)
   \<and> (\<forall>q a. q \<notin> paging_frames s \<and> q \<notin> F \<and> unat a < 4096 \<longrightarrow> vm_mem s' q a = vm_mem s q a)"

lemma evolves_refl: "paging_ok s \<Longrightarrow> evolves v F s s"
  by (simp add: evolves_def)

lemma evolves_trans: "evolves v F s t \<Longrightarrow> evolves v G t u \<Longrightarrow> evolves v (F \<union> G) s u"
  by (auto simp: evolves_def)

lemma evolves_mono: "evolves v F s t \<Longrightarrow> F \<subseteq> G \<Longrightarrow> evolves v G s t"
  unfolding evolves_def by blast

lemma evolves_scratch: "evolves v F s t \<Longrightarrow> paging_ok s \<Longrightarrow> scratch_free s x \<Longrightarrow> scratch_free t x"
  by (rule scratch_free_cong) (auto simp: evolves_def)

lemma evolves_put_slot: "paging_ok s \<Longrightarrow> p \<notin> paging_frames s \<Longrightarrow> evolves v {p} s (put_slot p i w s)"
  by (auto simp: evolves_def paging_put_slot vm_mem_put_slot fun_eq_iff)

lemma evolves_set_pmm: "paging_ok s \<Longrightarrow> evolves v {} s (s\<lparr>vm_pmm := p\<rparr>)"
  by (auto simp: evolves_def)

lemma evolves_slot:
  assumes "evolves v F s t" and "q \<notin> paging_frames s" and "q \<notin> F" and "i < 1024"
  shows "slot_word (vm_mem t) q i = slot_word (vm_mem s) q i"
  using assms by (intro slot_word_bytes) (auto simp: evolves_def)

lemma evolves_walk:
  assumes "evolves v F s t" and "page u \<noteq> page v"
  shows "walk wr u t = walk wr u s"
  using assms by (simp add: evolves_def walk_def Let_def)

definition keeps :: "u32 set \<Rightarrow> vmm \<Rightarrow> vmm \<Rightarrow> bool" where
  "keeps F s s' \<longleftrightarrow>
     vm_cr3 s' = vm_cr3 s \<and> vm_stats s' = vm_stats s \<and> mScratchLow s' = mScratchLow s \<and> mScratchHigh s' = mScratchHigh s
   \<and> vm_pmm s' = vm_pmm s \<and> paging_ok s' \<and> paging_frames s' = paging_frames s \<and> pde s' = pde s
   \<and> (\<forall>u. entry s' u = entry s u)
   \<and> (\<forall>q a. q \<notin> paging_frames s \<and> q \<notin> F \<and> unat a < 4096 \<longrightarrow> vm_mem s' q a = vm_mem s q a)"

lemma keeps_evolves: "keeps F s t \<Longrightarrow> evolves v F s t"
  by (simp add: keeps_def evolves_def)

lemma keeps_refl: "paging_ok s \<Longrightarrow> keeps F s s"
  by (simp add: keeps_def)

lemma keeps_trans: "keeps F s t \<Longrightarrow> keeps F t u \<Longrightarrow> keeps F s u"
  by (auto simp: keeps_def)

lemma keeps_put_slot:
  assumes "keeps {p} s u" and "p \<notin> paging_frames s"
  shows "keeps {p} s (put_slot p i w u)"
proof -
  have "p \<notin> paging_frames u" using assms by (simp add: keeps_def)
  then show ?thesis
    using assms by (auto simp: keeps_def paging_put_slot vm_mem_put_slot fun_eq_iff)
qed

lemma keeps_walk: "keeps F s t \<Longrightarrow> walk wr u t = walk wr u s"
  by (simp add: keeps_def walk_def Let_def)

section \<open>A session with a scratch page\<close>

definition scratch_options :: "map_options_t \<Rightarrow> bool" where
  "scratch_options op \<longleftrightarrow> o_rw op \<and> \<not> o_frompmm op"

definition opened :: "u32 \<Rightarrow> u32 \<Rightarrow> map_options_t \<Rightarrow> vmm \<Rightarrow> vmm \<Rightarrow> bool" where
  "opened v phys op s t \<longleftrightarrow>
     vm_pmm t = vm_pmm s \<and> vm_cr3 t = vm_cr3 s \<and> vm_stats t = vm_stats s
   \<and> mScratchLow t = mScratchLow s \<and> mScratchHigh t = mScratchHigh s
   \<and> paging_ok t \<and> paging_frames t = paging_frames s \<and> pde t = pde s
   \<and> (\<forall>wr. walk wr v t = Inr phys) \<and> \<not> te_get Frompmm (entry t v) \<and> entry_maps op phys (entry t v)
   \<and> (\<forall>u. page u \<noteq> page v \<longrightarrow> entry t u = entry s u)
   \<and> (\<forall>q a. q \<notin> paging_frames s \<and> unat a < 4096 \<longrightarrow>
        vm_mem t q a = (if o_clear op \<and> q = phys then 0 else vm_mem s q a))"

lemma scratch_opens:
  assumes ok: "paging_ok s" and sc: "scratch_free s v" and ph: "offset phys = 0" "phys \<notin> paging_frames s"
    and op: "scratch_options op"
  shows "\<exists>t. getScratchPage_phys phys op s = Inr (\<lparr>sp_address = v, sp_owned = False\<rparr>, t) \<and> opened v phys op s t"
proof -
  have v: "iskernel v" "below_window v" using sc by (auto simp: scratch_free_def)
  obtain w where w: "entry_maps op phys w" and g: "getScratchPage_phys phys op s =
      Inr (\<lparr>sp_address = v, sp_owned = False\<rparr>, after_map phys v op w s)" (is "_ = Inr (_, ?t)")
    using getScratchPage_phys_ok [OF ok sc ph(1)] ph(2) by blast
  note p = after_map_paging [OF ok v(2), of op phys w]
  have ok': "paging_ok ?t" and f: "paging_frames ?t = paging_frames s"
    and e: "entry ?t u = (if page u = page v then w else entry s u)" for u
    using p ph(2) by auto
  have t: "pde ?t = pde s"
    using ok ph(2) v(1) by (simp add: after_map_def count_allocated_def paging_put_page fun_eq_iff
        paging_frames_set_pte pde_set_pte)
  have "vm_stats ?t = vm_stats s" using v(1) by (simp add: after_map_def count_allocated_def)
  moreover have "walk wr v ?t = Inr phys" for wr
    using walk_entry [OF ok', of v wr] e w op by (simp add: entry_maps_def scratch_options_def)
  ultimately have "opened v phys op s ?t"
    using ok' f t e w op after_map_mem [OF ok] by (simp add: opened_def) (simp add: entry_maps_def scratch_options_def)
  then show ?thesis using g by blast
qed

lemma scratch_closes:
  assumes ok: "paging_ok s" and v: "v \<noteq> 0" "offset v = 0" "below_window v" "iskernel v"
    and np: "\<not> te_get Frompmm (entry s v)"
  shows "\<exists>t. sp_destroy \<lparr>sp_address = v, sp_owned = ow\<rparr> s = Inr t
    \<and> vm_pmm t = vm_pmm s \<and> vm_cr3 t = vm_cr3 s \<and> vm_stats t = vm_stats s
    \<and> mScratchLow t = mScratchLow s \<and> mScratchHigh t = mScratchHigh s
    \<and> paging_ok t \<and> paging_frames t = paging_frames s \<and> pde t = pde s
    \<and> \<not> te_get Present (entry t v) \<and> (\<forall>u. page u \<noteq> page v \<longrightarrow> entry t u = entry s u)
    \<and> (\<forall>q. q \<notin> paging_frames s \<longrightarrow> vm_mem t q = vm_mem s q)"
proof -
  obtain w where w: "entry_cleared w" and d: "sp_destroy \<lparr>sp_address = v, sp_owned = ow\<rparr> s = Inr (after_unmap v w (vm_pmm s) s)" (is "_ = Inr ?t")
    using sp_destroy_ok [OF ok v(1-3) np] by blast
  note p = after_unmap_paging [OF ok v(3), of w "vm_pmm s"]
  have "pde ?t = pde s" "vm_stats ?t = vm_stats s"
    using ok v(4) by (simp_all add: after_unmap_def count_allocated_def pde_set_pte Let_def)
  then show ?thesis
    using d p w after_unmap_mem [OF ok] by (intro exI [of _ ?t]) (auto simp: entry_cleared_def)
qed


lemma session_evolves:
  assumes ok: "paging_ok s" and sc: "scratch_free s v"
    and t: "vm_cr3 t = vm_cr3 s" "vm_stats t = vm_stats s" "mScratchLow t = mScratchLow s" "mScratchHigh t = mScratchHigh s"
      "paging_ok t" "paging_frames t = paging_frames s" "pde t = pde s" "\<not> te_get Present (entry t v)"
    and e: "\<forall>u. page u \<noteq> page v \<longrightarrow> entry t u = entry s u"
    and m: "\<forall>q a. q \<notin> paging_frames s \<and> q \<notin> F \<and> unat a < 4096 \<longrightarrow> vm_mem t q a = vm_mem s q a"
  shows "evolves v F s t"
proof -
  have "te_get Present (entry t u) = te_get Present (entry s u)" for u
  proof (cases "page u = page v")
    case True
    then have "pi_of_virt u = pi_of_virt v" by (simp add: pi_of_virt_eq_iff)
    then show ?thesis using t(8) scratch_free_not_mapped [OF sc ok] by simp
  qed (use e in simp)
  then show ?thesis using t e m by (simp add: evolves_def)
qed

text \<open>A page that is mapped is not the scratch page.\<close>

lemma mapped_not_scratch:
  assumes "paging_ok s" and "scratch_free s v" and "te_get Present (entry s u)"
  shows "page u \<noteq> page v"
  using assms scratch_free_not_mapped [OF assms(2,1)] by (metis pi_of_virt_eq_iff)

text \<open>
  A whole session: the scratch page is opened on a frame, the body changes that frame alone, and the page is let
  go. What remains is the change of the frame.
\<close>

lemma scratch_session:
  assumes ok: "paging_ok s" and sc: "scratch_free s v" and ph: "offset phys = 0" "phys \<notin> paging_frames s"
    and op: "scratch_options op"
    and body: "\<And>t. opened v phys op s t \<Longrightarrow> \<exists>u. body t = Inr u \<and> keeps {phys} t u \<and> Q t u"
  shows "\<exists>t u r. getScratchPage_phys phys op s = Inr (\<lparr>sp_address = v, sp_owned = False\<rparr>, t)
    \<and> body t = Inr u \<and> sp_destroy \<lparr>sp_address = v, sp_owned = False\<rparr> u = Inr r
    \<and> vm_pmm r = vm_pmm s \<and> evolves v {phys} s r \<and> opened v phys op s t \<and> Q t u
    \<and> (\<forall>i<1024. slot_word (vm_mem r) phys i = slot_word (vm_mem u) phys i)"
proof -
  have v: "v \<noteq> 0" "offset v = 0" "below_window v" "iskernel v" using sc by (auto simp: scratch_free_def)
  obtain t where g: "getScratchPage_phys phys op s = Inr (\<lparr>sp_address = v, sp_owned = False\<rparr>, t)"
    and t: "opened v phys op s t"
    using scratch_opens [OF ok sc ph op] by blast
  obtain u where u: "body t = Inr u" "keeps {phys} t u" "Q t u" using body [OF t] by blast
  have oku: "paging_ok u" "\<not> te_get Frompmm (entry u v)" using u(2) t by (auto simp: keeps_def opened_def)
  obtain r where d: "sp_destroy \<lparr>sp_address = v, sp_owned = False\<rparr> u = Inr r"
    and r: "vm_pmm r = vm_pmm u" "vm_cr3 r = vm_cr3 u" "vm_stats r = vm_stats u"
      "mScratchLow r = mScratchLow u" "mScratchHigh r = mScratchHigh u" "paging_ok r" "paging_frames r = paging_frames u" "pde r = pde u"
      "\<not> te_get Present (entry r v)" "\<forall>x. page x \<noteq> page v \<longrightarrow> entry r x = entry u x"
      "\<forall>q. q \<notin> paging_frames u \<longrightarrow> vm_mem r q = vm_mem u q"
    using scratch_closes [OF oku(1) v oku(2)] by blast
  have "evolves v {phys} s r"
    by (rule session_evolves [OF ok sc]) (use t u(2) r in \<open>auto simp: opened_def keeps_def\<close>)
  moreover have "slot_word (vm_mem r) phys i = slot_word (vm_mem u) phys i" for i
    using r(11) t u(2) ph(2) by (intro slot_word_cong) (auto simp: opened_def keeps_def)
  ultimately show ?thesis using g d u t r(1) by (auto simp: opened_def keeps_def)
qed

text \<open>Clearing a frame through a scratch page.\<close>

lemma table_options_ok:
  "scratch_options new_table_options" "o_clear new_table_options" "scratch_options table_options" "\<not> o_clear table_options"
  by (simp_all add: scratch_options_def new_table_options_def table_options_def map_options_default_def)

lemma clear_through_scratch:
  assumes ok: "paging_ok s" and sc: "scratch_free s v" and ph: "offset phys = 0" "phys \<notin> paging_frames s"
  shows "\<exists>t. kbind (getScratchPage_phys phys new_table_options s) (\<lambda>(sp, s). sp_destroy sp s) = Inr t
    \<and> vm_pmm t = vm_pmm s \<and> evolves v {phys} s t \<and> (\<forall>i<1024. slot_word (vm_mem t) phys i = 0)"
proof -
  have "\<exists>u. Inr t = Inr u \<and> keeps {phys} t u \<and> (\<forall>i<1024. slot_word (vm_mem u) phys i = 0)"
    if "opened v phys new_table_options s t" for t
    using that ph(2) table_options_ok(2) by (auto simp: opened_def keeps_refl intro!: slot_zero)
  from scratch_session [OF ok sc ph table_options_ok(1), of Inr, OF this] show ?thesis by auto
qed

section \<open>The steps of \<open>createAddressSpace\<close>\<close>

text \<open>The directory under construction: frame \<open>D\<close>, mapped writable at the page \<open>va\<close>.\<close>

definition building :: "u32 \<Rightarrow> u32 \<Rightarrow> u32 \<Rightarrow> vmm \<Rightarrow> bool" where
  "building v va D s \<longleftrightarrow>
     vm_inv s \<and> scratch_free s v \<and> offset va = 0 \<and> te_get Present (entry s va) \<and> te_get Rw (entry s va)
   \<and> te_page (entry s va) = D \<and> D \<notin> paging_frames s \<and> \<not> page_avail (vm_pmm s) (index D)"

lemma building_walk: "building v va D s \<Longrightarrow> walk wr va s = Inr D"
  by (simp add: building_def vm_inv_def walk_entry)

lemma building_evolves:
  assumes b: "building v va D s" and e: "evolves v F s t" and i: "pmm_inv (vm_pmm t)"
    and f: "free_set (vm_pmm t) \<subseteq> free_set (vm_pmm s)"
  shows "building v va D t"
proof -
  have ok: "paging_ok s" "scratch_free s v" using b by (simp_all add: building_def vm_inv_def)
  have "page va \<noteq> page v" using b mapped_not_scratch [OF ok] by (simp add: building_def)
  then have en: "entry t va = entry s va" using e by (simp add: evolves_def)
  have pf: "paging_frames t = paging_frames s" "paging_ok t" using e by (simp_all add: evolves_def)
  have held: "paging_held t" by (rule paging_held_shrink [OF _ pf(1) f]) (use b in \<open>simp add: building_def vm_inv_def\<close>)
  have "\<not> page_avail (vm_pmm t) (index D)" using b f by (auto simp: building_def free_set_def)
  then show ?thesis
    using b en pf held i evolves_scratch [OF e ok] by (simp add: building_def vm_inv_def)
qed

lemma new_table_ok:
  assumes b: "building v va D s" and i: "i < 1024" and room: "free_set (vm_pmm s) \<noteq> {}"
  shows "\<exists>T t. new_table va i s = Inr t \<and> building v va D t \<and> evolves v {D, T} s t
    \<and> offset T = 0 \<and> index T \<in> free_set (vm_pmm s) \<and> free_set (vm_pmm t) = free_set (vm_pmm s) - {index T}
    \<and> refs (vm_pmm t) = (refs (vm_pmm s))(index T := 1) \<and> is_usable (vm_pmm t) = is_usable (vm_pmm s)
    \<and> (\<forall>j<1024. slot_word (vm_mem t) T j = 0)
    \<and> (\<forall>j<1024. slot_word (vm_mem t) D j = (if j = i then T OR newPageDirBits else slot_word (vm_mem s) D j))"
proof -
  have inv: "vm_inv s" "paging_ok s" "scratch_free s v" using b by (simp_all add: building_def vm_inv_def)
  have D: "D \<notin> paging_frames s" "offset va = 0" using b by (simp_all add: building_def)
  obtain T p where a: "vm_alloc s = Inr (T, s\<lparr>vm_pmm := p\<rparr>)" "pmm_inv p" "offset T = 0"
    "page_avail (vm_pmm s) (index T)" "free_set p = free_set (vm_pmm s) - {index T}"
    "refs p = (refs (vm_pmm s))(index T := 1)" "is_usable p = is_usable (vm_pmm s)"
    using vm_alloc_ok [OF _ room] inv(1) by (auto simp: vm_inv_def)
  have T: "T \<notin> paging_frames s" "T \<noteq> D"
    using inv(1) a(4) b by (auto simp: vm_inv_def building_def dest: paging_held_fresh)
  let ?s1 = "s\<lparr>vm_pmm := p\<rparr>" and ?s2 = "put_slot D i (T OR newPageDirBits) (s\<lparr>vm_pmm := p\<rparr>)"
  have st: "vstore (va + 4 * i) (T OR newPageDirBits) ?s1 = Inr ?s2"
    using building_walk [OF b, of True] D(2) i by (intro vstore_slot) simp_all
  have e2: "evolves v {D} s ?s2"
  proof -
    have "evolves v {} s ?s1" using inv(2) by (rule evolves_set_pmm)
    moreover have "evolves v {D} ?s1 ?s2" using inv(2) D(1) by (intro evolves_put_slot) simp_all
    ultimately show ?thesis using evolves_trans by fastforce
  qed
  have ok2: "paging_ok ?s2" "scratch_free ?s2 v" "T \<notin> paging_frames ?s2"
    using e2 evolves_scratch [OF e2 inv(2,3)] T(1) by (simp_all add: evolves_def)
  obtain t where t: "kbind (getScratchPage_phys T new_table_options ?s2) (\<lambda>(sp, s). sp_destroy sp s) = Inr t"
    "vm_pmm t = p" "evolves v {T} ?s2 t" "\<forall>j<1024. slot_word (vm_mem t) T j = 0"
    using clear_through_scratch [OF ok2(1,2) a(3) ok2(3)] by auto
  have ev: "evolves v {D, T} s t" using evolves_trans [OF e2 t(3)] by (simp add: insert_commute)
  have "slot_word (vm_mem t) D j = (if j = i then T OR newPageDirBits else slot_word (vm_mem s) D j)" if "j < 1024" for j
    using evolves_slot [OF t(3) _ _ that, of D] D(1) T(2) e2 i that
    by (auto simp: slot_word_put_slot evolves_def)
  moreover have "building v va D t" using b ev t(2) a(2,5) by (intro building_evolves [OF b ev]) auto
  moreover have "new_table va i s = Inr t" using a(1) st t(1) by (simp add: new_table_def)
  ultimately show ?thesis
    using ev a t(2,4) by (intro exI [of _ T] exI [of _ t]) (simp add: free_set_def)
qed


lemma free_not_building: "building v va D s \<Longrightarrow> index T \<in> free_set (vm_pmm s) \<Longrightarrow> T \<noteq> D \<and> T \<notin> paging_frames s"
  by (auto simp: building_def vm_inv_def free_set_def dest: paging_held_fresh)

lemma new_tables_ok:
  assumes "building v va D s" and "distinct is" and "\<forall>i \<in> set is. i < 1024"
    and "length is \<le> card (free_set (vm_pmm s))"
  shows "\<exists>f t. kfold (new_table va) is s = Inr t \<and> building v va D t \<and> evolves v (insert D (f ` set is)) s t
    \<and> (\<forall>i \<in> set is. offset (f i) = 0 \<and> index (f i) \<in> free_set (vm_pmm s)) \<and> inj_on (index \<circ> f) (set is)
    \<and> free_set (vm_pmm t) = free_set (vm_pmm s) - (index \<circ> f) ` set is
    \<and> refs (vm_pmm t) = (\<lambda>x. if x \<in> (index \<circ> f) ` set is then 1 else refs (vm_pmm s) x)
    \<and> is_usable (vm_pmm t) = is_usable (vm_pmm s)
    \<and> (\<forall>i \<in> set is. \<forall>j<1024. slot_word (vm_mem t) (f i) j = 0)
    \<and> (\<forall>j<1024. slot_word (vm_mem t) D j = (if j \<in> set is then f j OR newPageDirBits else slot_word (vm_mem s) D j))"
  using assms
proof (induction "is" arbitrary: s)
  case Nil
  then have "evolves v {D} s s" by (simp add: building_def vm_inv_def evolves_refl)
  then show ?case using Nil.prems by auto
next
  case (Cons i js)
  then have ne: "free_set (vm_pmm s) \<noteq> {}" and i: "i < 1024" by auto
  obtain T t1 where t1: "new_table va i s = Inr t1" "building v va D t1" "evolves v {D, T} s t1" "offset T = 0"
    "index T \<in> free_set (vm_pmm s)" "free_set (vm_pmm t1) = free_set (vm_pmm s) - {index T}"
    "refs (vm_pmm t1) = (refs (vm_pmm s))(index T := 1)" "is_usable (vm_pmm t1) = is_usable (vm_pmm s)"
    "\<forall>j<1024. slot_word (vm_mem t1) T j = 0"
    "\<forall>j<1024. slot_word (vm_mem t1) D j = (if j = i then T OR newPageDirBits else slot_word (vm_mem s) D j)"
    using new_table_ok [OF Cons.prems(1) i ne] by blast
  have js: "distinct js" "\<forall>i \<in> set js. i < 1024" "length js \<le> card (free_set (vm_pmm t1))"
    using Cons.prems t1(5,6) by simp_all
  obtain f t where t: "kfold (new_table va) js t1 = Inr t" "building v va D t" "evolves v (insert D (f ` set js)) t1 t"
    "\<forall>i \<in> set js. offset (f i) = 0 \<and> index (f i) \<in> free_set (vm_pmm t1)" "inj_on (index \<circ> f) (set js)"
    "free_set (vm_pmm t) = free_set (vm_pmm t1) - (index \<circ> f) ` set js"
    "refs (vm_pmm t) = (\<lambda>x. if x \<in> (index \<circ> f) ` set js then 1 else refs (vm_pmm t1) x)"
    "is_usable (vm_pmm t) = is_usable (vm_pmm t1)"
    "\<forall>i \<in> set js. \<forall>j<1024. slot_word (vm_mem t) (f i) j = 0"
    "\<forall>j<1024. slot_word (vm_mem t) D j = (if j \<in> set js then f j OR newPageDirBits else slot_word (vm_mem t1) D j)"
    using Cons.IH [OF t1(2) js] by blast
  let ?f = "f(i := T)"
  have nij: "i \<notin> set js" using Cons.prems(2) by simp
  then have im: "?f ` set (i # js) = insert T (f ` set js)" "(index \<circ> ?f) ` set (i # js) = insert (index T) ((index \<circ> f) ` set js)"
    and eq: "\<And>j. j \<in> set js \<Longrightarrow> ?f j = f j" by (auto simp: image_def)
  have Tj: "index T \<noteq> index (f j)" if "j \<in> set js" for j using that t(4) t1(6) by auto
  have "T \<noteq> D \<and> T \<notin> paging_frames s" by (rule free_not_building [OF Cons.prems(1) t1(5)])
  moreover have "paging_frames t1 = paging_frames s" using t1(3) by (simp add: evolves_def)
  ultimately have "slot_word (vm_mem t) T j = 0" if "j < 1024" for j
    using evolves_slot [OF t(3) _ _ that, of T] Tj t1(9) that by auto
  then have zero: "\<forall>k \<in> set (i # js). \<forall>j<1024. slot_word (vm_mem t) (?f k) j = 0" using t(9) by simp
  have ev: "evolves v (insert D (?f ` set (i # js))) s t"
    unfolding im using evolves_trans [OF t1(3) t(3)] by (rule evolves_mono) auto
  have inj: "inj_on (index \<circ> ?f) (set (i # js))"
    using t(5) Tj not_sym [OF Tj] nij by (auto simp: inj_on_def)
  show ?case
    by (rule exI [of _ ?f], rule exI [of _ t], intro conjI ev inj zero)
      (use t1 t im eq nij in \<open>auto split: if_splits\<close>)
qed


section \<open>Filling a frame\<close>

lemma fill_slots_from:
  assumes P: "P \<notin> paging_frames s"
    and step: "\<And>i u. i \<in> set is \<Longrightarrow> keeps {P} s u \<Longrightarrow> step i u = Inr (put_slot P i (g i) u)"
    and u: "keeps {P} s u" and lt: "\<forall>i \<in> set is. i < 1024"
  shows "\<exists>t. kfold step is u = Inr t \<and> keeps {P} s t
    \<and> (\<forall>j<1024. slot_word (vm_mem t) P j = (if j \<in> set is then g j else slot_word (vm_mem u) P j))"
  using step u lt
proof (induction "is" arbitrary: u)
  case Nil
  then show ?case by auto
next
  case (Cons i js)
  let ?u = "put_slot P i (g i) u"
  have k: "keeps {P} s ?u" using Cons.prems(2) P by (rule keeps_put_slot)
  obtain t where t: "kfold step js ?u = Inr t" "keeps {P} s t"
    "\<forall>j<1024. slot_word (vm_mem t) P j = (if j \<in> set js then g j else slot_word (vm_mem ?u) P j)"
    using Cons.IH [of ?u] Cons.prems k by auto
  then show ?case using Cons.prems by (auto simp: slot_word_put_slot)
qed

lemmas fill_slots = fill_slots_from [OF _ _ keeps_refl]

text \<open>The directory seen through its own window.\<close>

definition dir_window :: "vmm \<Rightarrow> bool" where
  "dir_window s \<longleftrightarrow> te_get Present (entry s gPageDirectoryAddress) \<and> te_page (entry s gPageDirectoryAddress) = page (vm_cr3 s)"

lemma load_directory:
  assumes "paging_ok s" and "dir_window s" and "i < 1024"
  shows "vload (gPageDirectoryAddress + 4 * i) s = Inr (pde s i)"
proof -
  have "offset gPageDirectoryAddress = 0" by (simp add: gPageDirectoryAddress_def offset_def gPageSize_def)
  moreover have "walk False gPageDirectoryAddress s = Inr (page (vm_cr3 s))"
    using assms by (simp add: walk_entry dir_window_def)
  ultimately show ?thesis using assms(3) by (simp add: vload_slot pde_def)
qed

lemma share_table_ok:
  assumes "paging_ok s" and "dir_window s" and "walk True va s = Inr P" and "offset va = 0" and "i < 1024"
  shows "share_table va i s = Inr (put_slot P i (pde s i) s)"
  using assms by (simp add: share_table_def load_directory vstore_slot)

lemma share_tables_ok:
  assumes ok: "paging_ok s" and w: "dir_window s" and va: "walk True va s = Inr P" "offset va = 0" "P \<notin> paging_frames s"
    and lt: "\<forall>i \<in> set is. i < 1024"
  shows "\<exists>t. kfold (share_table va) is s = Inr t \<and> keeps {P} s t
    \<and> (\<forall>j<1024. slot_word (vm_mem t) P j = (if j \<in> set is then pde s j else slot_word (vm_mem s) P j))"
proof (rule fill_slots [OF va(3) _ ok lt])
  fix i u assume "i \<in> set is" and k: "keeps {P} s u"
  then have "paging_ok u" "dir_window u" "pde u = pde s" using w by (auto simp: keeps_def dir_window_def)
  then show "share_table va i u = Inr (put_slot P i (pde s i) u)"
    using share_table_ok [of u va P i] keeps_walk [OF k] va lt \<open>i \<in> set is\<close> by simp
qed

lemma map_own_tables_ok:
  assumes ok: "paging_ok s" and va: "walk False va s = Inr D" "offset va = 0" "D \<notin> paging_frames s" "D \<noteq> P"
    and v: "walk True v s = Inr P" "offset v = 0" "P \<notin> paging_frames s"
    and lt: "\<forall>i \<in> set is. i < 1024"
  shows "\<exists>t. kfold (map_own_table va v) is s = Inr t \<and> keeps {P} s t
    \<and> (\<forall>j<1024. slot_word (vm_mem t) P j =
        (if j \<in> set is then slot_word (vm_mem s) D j AND NOT (gUserBit OR gNewPhysicalPageBit) else slot_word (vm_mem s) P j))"
proof (rule fill_slots [OF v(3) _ ok lt])
  fix i u assume i: "i \<in> set is" and k: "keeps {P} s u"
  then have "slot_word (vm_mem u) D i = slot_word (vm_mem s) D i"
    using va(3,4) lt by (intro slot_word_bytes) (auto simp: keeps_def)
  then show "map_own_table va v i u = Inr (put_slot P i (slot_word (vm_mem s) D i AND NOT (gUserBit OR gNewPhysicalPageBit)) u)"
    using vload_slot [of va u D i] vstore_slot [of v u P i] keeps_walk [OF k] va v lt i by (simp add: map_own_table_def)
qed


lemma low_bits: "page x = 0 \<Longrightarrow> bit x n \<Longrightarrow> n < 12"
  using bit_page [of x n] by (auto simp: not_less [symmetric])

lemma strip_low_bits:
  assumes "offset T = 0" and "page x = 0" and "page y = 0"
  shows "(T OR x) AND NOT y = T OR (x AND NOT y)"
  using low_bits [OF assms(3)] aligned_low_bits [OF assms(1)]
  by (intro bit_word_eqI) (auto simp: bit_and_iff bit_or_iff bit_not_iff, fastforce)

lemma newPageDirBits_eq: "newPageDirBits = 0x207"
  by (simp add: newPageDirBits_def gPresentBit_def gWritableBit_def gUserBit_def gNewPhysicalPageBit_def)

lemma strip_flags:
  assumes "offset T = 0"
  shows "(T OR newPageDirBits) AND NOT newPageDirBits = T"
proof -
  have "page newPageDirBits = 0" by (simp add: newPageDirBits_eq page_def gPageSize_def)
  then show ?thesis using assms by (subst strip_low_bits) simp_all
qed

lemma map_directory_ok:
  assumes b: "building v va D s" and d: "slot_word (vm_mem s) D 1022 = T OR newPageDirBits"
    and T: "offset T = 0" "T \<notin> paging_frames s"
  shows "\<exists>t. map_directory va dir s = Inr t \<and> vm_pmm t = vm_pmm s \<and> evolves v {T} s t
    \<and> (\<forall>j<1024. slot_word (vm_mem t) T j =
        (if j = 1023 then dir OR gPresentBit OR gWritableBit OR gUserBit else slot_word (vm_mem s) T j))"
proof -
  let ?w = "dir OR gPresentBit OR gWritableBit OR gUserBit"
  have ok: "paging_ok s" "scratch_free s v" "offset va = 0" using b by (simp_all add: building_def vm_inv_def)
  have ld: "vload (va + 4 * 1022) s = Inr (T OR newPageDirBits)"
    using vload_slot [OF building_walk [OF b] ok(3), of 1022] d by simp
  have v: "offset v = 0" using ok(2) by (simp add: scratch_free_def)
  have body: "\<exists>u. vstore (v + 4 * 1023) ?w t = Inr u \<and> keeps {T} t u
      \<and> (\<forall>j<1024. slot_word (vm_mem u) T j = (if j = 1023 then ?w else slot_word (vm_mem s) T j))"
    if t: "opened v T table_options s t" for t
  proof -
    have "slot_word (vm_mem t) T j = slot_word (vm_mem s) T j" if "j < 1024" for j
      using t T(2) table_options_ok(4) that by (intro slot_word_bytes) (auto simp: opened_def)
    moreover have "walk True v t = Inr T" "paging_ok t" "T \<notin> paging_frames t" using t T(2) by (auto simp: opened_def)
    ultimately show ?thesis
      using vstore_slot [of v t T 1023 ?w] keeps_put_slot [OF keeps_refl] v by (auto simp: slot_word_put_slot)
  qed
  from scratch_session [OF ok(1,2) T table_options_ok(3) body]
  show ?thesis using ld strip_flags [OF T(1)] by (auto simp: map_directory_def)
qed


lemma evolves_dir_window:
  assumes e: "evolves v F s t" and "paging_ok s" and "scratch_free s v" and "dir_window s"
  shows "dir_window t"
proof -
  have "page gPageDirectoryAddress \<noteq> page v"
    using mapped_not_scratch [OF assms(2,3)] assms(4) by (simp add: dir_window_def)
  then show ?thesis using e assms(4) by (simp add: evolves_def dir_window_def)
qed

lemma indices_from_less: "b \<le> 1024 \<Longrightarrow> i \<in> set (indices_from a b) \<longleftrightarrow> a \<le> unat i \<and> unat i < b"
  by (auto simp: indices_from_def image_iff unat_of_nat intro!: bexI [of _ "unat i"])

lemma indices_from_word:
  "i \<in> set (indices_from 0 768) \<longleftrightarrow> i < 768" "i \<in> set (indices_from 768 1022) \<longleftrightarrow> 768 \<le> i \<and> i < 1022"
  "i \<in> set (indices_from 1022 1024) \<longleftrightarrow> 1022 \<le> i \<and> i < 1024" "i \<in> set (indices_from 0 1024) \<longleftrightarrow> i < 1024"
  by (simp_all add: indices_from_less word_less_nat_alt word_le_nat_alt)

lemma indices_from_distinct: "b \<le> 1024 \<Longrightarrow> distinct (indices_from a b)"
proof -
  assume "b \<le> 1024"
  have "inj_on (of_nat :: nat \<Rightarrow> u32) {a..<b}"
  proof (rule inj_onI)
    fix x y :: nat assume "x \<in> {a..<b}" "y \<in> {a..<b}" and eq: "(of_nat x :: u32) = of_nat y"
    then have "x < 2 ^ 32" "y < 2 ^ 32" using \<open>b \<le> 1024\<close> by simp_all
    with eq show "x = y" by (metis unat_of_nat_u32)
  qed
  then show ?thesis by (simp add: indices_from_def distinct_map)
qed

text \<open>The words of the last table of a new address space.\<close>

definition window_word :: "(u32 \<Rightarrow> u32) \<Rightarrow> (u32 \<Rightarrow> u32) \<Rightarrow> u32 \<Rightarrow> u32" where
  "window_word new old j = (if 768 \<le> j \<and> j < 1022 then old j else new j AND NOT (gUserBit OR gNewPhysicalPageBit))"

lemma map_tables_ok:
  assumes b: "building v va D s" and w: "dir_window s" and d: "slot_word (vm_mem s) D 1023 = T OR newPageDirBits"
    and T: "offset T = 0" "T \<notin> paging_frames s" "T \<noteq> D"
  shows "\<exists>t. map_tables va s = Inr t \<and> vm_pmm t = vm_pmm s \<and> evolves v {T} s t
    \<and> (\<forall>j<1024. slot_word (vm_mem t) T j = window_word (slot_word (vm_mem s) D) (pde s) j)"
proof -
  have ok: "paging_ok s" "scratch_free s v" "offset va = 0" "D \<notin> paging_frames s" "te_get Present (entry s va)"
    using b by (simp_all add: building_def vm_inv_def)
  have ld: "vload (va + 4 * 1023) s = Inr (T OR newPageDirBits)"
    using vload_slot [OF building_walk [OF b] ok(3), of 1023] d by simp
  have v: "offset v = 0" using ok(2) by (simp add: scratch_free_def)
  let ?body = "\<lambda>t. kbind (kfold (map_own_table va v) (indices_from 0 768) t) (\<lambda>s.
     kbind (kfold (share_table v) (indices_from 768 1022) s) (\<lambda>s.
     kfold (map_own_table va v) (indices_from 1022 1024) s))"
  have body: "\<exists>u. ?body t = Inr u \<and> keeps {T} t u
      \<and> (\<forall>j<1024. slot_word (vm_mem u) T j = window_word (slot_word (vm_mem s) D) (pde s) j)"
    if t: "opened v T table_options s t" for t
  proof -
    note o = t [unfolded opened_def]
    have Tt: "T \<notin> paging_frames t" "D \<notin> paging_frames t" "paging_ok t" using o T(2) ok(4) by simp_all
    have "page va \<noteq> page v" by (rule mapped_not_scratch [OF ok(1,2,5)])
    then have "entry t va = entry s va" using o by simp
    then have wd: "walk False va t = Inr D"
      using walk_entry [OF Tt(3), of va False] b by (simp add: building_def)
    have sd: "slot_word (vm_mem t) D j = slot_word (vm_mem s) D j" if "j < 1024" for j
      using o ok(4) T(3) that by (intro slot_word_bytes) auto
    have dw: "dir_window t"
      using mapped_not_scratch [OF ok(1,2), of gPageDirectoryAddress] w o by (simp add: dir_window_def)
    let ?g = "\<lambda>j. slot_word (vm_mem s) D j AND NOT (gUserBit OR gNewPhysicalPageBit)"
    have lt: "\<forall>i \<in> set (indices_from 0 768). i < 1024" "\<forall>i \<in> set (indices_from 768 1022). i < 1024"
      "\<forall>i \<in> set (indices_from 1022 1024). i < 1024"
      by (auto simp: indices_from_less word_less_nat_alt)
    obtain u1 where u1: "kfold (map_own_table va v) (indices_from 0 768) t = Inr u1" "keeps {T} t u1"
      "\<forall>j<1024. slot_word (vm_mem u1) T j = (if j < 768 then ?g j else slot_word (vm_mem t) T j)"
      using map_own_tables_ok [OF Tt(3) wd ok(3) Tt(2) T(3) [symmetric] _ v Tt(1) lt(1)] o sd
      by (auto simp: indices_from_word)
    have k1: "paging_ok u1" "dir_window u1" "pde u1 = pde s" "T \<notin> paging_frames u1"
      using u1(2) dw o T(2) by (auto simp: keeps_def dir_window_def)
    obtain u2 where u2: "kfold (share_table v) (indices_from 768 1022) u1 = Inr u2" "keeps {T} u1 u2"
      "\<forall>j<1024. slot_word (vm_mem u2) T j = (if 768 \<le> j \<and> j < 1022 then pde s j else slot_word (vm_mem u1) T j)"
      using share_tables_ok [OF k1(1,2) _ v k1(4) lt(2)] keeps_walk [OF u1(2)] o k1(3)
      by (auto simp: indices_from_word)
    have k2: "keeps {T} t u2" using u1(2) u2(2) by (rule keeps_trans)
    then have p2: "paging_ok u2" "T \<notin> paging_frames u2" "D \<notin> paging_frames u2"
      using Tt by (simp_all add: keeps_def)
    have sd2: "slot_word (vm_mem u2) D j = slot_word (vm_mem s) D j" if "j < 1024" for j
      using evolves_slot [OF keeps_evolves [OF k2] Tt(2) _ that] T(3) sd [OF that] by simp
    obtain u3 where u3: "kfold (map_own_table va v) (indices_from 1022 1024) u2 = Inr u3" "keeps {T} u2 u3"
      "\<forall>j<1024. slot_word (vm_mem u3) T j = (if 1022 \<le> j \<and> j < 1024 then ?g j else slot_word (vm_mem u2) T j)"
      using map_own_tables_ok [OF p2(1) _ ok(3) p2(3) T(3) [symmetric] _ v p2(2) lt(3)] keeps_walk [OF k2] o wd sd2
      by (auto simp: indices_from_word)
    have "slot_word (vm_mem u3) T j = window_word (slot_word (vm_mem s) D) (pde s) j" if "j < 1024" for j
      using u3(3) u2(3) u1(3) that by (auto simp: window_word_def)
    then show ?thesis using u1(1) u2(1) u3(1) keeps_trans [OF k2 u3(2)] by auto
  qed
  from scratch_session [OF ok(1,2) T(1,2) table_options_ok(3) body]
  obtain t u r where r: "getScratchPage_phys T table_options s = Inr (\<lparr>sp_address = v, sp_owned = False\<rparr>, t)"
    "?body t = Inr u" "sp_destroy \<lparr>sp_address = v, sp_owned = False\<rparr> u = Inr r" "vm_pmm r = vm_pmm s" "evolves v {T} s r"
    "\<forall>j<1024. slot_word (vm_mem u) T j = window_word (slot_word (vm_mem s) D) (pde s) j"
    "\<forall>i<1024. slot_word (vm_mem r) T i = slot_word (vm_mem u) T i" by blast
  then have "map_tables va s = Inr r"
    using ld strip_flags [OF T(1)] by (auto simp: map_tables_def Let_def kbind_eq_Inr_iff)
  then show ?thesis using r by auto
qed

end
