(* ===== verification/Space_Create.thy ===== *)
theory Space_Create
  imports Space_Steps
begin

text \<open>
  Correctness of \<open>createAddressSpace\<close>: the frames it fills form an address space of their own
  (\<open>new_space\<close>), with an empty user half and the kernel half shared.
\<close>

section \<open>Free scratch pages\<close>

definition scratch_range :: "vmm \<Rightarrow> u32 list" where
  "scratch_range s = map (page_at (page (mScratchLow s))) [0..<page_count (mScratchLow s) (mScratchHigh s)]"

definition scratch_pages :: "nat \<Rightarrow> vmm \<Rightarrow> bool" where
  "scratch_pages n s \<longleftrightarrow> gKernelBase \<le> mScratchLow s \<and> mScratchLow s \<le> mScratchHigh s \<and> mScratchHigh s < 0xFFC00000
   \<and> n \<le> length (filter (\<lambda>a. \<not> te_get Present (entry s a)) (scratch_range s))"

lemma page_count_le: "low \<le> high \<Longrightarrow> unat (page low) + 4096 * page_count low high \<le> unat high"
proof -
  assume "low \<le> high"
  then have "unat low div 4096 \<le> unat high div 4096" by (simp add: word_le_nat_alt div_le_mono)
  then have "unat low div 4096 + page_count low high = unat high div 4096" by (simp add: page_count_def)
  then have "unat (page low) + 4096 * page_count low high = 4096 * (unat high div 4096)"
    by (simp add: unat_page)
  then show ?thesis by simp
qed

lemma scratch_range_page:
  assumes "scratch_pages n s" and "a \<in> set (scratch_range s)"
  shows "offset a = 0" and "iskernel a" and "below_window a" and "a \<noteq> 0" and "a \<le> mScratchHigh s"
proof -
  let ?l = "mScratchLow s" and ?h = "mScratchHigh s"
  have le: "gKernelBase \<le> ?l" "?l \<le> ?h" "?h < 0xFFC00000" using assms(1) by (auto simp: scratch_pages_def)
  obtain k where k: "k < page_count ?l ?h" "a = page_at (page ?l) k" using assms(2) by (auto simp: scratch_range_def)
  have h: "unat ?h < 0xFFC00000" using le(3) by (simp add: word_less_nat_alt)
  have b: "unat (page ?l) + 4096 * k < unat ?h" using page_count_le [OF le(2)] k(1) by linarith
  then have u: "unat a = unat (page ?l) + 4096 * k" using k(2) h by (simp add: page_at_unat)
  have "unat (offset a) = 0" by (simp add: unat_offset u unat_page)
  then show "offset a = 0" by (simp add: unat_eq_zero)
  have "0xC0000000 \<le> unat ?l" using le(1) by (simp add: gKernelBase_def word_le_nat_alt)
  then have "786432 \<le> unat ?l div 4096" using div_le_mono [of "3221225472" "unat ?l" 4096] by simp
  then have ge: "0xC0000000 \<le> unat a" using u by (simp add: unat_page)
  then show "iskernel a" "a \<noteq> 0" by (auto simp: iskernel_def gKernelBase_def word_le_nat_alt)
  show "below_window a" "a \<le> ?h" using u b h by (simp_all add: below_window_def word_less_nat_alt word_le_nat_alt)
qed

lemma scratch_pages_free:
  assumes ok: "paging_ok s" and n: "scratch_pages (Suc n) s"
  shows "\<exists>v. scratch_free s v \<and> v \<in> set (scratch_range s)"
proof -
  let ?xs = "filter (\<lambda>a. \<not> te_get Present (entry s a)) (scratch_range s)"
  obtain v where v: "List.find (\<lambda>a. \<not> te_get Present (entry s a)) (scratch_range s) = Some v"
    using n by (cases "List.find (\<lambda>a. \<not> te_get Present (entry s a)) (scratch_range s)")
      (auto simp: scratch_pages_def find_None_iff filter_empty_conv)
  then have m: "v \<in> set (scratch_range s)" by (auto simp: find_Some_iff)
  have "mScratchLow s \<le> mScratchHigh s" using n by (simp add: scratch_pages_def)
  then have "findPageWithinRange (mScratchLow s) (mScratchHigh s) s = Inr v"
    using findPageWithinRange_find [OF ok] v by (simp add: scratch_range_def)
  then show ?thesis using scratch_range_page [OF n m] m by (auto simp: scratch_free_def)
qed

lemma scratch_range_distinct: "scratch_pages n s \<Longrightarrow> distinct (scratch_range s)"
proof -
  assume n: "scratch_pages n s"
  let ?l = "mScratchLow s" and ?h = "mScratchHigh s"
  have le: "?l \<le> ?h" "?h < 0xFFC00000" using n by (auto simp: scratch_pages_def)
  have "inj_on (page_at (page ?l)) {0..<page_count ?l ?h}"
  proof (rule inj_onI)
    fix j k assume jk: "j \<in> {0..<page_count ?l ?h}" "k \<in> {0..<page_count ?l ?h}" and eq: "page_at (page ?l) j = page_at (page ?l) k"
    have "unat (page_at (page ?l) i) = unat (page ?l) + 4096 * i" if "i < page_count ?l ?h" for i
    proof (rule page_at_unat)
      have "unat (page ?l) + 4096 * i \<le> unat ?h" using page_count_le [OF le(1)] that by linarith
      then show "unat (page ?l) + 4096 * i < 2 ^ 32" using u32_bound [of ?h] by simp
    qed
    then show "j = k" using jk eq by (metis add_left_cancel atLeastLessThan_iff mult_cancel1 zero_neq_numeral)
  qed
  then show "distinct (scratch_range s)" by (simp add: scratch_range_def distinct_map)
qed

text \<open>Mapping one scratch page leaves the others.\<close>

lemma scratch_pages_used:
  assumes n: "scratch_pages (Suc n) s" and v: "v \<in> set (scratch_range s)"
    and t: "mScratchLow t = mScratchLow s" "mScratchHigh t = mScratchHigh s"
    and e: "\<forall>u. page u \<noteq> page v \<longrightarrow> entry t u = entry s u"
  shows "scratch_pages n t"
proof -
  have r: "scratch_range t = scratch_range s" using t by (simp add: scratch_range_def)
  have "page a \<noteq> page v" if "a \<in> set (scratch_range s)" "a \<noteq> v" for a
    using that v scratch_range_page(1) [OF n] page_aligned by metis
  then have sub: "set (remove1 v (filter (\<lambda>a. \<not> te_get Present (entry s a)) (scratch_range s)))
      \<subseteq> set (filter (\<lambda>a. \<not> te_get Present (entry t a)) (scratch_range s))"
    using e scratch_range_distinct [OF n] by auto
  have "n \<le> length (remove1 v (filter (\<lambda>a. \<not> te_get Present (entry s a)) (scratch_range s)))"
    using n by (auto simp: scratch_pages_def length_remove1)
  also have "\<dots> \<le> length (filter (\<lambda>a. \<not> te_get Present (entry t a)) (scratch_range s))"
    using card_mono [OF finite_set sub]
    unfolding distinct_card [OF distinct_remove1 [OF distinct_filter [OF scratch_range_distinct [OF n]]]]
      distinct_card [OF distinct_filter [OF scratch_range_distinct [OF n]]] .
  finally show ?thesis using n t r by (simp add: scratch_pages_def)
qed


section \<open>The new address space\<close>

text \<open>
  What the frames of a new address space hold: the directory \<open>D\<close> with a table \<open>F d\<close> per slot, of which those of
  the kernel are the current ones; empty tables for the user half; the last two tables map the directory and the tables.
\<close>

definition new_space :: "u32 \<Rightarrow> (u32 \<Rightarrow> u32) \<Rightarrow> vmm \<Rightarrow> bool" where
  "new_space D F s \<longleftrightarrow>
     offset D = 0 \<and> D \<notin> paging_frames s \<and> inj_on F slots \<and> D \<notin> F ` slots
   \<and> (\<forall>d<1024. offset (F d) = 0 \<and> (if 768 \<le> d \<and> d < 1022
        then F d = table_at s d \<and> slot_word (vm_mem s) D d = pde s d
        else F d \<notin> paging_frames s \<and> slot_word (vm_mem s) D d = F d OR newPageDirBits))
   \<and> (\<forall>d<768. \<forall>t<1024. slot_word (vm_mem s) (F d) t = 0)
   \<and> slot_word (vm_mem s) (F 1022) 1023 = D OR gPresentBit OR gWritableBit OR gUserBit
   \<and> (\<forall>d<1024. slot_word (vm_mem s) (F 1023) d = window_word (slot_word (vm_mem s) D) (pde s) d)"

lemma new_space_flags:
  assumes "offset T = 0"
  shows "de_table (T OR newPageDirBits) = T" "de_get DPresent (T OR newPageDirBits)" "de_get DRw (T OR newPageDirBits)"
    "te_page ((T OR newPageDirBits) AND NOT (gUserBit OR gNewPhysicalPageBit)) = T"
    "te_get Present ((T OR newPageDirBits) AND NOT (gUserBit OR gNewPhysicalPageBit))"
    "te_get Rw ((T OR newPageDirBits) AND NOT (gUserBit OR gNewPhysicalPageBit))"
proof -
  let ?x = "newPageDirBits" and ?y = "gUserBit OR gNewPhysicalPageBit"
  have z: "page ?x = 0" "page ?y = 0"
    by (simp_all add: newPageDirBits_eq gUserBit_def gNewPhysicalPageBit_def page_def gPageSize_def)
  have "de_get DPresent ?x" "de_get DRw ?x" by (simp_all add: newPageDirBits_eq de_get_def field_get_def)
  then show "de_table (T OR ?x) = T" "de_get DPresent (T OR ?x)" "de_get DRw (T OR ?x)"
    using entry_or_flags [OF assms z(1)] by simp_all
  have "?x AND NOT ?y = 3"
    by (simp add: newPageDirBits_eq gUserBit_def gNewPhysicalPageBit_def)
  then have "(T OR ?x) AND NOT ?y = T OR 3" using strip_low_bits [OF assms z] by simp
  then show "te_page ((T OR ?x) AND NOT ?y) = T" "te_get Present ((T OR ?x) AND NOT ?y)" "te_get Rw ((T OR ?x) AND NOT ?y)"
    using entry_or_flags [OF assms flags_3(1)] flags_3 by simp_all
qed

lemma de_te_flags:
  "te_page w = de_table w" "te_get Present w = de_get DPresent w" "te_get Rw w = de_get DRw w"
  by (simp_all add: te_page_def de_table_def te_get_def de_get_def)

lemma new_space_tables:
  assumes ok: "paging_ok s" and n: "new_space D F s"
  defines "t \<equiv> s\<lparr>vm_cr3 := D\<rparr>"
  shows "\<And>d. d < 1024 \<Longrightarrow> pde t d = slot_word (vm_mem s) D d"
    and "\<And>d. d < 1024 \<Longrightarrow> table_at t d = F d"
    and "\<And>ix. pi_dir ix < 1024 \<Longrightarrow> pte t ix = slot_word (vm_mem s) (F (pi_dir ix)) (pi_tbl ix)"
    and "\<And>d. d < 1024 \<Longrightarrow> de_get DPresent (pde t d) \<and> de_get DRw (pde t d)"
proof -
  have "page D = D" using n by (simp add: new_space_def page_aligned)
  then show p: "pde t d = slot_word (vm_mem s) D d" if "d < 1024" for d by (simp add: pde_def t_def)
  show tab: "table_at t d = F d" if "d < 1024" for d
    using n that p [OF that] new_space_flags(1) [of "F d"]
    by (auto simp: new_space_def table_at_def split: if_splits)
  show "pte t ix = slot_word (vm_mem s) (F (pi_dir ix)) (pi_tbl ix)" if "pi_dir ix < 1024" for ix
    using tab [OF that] by (simp add: pte_def) (simp add: t_def)
  show "de_get DPresent (pde t d) \<and> de_get DRw (pde t d)" if "d < 1024" for d
  proof (cases "768 \<le> d \<and> d < 1022")
    case True
    then show ?thesis using n that p [OF that] ok by (simp add: new_space_def paging_ok_def)
  next
    case False
    then have "slot_word (vm_mem s) D d = F d OR newPageDirBits" "offset (F d) = 0" using n that by (auto simp: new_space_def)
    then show ?thesis using p [OF that] new_space_flags(2,3) [of "F d"] by simp
  qed
qed

lemma new_space_ok:
  assumes ok: "paging_ok s" and n: "new_space D F s"
  defines "t \<equiv> s\<lparr>vm_cr3 := D\<rparr>"
  shows "paging_ok t" and "dir_window t" and "u < gKernelBase \<Longrightarrow> entry t u = 0"
    and "gKernelBase \<le> u \<Longrightarrow> u < 0xFF800000 \<Longrightarrow> entry t u = entry s u"
proof -
  note tab = new_space_tables [OF ok n, folded t_def]
  have pg: "page (vm_cr3 t) = D" using n by (simp add: t_def new_space_def page_aligned)
  have w: "te_get Present (pte t \<lparr>pi_dir = 1023, pi_tbl = d\<rparr>) \<and> te_get Rw (pte t \<lparr>pi_dir = 1023, pi_tbl = d\<rparr>)
      \<and> te_page (pte t \<lparr>pi_dir = 1023, pi_tbl = d\<rparr>) = F d" if d: "d < 1024" for d
  proof -
    have e: "pte t \<lparr>pi_dir = 1023, pi_tbl = d\<rparr> = window_word (slot_word (vm_mem s) D) (pde s) d"
      using tab(3) n d by (simp add: new_space_def)
    show ?thesis
    proof (cases "768 \<le> d \<and> d < 1022")
      case True
      then show ?thesis using e n ok d
        by (simp add: new_space_def window_word_def de_te_flags paging_ok_def) (simp add: table_at_def)
    next
      case False
      then have "slot_word (vm_mem s) D d = F d OR newPageDirBits" "offset (F d) = 0" using n d by (auto simp: new_space_def)
      then show ?thesis using e False new_space_flags(4-6) [of "F d"] by (auto simp: window_word_def)
    qed
  qed
  have "inj_on (table_at t) slots" using n tab(2) by (auto simp: new_space_def inj_on_def)
  moreover have "page (vm_cr3 t) \<notin> table_at t ` slots" using n tab(2) pg by (auto simp: new_space_def)
  ultimately show "paging_ok t" using tab(2,4) w by (simp add: paging_ok_def)
  have "pi_of_virt gPageDirectoryAddress = \<lparr>pi_dir = 1022, pi_tbl = 1023\<rparr>"
    by (simp add: pi_of_virt_def gPageDirectoryAddress_def drop_bit_eq_div)
  then have "entry t gPageDirectoryAddress = D OR 7"
    using tab(3) n by (simp add: new_space_def gPresentBit_def gWritableBit_def gUserBit_def or.assoc)
  moreover have "page 7 = (0 :: u32)" "te_get Present 7" by (simp_all add: page_def gPageSize_def te_get_def field_get_def)
  ultimately show "dir_window t" using n pg entry_or_flags [of D 7] by (simp add: dir_window_def new_space_def)
  have dir: "unat (pi_dir (pi_of_virt u)) = unat u div 4194304" by (rule unat_pi_dir)
  show "entry t u = 0" if "u < gKernelBase"
  proof -
    have "unat u < 768 * 4194304" using that by (simp add: gKernelBase_def word_less_nat_alt)
    then have "unat u div 4194304 < 768" by (simp add: less_mult_imp_div_less)
    then have "pi_dir (pi_of_virt u) < 768" using dir by (simp add: word_less_nat_alt)
    then show ?thesis using tab(3) [of "pi_of_virt u"] n by (simp add: new_space_def)
  qed
  show "entry t u = entry s u" if "gKernelBase \<le> u" "u < 0xFF800000"
  proof -
    have "768 * 4194304 \<le> unat u" "unat u < 1022 * 4194304"
      using that by (simp_all add: gKernelBase_def word_less_nat_alt word_le_nat_alt)
    then have "768 \<le> unat u div 4194304" "unat u div 4194304 < 1022"
      using div_le_mono [of "768 * 4194304" "unat u" 4194304] by (simp_all add: less_mult_imp_div_less)
    then have "768 \<le> pi_dir (pi_of_virt u)" "pi_dir (pi_of_virt u) < 1022" using dir by (simp_all add: word_less_nat_alt word_le_nat_alt)
    then show ?thesis using tab(3) [of "pi_of_virt u"] n by (simp add: new_space_def pte_def)
  qed
qed


lemma card_taken:
  assumes "finite S" and "inj_on g A" and "g ` A \<subseteq> S"
  shows "card S = card (S - g ` A) + card A"
  using assms card_mono [OF assms(1,3)]
  by (simp add: card_Diff_subset finite_subset card_image [symmetric])

text \<open>First the tables are allocated and entered in the directory \<dots>\<close>

definition enter_tables :: "u32 \<Rightarrow> vmm \<Rightarrow> vmm kernel" where
  "enter_tables pageDir s =
     kbind (kfold (new_table pageDir) (indices_from 0 768) s) (\<lambda>s.
     kbind (kfold (share_table pageDir) (indices_from 768 1022) s) (\<lambda>s.
     kfold (new_table pageDir) (indices_from 1022 1024) s))"

definition own_slot :: "u32 \<Rightarrow> bool" where
  "own_slot d \<longleftrightarrow> d < 768 \<or> 1022 \<le> d \<and> d < 1024"

definition entered :: "u32 \<Rightarrow> (u32 \<Rightarrow> u32) \<Rightarrow> vmm \<Rightarrow> vmm \<Rightarrow> bool" where
  "entered D F s t \<longleftrightarrow>
     inj_on F {d. own_slot d} \<and> (\<forall>d. own_slot d \<longrightarrow> offset (F d) = 0 \<and> index (F d) \<in> free_set (vm_pmm s))
   \<and> (\<forall>d. own_slot d \<longrightarrow> (\<forall>j<1024. slot_word (vm_mem t) (F d) j = 0))
   \<and> (\<forall>d<1024. slot_word (vm_mem t) D d = (if own_slot d then F d OR newPageDirBits else pde s d))"

lemma enter_tables_ok:
  assumes b: "building v va D s" and w: "dir_window s" and room: "770 \<le> card (free_set (vm_pmm s))"
  shows "\<exists>F t. enter_tables va s = Inr t \<and> building v va D t \<and> entered D F s t
    \<and> evolves v (insert D {p. index p \<in> free_set (vm_pmm s)}) s t
    \<and> card (free_set (vm_pmm s)) = card (free_set (vm_pmm t)) + 770 \<and> free_set (vm_pmm t) \<subseteq> free_set (vm_pmm s)"
proof -
  let ?A = "set (indices_from 0 768)" and ?B = "set (indices_from 768 1022)" and ?C = "set (indices_from 1022 1024)"
  let ?free = "{p. index p \<in> free_set (vm_pmm s)}"
  have lt: "\<forall>i \<in> ?A. i < 1024" "\<forall>i \<in> ?B. i < 1024" "\<forall>i \<in> ?C. i < 1024"
    by (auto simp: indices_from_less word_less_nat_alt)
  have len: "length (indices_from 0 768) = 768" "length (indices_from 1022 1024) = 2" by (simp_all add: indices_from_def)
  have cards: "card ?A = 768" "card ?C = 2"
    using len distinct_card [OF indices_from_distinct, of 768 0] distinct_card [OF indices_from_distinct, of 1024 1022] by simp_all
  have ok: "paging_ok s" "scratch_free s v" using b by (simp_all add: building_def vm_inv_def)
  have notD: "p \<noteq> D \<and> p \<notin> paging_frames s" if "p \<in> ?free" for p using that free_not_building [OF b] by simp
  have "length (indices_from 0 768) \<le> card (free_set (vm_pmm s))" using room len by simp
  then obtain f t1 where t1: "kfold (new_table va) (indices_from 0 768) s = Inr t1" "building v va D t1"
    "evolves v (insert D (f ` ?A)) s t1" "\<forall>i \<in> ?A. offset (f i) = 0 \<and> index (f i) \<in> free_set (vm_pmm s)"
    "inj_on (index \<circ> f) ?A" "free_set (vm_pmm t1) = free_set (vm_pmm s) - (index \<circ> f) ` ?A"
    "\<forall>i \<in> ?A. \<forall>j<1024. slot_word (vm_mem t1) (f i) j = 0"
    "\<forall>j<1024. slot_word (vm_mem t1) D j = (if j \<in> ?A then f j OR newPageDirBits else slot_word (vm_mem s) D j)"
    using new_tables_ok [OF b indices_from_distinct lt(1)] by auto
  have c1: "card (free_set (vm_pmm s)) = card (free_set (vm_pmm t1)) + 768"
    using card_taken [OF finite_free_set t1(5), of "vm_pmm s"] t1(4) cards(1) unfolding t1(6) by fastforce
  have f: "f i \<in> ?free" if "i \<in> ?A" for i using t1(4) that by simp
  have b1: "paging_ok t1" "offset va = 0" "D \<notin> paging_frames t1" "pde t1 = pde s"
    using t1(2,3) by (simp_all add: building_def vm_inv_def evolves_def)
  obtain t2 where t2: "kfold (share_table va) (indices_from 768 1022) t1 = Inr t2" "keeps {D} t1 t2"
    "\<forall>j<1024. slot_word (vm_mem t2) D j = (if j \<in> ?B then pde s j else slot_word (vm_mem t1) D j)"
    using share_tables_ok [OF b1(1) evolves_dir_window [OF t1(3) ok w] building_walk [OF t1(2)] b1(2,3) lt(2)] b1(4) by auto
  have pm: "vm_pmm t2 = vm_pmm t1" using t2(2) by (simp add: keeps_def)
  have b2: "building v va D t2"
    using t1(2) pm by (intro building_evolves [OF t1(2) keeps_evolves [OF t2(2)]]) (simp_all add: building_def vm_inv_def)
  have e2: "evolves v (insert D (f ` ?A)) s t2"
    using evolves_trans [OF t1(3) keeps_evolves [OF t2(2)]] by simp
  have "length (indices_from 1022 1024) \<le> card (free_set (vm_pmm t2))" using room c1 len pm by simp
  then obtain g t3 where t3: "kfold (new_table va) (indices_from 1022 1024) t2 = Inr t3" "building v va D t3"
    "evolves v (insert D (g ` ?C)) t2 t3" "\<forall>i \<in> ?C. offset (g i) = 0 \<and> index (g i) \<in> free_set (vm_pmm t2)"
    "inj_on (index \<circ> g) ?C" "free_set (vm_pmm t3) = free_set (vm_pmm t2) - (index \<circ> g) ` ?C"
    "\<forall>i \<in> ?C. \<forall>j<1024. slot_word (vm_mem t3) (g i) j = 0"
    "\<forall>j<1024. slot_word (vm_mem t3) D j = (if j \<in> ?C then g j OR newPageDirBits else slot_word (vm_mem t2) D j)"
    using new_tables_ok [OF b2 indices_from_distinct lt(3)] by auto
  have c3: "card (free_set (vm_pmm t2)) = card (free_set (vm_pmm t3)) + 2"
    using card_taken [OF finite_free_set t3(5), of "vm_pmm t2"] t3(4) cards(2) unfolding t3(6) by fastforce
  have g: "g i \<in> ?free" "\<And>j. j \<in> ?A \<Longrightarrow> index (g i) \<noteq> index (f j)" if "i \<in> ?C" for i
    using t3(4) that pm t1(6) by auto
  have e3: "evolves v (insert D ?free) s t3"
    by (rule evolves_mono [OF evolves_trans [OF e2 t3(3)]]) (use f g(1) in auto)
  define F where "F d = (if d < 768 then f d else g d)" for d
  have own: "own_slot d \<longleftrightarrow> d \<in> ?A \<or> d \<in> ?C" for d by (simp add: own_slot_def indices_from_word)
  have F: "d \<in> ?A \<Longrightarrow> F d = f d" "d \<in> ?C \<Longrightarrow> F d = g d" for d
    by (auto simp: F_def indices_from_word word_le_nat_alt word_less_nat_alt)
  have "inj_on F {d. own_slot d}"
  proof (rule inj_onI)
    fix x y assume "x \<in> {d. own_slot d}" "y \<in> {d. own_slot d}" "F x = F y"
    then show "x = y"
      using own F g(2) [of x y] g(2) [of y x] inj_onD [OF t1(5), of x y] inj_onD [OF t3(5), of x y] by auto
  qed
  moreover have "\<forall>d. own_slot d \<longrightarrow> offset (F d) = 0 \<and> index (F d) \<in> free_set (vm_pmm s)" 
    using own F t1(4) t3(4) g(1) by auto
  moreover have "slot_word (vm_mem t3) (f d) j = 0" if "d \<in> ?A" "j < 1024" for d j
  proof -
    have "f d \<notin> g ` ?C" using g(2) [OF _ that(1)] by force
    moreover have "f d \<noteq> D" "f d \<notin> paging_frames t1" "f d \<notin> paging_frames t2"
      using notD [OF f [OF that(1)]] t1(3) e2 by (auto simp: evolves_def)
    ultimately show ?thesis
      using evolves_slot [OF t3(3) _ _ that(2)] evolves_slot [OF keeps_evolves [OF t2(2)] _ _ that(2)] t1(7) that by simp
  qed
  moreover have "slot_word (vm_mem t3) D d = (if own_slot d then F d OR newPageDirBits else pde s d)" if "d < 1024" for d
    using t3(8) t2(3) t1(8) that own [of d] F [of d]
    by (auto simp: indices_from_word word_le_nat_alt word_less_nat_alt)
  ultimately have "entered D F s t3" using own F t3(7) by (auto simp: entered_def)
  moreover have "enter_tables va s = Inr t3" using t1(1) t2(1) t3(1) by (simp add: enter_tables_def)
  ultimately show ?thesis using t3(2) e3 c1 c3 pm t3(6) t1(6) by auto
qed


lemma de_table_offset: "offset (de_table w) = 0"
  using offset_page [of w] te_page_eq_page [of w] by (simp add: de_table_def te_page_def)

text \<open>\<dots> then the last two tables get their contents.\<close>

lemma fill_window_ok:
  assumes b: "building v va D s" and w: "dir_window s" and n: "entered D F s0 s" and pd: "pde s = pde s0"
    and free: "\<And>d. own_slot d \<Longrightarrow> F d \<noteq> D \<and> F d \<notin> paging_frames s" and D: "offset D = 0"
  shows "\<exists>t G. kbind (map_directory va D s) (map_tables va) = Inr t \<and> building v va D t \<and> new_space D G t
    \<and> vm_pmm t = vm_pmm s \<and> evolves v {F 1022, F 1023} s t"
proof -
  have own: "own_slot 1022" "own_slot 1023" by (simp_all add: own_slot_def)
  have Dw: "slot_word (vm_mem s) D 1022 = F 1022 OR newPageDirBits" "slot_word (vm_mem s) D 1023 = F 1023 OR newPageDirBits"
    using n own by (auto simp: entered_def)
  have al: "offset (F d) = 0" if "own_slot d" for d using n that by (simp add: entered_def)
  have ne: "F d \<noteq> F e" if "own_slot d" "own_slot e" "d \<noteq> e" for d e using n that by (auto simp: entered_def inj_on_def)
  obtain t where t: "map_directory va D s = Inr t" "vm_pmm t = vm_pmm s" "evolves v {F 1022} s t"
    "\<forall>j<1024. slot_word (vm_mem t) (F 1022) j = (if j = 1023 then D OR gPresentBit OR gWritableBit OR gUserBit else slot_word (vm_mem s) (F 1022) j)"
    using map_directory_ok [OF b Dw(1) al [OF own(1)]] free [OF own(1)] by blast
  have ok: "paging_ok s" "scratch_free s v" "D \<notin> paging_frames s" using b by (simp_all add: building_def vm_inv_def)
  have bt: "building v va D t"
    using b t(2) by (intro building_evolves [OF b t(3)]) (simp_all add: building_def vm_inv_def)
  have pt: "paging_frames t = paging_frames s" "pde t = pde s0" "dir_window t"
    using t(3) pd evolves_dir_window [OF t(3) ok(1,2) w] by (simp_all add: evolves_def)
  have Dt: "slot_word (vm_mem t) D j = slot_word (vm_mem s) D j" if "j < 1024" for j
    using evolves_slot [OF t(3) ok(3) _ that] free [OF own(1)] by auto
  obtain u where u: "map_tables va t = Inr u" "vm_pmm u = vm_pmm t" "evolves v {F 1023} t u"
    "\<forall>j<1024. slot_word (vm_mem u) (F 1023) j = window_word (slot_word (vm_mem t) D) (pde t) j"
    using map_tables_ok [OF bt pt(3) _ al [OF own(2)]] Dt [of 1023] Dw(2) free [OF own(2)] pt(1) by auto
  have bu: "building v va D u"
    using bt u(2) by (intro building_evolves [OF bt u(3)]) (simp_all add: building_def vm_inv_def)
  have Du: "slot_word (vm_mem u) D j = (if own_slot j then F j OR newPageDirBits else pde s0 j)" if "j < 1024" for j
    using evolves_slot [OF u(3) _ _ that, of D] Dt [OF that] free [OF own(2)] ok(3) pt(1) n that by (auto simp: entered_def)
  have pu: "pde u = pde s0" "table_at u = table_at s0" "paging_frames u = paging_frames s"
    using u(3) pt by (simp_all add: evolves_def table_at_def fun_eq_iff)
  have zero: "slot_word (vm_mem u) (F d) j = 0" if "d < 768" "j < 1024" for d j
  proof -
    have d: "own_slot d" "d \<noteq> 1022" "d \<noteq> 1023" using that(1) by (auto simp: own_slot_def)
    then show ?thesis
      using evolves_slot [OF u(3) _ _ that(2), of "F d"] evolves_slot [OF t(3) _ _ that(2), of "F d"] free [OF d(1)]
        ne [OF d(1) own(1) d(2)] ne [OF d(1) own(2) d(3)] pt(1) n that(2) by (simp add: entered_def)
  qed
  define G where "G d = (if own_slot d then F d else table_at s0 d)" for d
  have oku: "paging_ok u" "D \<notin> paging_frames u" using bu by (simp_all add: building_def vm_inv_def)
  have tab: "table_at s0 d \<in> paging_frames u" if "d < 1024" for d using that pu by (auto simp: paging_frames_def)
  have GF: "G d \<noteq> D" "own_slot d \<Longrightarrow> G d \<notin> paging_frames u" if "d < 1024" for d
    using free [of d] tab [OF that] oku(2) pu(3) by (auto simp: G_def)
  have "inj_on G slots"
  proof (rule inj_onI)
    fix x y assume "x \<in> slots" "y \<in> slots" "G x = G y"
    then show "x = y"
      using GF [of x] GF [of y] tab [of x] tab [of y] ne [of x y] table_at_inj [OF oku(1), of x y] pu(2)
      by (cases "own_slot x"; cases "own_slot y") (auto simp: G_def)
  qed
  moreover have "D \<notin> G ` slots" using GF(1) by force
  moreover have "offset (G d) = 0 \<and> (if 768 \<le> d \<and> d < 1022 then G d = table_at u d \<and> slot_word (vm_mem u) D d = pde u d
      else G d \<notin> paging_frames u \<and> slot_word (vm_mem u) D d = G d OR newPageDirBits)" if "d < 1024" for d
  proof -
    have "own_slot d \<longleftrightarrow> \<not> (768 \<le> d \<and> d < 1022)"
      using that by (auto simp: own_slot_def word_le_nat_alt word_less_nat_alt)
    then show ?thesis using al [of d] Du [OF that] GF(2) [OF that] pu by (auto simp: G_def table_at_def de_table_offset)
  qed
  moreover have "slot_word (vm_mem u) (G 1022) 1023 = D OR gPresentBit OR gWritableBit OR gUserBit"
    using evolves_slot [OF u(3), of "F 1022" 1023] free [OF own(1)] ne [OF own] pt(1) t(4) own by (simp add: G_def)
  moreover have "slot_word (vm_mem u) (G 1023) j = window_word (slot_word (vm_mem u) D) (pde u) j" if "j < 1024" for j
    using u(4) Du [OF that] Dt [OF that] n that pu(1) pt(2) own by (simp add: window_word_def entered_def G_def)
  moreover have "slot_word (vm_mem u) (G d) j = 0" if "d < 768" "j < 1024" for d j
    using zero [OF that] that(1) by (simp add: G_def own_slot_def)
  ultimately have "new_space D G u" using D oku(2) unfolding new_space_def by blast
  then show ?thesis using t(1,2) u(1,2) bu evolves_trans [OF t(3) u(3)] by (auto simp: insert_commute)
qed


lemma new_space_closed:
  assumes n: "new_space D F s" and t: "pde t = pde s" "paging_frames t = paging_frames s"
    and m: "\<forall>q. q \<notin> paging_frames s \<longrightarrow> vm_mem t q = vm_mem s q"
  shows "new_space D F t"
proof -
  have tab: "table_at t = table_at s" using t(1) by (simp add: table_at_def fun_eq_iff)
  have own: "F d \<notin> paging_frames s" if "d < 1024" "\<not> (768 \<le> d \<and> d < 1022)" for d
    using n that by (auto simp: new_space_def)
  have u: "F d \<notin> paging_frames s" if "d < 768" for d
    using that by (intro own) (auto simp: word_less_nat_alt word_le_nat_alt)
  have "slot_word (vm_mem t) q j = slot_word (vm_mem s) q j" if "q \<notin> paging_frames s" for q j
    using m that by (intro slot_word_cong) simp
  note eq = this [OF u] this [OF own [of 1022]] this [OF own [of 1023]] this [of D]
  show ?thesis
    using n t tab eq by (simp add: new_space_def window_word_def)
qed

lemma createAddressSpace_eq:
  "createAddressSpace s =
     kbind (vm_alloc s) (\<lambda>(pPageDir, s).
     kbind (getScratchPage_phys pPageDir new_table_options s) (\<lambda>(sp, s).
     kbind (enter_tables (sp_address sp) s) (\<lambda>s.
     kbind (kbind (map_directory (sp_address sp) pPageDir s) (map_tables (sp_address sp))) (\<lambda>s.
     kbind (sp_destroy sp s) (\<lambda>s. Inr (pPageDir, s))))))"
  by (simp add: createAddressSpace_def enter_tables_def kbind_assoc Let_def)

text \<open>The directory is a fresh frame, opened at a scratch page \<open>va\<close> with another one, \<open>v\<close>, left.\<close>

lemma open_directory_ok:
  assumes inv: "vm_inv s" and w: "dir_window s" and sc: "scratch_pages 2 s" and room: "771 \<le> free_frames s"
  shows "\<exists>D p va t v. vm_alloc s = Inr (D, s\<lparr>vm_pmm := p\<rparr>)
    \<and> getScratchPage_phys D new_table_options (s\<lparr>vm_pmm := p\<rparr>) = Inr (\<lparr>sp_address = va, sp_owned = False\<rparr>, t)
    \<and> opened va D new_table_options (s\<lparr>vm_pmm := p\<rparr>) t \<and> scratch_free s va \<and> building v va D t \<and> dir_window t
    \<and> offset D = 0 \<and> page_avail (vm_pmm s) (index D) \<and> free_set p = free_set (vm_pmm s) - {index D}
    \<and> free_frames s = Suc (free_frames t) \<and> 770 \<le> free_frames t"
proof -
  have ok: "paging_ok s" "pmm_inv (vm_pmm s)" "paging_held s" using inv by (simp_all add: vm_inv_def)
  have free: "free_set (vm_pmm s) \<noteq> {}" using room by (auto simp: free_frames_def)
  obtain D p where a: "vm_alloc s = Inr (D, s\<lparr>vm_pmm := p\<rparr>)" "pmm_inv p" "offset D = 0" "page_avail (vm_pmm s) (index D)"
    "free_set p = free_set (vm_pmm s) - {index D}"
    using vm_alloc_ok [OF ok(2) free] by blast
  let ?s = "s\<lparr>vm_pmm := p\<rparr>"
  have D: "D \<notin> paging_frames s" using ok(3) a(4) by (rule paging_held_fresh)
  obtain va where va: "scratch_free s va" "va \<in> set (scratch_range s)"
    using scratch_pages_free [OF ok(1), of 1] sc by (auto simp: numeral_2_eq_2)
  have va': "offset va = 0" using va(1) by (auto simp: scratch_free_def)
  have "scratch_free ?s va" by (rule scratch_free_cong [OF va(1)]) (simp_all add: ok)
  then obtain t where t: "getScratchPage_phys D new_table_options ?s = Inr (\<lparr>sp_address = va, sp_owned = False\<rparr>, t)"
    and o: "opened va D new_table_options ?s t"
    using scratch_opens [of ?s va D, OF _ _ a(3) _ table_options_ok(1)] ok(1) D by auto
  note o' = o [unfolded opened_def]
  have "scratch_pages 1 t" using o' sc va(2) by (intro scratch_pages_used [of 1 s va]) (simp_all add: numeral_2_eq_2)
  then obtain v where v: "scratch_free t v" using scratch_pages_free [of t 0] o' by auto
  have held: "paging_held t" by (rule paging_held_shrink [OF ok(3)]) (use o' a(5) in auto)
  have "\<not> page_avail p (index D)" using a(5) by (auto simp: free_set_def)
  then have b: "building v va D t"
    using v va' o' held a(2) D table_options_ok(1)
    by (simp add: building_def vm_inv_def entry_maps_def scratch_options_def)
  have "page gPageDirectoryAddress \<noteq> page va" using mapped_not_scratch [OF ok(1) va(1)] w by (simp add: dir_window_def)
  then have "dir_window t" using w o' by (simp add: dir_window_def)
  moreover have "free_frames s = Suc (free_frames t)"
    using a(4,5) card_Suc_Diff1 [of "free_set (vm_pmm s)" "index D"] o' by (simp add: free_frames_def free_set_def)
  ultimately show ?thesis using a t o va(1) b room by auto
qed

text \<open>Letting the scratch page of the directory go gives the current address space back.\<close>

lemma close_directory_ok:
  assumes ok: "paging_ok s" and va: "scratch_free s va" and o: "opened va D op (s\<lparr>vm_pmm := p\<rparr>) t"
    and v: "scratch_free t v" and e: "evolves v X t u" and np: "o_clear op \<longrightarrow> D \<in> X"
  shows "\<exists>r. sp_destroy \<lparr>sp_address = va, sp_owned = False\<rparr> u = Inr r \<and> vm_pmm r = vm_pmm u \<and> vm_cr3 r = vm_cr3 s
    \<and> paging_ok r \<and> paging_frames r = paging_frames s \<and> pde r = pde u
    \<and> (\<forall>u. te_get Present (entry r u) = te_get Present (entry s u) \<and> (te_get Present (entry s u) \<longrightarrow> entry r u = entry s u))
    \<and> (\<forall>q. q \<notin> paging_frames s \<longrightarrow> vm_mem r q = vm_mem u q)
    \<and> (\<forall>q a. q \<notin> paging_frames s \<and> q \<notin> X \<and> unat a < 4096 \<longrightarrow> vm_mem r q a = vm_mem s q a)"
proof -
  note o' = o [unfolded opened_def] and e' = e [unfolded evolves_def]
  have va': "va \<noteq> 0" "offset va = 0" "below_window va" "iskernel va" using va by (auto simp: scratch_free_def)
  have vav: "page va \<noteq> page v" using mapped_not_scratch [of t v va] o' v by (simp add: entry_maps_def)
  have "\<not> te_get Frompmm (entry u va)" using e' vav o' by simp
  then obtain r where d: "sp_destroy \<lparr>sp_address = va, sp_owned = False\<rparr> u = Inr r"
    and r: "vm_pmm r = vm_pmm u" "vm_cr3 r = vm_cr3 u" "paging_ok r" "paging_frames r = paging_frames u" "pde r = pde u"
      "\<not> te_get Present (entry r va)" "\<forall>x. page x \<noteq> page va \<longrightarrow> entry r x = entry u x"
      "\<forall>q. q \<notin> paging_frames u \<longrightarrow> vm_mem r q = vm_mem u q"
    using scratch_closes [OF _ va', of u False] e' by blast
  have same: "te_get Present (entry r x) = te_get Present (entry s x) \<and> (te_get Present (entry s x) \<longrightarrow> entry r x = entry s x)" for x
  proof (cases "page x = page va")
    case True
    then have "entry r x = entry r va" "entry s x = entry s va" by (metis pi_of_virt_eq_iff)+
    then show ?thesis using r(6) scratch_free_not_mapped [OF va ok] by simp
  next
    case False
    then have en: "entry r x = entry u x" "entry t x = entry s x" using r(7) o' by simp_all
    show ?thesis
    proof (cases "page x = page v")
      case True
      then have "entry t x = entry t v" by (metis pi_of_virt_eq_iff)
      then have "\<not> te_get Present (entry t x)" using scratch_free_not_mapped [OF v] o' by simp
      then show ?thesis using en e' by simp
    qed (use en e' in simp)
  qed
  have "vm_mem r q a = vm_mem s q a" if "q \<notin> paging_frames s" "q \<notin> X" "unat a < 4096" for q a
    using that r(8) e' o' np by auto
  then show ?thesis using d r same e' o' by auto
qed

text \<open>C6: \<open>createAddressSpace\<close> returns the page directory of an address space with a working page table window,
  nothing mapped below the kernel, and the kernel's translations shared with the current one. The current
  address space translates every address as before, memory in use is untouched, and exactly 771 frames
  are taken from the allocator.\<close>

theorem createAddressSpace_spec:
  assumes inv: "vm_inv s" and w: "dir_window s" and sc: "scratch_pages 2 s" and room: "771 \<le> free_frames s"
  shows "\<exists>cr3 s'. createAddressSpace s = Inr (cr3, s') \<and> vm_inv s' \<and> dir_window s'
    \<and> free_frames s = free_frames s' + 771 \<and> (\<forall>u. mapping u s' = mapping u s)
    \<and> (\<forall>q a. q \<notin> paging_frames s \<and> \<not> page_avail (vm_pmm s) (index q) \<and> unat a < 4096 \<longrightarrow> vm_mem s' q a = vm_mem s q a)
    \<and> page_avail (vm_pmm s) (index cr3) \<and> paging_ok (s'\<lparr>vm_cr3 := cr3\<rparr>) \<and> dir_window (s'\<lparr>vm_cr3 := cr3\<rparr>)
    \<and> (\<forall>u<gKernelBase. mapping u (s'\<lparr>vm_cr3 := cr3\<rparr>) = Inr 0)
    \<and> (\<forall>u. gKernelBase \<le> u \<and> u < 0xFF800000 \<longrightarrow> mapping u (s'\<lparr>vm_cr3 := cr3\<rparr>) = mapping u s)"
proof -
  obtain D p va t v where a: "vm_alloc s = Inr (D, s\<lparr>vm_pmm := p\<rparr>)"
    "getScratchPage_phys D new_table_options (s\<lparr>vm_pmm := p\<rparr>) = Inr (\<lparr>sp_address = va, sp_owned = False\<rparr>, t)"
    and o: "opened va D new_table_options (s\<lparr>vm_pmm := p\<rparr>) t" and va: "scratch_free s va" and b: "building v va D t"
    and wt: "dir_window t" and D: "offset D = 0" "page_avail (vm_pmm s) (index D)" "free_set p = free_set (vm_pmm s) - {index D}"
    and c: "free_frames s = Suc (free_frames t)" "770 \<le> free_frames t"
    using open_directory_ok [OF assms] by blast
  note o' = o [unfolded opened_def]
  have v: "scratch_free t v" "paging_ok t" using b by (simp_all add: building_def vm_inv_def)
  have ok: "paging_ok s" "paging_held s" using inv by (simp_all add: vm_inv_def)
  obtain F t2 where t2: "enter_tables va t = Inr t2" "building v va D t2" "entered D F t t2"
    "evolves v (insert D {q. index q \<in> free_set (vm_pmm t)}) t t2" "free_frames t = free_frames t2 + 770"
    "free_set (vm_pmm t2) \<subseteq> free_set (vm_pmm t)"
    using enter_tables_ok [OF b wt] c(2) unfolding free_frames_def by blast
  have p2: "pde t2 = pde t" using t2(4) by (simp add: evolves_def)
  have sub: "index (F d) \<in> free_set (vm_pmm t)" if "own_slot d" for d using t2(3) that by (simp add: entered_def)
  have Ffree: "F d \<noteq> D \<and> F d \<notin> paging_frames t2" if "own_slot d" for d
    using free_not_building [OF b sub [OF that]] t2(4) by (simp add: evolves_def)
  obtain t3 G where t3: "kbind (map_directory va D t2) (map_tables va) = Inr t3" "building v va D t3" "new_space D G t3"
    "vm_pmm t3 = vm_pmm t2" "evolves v {F 1022, F 1023} t2 t3"
    using fill_window_ok [OF t2(2) evolves_dir_window [OF t2(4) v(2,1) wt] t2(3) p2 Ffree D(1)] by blast
  have "own_slot 1022" "own_slot 1023" by (simp_all add: own_slot_def)
  then have e3: "evolves v (insert D {q. index q \<in> free_set (vm_pmm t)}) t t3" (is "evolves v ?X _ _")
    by (intro evolves_mono [OF evolves_trans [OF t2(4) t3(5)]]) (auto intro: sub)
  obtain r where d: "sp_destroy \<lparr>sp_address = va, sp_owned = False\<rparr> t3 = Inr r"
    and r: "vm_pmm r = vm_pmm t3" "vm_cr3 r = vm_cr3 s" "paging_ok r" "paging_frames r = paging_frames s" "pde r = pde t3"
      "\<forall>u. te_get Present (entry r u) = te_get Present (entry s u) \<and> (te_get Present (entry s u) \<longrightarrow> entry r u = entry s u)"
      "\<forall>q. q \<notin> paging_frames s \<longrightarrow> vm_mem r q = vm_mem t3 q"
      "\<forall>q a. q \<notin> paging_frames s \<and> q \<notin> ?X \<and> unat a < 4096 \<longrightarrow> vm_mem r q a = vm_mem s q a"
    using close_directory_ok [OF ok(1) va o v(1) e3] by blast
  have fin: "createAddressSpace s = Inr (D, r)" using a t2(1) t3(1) d by (simp add: createAddressSpace_eq)
  have fs: "free_set (vm_pmm r) \<subseteq> free_set (vm_pmm s)" using r(1) t3(4) t2(6) o' D(3) by auto
  then have inv': "vm_inv r"
    using r(1,3) t3(2) paging_held_shrink [OF ok(2) r(4)] by (simp add: building_def vm_inv_def)
  have cnt: "free_frames s = free_frames r + 771" using c(1) t2(5) t3(4) r(1) by (simp add: free_frames_def)
  have map: "mapping u r = mapping u s" for u using r(6) by (simp add: read_entry_ok [OF r(3)] read_entry_ok [OF ok(1)])
  have dw: "dir_window r" using r(2,6) w by (simp add: dir_window_def)
  have X: "q \<notin> ?X" if "\<not> page_avail (vm_pmm s) (index q)" for q using that D(2,3) o' by (auto simp: free_set_def)
  have "paging_frames t3 = paging_frames s" using e3 o' by (simp add: evolves_def)
  then have ns: "new_space D G r" using r(4,5,7) by (intro new_space_closed [OF t3(3)]) simp_all
  note n = new_space_ok [OF r(3) ns]
  have e0: "te_get Present 0 = False" by (simp add: te_get_def field_get_def)
  have "mapping u (r\<lparr>vm_cr3 := D\<rparr>) = Inr 0" if "u < gKernelBase" for u
    using n(3) [OF that] e0 by (simp add: read_entry_ok [OF n(1)])
  moreover have "mapping u (r\<lparr>vm_cr3 := D\<rparr>) = mapping u s" if "gKernelBase \<le> u" "u < 0xFF800000" for u
    using n(4) [OF that] map [of u] read_entry_ok(1) [OF n(1), of u] read_entry_ok(1) [OF r(3), of u]
    by (simp split: if_splits)
  ultimately show ?thesis
    using fin inv' dw cnt map r(8) X D(2) n(1,2) by blast
qed

definition example_space :: vmm where
  "example_space = set_pte (pi_of_virt gPageDirectoryAddress) (0x1000 OR 3) example_vmm"

lemma example_space_ok:
  "vm_inv example_space" "dir_window example_space" "scratch_pages 2 example_space" "771 \<le> free_frames example_space"
proof -
  have bw: "below_window gPageDirectoryAddress" by (simp add: below_window_def gPageDirectoryAddress_def)
  have p: "paging_ok example_space" using example_paging_ok bw by (simp add: example_space_def paging_ok_set_entry)
  have e: "entry example_space v = (if page v = page gPageDirectoryAddress then 0x1000 OR 3 else entry example_vmm v)" for v
    using example_paging_ok by (simp add: example_space_def entry_set)
  have pm: "vm_pmm example_space = example_pmm" by (simp add: example_space_def) (simp add: example_vmm_def)
  show "vm_inv example_space"
    using p pm example_pmm_inv example_held example_paging_ok
    by (simp add: vm_inv_def paging_held_def example_space_def paging_frames_set_pte)
  have "te_page (0x1000 OR 3) = 0x1000" "te_get Present (0x1000 OR 3)"
    by (simp_all add: te_page_def te_get_def field_get_def)
  moreover have "page (vm_cr3 example_space) = 0x1000"
    by (simp add: example_space_def) (simp add: example_vmm_def page_def gPageSize_def)
  ultimately show "dir_window example_space" by (simp add: dir_window_def e)
  have "card (free_set example_pmm) = unat (mFreePages example_pmm)"
    using example_pmm_inv by (simp add: pmm_inv_def)
  then show "771 \<le> free_frames example_space"
    by (simp add: free_frames_def pm) (simp add: example_pmm_def)
  have r: "mScratchLow example_space = 0xC8000000" "mScratchHigh example_space = 0xC8800FFF"
    by (simp_all add: example_space_def) (simp_all add: example_vmm_def)
  then have s0: "scratch_pages 0 example_space" by (simp add: scratch_pages_def gKernelBase_def)
  have "\<not> te_get Present (entry example_space a)" if "a \<in> set (scratch_range example_space)" for a
  proof -
    note sp = scratch_range_page [OF s0 that]
    have "a \<noteq> gPageDirectoryAddress" using sp(5) r by (auto simp: gPageDirectoryAddress_def)
    moreover have "page gPageDirectoryAddress = gPageDirectoryAddress"
      by (simp add: gPageDirectoryAddress_def page_def gPageSize_def)
    ultimately have "entry example_space a = 0" using e [of a] sp(1,3) by (simp add: page_aligned example_entry)
    then show ?thesis by (simp add: te_get_def field_get_def)
  qed
  then have "filter (\<lambda>a. \<not> te_get Present (entry example_space a)) (scratch_range example_space) = scratch_range example_space"
    by simp
  moreover have "length (scratch_range example_space) = 2048" by (simp add: scratch_range_def r page_count_def)
  ultimately show "scratch_pages 2 example_space" using r by (simp add: scratch_pages_def gKernelBase_def)
qed

lemma createAddressSpace_witness:
  "\<exists>cr3 s'. createAddressSpace example_space = Inr (cr3, s') \<and> paging_ok (s'\<lparr>vm_cr3 := cr3\<rparr>)
     \<and> mapping 0x8000 (s'\<lparr>vm_cr3 := cr3\<rparr>) = Inr 0 \<and> mapping 0xC0100000 (s'\<lparr>vm_cr3 := cr3\<rparr>) = mapping 0xC0100000 example_space"
proof -
  have "0x8000 < gKernelBase" "gKernelBase \<le> 0xC0100000" by (simp_all add: gKernelBase_def)
  then show ?thesis using createAddressSpace_spec [OF example_space_ok] by auto
qed

end
