(* ===== verification/Slist.thy ===== *)
theory Slist
  imports Puppy_Prelude
begin

text \<open>
  \<open>slist<T>\<close> of \<open>src/kernel/include/libc/slist.h\<close>, the singly linked list behind the kernel's
  queues, tables and mount lists, with its nodes as heap cells. A pointer is the number of a
  block: \<open>0\<close> is the null pointer and \<open>new\<close> hands out a number never used before, so that an
  access to a deleted node is visible as the fault \<open>Dangling\<close>. An iterator is the pointer it
  wraps. A loop over nodes gets one step for every block that ever existed, which no chain of
  distinct nodes exceeds; running out of steps is the fault \<open>Diverges\<close>.

  The operations are related to plain lists by \<open>slist_rep\<close>, and the last section runs arbitrary
  sequences of operations against their list counterparts. The theories of the users of
  \<open>slist\<close> work with the lists.
\<close>

section \<open>Nodes\<close>

record 'a node =
  item :: 'a
  nxt :: nat

record 'a node_heap =
  cells :: "nat \<Rightarrow> 'a node option"
  fresh :: nat

record slist =
  sl_size :: u32
  sl_head :: nat
  sl_tail :: nat

type_synonym 'a slist_state = "'a node_heap \<times> slist"

definition node_at :: "'a node_heap \<Rightarrow> nat \<Rightarrow> 'a node kernel" where
  "node_at h p =
     (if p = 0 then Inl NullDeref
      else case cells h p of None \<Rightarrow> Inl Dangling | Some n \<Rightarrow> Inr n)"

definition put_node :: "'a node_heap \<Rightarrow> nat \<Rightarrow> 'a node \<Rightarrow> 'a node_heap" where
  "put_node h p n = h\<lparr>cells := (cells h)(p := Some n)\<rparr>"

definition new_node :: "'a node_heap \<Rightarrow> 'a \<Rightarrow> nat \<Rightarrow> nat \<times> 'a node_heap" where
  "new_node h it nx =
     (fresh h, (put_node h (fresh h) \<lparr>item = it, nxt = nx\<rparr>)\<lparr>fresh := fresh h + 1\<rparr>)"

definition delete_node :: "'a node_heap \<Rightarrow> nat \<Rightarrow> 'a node_heap kernel" where
  "delete_node h p =
     (if p = 0 then Inr h
      else case cells h p of None \<Rightarrow> Inl Dangling | Some n \<Rightarrow> Inr (h\<lparr>cells := (cells h)(p := None)\<rparr>))"

section \<open>Operations\<close>

definition slist_new :: slist where
  "slist_new = \<lparr>sl_size = 0, sl_head = 0, sl_tail = 0\<rparr>"

definition slist_empty :: "slist \<Rightarrow> bool" where
  "slist_empty l \<longleftrightarrow> sl_size l = 0"

definition slist_count :: "slist \<Rightarrow> u32" where
  "slist_count l = sl_size l"

definition slist_add_head :: "'a \<Rightarrow> 'a slist_state \<Rightarrow> 'a slist_state kernel" where
  "slist_add_head it = (\<lambda>(h, l).
     let l = l\<lparr>sl_size := sl_size l + 1\<rparr> in
     if sl_head l = 0 then
       let (p, h) = new_node h it 0 in Inr (h, l\<lparr>sl_head := p, sl_tail := p\<rparr>)
     else
       let (p, h) = new_node h it (sl_head l) in Inr (h, l\<lparr>sl_head := p\<rparr>))"

definition slist_add :: "'a \<Rightarrow> 'a slist_state \<Rightarrow> 'a slist_state kernel" where
  "slist_add it = (\<lambda>(h, l).
     let l = l\<lparr>sl_size := sl_size l + 1\<rparr> in
     if sl_head l = 0 then
       let (p, h) = new_node h it 0 in Inr (h, l\<lparr>sl_head := p, sl_tail := p\<rparr>)
     else
       let (p, h) = new_node h it 0 in
       kbind (node_at h (sl_tail l)) (\<lambda>n.
       let h = put_node h (sl_tail l) (n\<lparr>nxt := p\<rparr>) in
       Inr (h, l\<lparr>sl_tail := p\<rparr>)))"

definition slist_begin :: "slist \<Rightarrow> nat" where
  "slist_begin l = sl_head l"

definition slist_end :: "'a slist_state \<Rightarrow> nat kernel" where
  "slist_end = (\<lambda>(h, l).
     if slist_empty l then Inr (slist_begin l) else kbind (node_at h (sl_tail l)) (\<lambda>n. Inr (nxt n)))"

definition iter_next :: "'a node_heap \<Rightarrow> nat \<Rightarrow> nat kernel" where
  "iter_next h b = kbind (node_at h b) (\<lambda>n. Inr (nxt n))"

fun slist_clear_loop :: "nat \<Rightarrow> 'a node_heap \<Rightarrow> nat \<Rightarrow> 'a node_heap kernel" where
  "slist_clear_loop fuel h p =
     (if p = 0 then Inr h
      else case fuel of
        0 \<Rightarrow> Inl Diverges
      | Suc k \<Rightarrow> kbind (node_at h p) (\<lambda>n. kbind (delete_node h p) (\<lambda>h. slist_clear_loop k h (nxt n))))"

definition slist_clear :: "'a slist_state \<Rightarrow> 'a slist_state kernel" where
  "slist_clear = (\<lambda>(h, l).
     kbind (slist_clear_loop (fresh h) h (sl_head l)) (\<lambda>h.
     Inr (h, \<lparr>sl_size = 0, sl_head = 0, sl_tail = 0\<rparr>)))"

definition slist_insert :: "nat \<Rightarrow> 'a \<Rightarrow> 'a slist_state \<Rightarrow> 'a slist_state kernel" where
  "slist_insert i it = (\<lambda>(h, l).
     if i \<noteq> 0 then
       let l = l\<lparr>sl_size := sl_size l + 1\<rparr> in
       kbind (node_at h i) (\<lambda>n.
       let (p, h) = new_node h (item n) (nxt n);
           h = put_node h i \<lparr>item = it, nxt = p\<rparr> in
       Inr (h, if i = sl_tail l then l\<lparr>sl_tail := p\<rparr> else l))
     else slist_add it (h, l))"

fun pred_loop :: "nat \<Rightarrow> 'a node_heap \<Rightarrow> nat \<Rightarrow> nat \<Rightarrow> nat kernel" where
  "pred_loop fuel h i n =
     kbind (node_at h n) (\<lambda>c.
       if nxt c = i then Inr n
       else case fuel of 0 \<Rightarrow> Inl Diverges | Suc k \<Rightarrow> pred_loop k h i (nxt c))"

definition slist_remove :: "nat \<Rightarrow> 'a slist_state \<Rightarrow> 'a slist_state kernel" where
  "slist_remove i = (\<lambda>(h, l).
     if i \<noteq> 0 then
       if i = sl_head l then
         kbind (node_at h (sl_head l)) (\<lambda>n.
         Inr (h, l\<lparr>sl_head := nxt n, sl_size := sl_size l - 1\<rparr>))
       else
         kbind (pred_loop (fresh h) h i (sl_head l)) (\<lambda>n.
         kbind (node_at h n) (\<lambda>c.
         kbind (if i = sl_tail l then Inr (put_node h n (c\<lparr>nxt := 0\<rparr>), l\<lparr>sl_tail := n\<rparr>)
                else kbind (node_at h (nxt c)) (\<lambda>d. Inr (put_node h n (c\<lparr>nxt := nxt d\<rparr>), l))) (\<lambda>(h, l).
         let l = l\<lparr>sl_size := sl_size l - 1\<rparr> in
         kbind (delete_node h i) (\<lambda>h. Inr (h, l)))))
     else Inr (h, l))"

fun slist_find_loop :: "nat \<Rightarrow> 'a node_heap \<Rightarrow> ('a \<Rightarrow> bool) \<Rightarrow> nat \<Rightarrow> nat \<Rightarrow> nat kernel" where
  "slist_find_loop fuel h P b e =
     (if b = e then Inr b
      else case fuel of
        0 \<Rightarrow> Inl Diverges
      | Suc k \<Rightarrow> kbind (node_at h b) (\<lambda>n. if P (item n) then Inr b else slist_find_loop k h P (nxt n) e))"

definition slist_remove_item :: "'a \<Rightarrow> 'a slist_state \<Rightarrow> (bool \<times> 'a slist_state) kernel" where
  "slist_remove_item it = (\<lambda>(h, l).
     kbind (slist_end (h, l)) (\<lambda>e.
     kbind (slist_find_loop (fresh h) h (\<lambda>x. x = it) (slist_begin l) e) (\<lambda>b.
     if b = e then Inr (False, h, l)
     else kbind (slist_remove b (h, l)) (\<lambda>s. Inr (True, s)))))"

fun removeAll_loop :: "nat \<Rightarrow> 'a \<Rightarrow> 'a slist_state \<Rightarrow> 'a slist_state kernel" where
  "removeAll_loop fuel it s =
     kbind (slist_remove_item it s) (\<lambda>(ok, s).
       if \<not> ok then Inr s
       else case fuel of 0 \<Rightarrow> Inl Diverges | Suc k \<Rightarrow> removeAll_loop k it s)"

definition slist_removeAll :: "'a \<Rightarrow> 'a slist_state \<Rightarrow> 'a slist_state kernel" where
  "slist_removeAll it s = removeAll_loop (fresh (fst s)) it s"

definition slist_top :: "'a slist_state \<Rightarrow> 'a kernel" where
  "slist_top = (\<lambda>(h, l). kbind (node_at h (sl_head l)) (\<lambda>n. Inr (item n)))"

definition slist_back :: "'a slist_state \<Rightarrow> 'a kernel" where
  "slist_back = (\<lambda>(h, l). kbind (node_at h (sl_tail l)) (\<lambda>n. Inr (item n)))"

definition slist_pop :: "'a slist_state \<Rightarrow> ('a \<times> 'a slist_state) kernel" where
  "slist_pop = (\<lambda>(h, l).
     let l = l\<lparr>sl_size := sl_size l - 1\<rparr>;
         n = sl_head l in
     kbind (node_at h n) (\<lambda>c.
     let l = l\<lparr>sl_head := nxt c\<rparr> in
     kbind (delete_node h n) (\<lambda>h. Inr (item c, h, l))))"

fun foreach_loop ::
  "nat \<Rightarrow> ('a \<Rightarrow> 's \<Rightarrow> bool \<times> 'a \<times> 's) \<Rightarrow> nat \<Rightarrow> nat \<Rightarrow> 'a node_heap \<Rightarrow> 's \<Rightarrow> ('a node_heap \<times> 's) kernel"
where
  "foreach_loop fuel f b e h s =
     (if b = e then Inr (h, s)
      else case fuel of
        0 \<Rightarrow> Inl Diverges
      | Suc k \<Rightarrow>
          kbind (node_at h b) (\<lambda>n.
          let (go, x, s) = f (item n) s;
              h = put_node h b (n\<lparr>item := x\<rparr>) in
          if \<not> go then Inr (h, s) else foreach_loop k f (nxt n) e h s))"

definition slist_foreach ::
  "('a \<Rightarrow> 's \<Rightarrow> bool \<times> 'a \<times> 's) \<Rightarrow> 'a slist_state \<Rightarrow> 's \<Rightarrow> ('a slist_state \<times> 's) kernel"
where
  "slist_foreach f = (\<lambda>(h, l) s.
     kbind (slist_end (h, l)) (\<lambda>e.
     kbind (foreach_loop (fresh h) f (slist_begin l) e h s) (\<lambda>(h, s). Inr ((h, l), s))))"

fun slist_clone_loop :: "nat \<Rightarrow> nat \<Rightarrow> nat \<Rightarrow> 'a slist_state \<Rightarrow> 'a slist_state kernel" where
  "slist_clone_loop fuel ob oe s =
     (if ob = oe then Inr s
      else case fuel of
        0 \<Rightarrow> Inl Diverges
      | Suc k \<Rightarrow>
          kbind (node_at (fst s) ob) (\<lambda>n.
          kbind (slist_add (item n) s) (\<lambda>s.
          kbind (iter_next (fst s) ob) (\<lambda>ob. slist_clone_loop k ob oe s))))"

definition slist_clone :: "slist \<Rightarrow> 'a slist_state \<Rightarrow> 'a slist_state kernel" where
  "slist_clone other = (\<lambda>(h, l).
     kbind (slist_end (h, other)) (\<lambda>oe. slist_clone_loop (fresh h) (slist_begin other) oe (h, l)))"

definition slist_copy :: "slist \<Rightarrow> 'a node_heap \<Rightarrow> 'a slist_state kernel" where
  "slist_copy other h = slist_clone other (h, slist_new)"

definition slist_assign :: "slist \<Rightarrow> 'a slist_state \<Rightarrow> 'a slist_state kernel" where
  "slist_assign other s = kbind (slist_clear s) (slist_clone other)"

lemmas slist_defs = slist_empty_def slist_begin_def slist_end_def slist_count_def

section \<open>Chains of nodes\<close>

text \<open>
  \<open>chain h p ps xs e\<close>: following \<open>nxt\<close> from \<open>p\<close> visits the nodes \<open>ps\<close>, which hold the items
  \<open>xs\<close>, and arrives at \<open>e\<close>.
\<close>

fun chain :: "'a node_heap \<Rightarrow> nat \<Rightarrow> nat list \<Rightarrow> 'a list \<Rightarrow> nat \<Rightarrow> bool" where
  "chain h p [] [] e \<longleftrightarrow> p = e"
| "chain h p (q # qs) (x # xs) e \<longleftrightarrow>
     p = q \<and> q \<noteq> 0 \<and> (\<exists>n. cells h q = Some \<lparr>item = x, nxt = n\<rparr> \<and> chain h n qs xs e)"
| "chain h p _ _ e \<longleftrightarrow> False"

lemma chain_length: "chain h p ps xs e \<Longrightarrow> length ps = length xs"
  by (induction h p ps xs e rule: chain.induct) auto

lemma chain_nonnull: "chain h p ps xs e \<Longrightarrow> q \<in> set ps \<Longrightarrow> q \<noteq> 0"
  by (induction h p ps xs e rule: chain.induct) auto

lemma chain_live: "chain h p ps xs e \<Longrightarrow> q \<in> set ps \<Longrightarrow> cells h q \<noteq> None"
  by (induction h p ps xs e rule: chain.induct) auto

lemma chain_cong:
  "(\<And>q. q \<in> set ps \<Longrightarrow> cells h q = cells h' q) \<Longrightarrow> chain h p ps xs e = chain h' p ps xs e"
  by (induction h p ps xs e rule: chain.induct) auto

lemma chain_append:
  "length ps = length xs \<Longrightarrow>
   chain h p (ps @ qs) (xs @ ys) e \<longleftrightarrow> (\<exists>m. chain h p ps xs m \<and> chain h m qs ys e)"
  by (induction ps xs arbitrary: p rule: list_induct2) auto

lemma chain_head: "chain h p ps xs 0 \<Longrightarrow> p = 0 \<longleftrightarrow> ps = []"
  by (cases ps; cases xs) auto

lemma chain_split:
  assumes "chain h p ps xs e" and "i < length ps"
  shows "\<exists>n. chain h p (take i ps) (take i xs) (ps ! i) \<and> ps ! i \<noteq> 0
    \<and> cells h (ps ! i) = Some \<lparr>item = xs ! i, nxt = n\<rparr>
    \<and> chain h n (drop (Suc i) ps) (drop (Suc i) xs) e"
proof -
  have len: "length ps = length xs" using assms(1) by (rule chain_length)
  have "chain h p (take i ps @ ps ! i # drop (Suc i) ps) (take i xs @ xs ! i # drop (Suc i) xs) e"
    using assms len by (metis id_take_nth_drop)
  then show ?thesis using assms len by (auto simp: chain_append)
qed

text \<open>What holds of a list object: it represents \<open>xs\<close> by the nodes \<open>ps\<close>.\<close>

definition slist_rep :: "nat list \<Rightarrow> 'a list \<Rightarrow> 'a slist_state \<Rightarrow> bool" where
  "slist_rep ps xs = (\<lambda>(h, l).
     chain h (sl_head l) ps xs 0 \<and> distinct ps \<and> set ps \<subseteq> {..<fresh h} \<and> 0 < fresh h
     \<and> (ps \<noteq> [] \<longrightarrow> sl_tail l = last ps)
     \<and> sl_size l = of_nat (length xs) \<and> length xs < 2 ^ 32)"

text \<open>An operation on the nodes \<open>ps\<close> leaves every other existing block alone.\<close>

definition heap_frame :: "nat list \<Rightarrow> 'a node_heap \<Rightarrow> 'a node_heap \<Rightarrow> bool" where
  "heap_frame ps h h' \<longleftrightarrow>
     fresh h \<le> fresh h' \<and> (\<forall>q<fresh h. q \<notin> set ps \<longrightarrow> cells h' q = cells h q)"

lemma heap_frame_refl [simp]: "heap_frame ps h h"
  by (simp add: heap_frame_def)

lemma heap_frame_trans:
  assumes "heap_frame ps h h1" and "heap_frame qs h1 h2" and "set qs \<subseteq> set ps \<union> {fresh h..}"
  shows "heap_frame ps h h2"
proof -
  have "q \<notin> set qs" if "q < fresh h" "q \<notin> set ps" for q
    using that assms(3) by force
  then show ?thesis using assms(1,2) by (simp add: heap_frame_def)
qed

lemma rep_length: "slist_rep ps xs s \<Longrightarrow> length ps = length xs"
  by (auto simp: slist_rep_def dest: chain_length)

lemma rep_fuel:
  assumes "slist_rep ps xs (h, l)"
  shows "length xs < fresh h"
proof -
  have c: "chain h (sl_head l) ps xs 0" and d: "distinct ps" and f: "0 < fresh h"
    and s: "set ps \<subseteq> {..<fresh h}"
    using assms by (simp_all add: slist_rep_def)
  have l: "length ps = length xs" using c by (rule chain_length)
  have "set ps \<subseteq> {1..<fresh h}" using chain_nonnull [OF c] s by force
  then have "card (set ps) \<le> fresh h - 1"
    by (metis card_atLeastLessThan card_mono finite_atLeastLessThan)
  then show ?thesis using d l f by (simp add: distinct_card)
qed

lemma of_nat_size_eq_0:
  "n < 2 ^ 32 \<Longrightarrow> (of_nat n :: u32) = 0 \<longleftrightarrow> n = 0"
  by (simp add: word_unat_eq_iff unat_of_nat)

lemma rep_empty:
  assumes "slist_rep ps xs (h, l)"
  shows "slist_empty l \<longleftrightarrow> xs = []" and "sl_head l = 0 \<longleftrightarrow> xs = []"
proof -
  have c: "chain h (sl_head l) ps xs 0" and z: "sl_size l = of_nat (length xs)" "length xs < 2 ^ 32"
    using assms by (simp_all add: slist_rep_def)
  show "slist_empty l \<longleftrightarrow> xs = []" using z by (simp add: slist_empty_def of_nat_size_eq_0)
  show "sl_head l = 0 \<longleftrightarrow> xs = []" using chain_head [OF c] chain_length [OF c] by auto
qed

lemma rep_end:
  assumes "slist_rep ps xs (h, l)"
  shows "slist_end (h, l) = Inr 0"
proof (cases "xs = []")
  case True
  then show ?thesis using rep_empty [OF assms] by (simp add: slist_defs)
next
  case False
  have c: "chain h (sl_head l) ps xs 0" and "ps \<noteq> [] \<longrightarrow> sl_tail l = last ps"
    using assms by (simp_all add: slist_rep_def)
  then have ne: "ps \<noteq> []" and len: "length ps = length xs" and t: "sl_tail l = last ps"
    using False chain_length [OF c] by auto
  have "length ps - 1 < length ps" using ne by simp
  from chain_split [OF c this] ne len
  have "last ps \<noteq> 0" "\<exists>x. cells h (last ps) = Some \<lparr>item = x, nxt = 0\<rparr>"
    by (auto simp: last_conv_nth)
  then show ?thesis
    using rep_empty(1) [OF assms] False t by (auto simp: slist_end_def node_at_def)
qed

section \<open>Every operation implements its list function\<close>

lemma chain_put_other [simp]:
  "q \<notin> set ps \<Longrightarrow> chain (put_node h q n) p ps xs e = chain h p ps xs e"
  by (rule chain_cong) (auto simp: put_node_def)

lemma chain_delete_other [simp]:
  "q \<notin> set ps \<Longrightarrow> chain (h\<lparr>cells := (cells h)(q := None)\<rparr>) p ps xs e = chain h p ps xs e"
  by (rule chain_cong) auto

lemma chain_fresh_update [simp]: "chain (h\<lparr>fresh := k\<rparr>) p ps xs e = chain h p ps xs e"
  by (rule chain_cong) simp

lemma cells_put_node [simp]: "cells (put_node h q n) = (cells h)(q := Some n)"
  and fresh_put_node [simp]: "fresh (put_node h q n) = fresh h"
  by (simp_all add: put_node_def)

definition slist_implements :: "nat list \<Rightarrow> 'a node_heap \<Rightarrow> 'a list \<Rightarrow> 'a slist_state kernel \<Rightarrow> bool" where
  "slist_implements ps h ys r \<longleftrightarrow>
     (\<exists>h' l' ps'. r = Inr (h', l') \<and> slist_rep ps' ys (h', l') \<and> heap_frame ps h h'
        \<and> set ps' \<subseteq> set ps \<union> {fresh h..})"

lemma slist_implementsI:
  assumes "r = Inr (h', l')" and "slist_rep ps' ys (h', l')" and "heap_frame ps h h'"
    and "set ps' \<subseteq> set ps \<union> {fresh h..}"
  shows "slist_implements ps h ys r"
  using assms unfolding slist_implements_def by blast

lemma rep_cases:
  assumes "slist_rep ps xs (h, l)"
  shows "(ps = [] \<and> xs = [] \<and> sl_head l = 0) \<or>
    (\<exists>ps' xs' t y. ps = ps' @ [t] \<and> xs = xs' @ [y] \<and> length ps' = length xs' \<and> sl_tail l = t \<and> t \<noteq> 0
       \<and> t < fresh h \<and> sl_head l \<noteq> 0
       \<and> chain h (sl_head l) ps' xs' t \<and> cells h t = Some \<lparr>item = y, nxt = 0\<rparr>)"
proof (cases ps rule: rev_cases)
  case Nil
  then show ?thesis using assms rep_length [OF assms] by (simp add: slist_rep_def)
next
  case (snoc ps' t)
  then obtain xs' y where xs: "xs = xs' @ [y]" using rep_length [OF assms] by (cases xs rule: rev_cases) auto
  then show ?thesis
    using assms snoc rep_length [OF assms] rep_empty(2) [OF assms]
    by (auto simp: slist_rep_def chain_append)
qed

lemma slist_add_implements:
  assumes "slist_rep ps xs (h, l)" and "Suc (length xs) < 2 ^ 32"
  shows "slist_implements ps h (xs @ [x]) (slist_add x (h, l))"
  using rep_cases [OF assms(1)]
proof (elim disjE exE conjE)
  assume "ps = []" "xs = []" "sl_head l = 0"
  then show ?thesis
    using assms
    by (intro slist_implementsI [of _ "snd (new_node h x 0)"
          "\<lparr>sl_size = 1, sl_head = fresh h, sl_tail = fresh h\<rparr>" "[fresh h]"])
       (auto simp: slist_add_def new_node_def slist_rep_def heap_frame_def)
next
  fix ps' xs' t y
  assume ps: "ps = ps' @ [t]" "xs = xs' @ [y]" "length ps' = length xs'" "sl_tail l = t" "t \<noteq> 0"
    "t < fresh h" "sl_head l \<noteq> 0"
    and ch: "chain h (sl_head l) ps' xs' t" and t: "cells h t = Some \<lparr>item = y, nxt = 0\<rparr>"
  have fr: "fresh h \<notin> set ps" "t \<notin> set ps'" "distinct ps" using assms(1) ps by (auto simp: slist_rep_def)
  define h' where "h' = put_node (snd (new_node h x 0)) t \<lparr>item = y, nxt = fresh h\<rparr>"
  define l' where "l' = l\<lparr>sl_size := sl_size l + 1, sl_tail := fresh h\<rparr>"
  have r: "slist_add x (h, l) = Inr (h', l')"
    using ps t by (simp add: slist_add_def new_node_def node_at_def h'_def l'_def Let_def)
  have "chain h' (sl_head l) ((ps' @ [t]) @ [fresh h]) ((xs' @ [y]) @ [x]) 0"
    using ps fr ch t by (auto simp: chain_append h'_def new_node_def)
  then have "slist_rep (ps @ [fresh h]) (xs @ [x]) (h', l')"
    using assms ps fr by (auto simp: slist_rep_def h'_def l'_def new_node_def)
  moreover have "heap_frame ps h h'"
    using ps by (auto simp: heap_frame_def h'_def new_node_def)
  ultimately show ?thesis using r by (intro slist_implementsI) auto
qed

lemma slist_add_head_implements:
  assumes "slist_rep ps xs (h, l)" and "Suc (length xs) < 2 ^ 32"
  shows "slist_implements ps h (x # xs) (slist_add_head x (h, l))"
proof -
  define h' where "h' = snd (new_node h x (sl_head l))"
  define l' where "l' = l\<lparr>sl_size := sl_size l + 1, sl_head := fresh h,
    sl_tail := if sl_head l = 0 then fresh h else sl_tail l\<rparr>"
  have fr: "fresh h \<notin> set ps" using assms(1) by (auto simp: slist_rep_def)
  have "slist_add_head x (h, l) = Inr (h', l')"
    by (simp add: slist_add_head_def new_node_def h'_def l'_def Let_def)
  moreover have "slist_rep (fresh h # ps) (x # xs) (h', l')"
    using assms fr rep_empty(2) [OF assms(1)] rep_length [OF assms(1)]
    by (auto simp: slist_rep_def h'_def l'_def new_node_def)
  moreover have "heap_frame ps h h'" by (auto simp: heap_frame_def h'_def new_node_def)
  ultimately show ?thesis by (intro slist_implementsI) auto
qed

lemma rep_middle:
  assumes "slist_rep ps xs (h, l)" and "i < length xs"
  obtains as q bs us v ws n where "ps = as @ q # bs" and "xs = us @ v # ws" and "length as = i"
    and "length us = i" and "length bs = length ws" and "q \<noteq> 0" and "q < fresh h"
    and "cells h q = Some \<lparr>item = v, nxt = n\<rparr>"
    and "chain h (sl_head l) as us q" and "chain h n bs ws 0" and "n = 0 \<longleftrightarrow> bs = []"
proof -
  have c: "chain h (sl_head l) ps xs 0" and len: "length ps = length xs"
    using assms(1) rep_length by (auto simp: slist_rep_def)
  have i: "i < length ps" using assms(2) len by simp
  obtain n where n: "chain h (sl_head l) (take i ps) (take i xs) (ps ! i)" "ps ! i \<noteq> 0"
    "cells h (ps ! i) = Some \<lparr>item = xs ! i, nxt = n\<rparr>"
    "chain h n (drop (Suc i) ps) (drop (Suc i) xs) 0"
    using chain_split [OF c i] by blast
  have "ps ! i \<in> set ps" using i by simp
  then have lt: "ps ! i < fresh h" using assms(1) by (auto simp: slist_rep_def)
  show ?thesis
  proof (rule that)
    show "ps = take i ps @ ps ! i # drop (Suc i) ps" using i by (rule id_take_nth_drop)
    show "xs = take i xs @ xs ! i # drop (Suc i) xs" using assms(2) by (rule id_take_nth_drop)
    show "n = 0 \<longleftrightarrow> drop (Suc i) ps = []" using chain_head [OF n(4)] by blast
  qed (use n lt i len assms(2) in auto)
qed

lemma slist_insert_implements:
  assumes rep: "slist_rep ps xs (h, l)" and "Suc (length xs) < 2 ^ 32" and "i < length xs"
  shows "slist_implements ps h (take i xs @ x # drop i xs) (slist_insert (ps ! i) x (h, l))"
proof -
  obtain as q bs us v ws n where ps: "ps = as @ q # bs" and xs: "xs = us @ v # ws"
    and len: "length as = i" "length us = i" "length bs = length ws"
    and q: "q \<noteq> 0" "q < fresh h" "cells h q = Some \<lparr>item = v, nxt = n\<rparr>"
    and ch: "chain h (sl_head l) as us q" "chain h n bs ws 0"
    using rep_middle [OF assms(1,3)] .
  define h' where "h' = put_node (snd (new_node h v n)) q \<lparr>item = x, nxt = fresh h\<rparr>"
  define l' where "l' = l\<lparr>sl_size := sl_size l + 1, sl_tail := if q = sl_tail l then fresh h else sl_tail l\<rparr>"
  have fr: "fresh h \<notin> set ps" "distinct ps" "sl_tail l = last ps"
    using rep ps by (auto simp: slist_rep_def)
  have r: "slist_insert (ps ! i) x (h, l) = Inr (h', l')"
    using ps q len
    by (auto simp: slist_insert_def node_at_def new_node_def h'_def l'_def Let_def nth_append)
  have "chain h' (sl_head l) (as @ q # fresh h # bs) (us @ x # v # ws) 0"
    using ps len fr q ch by (auto simp: chain_append h'_def new_node_def)
  then have "slist_rep (as @ q # fresh h # bs) (us @ x # v # ws) (h', l')"
    using assms ps xs fr len by (auto simp: slist_rep_def h'_def l'_def new_node_def)
  moreover have "heap_frame ps h h'" using ps by (auto simp: heap_frame_def h'_def new_node_def)
  moreover have "take i xs @ x # drop i xs = us @ x # v # ws" using xs len by simp
  ultimately show ?thesis using r ps by (intro slist_implementsI) auto
qed

lemma pred_loop_finds:
  assumes "chain h p (as @ [q]) us i" and "i \<notin> set (as @ [q])" and "length as \<le> fuel"
  shows "pred_loop fuel h i p = Inr q"
  using assms
proof (induction as arbitrary: p us fuel)
  case Nil
  then show ?case by (cases us; cases "tl us") (auto simp: node_at_def)
next
  case (Cons a as)
  then obtain k u us' where k: "fuel = Suc k" "length as \<le> k" "us = u # us'"
    by (cases fuel; cases us) auto
  then obtain n where n: "p = a" "a \<noteq> 0" "cells h a = Some \<lparr>item = u, nxt = n\<rparr>" "chain h n (as @ [q]) us' i"
    using Cons.prems(1) by auto
  have "n \<noteq> i" using n(4) Cons.prems(2) by (cases as; cases us') auto
  moreover have "pred_loop k h i n = Inr q" using Cons.IH [OF n(4)] Cons.prems(2) k by simp
  ultimately show ?case using n k by (simp add: node_at_def)
qed

lemma slist_remove_implements:
  assumes rep: "slist_rep ps xs (h, l)" and "i < length xs"
  shows "slist_implements ps h (take i xs @ drop (Suc i) xs) (slist_remove (ps ! i) (h, l))"
proof -
  obtain as q bs us v ws n where ps: "ps = as @ q # bs" and xs: "xs = us @ v # ws"
    and len: "length as = i" "length us = i" "length bs = length ws"
    and q: "q \<noteq> 0" "q < fresh h" "cells h q = Some \<lparr>item = v, nxt = n\<rparr>"
    and ch: "chain h (sl_head l) as us q" "chain h n bs ws 0" and n0: "n = 0 \<longleftrightarrow> bs = []"
    using rep_middle [OF assms] .
  have fr: "distinct ps" "sl_tail l = last ps" "set ps \<subseteq> {..<fresh h}"
    using rep ps by (auto simp: slist_rep_def)
  have goal: "take i xs @ drop (Suc i) xs = us @ ws" and psi: "ps ! i = q"
    using xs ps len by auto
  show ?thesis
  proof (cases as rule: rev_cases)
    case Nil
    define l' where "l' = l\<lparr>sl_head := n, sl_size := sl_size l - 1\<rparr>"
    have hd: "sl_head l = q" using Nil ch len by auto
    then have "slist_remove (ps ! i) (h, l) = Inr (h, l')"
      using q psi by (simp add: slist_remove_def node_at_def l'_def)
    moreover have "slist_rep bs (us @ ws) (h, l')"
      using rep Nil ps xs len ch(2) fr by (auto simp: slist_rep_def l'_def)
    ultimately show ?thesis using goal ps by (intro slist_implementsI) auto
  next
    case (snoc as' r)
    then obtain us' w where us: "us = us' @ [w]" "length us' = length as'"
      using len by (cases us rule: rev_cases) auto
    then have r: "r \<noteq> 0" "cells h r = Some \<lparr>item = w, nxt = q\<rparr>" "chain h (sl_head l) as' us' r"
      using ch(1) snoc by (auto simp: chain_append)
    have nd: "sl_head l \<noteq> q"
      using ch(1) snoc us fr ps by (cases as'; cases us') auto
    have "length as' < fresh h"
      using rep_fuel [OF rep] ps snoc rep_length [OF rep] by simp
    then have pl: "pred_loop (fresh h) h q (sl_head l) = Inr r"
      using pred_loop_finds [of h "sl_head l" as' r us q "fresh h"] ch(1) snoc fr ps by auto
    define h' where "h' = (put_node h r \<lparr>item = w, nxt = n\<rparr>)\<lparr>cells := (cells (put_node h r \<lparr>item = w, nxt = n\<rparr>))(q := None)\<rparr>"
    define l' where "l' = l\<lparr>sl_size := sl_size l - 1, sl_tail := if bs = [] then r else sl_tail l\<rparr>"
    have qt: "q = sl_tail l \<longleftrightarrow> bs = []" using fr ps by auto
    have res: "slist_remove (ps ! i) (h, l) = Inr (h', l')"
      using psi q nd pl r n0 qt fr ps snoc
      by (auto simp: slist_remove_def node_at_def delete_node_def h'_def l'_def put_node_def)
    have h'o: "chain h' p qs ys e = chain h p qs ys e" if "r \<notin> set qs" "q \<notin> set qs" for p qs ys e
      using that by (intro chain_cong) (auto simp: h'_def)
    have "chain h' (sl_head l) (as' @ r # bs) (us' @ w # ws) 0"
      using r ch(2) us fr ps snoc by (auto simp: chain_append h'o) (auto simp: h'_def)
    then have "slist_rep (as @ bs) (us @ ws) (h', l')"
      using rep ps xs snoc us fr len by (auto simp: slist_rep_def h'_def l'_def)
    moreover have "heap_frame ps h h'" using ps snoc by (auto simp: heap_frame_def h'_def)
    ultimately show ?thesis using res goal ps by (intro slist_implementsI) auto
  qed
qed

lemma find_loop_finds:
  assumes "chain h p ps xs 0" and "length ps \<le> fuel"
  shows "slist_find_loop fuel h P p 0 =
    Inr (if \<exists>x\<in>set xs. P x then ps ! length (takeWhile (\<lambda>x. \<not> P x) xs) else 0)"
  using assms
proof (induction ps arbitrary: p xs fuel)
  case Nil
  then show ?case by (cases xs) auto
next
  case (Cons q qs)
  then obtain k y ys n where k: "fuel = Suc k" "length qs \<le> k" "xs = y # ys" "p = q" "q \<noteq> 0"
    and n: "cells h q = Some \<lparr>item = y, nxt = n\<rparr>" "chain h n qs ys 0"
    by (cases fuel; cases xs) auto
  show ?case
    using Cons.IH [OF n(2) k(2)] k n by (simp add: node_at_def)
qed

lemma rep_find:
  assumes "slist_rep ps xs (h, l)"
  shows "slist_find_loop (fresh h) h P (sl_head l) 0 =
    Inr (if \<exists>x\<in>set xs. P x then ps ! length (takeWhile (\<lambda>x. \<not> P x) xs) else 0)"
  using assms rep_fuel [OF assms] rep_length [OF assms]
  by (intro find_loop_finds) (auto simp: slist_rep_def)

lemma remove1_takeWhile:
  "x \<in> set xs \<Longrightarrow>
   remove1 x xs = take (length (takeWhile (\<lambda>y. y \<noteq> x) xs)) xs @ drop (Suc (length (takeWhile (\<lambda>y. y \<noteq> x) xs))) xs"
  by (induction xs) auto

lemma takeWhile_lt: "x \<in> set xs \<Longrightarrow> length (takeWhile (\<lambda>y. y \<noteq> x) xs) < length xs"
  by (induction xs) auto

lemma slist_remove_item_implements:
  assumes rep: "slist_rep ps xs (h, l)"
  shows "\<exists>r. slist_remove_item x (h, l) = kbind r (\<lambda>s. Inr (x \<in> set xs, s))
    \<and> slist_implements ps h (remove1 x xs) r"
proof (cases "x \<in> set xs")
  case False
  then have "slist_remove_item x (h, l) = Inr (False, h, l)"
    using rep_find [OF rep, of "\<lambda>y. y = x"] rep_end [OF rep]
    by (auto simp: slist_remove_item_def slist_begin_def)
  moreover have "slist_implements ps h (remove1 x xs) (Inr (h, l))"
    using rep False by (intro slist_implementsI) (auto simp: remove1_idem)
  ultimately show ?thesis using False by (intro exI [of _ "Inr (h, l)"]) simp
next
  case True
  define i where "i = length (takeWhile (\<lambda>y. y \<noteq> x) xs)"
  have i: "i < length xs" using True takeWhile_lt by (simp add: i_def)
  then have "ps ! i \<in> set ps" using rep_length [OF rep] by simp
  then have "ps ! i \<noteq> 0" using rep chain_nonnull by (fastforce simp: slist_rep_def)
  then have "slist_remove_item x (h, l) = kbind (slist_remove (ps ! i) (h, l)) (\<lambda>s. Inr (True, s))"
    using rep_find [OF rep, of "\<lambda>y. y = x"] rep_end [OF rep] True
    by (auto simp: slist_remove_item_def slist_begin_def i_def)
  moreover have "slist_implements ps h (remove1 x xs) (slist_remove (ps ! i) (h, l))"
    using slist_remove_implements [OF rep i] remove1_takeWhile [OF True] by (simp add: i_def)
  ultimately show ?thesis using True by auto
qed

lemma slist_implementsE:
  assumes "slist_implements ps h ys r"
  obtains h' l' ps' where "r = Inr (h', l')" and "slist_rep ps' ys (h', l')" and "heap_frame ps h h'"
    and "set ps' \<subseteq> set ps \<union> {fresh h..}"
  using assms unfolding slist_implements_def by blast

lemma slist_implements_trans:
  assumes "heap_frame ps h h1" and "set ps1 \<subseteq> set ps \<union> {fresh h..}" and "slist_implements ps1 h1 ys r"
  shows "slist_implements ps h ys r"
proof -
  obtain h' l' ps' where r: "r = Inr (h', l')" "slist_rep ps' ys (h', l')" "heap_frame ps1 h1 h'"
    "set ps' \<subseteq> set ps1 \<union> {fresh h1..}"
    using assms(3) by (rule slist_implementsE)
  have "fresh h \<le> fresh h1" using assms(1) by (simp add: heap_frame_def)
  then have "set ps' \<subseteq> set ps \<union> {fresh h..}" using r(4) assms(2) by auto
  then show ?thesis using r heap_frame_trans [OF assms(1) r(3) assms(2)] by (intro slist_implementsI)
qed

lemma removeAll_remove1: "removeAll x (remove1 x xs) = removeAll x xs"
  by (induction xs) auto

lemma removeAll_loop_implements:
  assumes "slist_rep ps xs (h, l)" and "length xs \<le> fuel"
  shows "slist_implements ps h (removeAll x xs) (removeAll_loop fuel x (h, l))"
  using assms
proof (induction fuel arbitrary: ps xs h l)
  case 0
  then show ?case
    using slist_remove_item_implements [OF 0(1), of x] by (auto simp: slist_implements_def)
next
  case (Suc k)
  obtain r where r: "slist_remove_item x (h, l) = kbind r (\<lambda>s. Inr (x \<in> set xs, s))"
    "slist_implements ps h (remove1 x xs) r"
    using slist_remove_item_implements [OF Suc.prems(1)] by blast
  obtain h1 l1 ps1 where 1: "r = Inr (h1, l1)" "slist_rep ps1 (remove1 x xs) (h1, l1)"
    "heap_frame ps h h1" "set ps1 \<subseteq> set ps \<union> {fresh h..}"
    using r(2) by (rule slist_implementsE)
  show ?case
  proof (cases "x \<in> set xs")
    case False
    then show ?thesis using r 1 by (simp add: remove1_idem)
  next
    case True
    then have "slist_implements ps1 h1 (removeAll x xs) (removeAll_loop k x (h1, l1))"
      using Suc.IH [OF 1(2)] Suc.prems(2) by (simp add: length_remove1 removeAll_remove1)
    then show ?thesis using slist_implements_trans [OF 1(3,4)] r(1) 1(1) True by simp
  qed
qed

lemma slist_removeAll_implements:
  "slist_rep ps xs (h, l) \<Longrightarrow> slist_implements ps h (removeAll x xs) (slist_removeAll x (h, l))"
  using rep_fuel [of ps xs h l] removeAll_loop_implements [of ps xs h l "fresh h" x]
  by (simp add: slist_removeAll_def)

lemma slist_pop_implements:
  assumes "slist_rep ps (x # xs) (h, l)"
  shows "\<exists>r. slist_pop (h, l) = kbind r (\<lambda>s. Inr (x, s)) \<and> slist_implements ps h xs r"
proof -
  obtain p qs n where ps: "ps = p # qs" "sl_head l = p" "p \<noteq> 0" "cells h p = Some \<lparr>item = x, nxt = n\<rparr>"
    "chain h n qs xs 0"
    using assms by (cases ps) (auto simp: slist_rep_def)
  define h' where "h' = h\<lparr>cells := (cells h)(p := None)\<rparr>"
  define l' where "l' = l\<lparr>sl_size := sl_size l - 1, sl_head := n\<rparr>"
  have "slist_pop (h, l) = Inr (x, h', l')"
    using ps by (simp add: slist_pop_def node_at_def delete_node_def h'_def l'_def)
  moreover have "chain h' n qs xs 0"
    using ps(5) assms ps(1) by (simp add: slist_rep_def h'_def)
  then have "slist_rep qs xs (h', l')"
    using assms ps by (auto simp: slist_rep_def h'_def l'_def)
  then have "slist_implements ps h xs (Inr (h', l'))"
    using ps by (intro slist_implementsI [of _ h' l' qs]) (auto simp: heap_frame_def h'_def)
  ultimately show ?thesis by (intro exI [of _ "Inr (h', l')"]) simp
qed

lemma clear_loop_deletes:
  assumes "chain h p ps xs 0" and "distinct ps" and "length ps \<le> fuel"
  shows "slist_clear_loop fuel h p = Inr (h\<lparr>cells := (\<lambda>q. if q \<in> set ps then None else cells h q)\<rparr>)"
  using assms
proof (induction ps arbitrary: p xs fuel h)
  case Nil
  then show ?case by (cases xs) auto
next
  case (Cons q qs)
  then obtain k y ys n where k: "fuel = Suc k" "length qs \<le> k" "p = q" "q \<noteq> 0"
    and n: "cells h q = Some \<lparr>item = y, nxt = n\<rparr>" "chain h n qs ys 0"
    by (cases fuel; cases xs) auto
  define h1 where "h1 = h\<lparr>cells := (cells h)(q := None)\<rparr>"
  have "chain h1 n qs ys 0" using n(2) Cons.prems(2) by (simp add: h1_def)
  then have "slist_clear_loop k h1 n = Inr (h1\<lparr>cells := (\<lambda>r. if r \<in> set qs then None else cells h1 r)\<rparr>)"
    using Cons.IH [OF _ _ k(2)] Cons.prems(2) by simp
  moreover have "slist_clear_loop fuel h p = slist_clear_loop k h1 n"
    using k n(1) by (subst slist_clear_loop.simps) (simp add: node_at_def delete_node_def h1_def del: slist_clear_loop.simps)
  moreover have "(\<lambda>r. if r \<in> set qs then None else cells h1 r) = (\<lambda>r. if r \<in> set (q # qs) then None else cells h r)"
    by (auto simp: h1_def)
  ultimately show ?case by (simp add: h1_def)
qed

lemma slist_clear_implements:
  assumes "slist_rep ps xs (h, l)"
  shows "slist_implements ps h [] (slist_clear (h, l))"
proof -
  define h' where "h' = h\<lparr>cells := (\<lambda>q. if q \<in> set ps then None else cells h q)\<rparr>"
  have "slist_clear (h, l) = Inr (h', slist_new)"
    using clear_loop_deletes [of h "sl_head l" ps xs "fresh h"] assms rep_fuel [OF assms] rep_length [OF assms]
    by (simp add: slist_rep_def slist_clear_def slist_new_def h'_def)
  then show ?thesis
    using assms by (intro slist_implementsI [of _ h' slist_new "[]"])
      (auto simp: slist_rep_def slist_new_def heap_frame_def h'_def)
qed

text \<open>The items at the two ends, and the traversal: \<open>foreach\<close> visits the items in order until the callback says stop.\<close>

lemma slist_top_back:
  assumes "slist_rep ps xs (h, l)" and "xs \<noteq> []"
  shows "slist_top (h, l) = Inr (hd xs)" and "slist_back (h, l) = Inr (last xs)"
proof -
  show "slist_top (h, l) = Inr (hd xs)"
    using assms by (cases ps; cases xs) (auto simp: slist_rep_def slist_top_def node_at_def)
  show "slist_back (h, l) = Inr (last xs)"
    using rep_cases [OF assms(1)] assms(2) by (auto simp: slist_back_def node_at_def)
qed

fun list_foreach :: "('a \<Rightarrow> 's \<Rightarrow> bool \<times> 'a \<times> 's) \<Rightarrow> 'a list \<Rightarrow> 's \<Rightarrow> 'a list \<times> 's" where
  "list_foreach f [] s = ([], s)"
| "list_foreach f (x # xs) s =
     (let (go, y, s) = f x s in
      if go then let (ys, s) = list_foreach f xs s in (y # ys, s) else (y # xs, s))"

lemma list_foreach_length: "length (fst (list_foreach f xs s)) = length xs"
  by (induction f xs s rule: list_foreach.induct) (auto split: prod.splits)

lemma foreach_loop_visits:
  assumes "chain h p ps xs 0" and "distinct ps" and "length ps \<le> fuel"
  shows "\<exists>h'. foreach_loop fuel f p 0 h s = Inr (h', snd (list_foreach f xs s))
    \<and> chain h' p ps (fst (list_foreach f xs s)) 0 \<and> fresh h' = fresh h
    \<and> (\<forall>q. q \<notin> set ps \<longrightarrow> cells h' q = cells h q)"
  using assms
proof (induction ps arbitrary: p xs fuel h s)
  case Nil
  then show ?case by (cases xs) auto
next
  case (Cons q qs)
  then obtain k y ys n where k: "fuel = Suc k" "length qs \<le> k" "xs = y # ys" "p = q" "q \<noteq> 0"
    and n: "cells h q = Some \<lparr>item = y, nxt = n\<rparr>" "chain h n qs ys 0"
    by (cases fuel; cases xs) auto
  obtain go y' s' where f: "f y s = (go, y', s')" by (cases "f y s") auto
  define h1 where "h1 = put_node h q \<lparr>item = y', nxt = n\<rparr>"
  have c1: "chain h1 n qs ys 0" using n(2) Cons.prems(2) by (simp add: h1_def)
  have step: "foreach_loop fuel f p 0 h s =
      (if go then foreach_loop k f n 0 h1 s' else Inr (h1, s'))"
    using k n(1) f by (simp add: node_at_def h1_def Let_def)
  show ?case
  proof (cases go)
    case False
    then have "chain h1 p (q # qs) (fst (list_foreach f xs s)) 0"
      using c1 k f by (auto simp: h1_def)
    then show ?thesis using step False f k by (intro exI [of _ h1]) (auto simp: h1_def)
  next
    case True
    obtain h' where h': "foreach_loop k f n 0 h1 s' = Inr (h', snd (list_foreach f ys s'))"
      "chain h' n qs (fst (list_foreach f ys s')) 0" "fresh h' = fresh h1"
      "\<forall>r. r \<notin> set qs \<longrightarrow> cells h' r = cells h1 r"
      using Cons.IH [OF c1 _ k(2)] Cons.prems(2) by auto
    have "cells h' q = Some \<lparr>item = y', nxt = n\<rparr>" using h'(4) Cons.prems(2) by (simp add: h1_def)
    then show ?thesis
      using step True h' f k by (intro exI [of _ h']) (auto simp: h1_def split: prod.splits)
  qed
qed

lemma slist_foreach_visits:
  assumes rep: "slist_rep ps xs (h, l)"
  shows "\<exists>h'. slist_foreach f (h, l) s = Inr ((h', l), snd (list_foreach f xs s))
    \<and> slist_rep ps (fst (list_foreach f xs s)) (h', l) \<and> heap_frame ps h h'"
proof -
  obtain h' where h': "foreach_loop (fresh h) f (sl_head l) 0 h s = Inr (h', snd (list_foreach f xs s))"
    "chain h' (sl_head l) ps (fst (list_foreach f xs s)) 0" "fresh h' = fresh h"
    "\<forall>q. q \<notin> set ps \<longrightarrow> cells h' q = cells h q"
    using foreach_loop_visits [of h "sl_head l" ps xs "fresh h" f s] rep rep_fuel [OF rep] rep_length [OF rep]
    by (auto simp: slist_rep_def)
  have "slist_foreach f (h, l) s = Inr ((h', l), snd (list_foreach f xs s))"
    using h'(1) rep_end [OF rep] by (simp add: slist_foreach_def slist_begin_def)
  moreover have "slist_rep ps (fst (list_foreach f xs s)) (h', l)"
    using rep h' by (simp add: slist_rep_def list_foreach_length)
  ultimately show ?thesis using h' by (auto simp: heap_frame_def)
qed

text \<open>Copying a list: the copy has the same items on nodes of its own.\<close>

lemma clone_loop_implements:
  assumes "chain h p qs ys 0" and "set qs \<subseteq> {..<fresh h}" and "set qs \<inter> set ps = {}"
    and "slist_rep ps xs (h, l)" and "length xs + length ys < 2 ^ 32" and "length qs \<le> fuel"
  shows "slist_implements ps h (xs @ ys) (slist_clone_loop fuel p 0 (h, l))"
  using assms
proof (induction qs arbitrary: p ys fuel h l ps xs)
  case Nil
  then show ?case by (cases ys) (auto intro: slist_implementsI)
next
  case (Cons q qs)
  then obtain k y ys' n where k: "fuel = Suc k" "length qs \<le> k" "ys = y # ys'" "p = q" "q \<noteq> 0"
    and n: "cells h q = Some \<lparr>item = y, nxt = n\<rparr>" "chain h n qs ys' 0"
    by (cases fuel; cases ys) auto
  obtain h1 l1 ps1 where 1: "slist_add y (h, l) = Inr (h1, l1)" "slist_rep ps1 (xs @ [y]) (h1, l1)"
    "heap_frame ps h h1" "set ps1 \<subseteq> set ps \<union> {fresh h..}"
    using slist_add_implements [OF Cons.prems(4), of y] Cons.prems(5) k(3)
    by (auto elim: slist_implementsE)
  have same: "cells h1 r = cells h r" if "r \<in> set (q # qs)" for r
    using 1(3) that Cons.prems(2,3) by (auto simp: heap_frame_def)
  have "chain h1 n qs ys' 0" using n(2) chain_cong [of qs h h1 n ys' 0] same by auto
  moreover have "set qs \<subseteq> {..<fresh h1}" using Cons.prems(2) 1(3) by (force simp: heap_frame_def)
  moreover have "set qs \<inter> set ps1 = {}" using Cons.prems(2,3) 1(4) by force
  ultimately have "slist_implements ps1 h1 ((xs @ [y]) @ ys') (slist_clone_loop k n 0 (h1, l1))"
    using 1(2) Cons.prems(5) k by (intro Cons.IH) auto
  moreover have "slist_clone_loop fuel p 0 (h, l) = slist_clone_loop k n 0 (h1, l1)"
    using k n(1) 1(1) same [of q] by (simp add: node_at_def iter_next_def)
  ultimately show ?case using slist_implements_trans [OF 1(3,4)] k(3) by simp
qed

lemma slist_copy_implements:
  assumes rep: "slist_rep qs ys (h, other)"
  shows "slist_implements [] h ys (slist_copy other h)"
proof -
  have "slist_implements [] h ([] @ ys) (slist_clone_loop (fresh h) (sl_head other) 0 (h, slist_new))"
    using rep rep_fuel [OF rep] rep_length [OF rep]
    by (intro clone_loop_implements [of h _ qs]) (auto simp: slist_rep_def slist_new_def)
  then show ?thesis using rep_end [OF rep] by (simp add: slist_copy_def slist_clone_def slist_begin_def)
qed

lemma slist_assign_implements:
  assumes rep: "slist_rep ps xs (h, l)" and other: "slist_rep qs ys (h, other)" and "set ps \<inter> set qs = {}"
  shows "slist_implements ps h ys (slist_assign other (h, l))"
proof -
  obtain h1 l1 ps1 where 1: "slist_clear (h, l) = Inr (h1, l1)" "slist_rep ps1 [] (h1, l1)"
    "heap_frame ps h h1" "set ps1 \<subseteq> set ps \<union> {fresh h..}"
    using slist_clear_implements [OF rep] by (rule slist_implementsE)
  have ps1: "ps1 = []" using rep_length [OF 1(2)] by simp
  have same: "cells h1 r = cells h r" if "r \<in> set qs" for r
    using 1(3) that assms(3) other by (force simp: heap_frame_def slist_rep_def)
  have "chain h1 (sl_head other) qs ys 0"
    using other same chain_cong [of qs h h1 "sl_head other" ys 0] by (auto simp: slist_rep_def)
  then have other1: "slist_rep qs ys (h1, other)"
    using other 1(3) by (force simp: slist_rep_def heap_frame_def)
  have "slist_implements [] h1 ([] @ ys) (slist_clone_loop (fresh h1) (sl_head other) 0 (h1, l1))"
    using other1 rep_fuel [OF other1] rep_length [OF other1] 1(2) ps1
    by (intro clone_loop_implements [of h1 _ qs]) (auto simp: slist_rep_def)
  then have "slist_implements [] h1 ys (slist_clone other (h1, l1))"
    using rep_end [OF other1] by (simp add: slist_clone_def slist_begin_def)
  then show ?thesis
    using 1(1) slist_implements_trans [OF 1(3), of "[]"] by (simp add: slist_assign_def)
qed

section \<open>Sequences of operations\<close>

text \<open>
  A client of the list: it reaches position \<open>i\<close> with an iterator advanced \<open>i\<close> times from
  \<open>begin\<close>, and reads what \<open>pop\<close> and \<open>remove\<close> return. \<open>slist_exec\<close> performs one operation on
  the nodes, \<open>list_exec\<close> the same operation on the list of items; \<open>None\<close> is an operation the
  code does not allow in that state: a position outside the list, \<open>pop\<close> of an empty list, or a
  list that would exceed the 32-bit counter.
\<close>

datatype 'a slist_op =
    Add 'a | AddHead 'a | InsertAt nat 'a | RemoveAt nat | Remove 'a | RemoveAll 'a | Pop | Clear

datatype 'a slist_out = Done | Found bool | Popped 'a

fun iter_advance :: "nat \<Rightarrow> 'a node_heap \<Rightarrow> nat \<Rightarrow> nat kernel" where
  "iter_advance 0 h b = Inr b"
| "iter_advance (Suc k) h b = kbind (iter_next h b) (iter_advance k h)"

definition done_with :: "'a slist_state kernel \<Rightarrow> ('a slist_out \<times> 'a slist_state) kernel" where
  "done_with r = kbind r (\<lambda>s. Inr (Done, s))"

definition at_position :: "nat \<Rightarrow> (nat \<Rightarrow> 'a slist_state \<Rightarrow> 'a slist_state kernel) \<Rightarrow> 'a slist_state \<Rightarrow> 'a slist_state kernel" where
  "at_position i f s = kbind (iter_advance i (fst s) (slist_begin (snd s))) (\<lambda>b. f b s)"

fun slist_exec :: "'a slist_op \<Rightarrow> 'a slist_state \<Rightarrow> ('a slist_out \<times> 'a slist_state) kernel" where
  "slist_exec (Add x) s = done_with (slist_add x s)"
| "slist_exec (AddHead x) s = done_with (slist_add_head x s)"
| "slist_exec (InsertAt i x) s = done_with (at_position i (\<lambda>b. slist_insert b x) s)"
| "slist_exec (RemoveAt i) s = done_with (at_position i slist_remove s)"
| "slist_exec (Remove x) s = kbind (slist_remove_item x s) (\<lambda>(ok, s). Inr (Found ok, s))"
| "slist_exec (RemoveAll x) s = done_with (slist_removeAll x s)"
| "slist_exec Pop s = kbind (slist_pop s) (\<lambda>(x, s). Inr (Popped x, s))"
| "slist_exec Clear s = done_with (slist_clear s)"

fun list_exec :: "'a slist_op \<Rightarrow> 'a list \<Rightarrow> ('a slist_out \<times> 'a list) option" where
  "list_exec (Add x) xs = (if Suc (length xs) < 2 ^ 32 then Some (Done, xs @ [x]) else None)"
| "list_exec (AddHead x) xs = (if Suc (length xs) < 2 ^ 32 then Some (Done, x # xs) else None)"
| "list_exec (InsertAt i x) xs =
     (if i < length xs \<and> Suc (length xs) < 2 ^ 32 then Some (Done, take i xs @ x # drop i xs) else None)"
| "list_exec (RemoveAt i) xs = (if i < length xs then Some (Done, take i xs @ drop (Suc i) xs) else None)"
| "list_exec (Remove x) xs = Some (Found (x \<in> set xs), remove1 x xs)"
| "list_exec (RemoveAll x) xs = Some (Done, removeAll x xs)"
| "list_exec Pop xs = (case xs of [] \<Rightarrow> None | y # ys \<Rightarrow> Some (Popped y, ys))"
| "list_exec Clear xs = Some (Done, [])"

fun slist_run :: "'a slist_op list \<Rightarrow> 'a slist_state \<Rightarrow> ('a slist_out list \<times> 'a slist_state) kernel" where
  "slist_run [] s = Inr ([], s)"
| "slist_run (c # cs) s =
     kbind (slist_exec c s) (\<lambda>(out, s). kbind (slist_run cs s) (\<lambda>(outs, s). Inr (out # outs, s)))"

fun list_run :: "'a slist_op list \<Rightarrow> 'a list \<Rightarrow> ('a slist_out list \<times> 'a list) option" where
  "list_run [] xs = Some ([], xs)"
| "list_run (c # cs) xs =
     (case list_exec c xs of
        None \<Rightarrow> None
      | Some (out, ys) \<Rightarrow> (case list_run cs ys of None \<Rightarrow> None | Some (outs, zs) \<Rightarrow> Some (out # outs, zs)))"

lemma iter_advance_chain:
  "chain h p ps xs 0 \<Longrightarrow> i < length ps \<Longrightarrow> iter_advance i h p = Inr (ps ! i)"
proof (induction i arbitrary: p ps xs)
  case 0
  then show ?case by (cases ps; cases xs) auto
next
  case (Suc i)
  then show ?case by (cases ps; cases xs) (auto simp: iter_next_def node_at_def)
qed

lemma at_position_rep:
  "slist_rep ps xs (h, l) \<Longrightarrow> i < length xs \<Longrightarrow> at_position i f (h, l) = f (ps ! i) (h, l)"
  using iter_advance_chain [of h "sl_head l" ps xs i] rep_length [of ps xs "(h, l)"]
  by (simp add: at_position_def slist_begin_def slist_rep_def)

lemma slist_exec_refines:
  assumes rep: "slist_rep ps xs (h, l)" and spec: "list_exec c xs = Some (out, ys)"
  shows "\<exists>r. slist_exec c (h, l) = kbind r (\<lambda>s. Inr (out, s)) \<and> slist_implements ps h ys r"
proof (cases c)
  case (Remove x)
  then show ?thesis using slist_remove_item_implements [OF rep, of x] spec by (auto simp: kbind_assoc)
next
  case Pop
  then obtain y where "xs = y # ys" "out = Popped y" using spec by (auto split: list.splits)
  then show ?thesis using slist_pop_implements rep Pop by (force simp: kbind_assoc)
qed (use rep spec in \<open>auto simp: done_with_def at_position_rep slist_add_implements slist_add_head_implements
      slist_insert_implements slist_remove_implements slist_removeAll_implements slist_clear_implements
      split: if_splits\<close>)

lemma slist_run_refines:
  assumes "slist_rep ps xs (h, l)" and "list_run cs xs = Some (outs, ys)"
  shows "\<exists>h' l' ps'. slist_run cs (h, l) = Inr (outs, h', l') \<and> slist_rep ps' ys (h', l') \<and> heap_frame ps h h'
    \<and> set ps' \<subseteq> set ps \<union> {fresh h..}"
  using assms
proof (induction cs arbitrary: ps xs h l outs)
  case Nil
  then show ?case by (intro exI [of _ h] exI [of _ l] exI [of _ ps]) auto
next
  case (Cons c cs)
  then obtain out zs outs' where c: "list_exec c xs = Some (out, zs)" "list_run cs zs = Some (outs', ys)"
    "outs = out # outs'"
    by (auto split: option.splits)
  obtain r where r: "slist_exec c (h, l) = kbind r (\<lambda>s. Inr (out, s))" "slist_implements ps h zs r"
    using slist_exec_refines [OF Cons.prems(1) c(1)] by blast
  obtain h1 l1 ps1 where 1: "r = Inr (h1, l1)" "slist_rep ps1 zs (h1, l1)" "heap_frame ps h h1"
    "set ps1 \<subseteq> set ps \<union> {fresh h..}"
    using r(2) by (rule slist_implementsE)
  obtain h' l' ps' where 2: "slist_run cs (h1, l1) = Inr (outs', h', l')" "slist_rep ps' ys (h', l')"
    "heap_frame ps1 h1 h'" "set ps' \<subseteq> set ps1 \<union> {fresh h1..}"
    using Cons.IH [OF 1(2) c(2)] by blast
  have "slist_implements ps h ys (Inr (h', l'))"
    using slist_implements_trans [OF 1(3,4)] slist_implementsI [OF refl 2(2-4)] by blast
  then show ?case using r(1) 1(1) 2(1) c(3) by (auto simp: slist_implements_def)
qed

text \<open>
  C13: every sequence of operations on a linked list that its item sequence allows runs without
  touching a null or deleted node, ends, returns the same answers as the operations on the plain
  list, leaves a well-formed list of exactly the expected items, and changes no heap block that
  is not one of the list's own nodes.
\<close>

theorem slist_refines_list:
  assumes "slist_rep ps xs (h, l)" and "list_run cs xs = Some (outs, ys)"
  shows "\<exists>h' l' ps'. slist_run cs (h, l) = Inr (outs, h', l') \<and> slist_rep ps' ys (h', l')
    \<and> slist_count l' = of_nat (length ys) \<and> (slist_empty l' \<longleftrightarrow> ys = [])
    \<and> (\<forall>q<fresh h. q \<notin> set ps \<longrightarrow> cells h' q = cells h q)"
proof -
  obtain h' l' ps' where 1: "slist_run cs (h, l) = Inr (outs, h', l')" "slist_rep ps' ys (h', l')"
    "heap_frame ps h h'"
    using slist_run_refines [OF assms] by blast
  have "slist_count l' = of_nat (length ys)" using 1(2) by (simp add: slist_rep_def slist_count_def)
  then show ?thesis using 1 rep_empty(1) [OF 1(2)] unfolding heap_frame_def by blast
qed

definition heap0 :: "nat node_heap" where
  "heap0 = \<lparr>cells = (\<lambda>_. None), fresh = 1\<rparr>"

theorem slist_refines_list_witness:
  "\<exists>h' l' ps'.
     slist_run [Add 1, AddHead 2, Add 3, InsertAt 1 7, RemoveAt 0, Remove 3, Remove 9, Pop, Add 5] (heap0, slist_new)
       = Inr ([Done, Done, Done, Done, Done, Found True, Found False, Popped 7, Done], h', l')
     \<and> slist_rep ps' [1, 5] (h', l') \<and> slist_count l' = 2"
proof -
  have "slist_rep [] [] (heap0, slist_new)" by (simp add: slist_rep_def heap0_def slist_new_def)
  from slist_refines_list [OF this,
      of "[Add 1, AddHead 2, Add 3, InsertAt 1 7, RemoveAt 0, Remove 3, Remove 9, Pop, Add 5]"]
  show ?thesis by fastforce
qed

text \<open>
  Removing the first node through an iterator does not delete it: the block stays allocated and
  nothing refers to it any more.
\<close>

lemma remove_head_leaks:
  assumes "slist_rep ps (x # xs) (h, l)"
  shows "\<exists>l'. slist_remove (sl_head l) (h, l) = Inr (h, l') \<and> cells h (sl_head l) \<noteq> None
    \<and> slist_rep (tl ps) xs (h, l')"
proof -
  obtain p qs n where ps: "ps = p # qs" "sl_head l = p" "p \<noteq> 0" "cells h p = Some \<lparr>item = x, nxt = n\<rparr>"
    "chain h n qs xs 0"
    using assms by (cases ps) (auto simp: slist_rep_def)
  define l' where "l' = l\<lparr>sl_head := n, sl_size := sl_size l - 1\<rparr>"
  have "slist_remove (sl_head l) (h, l) = Inr (h, l')"
    using ps by (simp add: slist_remove_def node_at_def l'_def)
  moreover have "slist_rep (tl ps) xs (h, l')" using assms ps by (auto simp: slist_rep_def l'_def)
  ultimately show ?thesis using ps by simp
qed

end
