(* ===== verification/Fifo.thy ===== *)
theory Fifo
  imports Puppy_Prelude
begin

text \<open>
  First-in first-out buffers. The locale \<open>fifo\<close> is the contract the kernel's blocking code relies
  on: a buffer stands for a list, writing appends and reading takes the first item. It is
  interpreted here on the fixed ring \<open>queue<T, N>\<close> of \<open>src/kernel/include/libc/queue.h\<close>, in
  \<open>Vec\<close> on \<open>dynqueue<T>\<close> and in \<open>Pipe\<close> on the bytes of a pipe.
\<close>

section \<open>The contract\<close>

datatype 'a fifo_op = Put 'a | Get

locale fifo =
  fixes rep :: "'q \<Rightarrow> 'a list \<Rightarrow> bool"
    and is_empty :: "'q \<Rightarrow> bool"
    and put :: "'a \<Rightarrow> 'q \<Rightarrow> 'q kernel"
    and get :: "'q \<Rightarrow> ('a \<times> 'q) kernel"
    and room :: nat
  assumes empty_iff: "rep q xs \<Longrightarrow> is_empty q \<longleftrightarrow> xs = []"
    and put_appends: "rep q xs \<Longrightarrow> length xs < room \<Longrightarrow> \<exists>q'. put x q = Inr q' \<and> rep q' (xs @ [x])"
    and get_first: "rep q (x # xs) \<Longrightarrow> \<exists>q'. get q = Inr (x, q') \<and> rep q' xs"
begin

lemma put_all:
  assumes "rep q xs" and "length xs + length ys \<le> room"
  shows "\<exists>q'. kfold put ys q = Inr q' \<and> rep q' (xs @ ys)"
  using assms
proof (induction ys arbitrary: q xs)
  case Nil
  then show ?case by simp
next
  case (Cons y ys)
  then obtain q1 where "put y q = Inr q1" "rep q1 (xs @ [y])" using put_appends [of q xs y] by auto
  then show ?case using Cons.IH [of q1 "xs @ [y]"] Cons.prems(2) by auto
qed

text \<open>Reading everything: one read per item, in the order of writing.\<close>

fun drain :: "nat \<Rightarrow> 'q \<Rightarrow> ('a list \<times> 'q) kernel" where
  "drain fuel q =
     (if is_empty q then Inr ([], q)
      else case fuel of
        0 \<Rightarrow> Inl Diverges
      | Suc k \<Rightarrow> kbind (get q) (\<lambda>(x, q). kbind (drain k q) (\<lambda>(xs, q). Inr (x # xs, q))))"

lemma drain_all:
  "rep q xs \<Longrightarrow> length xs \<le> fuel \<Longrightarrow> \<exists>q'. drain fuel q = Inr (xs, q') \<and> rep q' []"
proof (induction xs arbitrary: q fuel)
  case Nil
  then show ?case using empty_iff [of q "[]"] by auto
next
  case (Cons x xs)
  then obtain k where k: "fuel = Suc k" "length xs \<le> k" by (cases fuel) auto
  obtain q1 where q1: "get q = Inr (x, q1)" "rep q1 xs" using get_first Cons.prems(1) by blast
  obtain q2 where "drain k q1 = Inr (xs, q2)" "rep q2 []" using Cons.IH [OF q1(2) k(2)] by blast
  then show ?case using k q1 empty_iff [OF Cons.prems(1)] by auto
qed

text \<open>
  Any interleaving of writes and reads that never writes a full buffer and never reads an empty
  one: what was read followed by what is left is what was there followed by what was written.
\<close>

fun run :: "'a fifo_op list \<Rightarrow> 'q \<Rightarrow> ('a list \<times> 'q) kernel" where
  "run [] q = Inr ([], q)"
| "run (Put x # cs) q = kbind (put x q) (run cs)"
| "run (Get # cs) q = kbind (get q) (\<lambda>(x, q). kbind (run cs q) (\<lambda>(xs, q). Inr (x # xs, q)))"

fun fits :: "nat \<Rightarrow> 'a fifo_op list \<Rightarrow> bool" where
  "fits n [] \<longleftrightarrow> True"
| "fits n (Put x # cs) \<longleftrightarrow> n < room \<and> fits (Suc n) cs"
| "fits n (Get # cs) \<longleftrightarrow> 0 < n \<and> fits (n - 1) cs"

fun written :: "'a fifo_op list \<Rightarrow> 'a list" where
  "written [] = []"
| "written (Put x # cs) = x # written cs"
| "written (Get # cs) = written cs"

lemma run_stream:
  "rep q xs \<Longrightarrow> fits (length xs) cs \<Longrightarrow>
   \<exists>out q' ys. run cs q = Inr (out, q') \<and> rep q' ys \<and> out @ ys = xs @ written cs"
proof (induction cs arbitrary: q xs rule: written.induct)
  case 1
  then show ?case by auto
next
  case (2 x cs)
  then obtain q1 where "put x q = Inr q1" "rep q1 (xs @ [x])" using put_appends [of q xs x] by auto
  then show ?case using 2(1) [of q1 "xs @ [x]"] 2(3) by auto
next
  case (3 cs)
  then obtain y ys where xs: "xs = y # ys" by (cases xs) auto
  then obtain q1 where q1: "get q = Inr (y, q1)" "rep q1 ys" using get_first 3(2) by blast
  then obtain out q' zs where "run cs q1 = Inr (out, q')" "rep q' zs" "out @ zs = ys @ written cs"
    using 3(1) [of q1 ys] 3(3) xs by auto
  then show ?case using q1(1) xs by auto
qed

end

section \<open>The fixed ring\<close>

record 'a queue =
  mItems :: "'a list"
  mReadIdx :: nat
  mWriteIdx :: nat

definition queue_incr :: "nat \<Rightarrow> nat \<Rightarrow> nat \<Rightarrow> nat" where
  "queue_incr n mx wrap = (if n + 1 = mx then wrap else n + 1)"

definition queue_new :: "nat \<Rightarrow> 'a \<Rightarrow> 'a queue" where
  "queue_new N zero = \<lparr>mItems = replicate N zero, mReadIdx = 0, mWriteIdx = 0\<rparr>"

definition queue_empty :: "'a queue \<Rightarrow> bool" where
  "queue_empty q \<longleftrightarrow> mReadIdx q = mWriteIdx q"

definition queue_full :: "nat \<Rightarrow> 'a queue \<Rightarrow> bool" where
  "queue_full N q \<longleftrightarrow> queue_incr (mWriteIdx q) N 0 = mReadIdx q"

definition queue_write :: "nat \<Rightarrow> 'a \<Rightarrow> 'a queue \<Rightarrow> 'a queue kernel" where
  "queue_write N thing q =
     (if mWriteIdx q \<ge> length (mItems q) then Inl OutOfBounds
      else Inr (q\<lparr>mItems := (mItems q)[mWriteIdx q := thing], mWriteIdx := queue_incr (mWriteIdx q) N 0\<rparr>))"

definition queue_read :: "nat \<Rightarrow> 'a queue \<Rightarrow> ('a \<times> 'a queue) kernel" where
  "queue_read N q =
     (if mReadIdx q \<ge> length (mItems q) then Inl OutOfBounds
      else Inr (mItems q ! mReadIdx q, q\<lparr>mReadIdx := queue_incr (mReadIdx q) N 0\<rparr>))"

text \<open>The items of the ring are those from the read index up to the write index, around the end.\<close>

definition ring_items :: "'a list \<Rightarrow> nat \<Rightarrow> nat \<Rightarrow> 'a list" where
  "ring_items buf start n = map (\<lambda>k. buf ! ((start + k) mod length buf)) [0..<n]"

lemma length_ring_items [simp]: "length (ring_items buf start n) = n"
  by (simp add: ring_items_def)

lemma ring_items_0 [simp]: "ring_items buf start 0 = []"
  by (simp add: ring_items_def)

lemma ring_items_Suc_first:
  "ring_items buf start (Suc n) = buf ! (start mod length buf) # ring_items buf (Suc start) n"
  by (simp add: ring_items_def upt_conv_Cons map_Suc_upt [symmetric] del: upt_Suc)

lemma ring_items_mod: "ring_items buf (start mod length buf) n = ring_items buf start n"
  by (simp add: ring_items_def mod_add_left_eq)

lemma mod_neq_lt:
  fixes a k n N :: nat
  assumes "k < n" and "n < N"
  shows "(a + k) mod N \<noteq> (a + n) mod N"
proof
  assume "(a + k) mod N = (a + n) mod N"
  then have "N dvd (a + n) - (a + k)" using assms by (metis add_le_cancel_left less_or_eq_imp_le mod_eq_dvd_iff_nat)
  then show False using assms by (auto dest: dvd_imp_le)
qed

lemma ring_items_append:
  assumes "n < length buf"
  shows "ring_items (buf[(start + n) mod length buf := x]) start (Suc n) = ring_items buf start n @ [x]"
proof -
  have pos: "0 < length buf" using assms by linarith
  have "buf[(start + n) mod length buf := x] ! ((start + k) mod length buf) = buf ! ((start + k) mod length buf)"
    if "k < n" for k
    using mod_neq_lt [OF that assms, of start] by simp
  then show ?thesis using pos by (simp add: ring_items_def)
qed

definition queue_rep :: "nat \<Rightarrow> 'a queue \<Rightarrow> 'a list \<Rightarrow> bool" where
  "queue_rep N q xs \<longleftrightarrow>
     length (mItems q) = N \<and> mReadIdx q < N \<and> length xs < N
     \<and> mWriteIdx q = (mReadIdx q + length xs) mod N \<and> ring_items (mItems q) (mReadIdx q) (length xs) = xs"

lemma queue_incr_mod: "n < N \<Longrightarrow> queue_incr n N 0 = Suc n mod N"
  by (auto simp: queue_incr_def)

lemma queue_rep_new: "1 < N \<Longrightarrow> queue_rep N (queue_new N z) []"
  by (simp add: queue_rep_def queue_new_def)

lemma queue_rep_empty:
  assumes "queue_rep N q xs"
  shows "queue_empty q \<longleftrightarrow> xs = []"
proof
  assume "queue_empty q"
  show "xs = []"
  proof (rule ccontr)
    assume "xs \<noteq> []"
    then have "(mReadIdx q + 0) mod N \<noteq> (mReadIdx q + length xs) mod N"
      using assms by (intro mod_neq_lt) (auto simp: queue_rep_def)
    then show False using assms \<open>queue_empty q\<close> by (simp add: queue_rep_def queue_empty_def)
  qed
qed (use assms in \<open>simp add: queue_rep_def queue_empty_def\<close>)

lemma queue_rep_full:
  assumes "queue_rep N q xs"
  shows "queue_full N q \<longleftrightarrow> length xs = N - 1"
proof -
  have *: "mReadIdx q < N" "length xs < N" "mWriteIdx q = (mReadIdx q + length xs) mod N"
    using assms by (simp_all add: queue_rep_def)
  then have "queue_incr (mWriteIdx q) N 0 = (mReadIdx q + Suc (length xs)) mod N"
    by (simp add: queue_incr_mod mod_Suc_eq)
  moreover have "(mReadIdx q + Suc (length xs)) mod N = mReadIdx q \<longleftrightarrow> Suc (length xs) = N"
  proof
    assume eq: "(mReadIdx q + Suc (length xs)) mod N = mReadIdx q"
    show "Suc (length xs) = N"
    proof (rule ccontr)
      assume "Suc (length xs) \<noteq> N"
      then have "(mReadIdx q + 0) mod N \<noteq> (mReadIdx q + Suc (length xs)) mod N"
        using * by (intro mod_neq_lt) auto
      then show False using eq * by simp
    qed
  next
    assume "Suc (length xs) = N"
    then show "(mReadIdx q + Suc (length xs)) mod N = mReadIdx q" using * by simp
  qed
  ultimately show ?thesis using * by (auto simp: queue_full_def)
qed

lemma queue_write_appends:
  assumes "queue_rep N q xs" and "length xs < N - 1"
  shows "\<exists>q'. queue_write N x q = Inr q' \<and> queue_rep N q' (xs @ [x])"
proof -
  have *: "length (mItems q) = N" "mReadIdx q < N" "mWriteIdx q = (mReadIdx q + length xs) mod N"
    "ring_items (mItems q) (mReadIdx q) (length xs) = xs"
    using assms by (simp_all add: queue_rep_def)
  have "ring_items ((mItems q)[mWriteIdx q := x]) (mReadIdx q) (Suc (length xs)) = xs @ [x]"
    using ring_items_append [of "length xs" "mItems q" "mReadIdx q" x] * assms(2) by simp
  moreover have "queue_incr (mWriteIdx q) N 0 = (mReadIdx q + Suc (length xs)) mod N"
    using * by (simp add: queue_incr_mod mod_Suc_eq)
  moreover have "mWriteIdx q < N" and "Suc (length xs) < N" using * assms(2) by auto
  ultimately show ?thesis using *(1,2,4) by (simp add: queue_write_def queue_rep_def)
qed

lemma queue_read_first:
  assumes "queue_rep N q (x # xs)"
  shows "\<exists>q'. queue_read N q = Inr (x, q') \<and> queue_rep N q' xs"
proof -
  have *: "length (mItems q) = N" "mReadIdx q < N" "mWriteIdx q = (mReadIdx q + Suc (length xs)) mod N"
    "ring_items (mItems q) (mReadIdx q) (Suc (length xs)) = x # xs" "Suc (length xs) < N"
    using assms by (simp_all add: queue_rep_def)
  have "mItems q ! mReadIdx q = x" "ring_items (mItems q) (Suc (mReadIdx q)) (length xs) = xs"
    using *(1,2) *(4) [unfolded ring_items_Suc_first] by auto
  moreover have "ring_items (mItems q) (Suc (mReadIdx q) mod N) (length xs) = ring_items (mItems q) (Suc (mReadIdx q)) (length xs)"
    using ring_items_mod [of "mItems q" "Suc (mReadIdx q)"] *(1) by simp
  moreover have "queue_incr (mReadIdx q) N 0 = Suc (mReadIdx q) mod N" using *(2) by (rule queue_incr_mod)
  moreover have "Suc (mReadIdx q) mod N < N" using *(2) by simp
  moreover have "(Suc (mReadIdx q) mod N + length xs) mod N = mWriteIdx q" using *(3) by (simp add: mod_add_left_eq)
  ultimately show ?thesis
    using *(1,2,5) by (simp add: queue_read_def queue_rep_def)
qed

interpretation ring: fifo "queue_rep N" queue_empty "queue_write N" "queue_read N" "N - 1" for N
  by unfold_locales (simp_all add: queue_rep_empty queue_write_appends queue_read_first)

end
