(* ===== verification/Vec.thy ===== *)
theory Vec
  imports Fifo
begin

text \<open>
  \<open>vector<T>\<close> of \<open>src/kernel/include/libc/vec.h\<close> with its storage, capacity and growth, and
  \<open>dynqueue<T>\<close> of \<open>src/kernel/include/libc/dynqueue.h\<close> on top of it. The storage is a list of
  \<open>mCapacity\<close> cells; a cell that was never written is \<open>None\<close>, and reading it, or any index
  outside the storage, is the fault \<open>OutOfBounds\<close>. \<open>allocate\<close> is taken to succeed. The
  abstraction \<open>vec_rep\<close> relates a vector to the list of its items; the scheduler's ready queue,
  the wait queues and the heap of \<open>Pqueue\<close> are vectors and are used through it.
\<close>

section \<open>Vectors\<close>

record 'a vector =
  mData :: "'a option list"
  mCapacity :: u32
  mSize :: u32

definition vec_new :: "'a vector" where
  "vec_new = \<lparr>mData = [], mCapacity = 0, mSize = 0\<rparr>"

definition vec_realloc :: "u32 \<Rightarrow> 'a vector \<Rightarrow> 'a vector kernel" where
  "vec_realloc newSize v =
     (if mSize v > newSize \<or> unat (mSize v) > length (mData v) then Inl OutOfBounds
      else Inr (v\<lparr>mData := take (unat (mSize v)) (mData v) @ replicate (unat newSize - unat (mSize v)) None,
                  mCapacity := newSize\<rparr>))"

definition vec_put :: "nat \<Rightarrow> 'a \<Rightarrow> 'a vector \<Rightarrow> 'a vector kernel" where
  "vec_put i x v =
     (if i < length (mData v) then Inr (v\<lparr>mData := (mData v)[i := Some x]\<rparr>) else Inl OutOfBounds)"

definition vec_push_back :: "'a \<Rightarrow> 'a vector \<Rightarrow> 'a vector kernel" where
  "vec_push_back item v =
     kbind (if mSize v = mCapacity v then vec_realloc (2 * mCapacity v + 1) v else Inr v) (\<lambda>v.
     kbind (vec_put (unat (mSize v)) item v) (\<lambda>v.
     Inr (v\<lparr>mSize := mSize v + 1\<rparr>)))"

definition vec_size :: "'a vector \<Rightarrow> u32" where
  "vec_size v = mSize v"

definition vec_empty :: "'a vector \<Rightarrow> bool" where
  "vec_empty v \<longleftrightarrow> mSize v = 0"

definition vec_at :: "u32 \<Rightarrow> 'a vector \<Rightarrow> 'a kernel" where
  "vec_at idx v =
     (if unat idx < length (mData v)
      then (case mData v ! unat idx of None \<Rightarrow> Inl OutOfBounds | Some x \<Rightarrow> Inr x)
      else Inl OutOfBounds)"

definition vec_front :: "'a vector \<Rightarrow> 'a kernel" where
  "vec_front v = vec_at 0 v"

definition vec_back :: "'a vector \<Rightarrow> 'a kernel" where
  "vec_back v = vec_at (mSize v - 1) v"

definition vec_erase :: "u32 \<Rightarrow> 'a vector \<Rightarrow> 'a vector kernel" where
  "vec_erase pos v =
     (let p = unat pos; rem = unat (mSize v - pos - 1) in
      if p + rem < length (mData v) then
        Inr (v\<lparr>mData := take p (mData v) @ take rem (drop (p + 1) (mData v)) @ drop (p + rem) (mData v),
               mSize := mSize v - 1\<rparr>)
      else Inl OutOfBounds)"

fun vec_find :: "nat \<Rightarrow> ('a \<Rightarrow> bool) \<Rightarrow> u32 \<Rightarrow> 'a vector \<Rightarrow> u32 kernel" where
  "vec_find fuel P i v =
     (if i = mSize v then Inr i
      else case fuel of
        0 \<Rightarrow> Inl Diverges
      | Suc k \<Rightarrow> kbind (vec_at i v) (\<lambda>x. if P x then Inr i else vec_find k P (i + 1) v))"

definition vec_erase_value :: "'a \<Rightarrow> 'a vector \<Rightarrow> (bool \<times> 'a vector) kernel" where
  "vec_erase_value x v =
     kbind (vec_find (unat (mSize v)) (\<lambda>y. y = x) 0 v) (\<lambda>i.
     if i = mSize v then Inr (False, v)
     else kbind (vec_erase i v) (\<lambda>v. Inr (True, v)))"

fun eraseAll_loop :: "nat \<Rightarrow> 'a \<Rightarrow> 'a vector \<Rightarrow> 'a vector kernel" where
  "eraseAll_loop fuel x v =
     kbind (vec_erase_value x v) (\<lambda>(ok, v).
       if \<not> ok then Inr v else case fuel of 0 \<Rightarrow> Inl Diverges | Suc k \<Rightarrow> eraseAll_loop k x v)"

definition vec_eraseAll :: "'a \<Rightarrow> 'a vector \<Rightarrow> 'a vector kernel" where
  "vec_eraseAll x v = eraseAll_loop (unat (mSize v)) x v"

fun eraseAll_if_loop :: "nat \<Rightarrow> ('a \<Rightarrow> bool) \<Rightarrow> 'a vector \<Rightarrow> 'a vector kernel" where
  "eraseAll_if_loop fuel f v =
     kbind (vec_find (unat (mSize v)) f 0 v) (\<lambda>i.
       if i = mSize v then Inr v
       else kbind (vec_erase i v) (\<lambda>v. case fuel of 0 \<Rightarrow> Inl Diverges | Suc k \<Rightarrow> eraseAll_if_loop k f v))"

definition vec_eraseAll_if :: "('a \<Rightarrow> bool) \<Rightarrow> 'a vector \<Rightarrow> 'a vector kernel" where
  "vec_eraseAll_if f v = eraseAll_if_loop (unat (mSize v)) f v"

definition vec_pop_back :: "'a vector \<Rightarrow> 'a vector" where
  "vec_pop_back v = (if mSize v > 0 then v\<lparr>mSize := mSize v - 1\<rparr> else v)"

fun vec_foreach :: "nat \<Rightarrow> ('a \<Rightarrow> 's \<Rightarrow> bool \<times> 's) \<Rightarrow> u32 \<Rightarrow> 'a vector \<Rightarrow> 's \<Rightarrow> 's kernel" where
  "vec_foreach fuel f i v s =
     (if i = mSize v then Inr s
      else case fuel of
        0 \<Rightarrow> Inl Diverges
      | Suc k \<Rightarrow> kbind (vec_at i v) (\<lambda>x. let (go, s) = f x s in if \<not> go then Inr s else vec_foreach k f (i + 1) v s))"

declare vec_find.simps [simp del] eraseAll_loop.simps [simp del] eraseAll_if_loop.simps [simp del]

section \<open>Vectors stand for lists\<close>

definition vec_rep :: "'a vector \<Rightarrow> 'a list \<Rightarrow> bool" where
  "vec_rep v xs \<longleftrightarrow>
     take (length xs) (mData v) = map Some xs \<and> length (mData v) = unat (mCapacity v)
     \<and> length xs \<le> unat (mCapacity v) \<and> mSize v = of_nat (length xs)"

lemma vec_rep_new [simp]: "vec_rep vec_new []"
  by (simp add: vec_rep_def vec_new_def)

lemma vec_rep_size: "vec_rep v xs \<Longrightarrow> unat (mSize v) = length xs"
  using u32_bound [of "mCapacity v"] by (auto simp: vec_rep_def unat_of_nat)

lemma vec_rep_empty: "vec_rep v xs \<Longrightarrow> vec_empty v \<longleftrightarrow> xs = []"
  using vec_rep_size [of v xs] by (auto simp: vec_empty_def word_unat_eq_iff)

lemma vec_rep_nth:
  assumes "vec_rep v xs" and "i < length xs"
  shows "i < length (mData v)" and "mData v ! i = Some (xs ! i)"
proof -
  have t: "take (length xs) (mData v) = map Some xs" using assms(1) by (simp add: vec_rep_def)
  show "i < length (mData v)" using assms by (auto simp: vec_rep_def)
  then show "mData v ! i = Some (xs ! i)"
    using arg_cong [OF t, of "\<lambda>l. l ! i"] assms(2) by simp
qed

lemma vec_at_rep: "vec_rep v xs \<Longrightarrow> unat i < length xs \<Longrightarrow> vec_at i v = Inr (xs ! unat i)"
  using vec_rep_nth [of v xs "unat i"] by (simp add: vec_at_def)

lemma vec_back_rep:
  assumes "vec_rep v xs" and "xs \<noteq> []"
  shows "vec_back v = Inr (last xs)"
proof -
  have "unat (mSize v - 1) = length xs - 1"
    using assms vec_rep_size [OF assms(1)] by (metis One_nat_def length_greater_0_conv unat_0 unat_minus_one gr0_implies_Suc nat.simps(3))
  then show ?thesis using vec_at_rep [OF assms(1), of "mSize v - 1"] assms(2) by (simp add: vec_back_def last_conv_nth)
qed

lemma vec_realloc_rep:
  assumes "vec_rep v xs" and "length xs \<le> unat n"
  shows "\<exists>v'. vec_realloc n v = Inr v' \<and> vec_rep v' xs \<and> mCapacity v' = n"
proof -
  have "length xs \<le> length (mData v)" using assms(1) by (simp add: vec_rep_def)
  then show ?thesis
    using assms vec_rep_size [OF assms(1)]
    by (auto simp: vec_realloc_def word_less_nat_alt vec_rep_def)
qed

lemma vec_push_back_rep:
  assumes "vec_rep v xs" and "2 * length xs + 1 < 2 ^ 32"
  shows "\<exists>v'. vec_push_back x v = Inr v' \<and> vec_rep v' (xs @ [x])"
proof -
  have put: "\<exists>v'. kbind (vec_put (unat (mSize w)) x w) (\<lambda>v. Inr (v\<lparr>mSize := mSize v + 1\<rparr>)) = Inr v'
      \<and> vec_rep v' (xs @ [x])" if w: "vec_rep w xs" "length xs < unat (mCapacity w)" for w
  proof -
    have "take (Suc (length xs)) ((mData w)[length xs := Some x]) = map Some xs @ [Some x]"
      using w by (simp add: vec_rep_def take_Suc_conv_app_nth)
    then show ?thesis
      using w vec_rep_size [OF w(1)] by (auto simp: vec_put_def vec_rep_def)
  qed
  show ?thesis
  proof (cases "mSize v = mCapacity v")
    case True
    then have c: "unat (mCapacity v) = length xs" using vec_rep_size [OF assms(1)] by simp
    have "unat (2 * mCapacity v + 1) = 2 * length xs + 1"
      using c assms(2) by (simp add: unat_word_ariths)
    then obtain w where "vec_realloc (2 * mCapacity v + 1) v = Inr w" "vec_rep w xs" "length xs < unat (mCapacity w)"
      using vec_realloc_rep [OF assms(1), of "2 * mCapacity v + 1"] by auto
    then show ?thesis using put True by (simp add: vec_push_back_def)
  next
    case False
    then have "unat (mSize v) \<noteq> unat (mCapacity v)" by (simp add: word_unat_eq_iff)
    then have "length xs < unat (mCapacity v)"
      using assms(1) vec_rep_size [OF assms(1)] by (auto simp: vec_rep_def)
    then show ?thesis using put [OF assms(1)] False by (simp add: vec_push_back_def)
  qed
qed

lemma vec_erase_rep:
  assumes "vec_rep v xs" and "i < length xs"
  shows "\<exists>v'. vec_erase (of_nat i) v = Inr v' \<and> vec_rep v' (take i xs @ drop (Suc i) xs)"
proof -
  have z: "unat (mSize v) = length xs" by (rule vec_rep_size [OF assms(1)])
  have b: "length xs < 2 ^ 32" using z u32_bound [of "mSize v"] by simp
  have t: "take (length xs) (mData v) = map Some xs" and c: "length (mData v) = unat (mCapacity v)"
    "length xs \<le> unat (mCapacity v)" and mz: "mSize v = of_nat (length xs)"
    using assms(1) by (simp_all add: vec_rep_def)
  have i: "unat (of_nat i :: u32) = i" using assms(2) b by (simp add: unat_of_nat)
  have "mSize v - of_nat i - 1 = of_nat (length xs - i - 1)"
    using assms(2) mz by (simp add: of_nat_diff)
  then have r: "unat (mSize v - of_nat i - 1) = length xs - i - 1"
    using b by (simp add: unat_of_nat)
  define d where "d = take i (mData v) @ take (length xs - i - 1) (drop (i + 1) (mData v)) @ drop (length xs - 1) (mData v)"
  define v' where "v' = v\<lparr>mData := d, mSize := mSize v - 1\<rparr>"
  have e: "vec_erase (of_nat i) v = Inr v'"
    using assms(2) c i r by (auto simp: vec_erase_def v'_def d_def Let_def)
  have "mData v = map Some xs @ drop (length xs) (mData v)" using t append_take_drop_id by metis
  then obtain rest where m: "mData v = map Some xs @ rest" by blast
  have "take (length xs - 1) d = map Some (take i xs @ drop (Suc i) xs)"
    using assms(2) by (simp add: d_def m take_map drop_map)
  moreover have "length d = length (mData v)" using assms(2) by (simp add: d_def m)
  moreover have "mSize v - 1 = of_nat (length xs - 1)" using assms(2) mz by (simp add: of_nat_diff)
  ultimately have "vec_rep v' (take i xs @ drop (Suc i) xs)"
    using assms(2) c by (simp add: vec_rep_def v'_def)
  then show ?thesis using e by blast
qed

lemma vec_find_rep:
  assumes "vec_rep v xs" and "i \<le> length xs" and "length xs - i \<le> fuel"
  shows "vec_find fuel P (of_nat i) v = Inr (of_nat (i + length (takeWhile (\<lambda>x. \<not> P x) (drop i xs))))"
  using assms(2,3)
proof (induction "length xs - i" arbitrary: i fuel)
  case 0
  then have "i = length xs" by simp
  then show ?case using assms(1) by (subst vec_find.simps) (simp add: vec_rep_def)
next
  case (Suc n)
  then obtain k where k: "fuel = Suc k" "length xs - Suc i \<le> k" by (cases fuel) auto
  have i: "i < length xs" using Suc.hyps(2) by simp
  have b: "length xs < 2 ^ 32" using vec_rep_size [OF assms(1)] u32_bound [of "mSize v"] by simp
  have u: "unat (of_nat i :: u32) = i" using i b by (simp add: unat_of_nat)
  have ne: "(of_nat i :: u32) \<noteq> mSize v"
    using i u vec_rep_size [OF assms(1)] by (metis less_irrefl)
  have IH: "vec_find k P (of_nat (Suc i)) v
      = Inr (of_nat (Suc i + length (takeWhile (\<lambda>x. \<not> P x) (drop (Suc i) xs))))"
    using Suc.hyps(1) [of "Suc i" k] Suc.hyps(2) i k(2) by simp
  have at: "vec_at (of_nat i) v = Inr (xs ! i)" using vec_at_rep [OF assms(1), of "of_nat i"] u i by simp
  have "vec_find fuel P (of_nat i) v = (if P (xs ! i) then Inr (of_nat i) else vec_find k P (of_nat (Suc i)) v)"
    using ne k(1) at by (subst vec_find.simps) (simp add: add.commute)
  then show ?case using IH i by (simp add: Cons_nth_drop_Suc [symmetric])
qed

lemma takeWhile_all_iff: "length (takeWhile P xs) = length xs \<longleftrightarrow> (\<forall>x\<in>set xs. P x)"
  by (induction xs) auto

lemma first_match:
  assumes "\<exists>x\<in>set xs. P x"
  shows "length (takeWhile (\<lambda>x. \<not> P x) xs) < length xs"
    and "P (xs ! length (takeWhile (\<lambda>x. \<not> P x) xs))"
  using assms by (induction xs) auto

lemma vec_find_first:
  assumes "vec_rep v xs"
  shows "vec_find (unat (mSize v)) P 0 v = Inr (of_nat (length (takeWhile (\<lambda>x. \<not> P x) xs)))"
    and "of_nat (length (takeWhile (\<lambda>x. \<not> P x) xs)) = mSize v \<longleftrightarrow> (\<forall>x\<in>set xs. \<not> P x)"
proof -
  show "vec_find (unat (mSize v)) P 0 v = Inr (of_nat (length (takeWhile (\<lambda>x. \<not> P x) xs)))"
    using vec_find_rep [OF assms, of 0 "unat (mSize v)" P] vec_rep_size [OF assms] by simp
  have b: "length xs < 2 ^ 32" using vec_rep_size [OF assms] u32_bound [of "mSize v"] by simp
  have "length (takeWhile (\<lambda>x. \<not> P x) xs) < 2 ^ 32" using b length_takeWhile_le [of "\<lambda>x. \<not> P x" xs] by linarith
  then have "(of_nat (length (takeWhile (\<lambda>x. \<not> P x) xs)) :: u32) = mSize v \<longleftrightarrow>
      length (takeWhile (\<lambda>x. \<not> P x) xs) = length xs"
    using vec_rep_size [OF assms] by (simp add: word_unat_eq_iff unat_of_nat)
  then show "of_nat (length (takeWhile (\<lambda>x. \<not> P x) xs)) = mSize v \<longleftrightarrow> (\<forall>x\<in>set xs. \<not> P x)"
    by (simp add: takeWhile_all_iff)
qed

lemma vec_erase_value_rep:
  assumes "vec_rep v xs"
  shows "\<exists>v'. vec_erase_value x v = Inr (x \<in> set xs, v') \<and> vec_rep v' (remove1 x xs)"
proof (cases "x \<in> set xs")
  case False
  then show ?thesis using vec_find_first [OF assms, of "\<lambda>y. y = x"] assms
    by (auto simp: vec_erase_value_def remove1_idem)
next
  case True
  define i where "i = length (takeWhile (\<lambda>y. y \<noteq> x) xs)"
  have i: "i < length xs" using True first_match(1) [of xs "\<lambda>y. y = x"] by (auto simp: i_def)
  have r: "remove1 x xs = take i xs @ drop (Suc i) xs"
    using True unfolding i_def by (induction xs) auto
  obtain v' where "vec_erase (of_nat i) v = Inr v'" "vec_rep v' (remove1 x xs)"
    using vec_erase_rep [OF assms i] r by auto
  then show ?thesis using vec_find_first [OF assms, of "\<lambda>y. y = x"] True
    by (auto simp: vec_erase_value_def i_def)
qed

lemma eraseAll_loop_rep:
  "vec_rep v xs \<Longrightarrow> length xs \<le> fuel \<Longrightarrow> \<exists>v'. eraseAll_loop fuel x v = Inr v' \<and> vec_rep v' (removeAll x xs)"
proof (induction fuel arbitrary: v xs)
  case 0
  then show ?case using vec_erase_value_rep [of v xs x] by (subst eraseAll_loop.simps) auto
next
  case (Suc k)
  obtain v1 where v1: "vec_erase_value x v = Inr (x \<in> set xs, v1)" "vec_rep v1 (remove1 x xs)"
    using vec_erase_value_rep [OF Suc.prems(1)] by blast
  show ?case
  proof (cases "x \<in> set xs")
    case True
    then have "\<exists>v'. eraseAll_loop k x v1 = Inr v' \<and> vec_rep v' (removeAll x (remove1 x xs))"
      using Suc.IH [OF v1(2)] Suc.prems(2) by (simp add: length_remove1)
    moreover have "removeAll x (remove1 x xs) = removeAll x xs" by (induction xs) auto
    ultimately show ?thesis using v1 True by (subst eraseAll_loop.simps) simp
  next
    case False
    then show ?thesis using v1 by (subst eraseAll_loop.simps) (simp add: remove1_idem)
  qed
qed

lemma vec_eraseAll_rep:
  "vec_rep v xs \<Longrightarrow> \<exists>v'. vec_eraseAll x v = Inr v' \<and> vec_rep v' (removeAll x xs)"
  using eraseAll_loop_rep [of v xs "unat (mSize v)" x] vec_rep_size [of v xs] by (simp add: vec_eraseAll_def)

lemma filter_remove_first:
  assumes "\<exists>x\<in>set xs. P x"
  defines "i \<equiv> length (takeWhile (\<lambda>x. \<not> P x) xs)"
  shows "filter (\<lambda>x. \<not> P x) (take i xs @ drop (Suc i) xs) = filter (\<lambda>x. \<not> P x) xs"
  using assms(1) unfolding i_def by (induction xs) auto

lemma eraseAll_if_loop_rep:
  "vec_rep v xs \<Longrightarrow> length xs \<le> fuel \<Longrightarrow>
   \<exists>v'. eraseAll_if_loop fuel P v = Inr v' \<and> vec_rep v' (filter (\<lambda>x. \<not> P x) xs)"
proof (induction fuel arbitrary: v xs)
  case 0
  then show ?case using vec_find_first [of v xs P] by (subst eraseAll_if_loop.simps) simp
next
  case (Suc k)
  define i where "i = length (takeWhile (\<lambda>x. \<not> P x) xs)"
  have f: "vec_find (unat (mSize v)) P 0 v = Inr (of_nat i)" "of_nat i = mSize v \<longleftrightarrow> (\<forall>x\<in>set xs. \<not> P x)"
    using vec_find_first [OF Suc.prems(1)] by (simp_all add: i_def)
  show ?case
  proof (cases "\<exists>x\<in>set xs. P x")
    case True
    then have i: "i < length xs" using first_match(1) by (simp add: i_def)
    obtain v1 where v1: "vec_erase (of_nat i) v = Inr v1" "vec_rep v1 (take i xs @ drop (Suc i) xs)"
      using vec_erase_rep [OF Suc.prems(1) i] by blast
    have "length (take i xs @ drop (Suc i) xs) \<le> k" using i Suc.prems(2) by simp
    then have "\<exists>v'. eraseAll_if_loop k P v1 = Inr v' \<and> vec_rep v' (filter (\<lambda>x. \<not> P x) xs)"
      using Suc.IH [OF v1(2)] filter_remove_first [OF True, folded i_def] by simp
    moreover have "(of_nat i :: u32) \<noteq> mSize v" using f(2) True by blast
    ultimately show ?thesis using f(1) v1(1) by (subst eraseAll_if_loop.simps) simp
  next
    case False
    then have "filter (\<lambda>x. \<not> P x) xs = xs" by (auto simp: filter_id_conv)
    then show ?thesis using f False Suc.prems(1) by (subst eraseAll_if_loop.simps) simp
  qed
qed

lemma vec_eraseAll_if_rep:
  "vec_rep v xs \<Longrightarrow> \<exists>v'. vec_eraseAll_if P v = Inr v' \<and> vec_rep v' (filter (\<lambda>x. \<not> P x) xs)"
  using eraseAll_if_loop_rep [of v xs "unat (mSize v)" P] vec_rep_size [of v xs] by (simp add: vec_eraseAll_if_def)

lemma vec_pop_back_rep:
  assumes "vec_rep v xs"
  shows "vec_rep (vec_pop_back v) (butlast xs)"
proof (cases xs rule: rev_cases)
  case Nil
  then show ?thesis using assms by (simp add: vec_pop_back_def vec_rep_def)
next
  case (snoc ys y)
  then have "mSize v > 0" using vec_rep_size [OF assms] by (simp add: word_less_nat_alt)
  moreover have "take (length ys) (mData v) = map Some ys"
  proof -
    have "take (Suc (length ys)) (mData v) = map Some ys @ [Some y]"
      using assms snoc by (simp add: vec_rep_def)
    from arg_cong [OF this, of "take (length ys)"] show ?thesis by simp
  qed
  ultimately show ?thesis using assms snoc by (simp add: vec_pop_back_def vec_rep_def)
qed

section \<open>Dynamic queues\<close>

definition dq_push :: "'a \<Rightarrow> 'a vector \<Rightarrow> 'a vector kernel" where
  "dq_push t v = vec_push_back t v"

definition dq_pop :: "'a vector \<Rightarrow> ('a \<times> 'a vector) kernel" where
  "dq_pop v = kbind (vec_front v) (\<lambda>ret. kbind (vec_erase 0 v) (\<lambda>v. Inr (ret, v)))"

definition dq_peek :: "'a vector \<Rightarrow> 'a kernel" where
  "dq_peek v = vec_front v"

definition dq_remove :: "'a \<Rightarrow> 'a vector \<Rightarrow> 'a vector kernel" where
  "dq_remove t v = vec_eraseAll t v"

definition dq_remove_if :: "('a \<Rightarrow> bool) \<Rightarrow> 'a vector \<Rightarrow> 'a vector kernel" where
  "dq_remove_if f v = vec_eraseAll_if f v"

fun dq_foreach :: "nat \<Rightarrow> ('a \<Rightarrow> 's \<Rightarrow> bool \<times> 's) \<Rightarrow> 'a vector \<Rightarrow> 's \<Rightarrow> ('a vector \<times> 's) kernel" where
  "dq_foreach fuel f v s =
     (if vec_empty v then Inr (v, s)
      else case fuel of
        0 \<Rightarrow> Inl Diverges
      | Suc k \<Rightarrow> kbind (dq_pop v) (\<lambda>(x, v). let (go, s) = f x s in if \<not> go then Inr (v, s) else dq_foreach k f v s))"

lemma dq_pop_first:
  assumes "vec_rep v (x # xs)"
  shows "\<exists>v'. dq_pop v = Inr (x, v') \<and> vec_rep v' xs"
  using vec_at_rep [OF assms, of 0] vec_erase_rep [OF assms, of 0]
  by (auto simp: dq_pop_def vec_front_def)

lemma dq_peek_first: "vec_rep v (x # xs) \<Longrightarrow> dq_peek v = Inr x"
  using vec_at_rep [of v "x # xs" 0] by (simp add: dq_peek_def vec_front_def)

lemma dq_push_appends:
  "vec_rep v xs \<Longrightarrow> length xs < 2 ^ 31 - 1 \<Longrightarrow> \<exists>v'. dq_push x v = Inr v' \<and> vec_rep v' (xs @ [x])"
  using vec_push_back_rep [of v xs x] by (simp add: dq_push_def)

interpretation dynqueue: fifo vec_rep vec_empty dq_push dq_pop "2 ^ 31 - 1"
  by unfold_locales (simp_all add: vec_rep_empty dq_push_appends dq_pop_first)

end
