(* ===== verification/Pqueue.thy ===== *)
theory Pqueue
  imports Vec "HOL-Library.Multiset"
begin

text \<open>
  \<open>pqueue<ArgType, Comparator>\<close> of \<open>src/kernel/include/libc/pqueue.h\<close>: a binary heap in a vector,
  here the list of the vector's items. Indices are 32-bit, with the wrap-around written out. The
  locale \<open>comparator\<close> is what the heap needs of \<open>Comparator::compare\<close>; it is interpreted on the
  comparison of the sleep queue, \<open>sleep_queue_helper::compare\<close> of
  \<open>src/kernel/src/process/manager.cpp\<close>.
\<close>

section \<open>Operations\<close>

definition parentIdx :: "nat \<Rightarrow> nat" where
  "parentIdx idx = ((idx + 2 ^ 32 - 1) mod 2 ^ 32) div 2"

definition leftIdx :: "nat \<Rightarrow> nat" where
  "leftIdx idx = (2 * idx + 1) mod 2 ^ 32"

definition rightIdx :: "nat \<Rightarrow> nat" where
  "rightIdx idx = (2 * idx + 2) mod 2 ^ 32"

definition list_swap :: "nat \<Rightarrow> nat \<Rightarrow> 'a list \<Rightarrow> 'a list" where
  "list_swap i j xs = xs[i := xs ! j, j := xs ! i]"

definition pq_largest :: "('a \<Rightarrow> 'a \<Rightarrow> int) \<Rightarrow> nat \<Rightarrow> 'a list \<Rightarrow> nat" where
  "pq_largest compare idx xs =
     (let left = leftIdx idx; right = rightIdx idx;
          largest = if left < length xs \<and> compare (xs ! left) (xs ! idx) > 0 then left else idx in
      if right < length xs \<and> compare (xs ! right) (xs ! largest) > 0 then right else largest)"

fun pq_down :: "nat \<Rightarrow> ('a \<Rightarrow> 'a \<Rightarrow> int) \<Rightarrow> nat \<Rightarrow> 'a list \<Rightarrow> 'a list kernel" where
  "pq_down fuel compare idx xs =
     (let largest = pq_largest compare idx xs in
      if largest \<noteq> idx then
        case fuel of 0 \<Rightarrow> Inl Diverges | Suc k \<Rightarrow> pq_down k compare largest (list_swap idx largest xs)
      else Inr xs)"

fun pq_up :: "nat \<Rightarrow> ('a \<Rightarrow> 'a \<Rightarrow> int) \<Rightarrow> nat \<Rightarrow> 'a list \<Rightarrow> 'a list kernel" where
  "pq_up fuel compare idx xs =
     (let parent = parentIdx idx in
      if idx \<noteq> 0 \<and> compare (xs ! parent) (xs ! idx) < 0 then
        case fuel of 0 \<Rightarrow> Inl Diverges | Suc k \<Rightarrow> pq_up k compare parent (list_swap idx parent xs)
      else Inr xs)"

definition pq_insert :: "('a \<Rightarrow> 'a \<Rightarrow> int) \<Rightarrow> 'a \<Rightarrow> 'a list \<Rightarrow> 'a list kernel" where
  "pq_insert compare a xs = (let xs = xs @ [a] in pq_up (length xs) compare (length xs - 1) xs)"

definition pq_top :: "'a list \<Rightarrow> 'a kernel" where
  "pq_top xs = (case xs of [] \<Rightarrow> Inl OutOfBounds | x # _ \<Rightarrow> Inr x)"

definition pq_pop :: "('a \<Rightarrow> 'a \<Rightarrow> int) \<Rightarrow> 'a list \<Rightarrow> ('a \<times> 'a list) kernel" where
  "pq_pop compare xs =
     kbind (pq_top xs) (\<lambda>t.
     let xs = butlast (xs[0 := last xs]) in
     kbind (pq_down (length xs) compare 0 xs) (\<lambda>xs. Inr (t, xs)))"

text \<open>Emptying the heap: every item comes out once, best first.\<close>

fun pq_drain :: "('a \<Rightarrow> 'a \<Rightarrow> int) \<Rightarrow> nat \<Rightarrow> 'a list \<Rightarrow> 'a list kernel" where
  "pq_drain compare 0 xs = Inr []"
| "pq_drain compare (Suc n) xs =
     kbind (pq_pop compare xs) (\<lambda>(x, xs). kbind (pq_drain compare n xs) (\<lambda>ys. Inr (x # ys)))"

declare pq_down.simps [simp del] pq_up.simps [simp del]

section \<open>The heap order\<close>

lemma parentIdx_eq: "0 < i \<Longrightarrow> i < 2 ^ 32 \<Longrightarrow> parentIdx i = (i - 1) div 2"
proof -
  assume i: "0 < i" "i < 2 ^ 32"
  then obtain j where j: "i = Suc j" by (cases i) auto
  then have "(i + 2 ^ 32 - 1) mod 2 ^ 32 = (j + 2 ^ 32) mod 2 ^ 32" by simp
  also have "\<dots> = j" using i j by simp
  finally show ?thesis using j by (simp add: parentIdx_def)
qed

lemma childIdx_eq:
  "i < 2 ^ 30 \<Longrightarrow> leftIdx i = 2 * i + 1" "i < 2 ^ 30 \<Longrightarrow> rightIdx i = 2 * i + 2"
  by (simp_all add: leftIdx_def rightIdx_def)

lemma length_list_swap [simp]: "length (list_swap i j xs) = length xs"
  by (simp add: list_swap_def)

lemma mset_list_swap [simp]: "i < length xs \<Longrightarrow> j < length xs \<Longrightarrow> mset (list_swap i j xs) = mset xs"
  by (metis list_swap_def mset_swap)

lemma nth_list_swap:
  "i < length xs \<Longrightarrow> j < length xs \<Longrightarrow>
   list_swap i j xs ! k = (if k = j then xs ! i else if k = i then xs ! j else xs ! k)"
  by (auto simp: list_swap_def nth_list_update)

text \<open>Inserting ends and keeps every entry whatever the comparison is.\<close>

lemma pq_up_total:
  assumes "p < length xs" and "length xs < 2 ^ 32" and "p \<le> fuel"
  shows "\<exists>ys. pq_up fuel compare p xs = Inr ys \<and> mset ys = mset xs"
  using assms
proof (induction fuel arbitrary: p xs)
  case 0
  then show ?case by (subst pq_up.simps) simp
next
  case (Suc k)
  show ?case
  proof (cases "p \<noteq> 0 \<and> compare (xs ! parentIdx p) (xs ! p) < 0")
    case True
    have q: "parentIdx p = (p - 1) div 2" using True Suc.prems by (intro parentIdx_eq) auto
    then have "parentIdx p < length xs" "parentIdx p \<le> k" using Suc.prems True by linarith+
    then show ?thesis using Suc.IH [of "parentIdx p" "list_swap p (parentIdx p) xs"] Suc.prems True
      by (subst pq_up.simps) (simp add: Let_def)
  next
    case False
    then show ?thesis by (subst pq_up.simps) auto
  qed
qed

lemma pq_insert_total:
  "Suc (length xs) < 2 ^ 32 \<Longrightarrow> \<exists>ys. pq_insert compare a xs = Inr ys \<and> mset ys = add_mset a (mset xs)"
  using pq_up_total [of "length xs" "xs @ [a]" "Suc (length xs)" compare] by (auto simp: pq_insert_def)

lemma parentIdx_lt:
  assumes "p \<noteq> 0"
  shows "parentIdx p < p"
proof (cases "p < 2 ^ 32")
  case True
  then show ?thesis using assms by (simp add: parentIdx_eq)
next
  case False
  have "(p + 2 ^ 32 - 1) mod 2 ^ 32 < 2 ^ 32" by (rule mod_less_divisor) simp
  then have "parentIdx p < 2 ^ 32" unfolding parentIdx_def by linarith
  then show ?thesis using False by linarith
qed

lemma pq_up_mset: "pq_up fuel compare p xs = Inr ys \<Longrightarrow> p < length xs \<Longrightarrow> mset ys = mset xs"
proof (induction fuel arbitrary: p xs)
  case 0
  then show ?case by (subst (asm) pq_up.simps) (auto simp: Let_def split: if_splits)
next
  case (Suc k)
  show ?case
  proof (cases "p \<noteq> 0 \<and> compare (xs ! parentIdx p) (xs ! p) < 0")
    case True
    then have "pq_up k compare (parentIdx p) (list_swap p (parentIdx p) xs) = Inr ys"
      using Suc.prems(1) by (subst (asm) pq_up.simps) (simp add: Let_def)
    moreover have "parentIdx p < length xs" using parentIdx_lt [of p] True Suc.prems(2) by linarith
    ultimately show ?thesis using Suc.IH Suc.prems(2) by fastforce
  next
    case False
    then show ?thesis using Suc.prems(1) by (subst (asm) pq_up.simps) (auto simp: Let_def)
  qed
qed

lemma pq_insert_mset: "pq_insert compare a xs = Inr ys \<Longrightarrow> mset ys = add_mset a (mset xs)"
  using pq_up_mset [of "Suc (length xs)" compare "length xs" "xs @ [a]" ys] by (simp add: pq_insert_def)

lemma pq_largest_lt: "pq_largest compare idx xs \<noteq> idx \<Longrightarrow> pq_largest compare idx xs < length xs"
  by (auto simp: pq_largest_def Let_def split: if_splits)

lemma pq_down_mset: "pq_down fuel compare p xs = Inr ys \<Longrightarrow> p < length xs \<Longrightarrow> mset ys = mset xs"
proof (induction fuel arbitrary: p xs)
  case 0
  then show ?case by (subst (asm) pq_down.simps) (auto simp: Let_def split: if_splits)
next
  case (Suc k)
  define m where "m = pq_largest compare p xs"
  show ?case
  proof (cases "m = p")
    case True
    then show ?thesis using Suc.prems by (subst (asm) pq_down.simps) (simp add: m_def)
  next
    case False
    then have "m < length xs" using pq_largest_lt by (simp add: m_def)
    moreover have "pq_down k compare m (list_swap p m xs) = Inr ys"
      using Suc.prems(1) False by (subst (asm) pq_down.simps) (simp add: m_def Let_def)
    ultimately show ?thesis using Suc.IH [of m "list_swap p m xs"] Suc.prems(2) by simp
  qed
qed

lemma mset_drop_first:
  assumes "xs \<noteq> []"
  shows "mset xs = add_mset (xs ! 0) (mset (butlast (xs[0 := last xs])))"
proof (cases "length xs = 1")
  case True
  then show ?thesis by (cases xs) auto
next
  case False
  then obtain a bs b where xs: "xs = a # bs @ [b]"
    using assms by (metis One_nat_def append_butlast_last_id length_Cons list.exhaust list.size(3))
  then show ?thesis by simp
qed

lemma pq_pop_mset:
  assumes "pq_pop compare xs = Inr (x, ys)"
  shows "xs \<noteq> [] \<and> x = xs ! 0 \<and> mset xs = add_mset x (mset ys)"
proof -
  define zs where "zs = butlast (xs[0 := last xs])"
  have ne: "xs \<noteq> []" and x: "x = xs ! 0" and d: "pq_down (length zs) compare 0 zs = Inr ys"
    using assms by (auto simp: pq_pop_def pq_top_def zs_def kbind_eq_Inr_iff split: list.splits)
  have "mset ys = mset zs"
  proof (cases "zs = []")
    case True
    then have "pq_largest compare 0 zs = 0" by (simp add: pq_largest_def)
    then show ?thesis using d True by (subst (asm) pq_down.simps) simp
  next
    case False
    then show ?thesis using pq_down_mset [OF d] by simp
  qed
  then show ?thesis using ne x mset_drop_first [OF ne] by (simp add: zs_def)
qed

locale comparator =
  fixes compare :: "'a \<Rightarrow> 'a \<Rightarrow> int" and le :: "'a \<Rightarrow> 'a \<Rightarrow> bool"
  assumes positive: "compare x y > 0 \<Longrightarrow> le y x" and not_positive: "\<not> compare x y > 0 \<Longrightarrow> le x y"
    and negative: "compare x y < 0 \<Longrightarrow> le x y" and not_negative: "\<not> compare x y < 0 \<Longrightarrow> le y x"
    and le_trans: "le x y \<Longrightarrow> le y z \<Longrightarrow> le x z"
begin

lemma le_refl: "le x x"
  using positive [of x x] not_positive [of x x] by blast

definition heap :: "'a list \<Rightarrow> bool" where
  "heap xs \<longleftrightarrow> (\<forall>i<length xs. 0 < i \<longrightarrow> le (xs ! i) (xs ! ((i - 1) div 2)))"

text \<open>The order holds except between position \<open>p\<close> and its parent.\<close>

definition heap_up :: "nat \<Rightarrow> 'a list \<Rightarrow> bool" where
  "heap_up p xs \<longleftrightarrow>
     (\<forall>i<length xs. 0 < i \<longrightarrow> i \<noteq> p \<longrightarrow> le (xs ! i) (xs ! ((i - 1) div 2)))
     \<and> (\<forall>i<length xs. 0 < i \<longrightarrow> (i - 1) div 2 = p \<longrightarrow> 0 < p \<longrightarrow> le (xs ! i) (xs ! ((p - 1) div 2)))"

text \<open>The order holds except between position \<open>p\<close> and its children.\<close>

definition heap_down :: "nat \<Rightarrow> 'a list \<Rightarrow> bool" where
  "heap_down p xs \<longleftrightarrow>
     (\<forall>i<length xs. 0 < i \<longrightarrow> (i - 1) div 2 \<noteq> p \<longrightarrow> le (xs ! i) (xs ! ((i - 1) div 2)))
     \<and> (\<forall>i<length xs. 0 < i \<longrightarrow> (i - 1) div 2 = p \<longrightarrow> 0 < p \<longrightarrow> le (xs ! i) (xs ! ((p - 1) div 2)))"

lemma heap_max: "heap xs \<Longrightarrow> i < length xs \<Longrightarrow> le (xs ! i) (xs ! 0)"
proof (induction i rule: less_induct)
  case (less i)
  show ?case
  proof (cases "i = 0")
    case True
    then show ?thesis by (simp add: le_refl)
  next
    case False
    then have p: "(i - 1) div 2 < i" by simp
    then have "le (xs ! ((i - 1) div 2)) (xs ! 0)" using less by simp
    moreover have "le (xs ! i) (xs ! ((i - 1) div 2))" using less.prems False by (simp add: heap_def)
    ultimately show ?thesis using le_trans by blast
  qed
qed

lemma heap_up_step:
  assumes h: "heap_up p xs" and p: "0 < p" "p < length xs" and c: "le (xs ! ((p - 1) div 2)) (xs ! p)"
  shows "heap_up ((p - 1) div 2) (list_swap p ((p - 1) div 2) xs)"
proof -
  define q where "q = (p - 1) div 2"
  have q: "q < p" "q < length xs" using p by (auto simp: q_def)
  note sw = nth_list_swap [OF p(2) q(2)]
  have A: "le (list_swap p q xs ! i) (list_swap p q xs ! ((i - 1) div 2))"
    if i: "i < length xs" "0 < i" "i \<noteq> q" for i
  proof (cases "i = p")
    case True
    have "(i - 1) div 2 = q" "le (xs ! q) (xs ! p)" using True c by (simp_all add: q_def)
    then show ?thesis using sw True q by simp
  next
    case False
    consider "(i - 1) div 2 = p" | "(i - 1) div 2 = q" | "(i - 1) div 2 \<noteq> p" "(i - 1) div 2 \<noteq> q" by blast
    then show ?thesis
    proof cases
      case 1
      then have "le (xs ! i) (xs ! q)" using h i p by (auto simp: heap_up_def q_def)
      then show ?thesis using 1 sw i(3) False q by simp
    next
      case 2
      then have "le (xs ! i) (xs ! q)" using h i False unfolding heap_up_def by metis
      then have "le (xs ! i) (xs ! p)" using c le_trans unfolding q_def by blast
      then show ?thesis using 2 sw i(3) False by simp
    next
      case 3
      then show ?thesis using h i False sw by (simp add: heap_up_def)
    qed
  qed
  have B: "le (list_swap p q xs ! i) (list_swap p q xs ! ((q - 1) div 2))"
    if i: "i < length xs" "0 < i" "(i - 1) div 2 = q" "0 < q" for i
  proof -
    have g: "(q - 1) div 2 < q" using i(4) by simp
    have qg: "le (xs ! q) (xs ! ((q - 1) div 2))" using h i(4) q by (simp add: heap_up_def)
    have "i \<noteq> q" using i by linarith
    show ?thesis
    proof (cases "i = p")
      case True
      then show ?thesis using sw qg g q by simp
    next
      case False
      then have "le (xs ! i) (xs ! q)" using h i unfolding heap_up_def by metis
      then show ?thesis using sw le_trans [OF _ qg] g q False \<open>i \<noteq> q\<close> by simp
    qed
  qed
  show ?thesis unfolding heap_up_def q_def [symmetric] using A B by simp
qed

lemma pq_up_heap:
  assumes "heap_up p xs" and "p < length xs" and "length xs < 2 ^ 32" and "p \<le> fuel"
  shows "\<exists>ys. pq_up fuel compare p xs = Inr ys \<and> heap ys \<and> mset ys = mset xs"
  using assms
proof (induction fuel arbitrary: p xs)
  case 0
  then show ?case by (subst pq_up.simps) (simp add: heap_def heap_up_def)
next
  case (Suc k)
  show ?case
  proof (cases "p \<noteq> 0 \<and> compare (xs ! parentIdx p) (xs ! p) < 0")
    case True
    have q: "parentIdx p = (p - 1) div 2" using True Suc.prems by (intro parentIdx_eq) auto
    have "le (xs ! ((p - 1) div 2)) (xs ! p)" using True q negative by metis
    then have h: "heap_up ((p - 1) div 2) (list_swap p ((p - 1) div 2) xs)"
      using heap_up_step Suc.prems True by simp
    have l: "(p - 1) div 2 < length xs" "(p - 1) div 2 \<le> k" using Suc.prems True by linarith+
    obtain ys where "pq_up k compare ((p - 1) div 2) (list_swap p ((p - 1) div 2) xs) = Inr ys"
        "heap ys" "mset ys = mset xs"
      using Suc.IH [OF h] l Suc.prems(2,3) by auto
    then show ?thesis using True q by (subst pq_up.simps) simp
  next
    case False
    have "heap xs"
    proof (cases "p = 0")
      case True
      then show ?thesis using Suc.prems(1) by (simp add: heap_def heap_up_def)
    next
      case p: False
      then have q: "parentIdx p = (p - 1) div 2" using Suc.prems by (intro parentIdx_eq) auto
      then have "le (xs ! p) (xs ! ((p - 1) div 2))" using False p not_negative by metis
      then show ?thesis using Suc.prems(1) by (auto simp: heap_def heap_up_def)
    qed
    then show ?thesis using False by (subst pq_up.simps) auto
  qed
qed

lemma largest_cases:
  fixes xs :: "'a list"
  assumes "p < 2 ^ 30"
  defines "m \<equiv> pq_largest compare p xs"
  shows "m = p \<or> m = 2 * p + 1 \<or> m = 2 * p + 2"
    and "m \<noteq> p \<Longrightarrow> m < length xs \<and> le (xs ! p) (xs ! m)"
    and "i < length xs \<Longrightarrow> 0 < i \<Longrightarrow> (i - 1) div 2 = p \<Longrightarrow> le (xs ! i) (xs ! m)"
proof -
  define l where "l = (if 2 * p + 1 < length xs \<and> compare (xs ! (2 * p + 1)) (xs ! p) > 0 then 2 * p + 1 else p)"
  have m: "m = (if 2 * p + 2 < length xs \<and> compare (xs ! (2 * p + 2)) (xs ! l) > 0 then 2 * p + 2 else l)"
    using assms(1) by (simp add: m_def pq_largest_def Let_def childIdx_eq l_def)
  have l1: "l \<noteq> p \<Longrightarrow> l < length xs" and pl: "le (xs ! p) (xs ! l)"
    using positive le_refl by (auto simp: l_def split: if_splits)
  have lm: "le (xs ! l) (xs ! m)" using m positive le_refl by (auto split: if_splits)
  show "m = p \<or> m = 2 * p + 1 \<or> m = 2 * p + 2" by (auto simp: m l_def)
  show "m < length xs \<and> le (xs ! p) (xs ! m)" if "m \<noteq> p"
    using that m l1 le_trans [OF pl lm] by (auto split: if_splits)
  show "le (xs ! i) (xs ! m)" if "i < length xs" "0 < i" "(i - 1) div 2 = p"
  proof -
    have "i = 2 * p + 1 \<or> i = 2 * p + 2" using that by linarith
    then show ?thesis
    proof
      assume i: "i = 2 * p + 1"
      then have "le (xs ! i) (xs ! l)" using that(1) not_positive le_refl by (auto simp: l_def split: if_splits)
      then show ?thesis using lm le_trans by blast
    next
      assume "i = 2 * p + 2"
      then show ?thesis using m that(1) not_positive le_refl by (auto split: if_splits)
    qed
  qed
qed

lemma heap_down_step:
  assumes h: "heap_down p xs" and m: "m = 2 * p + 1 \<or> m = 2 * p + 2" "m < length xs" "le (xs ! p) (xs ! m)"
    and max: "\<And>i. i < length xs \<Longrightarrow> 0 < i \<Longrightarrow> (i - 1) div 2 = p \<Longrightarrow> le (xs ! i) (xs ! m)"
  shows "heap_down m (list_swap p m xs)"
proof -
  have p: "p < m" "p < length xs" "(m - 1) div 2 = p" "0 < m" using m by auto
  note sw = nth_list_swap [OF p(2) m(2)]
  have A: "le (list_swap p m xs ! i) (list_swap p m xs ! ((i - 1) div 2))"
    if i: "i < length xs" "0 < i" "(i - 1) div 2 \<noteq> m" for i
  proof (cases "(i - 1) div 2 = p")
    case True
    have "i \<noteq> p" using True i by linarith
    show ?thesis
    proof (cases "i = m")
      case True
      then show ?thesis using sw p m(3) by simp
    next
      case False
      then have "le (xs ! i) (xs ! m)" using max i True by blast
      then show ?thesis using sw True False \<open>i \<noteq> p\<close> p by simp
    qed
  next
    case False
    have "le (xs ! i) (xs ! ((i - 1) div 2))" using h i False by (simp add: heap_down_def)
    moreover have "i \<noteq> m" using p(3) False by blast
    moreover have "le (xs ! m) (xs ! ((i - 1) div 2))" if "i = p"
      using h m(2) p that i by (simp add: heap_down_def)
    ultimately show ?thesis using sw False i(3) by auto
  qed
  have B: "le (list_swap p m xs ! i) (list_swap p m xs ! p)"
    if i: "i < length xs" "0 < i" "(i - 1) div 2 = m" for i
  proof -
    have "i > m" using i by linarith
    moreover have "(i - 1) div 2 \<noteq> p" using i p by simp
    then have "le (xs ! i) (xs ! m)" using h i unfolding heap_down_def by metis
    ultimately show ?thesis using sw p by simp
  qed
  show ?thesis unfolding heap_down_def using A B p(3) by simp
qed

lemma pq_down_heap:
  assumes "heap_down p xs" and "length xs \<le> 2 ^ 30" and "p < 2 ^ 30" and "length xs - p \<le> fuel"
  shows "\<exists>ys. pq_down fuel compare p xs = Inr ys \<and> heap ys \<and> mset ys = mset xs"
  using assms
proof (induction fuel arbitrary: p xs)
  case 0
  define m where "m = pq_largest compare p xs"
  have "m = p" using largest_cases(1,2) [OF 0(3), where xs = xs] 0(4) unfolding m_def by auto
  moreover have "heap xs" using 0 by (auto simp: heap_def heap_down_def)
  ultimately show ?case by (subst pq_down.simps) (simp add: m_def)
next
  case (Suc k)
  define m where "m = pq_largest compare p xs"
  note lc = largest_cases [OF Suc.prems(3), where xs = xs, folded m_def]
  show ?case
  proof (cases "m = p")
    case True
    have "heap xs" using Suc.prems(1) lc(3) True unfolding heap_def heap_down_def by metis
    then show ?thesis using True by (subst pq_down.simps) (simp add: m_def)
  next
    case False
    have mm: "m = 2 * p + 1 \<or> m = 2 * p + 2" "m < length xs" "le (xs ! p) (xs ! m)" using lc(1,2) False by auto
    have "heap_down m (list_swap p m xs)" using heap_down_step [OF Suc.prems(1) mm lc(3)] .
    moreover have "length xs - m \<le> k" "m < 2 ^ 30" "p < length xs" using mm(1,2) Suc.prems(2,4) by auto
    ultimately obtain ys where "pq_down k compare m (list_swap p m xs) = Inr ys" "heap ys" "mset ys = mset xs"
      using Suc.IH [of m "list_swap p m xs"] Suc.prems(2) mm(2) by auto
    then show ?thesis using False by (subst pq_down.simps) (simp add: m_def)
  qed
qed

lemma pq_insert_heap:
  assumes "heap xs" and "Suc (length xs) < 2 ^ 32"
  shows "\<exists>ys. pq_insert compare a xs = Inr ys \<and> heap ys \<and> mset ys = add_mset a (mset xs)"
proof -
  have "heap_up (length xs) (xs @ [a])"
    using assms(1) by (auto simp: heap_up_def heap_def nth_append)
  from pq_up_heap [OF this, of "Suc (length xs)"] assms(2) show ?thesis
    by (auto simp: pq_insert_def)
qed

lemma pq_pop_heap:
  assumes "heap xs" and "xs \<noteq> []" and "length xs \<le> 2 ^ 30"
  shows "\<exists>ys. pq_pop compare xs = Inr (xs ! 0, ys) \<and> heap ys \<and> mset xs = add_mset (xs ! 0) (mset ys)
    \<and> (\<forall>y \<in># mset ys. le y (xs ! 0))"
proof -
  define zs where "zs = butlast (xs[0 := last xs])"
  have l: "length zs = length xs - 1" by (simp add: zs_def)
  have n: "zs ! i = (if i = 0 then last xs else xs ! i)" if "i < length zs" for i
    using that assms(2) by (simp add: zs_def nth_butlast nth_list_update)
  have zs30: "length zs \<le> 2 ^ 30" using assms(3) l by linarith
  have "heap_down 0 zs" using assms(1) n l by (auto simp: heap_down_def heap_def)
  then obtain ys where ys: "pq_down (length zs) compare 0 zs = Inr ys" "heap ys" "mset ys = mset zs"
    using pq_down_heap [of 0 zs "length zs"] zs30 by auto
  have ms: "mset xs = add_mset (xs ! 0) (mset zs)" using mset_drop_first [OF assms(2)] by (simp add: zs_def)
  have "le y (xs ! 0)" if "y \<in># mset ys" for y
  proof -
    have "y \<in> set xs" using that ys(3) ms by (metis set_mset_mset insertCI set_mset_add_mset_insert)
    then show ?thesis using heap_max [OF assms(1)] by (metis in_set_conv_nth)
  qed
  moreover have "pq_pop compare xs = Inr (xs ! 0, ys)"
    using ys(1) assms(2) by (cases xs) (simp_all add: pq_pop_def pq_top_def zs_def)
  ultimately show ?thesis using ys ms by metis
qed

lemma pq_drain_sorted:
  "heap xs \<Longrightarrow> length xs \<le> 2 ^ 30 \<Longrightarrow>
   \<exists>ys. pq_drain compare (length xs) xs = Inr ys \<and> mset ys = mset xs \<and> sorted_wrt (\<lambda>a b. le b a) ys"
proof (induction "length xs" arbitrary: xs)
  case 0
  then show ?case by simp
next
  case (Suc n)
  then have "xs \<noteq> []" by auto
  then obtain ys where ys: "pq_pop compare xs = Inr (xs ! 0, ys)" "heap ys"
    "mset xs = add_mset (xs ! 0) (mset ys)" "\<forall>y \<in># mset ys. le y (xs ! 0)"
    using pq_pop_heap Suc.prems by blast
  have "length ys = n" using arg_cong [OF ys(3), of size] Suc.hyps(2) by simp
  then obtain zs where "pq_drain compare n ys = Inr zs" "mset zs = mset ys" "sorted_wrt (\<lambda>a b. le b a) zs"
    using Suc.hyps(1) [of ys] ys(2) Suc.prems(2) Suc.hyps(2) by auto
  then show ?case using ys Suc.hyps(2) [symmetric] by (auto simp: set_mset_mset [symmetric] simp del: set_mset_mset)
qed

lemma pq_insert_all:
  "heap xs \<Longrightarrow> length xs + length es \<le> 2 ^ 30 \<Longrightarrow>
   \<exists>q. kfold (pq_insert compare) es xs = Inr q \<and> heap q \<and> mset q = mset es + mset xs"
proof (induction es arbitrary: xs)
  case Nil
  then show ?case by simp
next
  case (Cons e es)
  then obtain ys where ys: "pq_insert compare e xs = Inr ys" "heap ys" "mset ys = add_mset e (mset xs)"
    using pq_insert_heap [of xs e] by auto
  have "length ys = Suc (length xs)" using arg_cong [OF ys(3), of size] by simp
  then show ?case using Cons.IH [OF ys(2)] Cons.prems(2) ys by auto
qed

lemma heap_Nil [simp]: "heap []"
  by (simp add: heap_def)

lemma pq_sorts:
  assumes "length es \<le> 2 ^ 30"
  shows "\<exists>q ys. kfold (pq_insert compare) es [] = Inr q \<and> pq_drain compare (length es) q = Inr ys
    \<and> mset ys = mset es \<and> sorted_wrt (\<lambda>a b. le b a) ys"
proof -
  obtain q where q: "kfold (pq_insert compare) es [] = Inr q" "heap q" "mset q = mset es"
    using pq_insert_all [of "[]" es] assms by auto
  have "length q = length es" using arg_cong [OF q(3), of size] by simp
  then show ?thesis using pq_drain_sorted [OF q(2)] q assms by auto
qed

end

section \<open>The sleep queue\<close>

record qentry =
  qe_token :: u64
  qe_process :: u32

definition sleep_compare :: "(u32 \<Rightarrow> u64) \<Rightarrow> qentry \<Rightarrow> qentry \<Rightarrow> int" where
  "sleep_compare sleeptill p1 p2 =
     (if sleeptill (qe_process p1) \<ge> sleeptill (qe_process p2) then -1 else 1)"

interpretation sleepq: comparator "sleep_compare sleeptill"
  "\<lambda>e1 e2. sleeptill (qe_process e2) \<le> sleeptill (qe_process e1)" for sleeptill
  by unfold_locales (auto simp: sleep_compare_def split: if_splits)

text \<open>
  The queue in use: \<open>sleep\<close> sets the wake-up time of a process and queues its entry, and the awaker
  takes the first entry out. The state is the wake-up times, the queue, and the entries taken out
  so far.
\<close>

type_synonym sleep_state = "(u32 \<Rightarrow> u64) \<times> qentry list \<times> qentry list"

datatype sleep_op = Sleep qentry u64 | Wake

fun sleep_do :: "sleep_op \<Rightarrow> sleep_state \<Rightarrow> sleep_state kernel" where
  "sleep_do (Sleep e till) (f, q, out) =
     (let f = f(qe_process e := till) in
      kbind (pq_insert (sleep_compare f) e q) (\<lambda>q. Inr (f, q, out)))"
| "sleep_do Wake (f, q, out) =
     (if q = [] then Inr (f, q, out)
      else kbind (pq_pop (sleep_compare f) q) (\<lambda>(x, q). Inr (f, q, out @ [x])))"

text \<open>The comparison reads the wake-up times at the time of the call: a process must not go to
  sleep again, which changes its time, while an entry of its is still queued.\<close>

fun one_sleep :: "sleep_op list \<Rightarrow> sleep_state \<Rightarrow> bool" where
  "one_sleep [] x = True"
| "one_sleep (p # ps) (f, q, out) =
     ((case p of Sleep e till \<Rightarrow> qe_process e \<notin> qe_process ` set q | Wake \<Rightarrow> True)
      \<and> (case sleep_do p (f, q, out) of Inr y \<Rightarrow> one_sleep ps y | Inl _ \<Rightarrow> True))"

fun sleeps :: "sleep_op list \<Rightarrow> qentry list" where
  "sleeps [] = []"
| "sleeps (Sleep e till # ps) = e # sleeps ps"
| "sleeps (Wake # ps) = sleeps ps"

lemma sleepq_heap_cong:
  assumes "\<forall>x \<in> set q. f (qe_process x) = g (qe_process x)"
  shows "sleepq.heap f q \<longleftrightarrow> sleepq.heap g q"
proof -
  have "(i - 1) div 2 < length q" if "i < length q" for i using that by linarith
  then show ?thesis using assms unfolding sleepq.heap_def by (metis nth_mem)
qed

lemma sleep_do_ok:
  assumes "sleepq.heap f q" and "length q < 2 ^ 30"
    and "case p of Sleep e till \<Rightarrow> qe_process e \<notin> qe_process ` set q | Wake \<Rightarrow> True"
  shows "\<exists>f' q' out'. sleep_do p (f, q, out) = Inr (f', q', out') \<and> sleepq.heap f' q'
    \<and> length q' \<le> length q + length (sleeps [p])
    \<and> mset out' + mset q' = mset (sleeps [p]) + mset out + mset q"
proof (cases p)
  case (Sleep e till)
  define g where "g = f(qe_process e := till)"
  have "\<forall>x \<in> set q. f (qe_process x) = g (qe_process x)" 
    using assms(3) Sleep by (auto simp: g_def intro: rev_image_eqI)
  then have "sleepq.heap g q" using assms(1) sleepq_heap_cong by blast
  then obtain q' where q': "pq_insert (sleep_compare g) e q = Inr q'" "sleepq.heap g q'"
    "mset q' = add_mset e (mset q)"
    using sleepq.pq_insert_heap [of g q e] assms(2) by auto
  moreover have "length q' = Suc (length q)" using arg_cong [OF q'(3), of size] by simp
  ultimately show ?thesis using Sleep by (simp add: g_def [symmetric])
next
  case Wake
  show ?thesis
  proof (cases "q = []")
    case True
    then show ?thesis using assms(1) Wake by simp
  next
    case False
    then obtain q' where q': "pq_pop (sleep_compare f) q = Inr (q ! 0, q')" "sleepq.heap f q'"
      "mset q = add_mset (q ! 0) (mset q')"
      using sleepq.pq_pop_heap [OF assms(1) False] assms(2) by auto
    moreover have "length q' \<le> length q" using arg_cong [OF q'(3), of size] by simp
    ultimately show ?thesis using False Wake by simp
  qed
qed

lemma sleeps_Cons: "sleeps (p # ps) = sleeps [p] @ sleeps ps"
  by (cases p) simp_all

lemma sleep_run_ok:
  assumes "one_sleep ops (f, q, out)" and "sleepq.heap f q" and "length q + length (sleeps ops) < 2 ^ 30"
  shows "\<exists>f' q' out'. kfold sleep_do ops (f, q, out) = Inr (f', q', out') \<and> sleepq.heap f' q'
    \<and> mset out' + mset q' = mset (sleeps ops) + mset out + mset q
    \<and> length q' \<le> length q + length (sleeps ops)"
  using assms
proof (induction ops arbitrary: f q out)
  case Nil
  then show ?case by simp
next
  case (Cons p ops)
  have len: "length (sleeps (p # ops)) = length (sleeps [p]) + length (sleeps ops)"
    and ms: "mset (sleeps (p # ops)) = mset (sleeps [p]) + mset (sleeps ops)"
    by (simp_all add: sleeps_Cons [of p ops] del: sleeps.simps)
  obtain g r o1 where s: "sleep_do p (f, q, out) = Inr (g, r, o1)" "sleepq.heap g r"
    "length r \<le> length q + length (sleeps [p])"
    "mset o1 + mset r = mset (sleeps [p]) + mset out + mset q"
    using sleep_do_ok [of f q p out] Cons.prems by auto
  have "one_sleep ops (g, r, o1)" using Cons.prems(1) s(1) by simp
  moreover have "length r + length (sleeps ops) < 2 ^ 30" using s(3) Cons.prems(3) len by linarith
  ultimately obtain f' q' out' where t: "kfold sleep_do ops (g, r, o1) = Inr (f', q', out')"
    "sleepq.heap f' q'" "mset out' + mset q' = mset (sleeps ops) + mset o1 + mset r"
    "length q' \<le> length r + length (sleeps ops)"
    using Cons.IH [of g r o1] s(2) by blast
  have "mset out' + mset q' = mset (sleeps (p # ops)) + mset out + mset q"
    using t(3) s(4) ms by (simp add: ac_simps del: sleeps.simps)
  moreover have "length q' \<le> length q + length (sleeps (p # ops))" using t(4) s(3) len by linarith
  ultimately show ?case using t(1,2) s(1) by auto
qed


definition example_sleeps :: "sleep_op list" where
  "example_sleeps = [Sleep \<lparr>qe_token = 1, qe_process = 8\<rparr> 90, Sleep \<lparr>qe_token = 1, qe_process = 9\<rparr> 50,
     Wake, Sleep \<lparr>qe_token = 1, qe_process = 7\<rparr> 70, Sleep \<lparr>qe_token = 2, qe_process = 9\<rparr> 80]"


end
