(* ===== verification/Slot_Tables.thy ===== *)
theory Slot_Tables
  imports Puppy_Prelude
begin

text \<open>
  Fixed tables whose slots are tracked by a bitmap: \<open>ProcessBitmap\<close> of
  \<open>src/kernel/include/process/bitmap.h\<close>, which hands out process identifiers and GDT slots,
  \<open>ProcessTable\<close> of \<open>src/kernel/include/process/table.h\<close>, and \<open>Handletable\<close> of
  \<open>src/kernel/include/fs/handletable.h\<close>, the file descriptors of a process. A template size is an
  argument \<open>N\<close>. An index whose byte is outside the array is the fault \<open>OutOfBounds\<close>.

  The locale \<open>slot_pool\<close> is what the two bitmaps have in common for their users: claiming a slot
  hands out one that was free, whenever there is one, and the other slots keep their state.
\<close>

section \<open>Bits of a byte array\<close>

definition byte_bit :: "u8 list \<Rightarrow> nat \<Rightarrow> bool" where
  "byte_bit bs i \<longleftrightarrow> bit (bs ! (i div 8)) (i mod 8)"

lemma and_mask_bit: "(x AND push_bit b 1 \<noteq> (0 :: u8)) \<longleftrightarrow> b < 8 \<and> bit x b"
proof -
  have "x AND push_bit b 1 = 0 \<longleftrightarrow> (\<forall>n. \<not> (bit x n \<and> n < 8 \<and> n = b))"
    by (auto simp: bit_eq_iff bit_and_iff bit_exp_iff)
  then show ?thesis by blast
qed

lemma byte_bit_or:
  assumes "i < 8 * length bs"
  shows "byte_bit (bs[i div 8 := bs ! (i div 8) OR push_bit (i mod 8) 1]) j \<longleftrightarrow> j = i \<or> byte_bit bs j"
proof (cases "j div 8 = i div 8")
  case True
  have "i div 8 < length bs" using assms by simp
  moreover have "j = i \<longleftrightarrow> j mod 8 = i mod 8" using True by (metis div_mult_mod_eq)
  moreover have "j mod 8 < 8" by simp
  ultimately show ?thesis using True by (auto simp: byte_bit_def bit_or_iff bit_exp_iff)
next
  case False
  then show ?thesis by (auto simp: byte_bit_def nth_list_update)
qed

lemma byte_bit_andnot:
  assumes "i < 8 * length bs"
  shows "byte_bit (bs[i div 8 := bs ! (i div 8) AND NOT (push_bit (i mod 8) 1)]) j \<longleftrightarrow> j \<noteq> i \<and> byte_bit bs j"
proof (cases "j div 8 = i div 8")
  case True
  have "i div 8 < length bs" using assms by simp
  moreover have "j = i \<longleftrightarrow> j mod 8 = i mod 8" using True by (metis div_mult_mod_eq)
  moreover have "j mod 8 < 8" by simp
  ultimately show ?thesis using True by (auto simp: byte_bit_def bit_and_iff bit_not_iff bit_exp_iff)
next
  case False
  then show ?thesis by (auto simp: byte_bit_def nth_list_update)
qed

section \<open>Slot pools\<close>

datatype slot_op = Claim | Release nat

locale slot_pool =
  fixes wf :: "'s \<Rightarrow> bool"
    and taken :: "'s \<Rightarrow> nat \<Rightarrow> bool"
    and claim :: "'s \<Rightarrow> (nat \<times> 's) option"
    and release :: "nat \<Rightarrow> 's \<Rightarrow> 's option"
    and slots :: nat
  assumes claim_free: "wf s \<Longrightarrow> \<exists>j < slots. \<not> taken s j \<Longrightarrow>
      \<exists>i s'. claim s = Some (i, s') \<and> i < slots \<and> \<not> taken s i \<and> wf s' \<and> (\<forall>j < slots. taken s' j \<longleftrightarrow> j = i \<or> taken s j)"
    and claim_full: "wf s \<Longrightarrow> \<forall>j < slots. taken s j \<Longrightarrow> claim s = None"
    and release_slot: "wf s \<Longrightarrow> i < slots \<Longrightarrow>
      \<exists>s'. release i s = Some s' \<and> wf s' \<and> (\<forall>j < slots. taken s' j \<longleftrightarrow> j \<noteq> i \<and> taken s j)"
begin

text \<open>
  A client claims slots and releases slots it holds. \<open>held\<close> are the slots it holds; claiming
  fails only when it holds all of them.
\<close>

fun run :: "slot_op list \<Rightarrow> 's \<Rightarrow> nat list \<Rightarrow> ('s \<times> nat list) option" where
  "run [] s held = Some (s, held)"
| "run (Claim # cs) s held = (case claim s of None \<Rightarrow> None | Some (i, s) \<Rightarrow> run cs s (i # held))"
| "run (Release i # cs) s held =
     (if i \<in> set held then (case release i s of None \<Rightarrow> None | Some s \<Rightarrow> run cs s (remove1 i held)) else None)"

definition holds :: "'s \<Rightarrow> nat list \<Rightarrow> bool" where
  "holds s held \<longleftrightarrow> wf s \<and> distinct held \<and> set held \<subseteq> {..< slots} \<and> (\<forall>j < slots. taken s j \<longleftrightarrow> j \<in> set held)"

lemma claim_holds:
  assumes "holds s held" and "length held < slots"
  shows "\<exists>i s'. claim s = Some (i, s') \<and> i < slots \<and> i \<notin> set held \<and> holds s' (i # held)"
proof -
  have "card (set held) < slots" using assms by (simp add: holds_def distinct_card)
  then have "\<not> {..< slots} \<subseteq> set held" using card_mono [of "set held" "{..< slots}"] by auto
  then have ex: "\<exists>j < slots. \<not> taken s j" and wf: "wf s" using assms(1) by (auto simp: holds_def)
  obtain i s' where "claim s = Some (i, s')" "i < slots" "\<not> taken s i" "wf s'"
    "\<forall>j < slots. taken s' j \<longleftrightarrow> j = i \<or> taken s j"
    using claim_free [OF wf ex] by blast
  then show ?thesis using assms(1) by (auto simp: holds_def)
qed

lemma claim_exhausted:
  assumes "holds s held" and "length held = slots"
  shows "claim s = None"
proof -
  have "card (set held) = slots" using assms by (simp add: holds_def distinct_card)
  then have "set held = {..< slots}" using assms(1) by (intro card_subset_eq) (auto simp: holds_def)
  then show ?thesis using claim_full assms(1) by (auto simp: holds_def)
qed

lemma release_holds:
  assumes "holds s held" and "i \<in> set held"
  shows "\<exists>s'. release i s = Some s' \<and> holds s' (remove1 i held)"
proof -
  have i: "i < slots" using assms by (auto simp: holds_def)
  obtain s' where "release i s = Some s'" "wf s'" "\<forall>j < slots. taken s' j \<longleftrightarrow> j \<noteq> i \<and> taken s j"
    using release_slot [OF _ i, of s] assms(1) by (auto simp: holds_def)
  then show ?thesis using assms(1) set_remove1_subset [of i held] by (auto simp: holds_def)
qed

lemma run_holds:
  "holds s held \<Longrightarrow> run cs s held = Some (s', held') \<Longrightarrow> holds s' held'"
proof (induction cs s held rule: run.induct)
  case (2 cs s held)
  then obtain i s1 where c: "claim s = Some (i, s1)" "run cs s1 (i # held) = Some (s', held')"
    by (auto split: option.splits)
  have "length held \<noteq> slots" using claim_exhausted [OF 2(2)] c(1) by auto
  moreover have "length held \<le> slots"
    using 2(2) card_mono [of "{..< slots}" "set held"] by (simp add: holds_def distinct_card)
  ultimately have "holds s1 (i # held)" using claim_holds [OF 2(2)] c(1) by auto
  then show ?case using 2(1) c by auto
next
  case (3 i cs s held)
  then obtain s1 where "i \<in> set held" "release i s = Some s1" "run cs s1 (remove1 i held) = Some (s', held')"
    by (auto split: if_splits option.splits)
  then show ?case using release_holds [OF 3(2)] 3(1) by force
qed auto

text \<open>The slots a client holds are always distinct, and it can hold all of them.\<close>

lemma run_total:
  assumes "holds s held" and "length held + n \<le> slots"
  shows "\<exists>s' held'. run (replicate n Claim) s held = Some (s', held') \<and> length held' = length held + n"
  using assms
proof (induction n arbitrary: s held)
  case (Suc n)
  then obtain i s' where "claim s = Some (i, s')" "holds s' (i # held)" using claim_holds [of s held] by auto
  then show ?case using Suc.IH [of s' "i # held"] Suc.prems(2) by auto
qed simp

end

text \<open>The search around the table from a starting slot visits every slot.\<close>

lemma circular_find:
  assumes "0 < N"
  shows "find (\<lambda>i. P ((s + i) mod N)) [0..<N] = None \<longleftrightarrow> (\<forall>j<N. \<not> P j)"
proof -
  have "\<exists>i<N. (s + i) mod N = j" if "j < N" for j
  proof -
    define i where "i = (j + N - s mod N) mod N"
    have "s mod N < N" using assms by simp
    then have e: "s mod N + (j + N - s mod N) = j + N" by linarith
    have "(s + i) mod N = (s mod N + (j + N - s mod N)) mod N"
      unfolding i_def by (metis mod_add_left_eq mod_add_right_eq)
    then have "(s + i) mod N = j" using that e by simp
    moreover have "i < N" using assms by (simp add: i_def)
    ultimately show ?thesis by blast
  qed
  then have "(\<forall>i<N. \<not> P ((s + i) mod N)) \<longleftrightarrow> (\<forall>j<N. \<not> P j)"
    using assms by (metis mod_less_divisor)
  then show ?thesis by (simp add: find_None_iff)
qed

section \<open>Identifiers\<close>

record pbitmap =
  mBitmap :: "u8 list"
  mFirstIndexToTry :: nat

definition bm_new :: "nat \<Rightarrow> pbitmap" where
  "bm_new N = \<lparr>mBitmap = replicate (N div 8) 0, mFirstIndexToTry = 0\<rparr>"

definition gBitmasks :: "nat \<Rightarrow> u8" where
  "gBitmasks b = push_bit b 1"

definition bm_isFree :: "u16 \<Rightarrow> pbitmap \<Rightarrow> bool" where
  "bm_isFree p bm =
     (let B = unat p div 8; b = unat p mod 8 in
      0 = mBitmap bm ! B AND gBitmasks b)"

definition bm_reserve :: "u16 \<Rightarrow> pbitmap \<Rightarrow> pbitmap kernel" where
  "bm_reserve p bm =
     (let B = unat p div 8; b = unat p mod 8 in
      if B < length (mBitmap bm) then Inr (bm\<lparr>mBitmap := (mBitmap bm)[B := mBitmap bm ! B OR gBitmasks b]\<rparr>)
      else Inl OutOfBounds)"

definition bm_free :: "u16 \<Rightarrow> pbitmap \<Rightarrow> pbitmap kernel" where
  "bm_free p bm =
     (let B = unat p div 8; b = unat p mod 8 in
      if B < length (mBitmap bm) then Inr (bm\<lparr>mBitmap := (mBitmap bm)[B := mBitmap bm ! B AND NOT (gBitmasks b)]\<rparr>)
      else Inl OutOfBounds)"

definition bm_next :: "nat \<Rightarrow> pbitmap \<Rightarrow> (u16 \<times> pbitmap) kernel" where
  "bm_next N bm =
     (case find (\<lambda>i. bm_isFree (of_nat ((mFirstIndexToTry bm + i) mod N)) bm) [0..<N] of
        None \<Rightarrow> Inl (Panic ''out of process entries'')
      | Some i \<Rightarrow>
          let idx = (mFirstIndexToTry bm + i) mod N in
          kbind (bm_reserve (of_nat idx) bm) (\<lambda>bm.
          Inr (of_nat idx, bm\<lparr>mFirstIndexToTry := idx + 1\<rparr>)))"

definition bm_wf :: "nat \<Rightarrow> pbitmap \<Rightarrow> bool" where
  "bm_wf N bm \<longleftrightarrow> 0 < N \<and> N \<le> 2 ^ 16 \<and> 8 * length (mBitmap bm) = N"

definition bm_taken :: "pbitmap \<Rightarrow> nat \<Rightarrow> bool" where
  "bm_taken bm i = byte_bit (mBitmap bm) i"

lemma bm_isFree_iff: "bm_isFree p bm \<longleftrightarrow> \<not> bm_taken bm (unat p)"
  using and_mask_bit [of "mBitmap bm ! (unat p div 8)" "unat p mod 8"]
  by (auto simp: bm_isFree_def bm_taken_def byte_bit_def gBitmasks_def Let_def)

lemma bm_reserve_spec:
  assumes "bm_wf N bm" and "unat p < N"
  shows "\<exists>bm'. bm_reserve p bm = Inr bm' \<and> bm_wf N bm' \<and> (\<forall>j. bm_taken bm' j \<longleftrightarrow> j = unat p \<or> bm_taken bm j)"
  using assms byte_bit_or [of "unat p" "mBitmap bm"]
  by (auto simp: bm_reserve_def bm_wf_def bm_taken_def gBitmasks_def Let_def simp del: push_bit_of_1)

lemma bm_free_spec:
  assumes "bm_wf N bm" and "unat p < N"
  shows "\<exists>bm'. bm_free p bm = Inr bm' \<and> bm_wf N bm' \<and> (\<forall>j. bm_taken bm' j \<longleftrightarrow> j \<noteq> unat p \<and> bm_taken bm j)"
proof -
  define bs where "bs = (mBitmap bm)[unat p div 8 := mBitmap bm ! (unat p div 8) AND NOT (gBitmasks (unat p mod 8))]"
  have l: "unat p div 8 < length (mBitmap bm)" and l8: "unat p < 8 * length (mBitmap bm)"
    using assms by (auto simp: bm_wf_def)
  have "bm_free p bm = Inr (bm\<lparr>mBitmap := bs\<rparr>)"
    unfolding bm_free_def Let_def bs_def using l by (rule if_P)
  moreover have "byte_bit bs j \<longleftrightarrow> j \<noteq> unat p \<and> byte_bit (mBitmap bm) j" for j
    unfolding bs_def gBitmasks_def by (rule byte_bit_andnot [OF l8])
  moreover have "length bs = length (mBitmap bm)" by (simp add: bs_def)
  ultimately show ?thesis using assms(1) by (auto simp: bm_wf_def bm_taken_def)
qed

lemma bm_next_spec:
  assumes wf: "bm_wf N bm" and free: "\<exists>j<N. \<not> bm_taken bm j"
  shows "\<exists>p bm'. bm_next N bm = Inr (p, bm') \<and> unat p < N \<and> \<not> bm_taken bm (unat p) \<and> bm_wf N bm'
    \<and> (\<forall>j. bm_taken bm' j \<longleftrightarrow> j = unat p \<or> bm_taken bm j)"
proof -
  define s where "s = mFirstIndexToTry bm"
  have N: "0 < N" "N \<le> 2 ^ 16" using wf by (simp_all add: bm_wf_def)
  have u: "unat (of_nat (j mod N) :: u16) = j mod N" for j
  proof -
    have "j mod N < 2 ^ 16" using N by (meson less_le_trans mod_less_divisor)
    then show ?thesis by (simp add: unat_of_nat)
  qed
  have "find (\<lambda>i. bm_isFree (of_nat ((s + i) mod N)) bm) [0..<N] \<noteq> None"
    using circular_find [OF N(1), of "\<lambda>j. \<not> bm_taken bm j" s] free by (simp add: bm_isFree_iff u)
  then obtain i where i: "find (\<lambda>i. bm_isFree (of_nat ((s + i) mod N)) bm) [0..<N] = Some i" by blast
  then have f: "bm_isFree (of_nat ((s + i) mod N)) bm" by (auto simp: find_Some_iff)
  define p :: u16 where "p = of_nat ((s + i) mod N)"
  have p: "unat p < N" "\<not> bm_taken bm (unat p)" using f N u by (simp_all add: p_def bm_isFree_iff)
  obtain bm1 where bm1: "bm_reserve p bm = Inr bm1" "bm_wf N bm1"
    "\<forall>j. bm_taken bm1 j \<longleftrightarrow> j = unat p \<or> bm_taken bm j"
    using bm_reserve_spec [OF wf p(1)] by blast
  have "bm_next N bm = Inr (p, bm1\<lparr>mFirstIndexToTry := (s + i) mod N + 1\<rparr>)"
    using i bm1(1) by (simp add: bm_next_def s_def p_def Let_def)
  then show ?thesis using p bm1 by (auto simp: bm_wf_def bm_taken_def)
qed

lemma bm_next_full:
  assumes wf: "bm_wf N bm" and full: "\<forall>j<N. bm_taken bm j"
  shows "bm_next N bm = Inl (Panic ''out of process entries'')"
proof -
  have N: "0 < N" "N \<le> 2 ^ 16" using wf by (simp_all add: bm_wf_def)
  have "\<not> bm_isFree (of_nat (j mod N)) bm" for j
  proof -
    have "j mod N < 2 ^ 16" using N by (meson less_le_trans mod_less_divisor)
    then have "unat (of_nat (j mod N) :: u16) = j mod N" by (simp add: unat_of_nat)
    then show ?thesis using full N by (simp add: bm_isFree_iff)
  qed
  then have "find (\<lambda>i. bm_isFree (of_nat ((mFirstIndexToTry bm + i) mod N)) bm) [0..<N] = None"
    by (simp add: find_None_iff)
  then show ?thesis by (simp add: bm_next_def)
qed

section \<open>Process table\<close>

record ptable =
  pt_size :: u32
  pt_table :: "u32 list"

definition pt_new :: "nat \<Rightarrow> ptable" where
  "pt_new N = \<lparr>pt_size = 0, pt_table = replicate N 0\<rparr>"

definition pt_set :: "(u32 \<Rightarrow> u16) \<Rightarrow> u32 \<Rightarrow> ptable \<Rightarrow> ptable kernel" where
  "pt_set pid proc t =
     (if proc = 0 then Inl (Panic ''null process insertion in process table'')
      else if unat (pid proc) \<ge> length (pt_table t) then Inl OutOfBounds
      else if pt_table t ! unat (pid proc) \<noteq> 0 then Inl (Panic ''process slot already occupied'')
      else Inr (t\<lparr>pt_table := (pt_table t)[unat (pid proc) := proc], pt_size := pt_size t + 1\<rparr>))"

definition pt_free :: "(u32 \<Rightarrow> u16) \<Rightarrow> u32 \<Rightarrow> ptable \<Rightarrow> ptable kernel" where
  "pt_free pid proc t =
     (if unat (pid proc) \<ge> length (pt_table t) then Inl OutOfBounds
      else Inr (t\<lparr>pt_size := pt_size t - 1, pt_table := (pt_table t)[unat (pid proc) := 0]\<rparr>))"

definition pt_get :: "u16 \<Rightarrow> ptable \<Rightarrow> u32 kernel" where
  "pt_get p t = (if unat p \<ge> length (pt_table t) then Inl OutOfBounds else Inr (pt_table t ! unat p))"

fun pt_foreach :: "(u32 \<Rightarrow> 's \<Rightarrow> bool \<times> 's) \<Rightarrow> u32 list \<Rightarrow> 's \<Rightarrow> 's" where
  "pt_foreach f [] s = s"
| "pt_foreach f (p # ps) s =
     (if p \<noteq> 0 then let (go, s) = f p s in if \<not> go then s else pt_foreach f ps s else pt_foreach f ps s)"

section \<open>Handles\<close>

record 'a handletable =
  mValid :: "u8 list"
  ht_data :: "'a option list"

definition ht_new :: "nat \<Rightarrow> 'a handletable" where
  "ht_new N = \<lparr>mValid = replicate (N div 8) 0, ht_data = replicate N None\<rparr>"

definition ht_bit :: "u8 \<Rightarrow> u8" where
  "ht_bit i = push_bit (unat (i AND 7)) 1"

definition ht_is :: "u32 \<Rightarrow> 'a handletable \<Rightarrow> bool kernel" where
  "ht_is idx t =
     (if unat idx div 8 < length (mValid t) then Inr (mValid t ! (unat idx div 8) AND ht_bit (ucast idx) \<noteq> 0)
      else Inl OutOfBounds)"

definition ht_is_value :: "u32 \<Rightarrow> 'a handletable \<Rightarrow> 'a option kernel" where
  "ht_is_value idx t =
     kbind (ht_is idx t) (\<lambda>ret.
     if ret then (if unat idx < length (ht_data t) then Inr (ht_data t ! unat idx) else Inl OutOfBounds)
     else Inr None)"

fun ht_set_loop :: "nat \<Rightarrow> 'a \<Rightarrow> u32 \<Rightarrow> nat list \<Rightarrow> 'a handletable \<Rightarrow> (u32 option \<times> 'a handletable) kernel" where
  "ht_set_loop N v idx0 [] t = Inr (None, t)"
| "ht_set_loop N v idx0 (i0 # is) t =
     (let i = (of_nat i0 + idx0) mod of_nat N in
      kbind (ht_is i t) (\<lambda>used.
      if \<not> used then
        Inr (Some i, t\<lparr>mValid := (mValid t)[unat i div 8 := mValid t ! (unat i div 8) OR ht_bit (ucast i)],
                       ht_data := (ht_data t)[unat i := Some v]\<rparr>)
      else ht_set_loop N v idx0 is t))"

definition ht_set :: "nat \<Rightarrow> 'a \<Rightarrow> u32 \<Rightarrow> 'a handletable \<Rightarrow> (u32 option \<times> 'a handletable) kernel" where
  "ht_set N v idx0 t = ht_set_loop N v idx0 [0..<N] t"

definition ht_reset :: "u32 \<Rightarrow> 'a \<Rightarrow> 'a handletable \<Rightarrow> (bool \<times> 'a handletable) kernel" where
  "ht_reset idx v t =
     kbind (ht_is idx t) (\<lambda>ret.
     if ret then Inr (True, t\<lparr>ht_data := (ht_data t)[unat idx := Some v]\<rparr>) else Inr (False, t))"

definition ht_clear :: "u32 \<Rightarrow> 'a handletable \<Rightarrow> 'a handletable kernel" where
  "ht_clear idx t =
     (if unat idx div 8 < length (mValid t)
      then Inr (t\<lparr>mValid := (mValid t)[unat idx div 8 := mValid t ! (unat idx div 8) AND NOT (ht_bit (ucast idx))]\<rparr>)
      else Inl OutOfBounds)"

definition ht_wf :: "nat \<Rightarrow> 'a handletable \<Rightarrow> bool" where
  "ht_wf N t \<longleftrightarrow> 0 < N \<and> N < 2 ^ 31 \<and> 8 * length (mValid t) = N \<and> length (ht_data t) = N
     \<and> (\<forall>i<N. byte_bit (mValid t) i \<longrightarrow> ht_data t ! i \<noteq> None)"

text \<open>A handle table is a finite map from indices below \<open>N\<close> to handles.\<close>

definition ht_map :: "'a handletable \<Rightarrow> nat \<Rightarrow> 'a option" where
  "ht_map t i = (if i < length (ht_data t) \<and> byte_bit (mValid t) i then ht_data t ! i else None)"

lemma unat_and_7: "unat ((ucast i :: u8) AND 7) = unat (i :: u32) mod 8"
proof -
  have "unat ((ucast i :: u8) AND 7) = unat (ucast i :: u8) AND 7" by (simp add: unsigned_and_eq)
  also have "\<dots> = take_bit 3 (unat (ucast i :: u8))" by (simp add: take_bit_eq_mask mask_eq_exp_minus_1)
  also have "\<dots> = unat i mod 256 mod 8" by (simp add: unsigned_ucast_eq take_bit_eq_mod)
  finally show ?thesis by (simp add: mod_mod_cancel)
qed

lemma ht_bit_eq: "ht_bit (ucast i) = push_bit (unat (i :: u32) mod 8) 1"
  by (simp add: ht_bit_def unat_and_7)

lemma ht_is_spec:
  assumes "ht_wf N t" and "unat i < N"
  shows "ht_is i t = Inr (byte_bit (mValid t) (unat i))"
  using assms and_mask_bit [of "mValid t ! (unat i div 8)" "unat i mod 8"]
  by (auto simp: ht_is_def ht_wf_def ht_bit_eq byte_bit_def)

lemma ht_is_outside: "ht_wf N t \<Longrightarrow> unat i \<ge> N \<Longrightarrow> ht_is i t = Inl OutOfBounds"
  by (auto simp: ht_is_def ht_wf_def)

lemma ht_is_value_spec:
  assumes "ht_wf N t" and "unat i < N"
  shows "ht_is_value i t = Inr (ht_map t (unat i))"
  using ht_is_spec [OF assms] assms by (simp add: ht_is_value_def ht_map_def ht_wf_def)

lemma ht_map_None_iff: "ht_wf N t \<Longrightarrow> i < N \<Longrightarrow> ht_map t i = None \<longleftrightarrow> \<not> byte_bit (mValid t) i"
  by (auto simp: ht_map_def ht_wf_def)

lemma ht_reset_spec:
  assumes "ht_wf N t" and "unat i < N"
  shows "\<exists>t'. ht_reset i v t = Inr (ht_map t (unat i) \<noteq> None, t') \<and> ht_wf N t'
    \<and> ht_map t' = (if ht_map t (unat i) \<noteq> None then (ht_map t)(unat i := Some v) else ht_map t)"
proof -
  have iff: "ht_map t (unat i) = None \<longleftrightarrow> \<not> byte_bit (mValid t) (unat i)" using ht_map_None_iff [OF assms] .
  have lt: "unat i < length (ht_data t)" using assms by (simp add: ht_wf_def)
  show ?thesis
  proof (cases "byte_bit (mValid t) (unat i)")
    case True
    define t' where "t' = t\<lparr>ht_data := (ht_data t)[unat i := Some v]\<rparr>"
    have "ht_reset i v t = Inr (True, t')" using ht_is_spec [OF assms] True by (simp add: ht_reset_def t'_def)
    moreover have "ht_wf N t'" using assms by (auto simp: ht_wf_def t'_def nth_list_update)
    moreover have "ht_map t' = (ht_map t)(unat i := Some v)"
      using True lt by (auto simp: ht_map_def t'_def nth_list_update fun_eq_iff)
    ultimately show ?thesis using iff True by auto
  next
    case False
    then show ?thesis using assms iff by (auto simp: ht_reset_def ht_is_spec)
  qed
qed

lemma ht_clear_spec:
  assumes "ht_wf N t" and "unat i < N"
  shows "\<exists>t'. ht_clear i t = Inr t' \<and> ht_wf N t' \<and> ht_map t' = (ht_map t)(unat i := None)"
proof -
  define bs where "bs = (mValid t)[unat i div 8 := mValid t ! (unat i div 8) AND NOT (ht_bit (ucast i))]"
  have l: "unat i div 8 < length (mValid t)" and l8: "unat i < 8 * length (mValid t)"
    using assms by (auto simp: ht_wf_def)
  have "ht_clear i t = Inr (t\<lparr>mValid := bs\<rparr>)"
    unfolding ht_clear_def bs_def using l by (rule if_P)
  moreover have "byte_bit bs j \<longleftrightarrow> j \<noteq> unat i \<and> byte_bit (mValid t) j" for j
    unfolding bs_def ht_bit_eq by (rule byte_bit_andnot [OF l8])
  moreover have "length bs = length (mValid t)" by (simp add: bs_def)
  ultimately show ?thesis using assms(1) by (auto simp: ht_wf_def ht_map_def fun_eq_iff)
qed

definition ht_fill :: "nat \<Rightarrow> 'a \<Rightarrow> 'a handletable \<Rightarrow> 'a handletable" where
  "ht_fill j v t = t\<lparr>mValid := (mValid t)[j div 8 := mValid t ! (j div 8) OR push_bit (j mod 8) 1],
                     ht_data := (ht_data t)[j := Some v]\<rparr>"

lemma ht_fill_map:
  assumes "ht_wf N t" and "j < N"
  shows "ht_wf N (ht_fill j v t)" and "ht_map (ht_fill j v t) = (ht_map t)(j := Some v)"
proof -
  have j: "j < 8 * length (mValid t)" "j < length (ht_data t)" using assms by (auto simp: ht_wf_def)
  have b: "byte_bit (mValid (ht_fill j v t)) i \<longleftrightarrow> i = j \<or> byte_bit (mValid t) i" for i
    unfolding ht_fill_def using byte_bit_or [OF j(1)] by simp
  have d: "ht_data (ht_fill j v t) = (ht_data t)[j := Some v]" "length (mValid (ht_fill j v t)) = length (mValid t)"
    by (simp_all add: ht_fill_def)
  show "ht_wf N (ht_fill j v t)" using assms d b by (auto simp: ht_wf_def nth_list_update)
  show "ht_map (ht_fill j v t) = (ht_map t)(j := Some v)"
    using d b j by (auto simp: ht_map_def nth_list_update fun_eq_iff)
qed

lemma slot_index:
  assumes "N < 2 ^ 31" and "unat idx0 < N" and "i < N"
  shows "unat ((of_nat i + idx0 :: u32) mod of_nat N) = (unat idx0 + i) mod N"
proof -
  have "unat (of_nat i + idx0 :: u32) = unat idx0 + i"
    using assms by (simp add: unat_word_ariths unat_of_nat)
  moreover have "unat (of_nat N :: u32) = N" using assms(1) by (simp add: unat_of_nat)
  ultimately show ?thesis by (simp add: unat_mod_distrib)
qed

lemma ht_set_loop_find:
  assumes wf: "ht_wf N t" and idx0: "unat idx0 < N" and ks: "set ks \<subseteq> {..<N}"
  shows "ht_set_loop N v idx0 ks t =
    (case find (\<lambda>i. \<not> byte_bit (mValid t) ((unat idx0 + i) mod N)) ks of
       None \<Rightarrow> Inr (None, t)
     | Some i \<Rightarrow> Inr (Some (of_nat ((unat idx0 + i) mod N)), ht_fill ((unat idx0 + i) mod N) v t))"
  using ks
proof (induction ks)
  case (Cons i ks)
  have N: "0 < N" "N < 2 ^ 31" using wf by (simp_all add: ht_wf_def)
  define j :: u32 where "j = (of_nat i + idx0) mod of_nat N"
  have u: "unat j = (unat idx0 + i) mod N" unfolding j_def using slot_index [OF N(2) idx0] Cons.prems by simp
  then have jN: "unat j < N" using N(1) by simp
  have "j = of_nat ((unat idx0 + i) mod N)" using u [symmetric] by simp
  then show ?case
    using Cons ht_is_spec [OF wf jN] u
    by (simp add: j_def [symmetric] Let_def ht_fill_def ht_bit_eq)
qed simp

lemma ht_set_spec:
  assumes wf: "ht_wf N t" and idx0: "unat idx0 < N"
  shows "(\<exists>j<N. ht_map t j = None) \<Longrightarrow>
      \<exists>i t'. ht_set N v idx0 t = Inr (Some i, t') \<and> unat i < N \<and> ht_map t (unat i) = None
        \<and> ht_wf N t' \<and> ht_map t' = (ht_map t)(unat i := Some v)"
    and "(\<forall>j<N. ht_map t j \<noteq> None) \<Longrightarrow> ht_set N v idx0 t = Inr (None, t)"
proof -
  have N: "0 < N" "N < 2 ^ 31" using wf by (simp_all add: ht_wf_def)
  have sub: "set [0..<N] \<subseteq> {..<N}" by auto
  note loop = ht_set_loop_find [OF wf idx0 sub, of v]
  note circ = circular_find [OF N(1), of "\<lambda>j. \<not> byte_bit (mValid t) j" "unat idx0"]
  show "ht_set N v idx0 t = Inr (None, t)" if "\<forall>j<N. ht_map t j \<noteq> None"
  proof -
    have "\<forall>j<N. byte_bit (mValid t) j" using that ht_map_None_iff [OF wf] by blast
    then show ?thesis using loop circ by (auto simp: ht_set_def)
  qed
  show "\<exists>i t'. ht_set N v idx0 t = Inr (Some i, t') \<and> unat i < N \<and> ht_map t (unat i) = None
        \<and> ht_wf N t' \<and> ht_map t' = (ht_map t)(unat i := Some v)" if "\<exists>j<N. ht_map t j = None"
  proof -
    have "\<exists>j<N. \<not> byte_bit (mValid t) j" using that ht_map_None_iff [OF wf] by blast
    then obtain i where i: "find (\<lambda>i. \<not> byte_bit (mValid t) ((unat idx0 + i) mod N)) [0..<N] = Some i"
      using circ by auto
    define j where "j = (unat idx0 + i) mod N"
    have j: "j < N" "\<not> byte_bit (mValid t) j" using i N by (auto simp: find_Some_iff j_def)
    have u: "unat (of_nat j :: u32) = j" using j(1) N(2) by (simp add: unat_of_nat)
    have "ht_set N v idx0 t = Inr (Some (of_nat j), ht_fill j v t)"
      using loop i by (auto simp: ht_set_def j_def)
    then show ?thesis using u j ht_fill_map [OF wf j(1)] ht_map_None_iff [OF wf j(1)] by auto
  qed
qed

section \<open>The tables as pools\<close>

definition pid_claim :: "nat \<Rightarrow> pbitmap \<Rightarrow> (nat \<times> pbitmap) option" where
  "pid_claim N bm = (case bm_next N bm of Inl _ \<Rightarrow> None | Inr (p, bm) \<Rightarrow> Some (unat p, bm))"

definition pid_release :: "nat \<Rightarrow> pbitmap \<Rightarrow> pbitmap option" where
  "pid_release i bm = (case bm_free (of_nat i) bm of Inl _ \<Rightarrow> None | Inr bm \<Rightarrow> Some bm)"

definition fd_claim :: "nat \<Rightarrow> 'a \<Rightarrow> 'a handletable \<Rightarrow> (nat \<times> 'a handletable) option" where
  "fd_claim N v t = (case ht_set N v 0 t of Inr (Some i, t) \<Rightarrow> Some (unat i, t) | _ \<Rightarrow> None)"

definition fd_release :: "nat \<Rightarrow> 'a handletable \<Rightarrow> 'a handletable option" where
  "fd_release i t = (case ht_clear (of_nat i) t of Inl _ \<Rightarrow> None | Inr t \<Rightarrow> Some t)"

interpretation pids: slot_pool "bm_wf N" bm_taken "pid_claim N" pid_release N for N
proof
  show "\<exists>i s'. pid_claim N s = Some (i, s') \<and> i < N \<and> \<not> bm_taken s i \<and> bm_wf N s'
      \<and> (\<forall>j<N. bm_taken s' j \<longleftrightarrow> j = i \<or> bm_taken s j)" if "bm_wf N s" "\<exists>j<N. \<not> bm_taken s j" for s
    using bm_next_spec [OF that] by (fastforce simp: pid_claim_def)
  show "pid_claim N s = None" if "bm_wf N s" "\<forall>j<N. bm_taken s j" for s
    using bm_next_full [OF that] by (simp add: pid_claim_def)
  show "\<exists>s'. pid_release i s = Some s' \<and> bm_wf N s' \<and> (\<forall>j<N. bm_taken s' j \<longleftrightarrow> j \<noteq> i \<and> bm_taken s j)"
    if "bm_wf N s" "i < N" for s i
  proof -
    have "i < 2 ^ 16" using that by (simp add: bm_wf_def)
    then have "unat (of_nat i :: u16) = i" by (simp add: unat_of_nat)
    then show ?thesis using bm_free_spec [OF that(1), of "of_nat i"] that(2) by (auto simp: pid_release_def)
  qed
qed

interpretation fds: slot_pool "ht_wf N" "\<lambda>t i. ht_map t i \<noteq> None" "fd_claim N v" fd_release N for N v
proof
  fix s :: "'a handletable" and i
  assume wf: "ht_wf N s"
  then have N: "0 < N" "N < 2 ^ 31" by (simp_all add: ht_wf_def)
  note set_spec = ht_set_spec [OF wf, of 0 v]
  show "\<exists>i s'. fd_claim N v s = Some (i, s') \<and> i < N \<and> \<not> ht_map s i \<noteq> None \<and> ht_wf N s'
      \<and> (\<forall>j<N. (ht_map s' j \<noteq> None) = (j = i \<or> ht_map s j \<noteq> None))" if "\<exists>j<N. \<not> ht_map s j \<noteq> None"
  proof -
    have "\<exists>j<N. ht_map s j = None" using that by simp
    then obtain i t' where "ht_set N v 0 s = Inr (Some i, t')" "unat i < N" "ht_map s (unat i) = None"
        "ht_wf N t'" "ht_map t' = (ht_map s)(unat i := Some v)"
      using set_spec(1) N by auto
    then show ?thesis by (intro exI [of _ "unat i"] exI [of _ t']) (simp add: fd_claim_def)
  qed
  show "fd_claim N v s = None" if "\<forall>j<N. ht_map s j \<noteq> None"
    using set_spec(2) [OF _ that] N by (simp add: fd_claim_def)
  show "\<exists>s'. fd_release i s = Some s' \<and> ht_wf N s' \<and> (\<forall>j<N. (ht_map s' j \<noteq> None) = (j \<noteq> i \<and> ht_map s j \<noteq> None))"
    if "i < N"
  proof -
    have "unat (of_nat i :: u32) = i" using that N by (simp add: unat_of_nat)
    then show ?thesis using ht_clear_spec [OF wf, of "of_nat i"] that by (auto simp: fd_release_def)
  qed
qed

text \<open>
  C15: whatever sequence of identifiers is taken and given back, starting from an empty bitmap of
  2000 entries, the identifiers in use are pairwise distinct, below 2000 and exactly the ones
  marked in the bitmap; a further identifier is granted unless all 2000 are in use.
\<close>

theorem pid_pool_distinct:
  assumes "pids.run 2000 cs (bm_new 2000) [] = Some (bm, held)"
  shows "distinct held \<and> set held \<subseteq> {..<2000} \<and> (\<forall>j<2000. bm_taken bm j \<longleftrightarrow> j \<in> set held)
    \<and> (pid_claim 2000 bm = None \<longleftrightarrow> length held = 2000)"
proof -
  have "pids.holds 2000 (bm_new 2000) []"
    by (simp add: pids.holds_def bm_wf_def bm_new_def bm_taken_def byte_bit_def)
  then have h: "pids.holds 2000 bm held" using pids.run_holds assms by blast
  then have d: "distinct held" "set held \<subseteq> {..<2000}" "\<forall>j<2000. bm_taken bm j \<longleftrightarrow> j \<in> set held"
    by (simp_all add: pids.holds_def)
  have "length held \<le> 2000" using d(1,2) card_mono [of "{..<2000 :: nat}" "set held"] by (simp add: distinct_card)
  then have "pid_claim 2000 bm = None \<longleftrightarrow> length held = 2000"
    using pids.claim_exhausted [OF h] pids.claim_holds [OF h] by (cases "length held = 2000") auto
  then show ?thesis using d by blast
qed

theorem pid_pool_witness:
  "\<exists>bm held. pids.run 2000 (replicate 2000 Claim) (bm_new 2000) [] = Some (bm, held) \<and> pid_claim 2000 bm = None"
proof -
  have "pids.holds 2000 (bm_new 2000) []"
    by (simp add: pids.holds_def bm_wf_def bm_new_def bm_taken_def byte_bit_def)
  then obtain bm held where r: "pids.run 2000 (replicate 2000 Claim) (bm_new 2000) [] = Some (bm, held)"
      "length held = 2000"
    using pids.run_total [of 2000 "bm_new 2000" "[]" 2000] by auto
  then show ?thesis using pid_pool_distinct [OF r(1)] by blast
qed

text \<open>
  C16: the descriptor table of a process behaves as a map from descriptors below its size to
  handles: storing a handle takes a descriptor that was unused and is then found under it,
  replacing and clearing affect only their descriptor, every other descriptor keeps its handle,
  and storing fails, changing nothing, exactly when all descriptors are in use. A descriptor at or
  beyond the size reads outside the table.
\<close>

theorem handletable_is_map:
  assumes wf: "ht_wf N t"
  shows "((\<exists>j<N. ht_map t j = None) \<longrightarrow>
      (\<exists>i t'. ht_set N v 0 t = Inr (Some i, t') \<and> unat i < N \<and> ht_map t (unat i) = None \<and> ht_wf N t'
         \<and> ht_is_value i t' = Inr (Some v) \<and> ht_map t' = (ht_map t)(unat i := Some v)))
    \<and> ((\<forall>j<N. ht_map t j \<noteq> None) \<longrightarrow> ht_set N v 0 t = Inr (None, t))
    \<and> (unat i < N \<longrightarrow> ht_is_value i t = Inr (ht_map t (unat i))
      \<and> (\<exists>t'. ht_clear i t = Inr t' \<and> ht_wf N t' \<and> ht_map t' = (ht_map t)(unat i := None))
      \<and> (\<exists>t'. ht_reset i v t = Inr (ht_map t (unat i) \<noteq> None, t') \<and> ht_wf N t'
           \<and> ht_map t' = (if ht_map t (unat i) \<noteq> None then (ht_map t)(unat i := Some v) else ht_map t)))
    \<and> (N \<le> unat i \<longrightarrow> ht_is_value i t = Inl OutOfBounds)"
proof (intro conjI)
  have N: "unat (0 :: u32) < N" using wf by (simp add: ht_wf_def)
  show "(\<exists>j<N. ht_map t j = None) \<longrightarrow>
      (\<exists>i t'. ht_set N v 0 t = Inr (Some i, t') \<and> unat i < N \<and> ht_map t (unat i) = None \<and> ht_wf N t'
         \<and> ht_is_value i t' = Inr (Some v) \<and> ht_map t' = (ht_map t)(unat i := Some v))"
    using ht_set_spec(1) [OF wf N, of v] ht_is_value_spec by (metis fun_upd_same)
  show "(\<forall>j<N. ht_map t j \<noteq> None) \<longrightarrow> ht_set N v 0 t = Inr (None, t)"
    using ht_set_spec(2) [OF wf N] by blast
  show "unat i < N \<longrightarrow> ht_is_value i t = Inr (ht_map t (unat i))
      \<and> (\<exists>t'. ht_clear i t = Inr t' \<and> ht_wf N t' \<and> ht_map t' = (ht_map t)(unat i := None))
      \<and> (\<exists>t'. ht_reset i v t = Inr (ht_map t (unat i) \<noteq> None, t') \<and> ht_wf N t'
           \<and> ht_map t' = (if ht_map t (unat i) \<noteq> None then (ht_map t)(unat i := Some v) else ht_map t))"
    using ht_is_value_spec [OF wf] ht_clear_spec [OF wf] ht_reset_spec [OF wf] by blast
  show "N \<le> unat i \<longrightarrow> ht_is_value i t = Inl OutOfBounds"
    using ht_is_outside [OF wf, of i] by (simp add: ht_is_value_def)
qed

theorem handletable_witness:
  "(\<exists>i t'. ht_set 64 ''console'' 0 (ht_new 64) = Inr (Some i, t') \<and> ht_is_value i t' = Inr (Some ''console''))
   \<and> ht_is_value 64 (ht_new 64 :: string handletable) = Inl OutOfBounds"
proof -
  have wf: "ht_wf 64 (ht_new 64 :: string handletable)"
    by (simp add: ht_wf_def ht_new_def byte_bit_def)
  have ex: "\<exists>j<64. ht_map (ht_new 64 :: string handletable) j = None"
    by (rule exI [of _ 0]) (simp add: ht_map_def ht_new_def)
  have ge: "64 \<le> unat (64 :: u32)" by simp
  show ?thesis
    using handletable_is_map [OF wf, of "''console''" 64] ex ge by blast
qed

end
