(* ===== verification/Rand.thy ===== *)
theory Rand
  imports Puppy_Prelude
begin

text \<open>
  The random number generator of \<open>src/kernel/src/libc/rand.cpp\<close>, a middle-square Weyl sequence on
  64-bit words; the lottery scheduler draws from it.
\<close>

record Rng =
  mValue :: u64
  mWeylSeq :: u64
  mSeed :: u64

definition rng_new :: "u64 \<Rightarrow> Rng" where
  "rng_new seed = \<lparr>mValue = 0, mWeylSeq = 0, mSeed = seed\<rparr>"

definition rng_reseed :: "u64 \<Rightarrow> Rng \<Rightarrow> Rng" where
  "rng_reseed seed r = r\<lparr>mValue := 0, mWeylSeq := 0, mSeed := seed\<rparr>"

definition rng_next :: "Rng \<Rightarrow> u32 \<times> Rng" where
  "rng_next r =
     (let newValue = mValue r * mValue r;
          weyl = mWeylSeq r + mSeed r;
          newValue = newValue + weyl;
          newValue = drop_bit 32 newValue OR push_bit 32 newValue in
      (ucast newValue, r\<lparr>mWeylSeq := weyl, mValue := newValue\<rparr>))"

definition rng_last :: "Rng \<Rightarrow> u32" where
  "rng_last r = ucast (mValue r)"

text \<open>The sequence depends on the seed alone: reseeding restarts it, and \<open>last\<close> repeats the latest number.\<close>

fun rng_stream :: "nat \<Rightarrow> Rng \<Rightarrow> u32 list" where
  "rng_stream 0 r = []"
| "rng_stream (Suc n) r = (let (x, r) = rng_next r in x # rng_stream n r)"

lemma rng_reseed_restarts: "rng_stream n (rng_reseed seed r) = rng_stream n (rng_new seed)"
  by (cases r) (simp add: rng_reseed_def rng_new_def)

lemma rng_last_next: "rng_next r = (x, r') \<Longrightarrow> rng_last r' = x"
  by (auto simp: rng_next_def rng_last_def Let_def)


end
