(* ===== verification/Tasks.thy ===== *)
theory Tasks
  imports Pqueue Slot_Tables Rand
begin

text \<open>
  The part of the process manager that decides which process runs: the ready queue, the sleep
  queue and the wait queues (\<open>src/kernel/src/process/manager.cpp\<close>,
  \<open>src/kernel/src/synch/waitqueue.cpp\<close>), the scheduler, the awaker, the collector and the deleter
  tasks (\<open>src/kernel/src/tasks\<close>). A process and a wait queue are named by their address; \<open>0\<close> is
  the null pointer. The ready queue is a vector and a wait queue a dynamic queue, taken here as
  their lists of items.

  Kernel code is not preempted, so an operation runs up to the point where it calls \<open>yield\<close>; an
  operation that may block returns what it leaves behind when it does. Logging and the saving of
  processor registers are left out.
\<close>

section \<open>State\<close>

datatype process_state_t = NEW | AVAILABLE | WAITING | SLEEPING | EXITED | COLLECTED | COLLECTING

record process_exit_status_t =
  es_reason :: u8
  es_status :: u8

definition reason_killed :: u8 where
  "reason_killed = 3"

record process_t =
  p_pid :: u16
  p_ppid :: u16
  p_state :: process_state_t
  p_gdtidx :: u32
  p_waitToken :: u64
  p_sleeptill :: u64
  p_wake_timeout :: bool
  p_wake_waitable :: u32
  p_quantum :: u8
  p_quantum_max :: u8
  p_scheduling :: u64
  p_scheduling_max :: u64
  p_usedticks :: u8
  p_system :: bool
  p_due_for_reschedule :: bool
  p_exitstatus :: process_exit_status_t
  p_children :: "u32 list"
  p_runtime :: u64
  p_ctxswitches :: u64
  p_eip :: u32
  p_esp :: u32
  p_cs :: u16
  p_ss :: u16
  p_esp0start :: u32
  p_espstart :: u32
  p_cr3 :: u32

record queue_entry_t =
  w_token :: u64
  w_process :: u32

record tasks =
  procs :: "u32 \<Rightarrow> process_t"
  current :: u32
  ready :: "u32 list"
  sleepq :: "qentry list"
  waitqs :: "u32 \<Rightarrow> queue_entry_t list"
  gProcessTable :: ptable
  gExitedProcesses :: ptable
  gCollectedProcessList :: "u32 list"
  gPidBitmap :: pbitmap
  gGDTBitmap :: pbitmap
  collectorTask :: u32
  awaker_queue :: u32
  collector_queue :: u32
  deleter_queue :: u32
  uptime :: u64
  rng :: Rng
  numCtxSwitches :: u64

text \<open>The outcome of an operation that may give up the processor.\<close>

datatype 'a outcome = Blocks | Returns 'a

definition upd_proc :: "u32 \<Rightarrow> (process_t \<Rightarrow> process_t) \<Rightarrow> tasks \<Rightarrow> tasks" where
  "upd_proc p f t = t\<lparr>procs := (procs t)(p := f (procs t p))\<rparr>"

definition pid_of :: "tasks \<Rightarrow> u32 \<Rightarrow> u16" where
  "pid_of t p = p_pid (procs t p)"

definition state_of :: "tasks \<Rightarrow> u32 \<Rightarrow> process_state_t" where
  "state_of t p = p_state (procs t p)"

section \<open>Ready queue\<close>

definition reschedule :: "u32 \<Rightarrow> tasks \<Rightarrow> tasks" where
  "reschedule task t =
     (let t = upd_proc task (\<lambda>p. p\<lparr>p_waitToken := p_waitToken p + 1, p_state := AVAILABLE\<rparr>) t in
      t\<lparr>ready := ready t @ [task]\<rparr>)"

text \<open>The scan starts over after every removal.\<close>

function deschedule_loop ::
  "u32 \<Rightarrow> process_state_t \<Rightarrow> u32 \<Rightarrow> nat \<Rightarrow> int \<Rightarrow> tasks \<Rightarrow> int \<times> tasks"
where
  "deschedule_loop task newstate wt b numfound t =
     (if b < length (ready t) then
        if ready t ! b = task then
          let t = upd_proc task (\<lambda>p. p\<lparr>p_state := newstate, p_wake_waitable := wt\<rparr>) t in
          deschedule_loop task newstate wt 0 (numfound + 1)
            (t\<lparr>ready := take b (ready t) @ drop (Suc b) (ready t)\<rparr>)
        else deschedule_loop task newstate wt (b + 1) numfound t
      else (numfound, t))"
  by pat_completeness auto
termination
  by (relation "measures [\<lambda>(task, ns, wt, b, n, t). length (ready t), \<lambda>(task, ns, wt, b, n, t). length (ready t) - b]")
     (auto simp: upd_proc_def)

definition deschedule :: "u32 \<Rightarrow> process_state_t \<Rightarrow> u32 \<Rightarrow> tasks \<Rightarrow> tasks kernel" where
  "deschedule task newstate wt t =
     (let (numfound, t) = deschedule_loop task newstate wt 0 0 t in
      if numfound > 1 then Inl (Panic ''process enqueued for execution multiple times'') else Inr t)"

definition pm_ready :: "u32 \<Rightarrow> u32 \<Rightarrow> tasks \<Rightarrow> tasks" where
  "pm_ready task wt t =
     (if state_of t task = AVAILABLE then t
      else reschedule task (upd_proc task (\<lambda>p. p\<lparr>p_wake_timeout := False, p_wake_waitable := wt\<rparr>) t))"

section \<open>Wait queues\<close>

definition wq_remove :: "u32 \<Rightarrow> u32 \<Rightarrow> tasks \<Rightarrow> tasks" where
  "wq_remove wq task t =
     t\<lparr>waitqs := (waitqs t)(wq := filter (\<lambda>q. \<not> w_process q = task) (waitqs t wq))\<rparr>"

definition pm_wake :: "u32 \<Rightarrow> tasks \<Rightarrow> tasks" where
  "pm_wake task t =
     (if state_of t task = AVAILABLE then t
      else
        let t = (if p_wake_waitable (procs t task) \<noteq> 0
                 then wq_remove (p_wake_waitable (procs t task)) task t else t);
            t = upd_proc task (\<lambda>p. p\<lparr>p_wake_timeout := True, p_wake_waitable := 0\<rparr>) t in
        reschedule task t)"

definition pushToQueue :: "u32 \<Rightarrow> u32 \<Rightarrow> tasks \<Rightarrow> tasks kernel" where
  "pushToQueue wq task t =
     (let t = t\<lparr>waitqs := (waitqs t)(wq := waitqs t wq @
                [\<lparr>w_token = p_waitToken (procs t task), w_process = task\<rparr>])\<rparr> in
      deschedule task WAITING wq t)"

definition wq_wait :: "u32 \<Rightarrow> u32 \<Rightarrow> tasks \<Rightarrow> tasks kernel" where
  "wq_wait wq task t = pushToQueue wq task t"

definition wq_wake :: "u32 \<Rightarrow> queue_entry_t \<Rightarrow> tasks \<Rightarrow> bool \<times> tasks" where
  "wq_wake wq q t =
     (if w_process q \<noteq> 0 then
        if state_of t (w_process q) = WAITING then
          if p_waitToken (procs t (w_process q)) = w_token q then (True, pm_ready (w_process q) wq t)
          else (False, t)
        else (False, t)
      else (False, t))"

fun wakeone_loop :: "u32 \<Rightarrow> queue_entry_t list \<Rightarrow> tasks \<Rightarrow> u32 \<times> queue_entry_t list \<times> tasks" where
  "wakeone_loop wq [] t = (0, [], t)"
| "wakeone_loop wq (q # qs) t =
     (let (ok, t) = wq_wake wq q t in
      if ok then (w_process q, qs, t) else wakeone_loop wq qs t)"

definition wq_wakeone :: "u32 \<Rightarrow> tasks \<Rightarrow> u32 \<times> tasks" where
  "wq_wakeone wq t =
     (let (p, qs, t) = wakeone_loop wq (waitqs t wq) t in (p, t\<lparr>waitqs := (waitqs t)(wq := qs)\<rparr>))"

fun wakeall_loop :: "u32 \<Rightarrow> queue_entry_t list \<Rightarrow> tasks \<Rightarrow> tasks" where
  "wakeall_loop wq [] t = t"
| "wakeall_loop wq (q # qs) t = wakeall_loop wq qs (snd (wq_wake wq q t))"

definition wq_wakeall :: "u32 \<Rightarrow> tasks \<Rightarrow> tasks" where
  "wq_wakeall wq t =
     (let t = wakeall_loop wq (waitqs t wq) t in t\<lparr>waitqs := (waitqs t)(wq := [])\<rparr>)"

definition wq_peek :: "u32 \<Rightarrow> tasks \<Rightarrow> u32" where
  "wq_peek wq t = (if waitqs t wq = [] then 0 else w_process (hd (waitqs t wq)))"

definition wq_empty :: "u32 \<Rightarrow> tasks \<Rightarrow> bool" where
  "wq_empty wq t \<longleftrightarrow> waitqs t wq = []"

section \<open>Giving up the processor\<close>

definition pm_yield :: "bool \<Rightarrow> tasks \<Rightarrow> tasks" where
  "pm_yield bytimer t =
     (let t = (if current t \<noteq> 0 then
                 let t = upd_proc (current t) (\<lambda>p. p\<lparr>p_ctxswitches := p_ctxswitches p + 1\<rparr>) t in
                 if \<not> bytimer then upd_proc (current t) (\<lambda>p. p\<lparr>p_runtime := p_runtime p + 1\<rparr>) t else t
               else t) in
      t\<lparr>numCtxSwitches := numCtxSwitches t + 1\<rparr>)"

definition sleeptill_of :: "tasks \<Rightarrow> u32 \<Rightarrow> u64" where
  "sleeptill_of t p = p_sleeptill (procs t p)"

definition pm_sleep :: "u32 \<Rightarrow> tasks \<Rightarrow> tasks kernel" where
  "pm_sleep durationMs t =
     (let t = upd_proc (current t) (\<lambda>p. p\<lparr>p_sleeptill := uptime t + ucast durationMs\<rparr>) t in
      kbind (deschedule (current t) SLEEPING 0 t) (\<lambda>t.
      kbind (pq_insert (sleep_compare (sleeptill_of t))
               \<lparr>qe_token = p_waitToken (procs t (current t)), qe_process = current t\<rparr> (sleepq t)) (\<lambda>sq.
      let t = wq_wakeall (awaker_queue t) (t\<lparr>sleepq := sq\<rparr>) in
      Inr (pm_yield False t))))"

definition wq_yield :: "u32 \<Rightarrow> u32 \<Rightarrow> u32 \<Rightarrow> tasks \<Rightarrow> tasks kernel" where
  "wq_yield wq task timeout t =
     kbind (wq_wait wq task t) (\<lambda>t.
     if timeout \<noteq> 0 then pm_sleep timeout t else Inr (pm_yield False t))"

definition tickForSchedule :: "bool \<Rightarrow> tasks \<Rightarrow> bool \<times> tasks" where
  "tickForSchedule can_yield t =
     (let allowedticks = p_quantum (procs t (current t)) in
      if allowedticks > 0 then
        let t = upd_proc (current t) (\<lambda>p. p\<lparr>p_usedticks := p_usedticks p + 1\<rparr>) t;
            usedticks = p_usedticks (procs t (current t)) in
        if usedticks \<ge> allowedticks then
          if can_yield then (True, t)
          else (False, upd_proc (current t) (\<lambda>p. p\<lparr>p_due_for_reschedule := True\<rparr>) t)
        else (False, t)
      else (False, t))"

definition tickForMetrics :: "u64 \<Rightarrow> tasks \<Rightarrow> tasks" where
  "tickForMetrics millisPerTick t =
     (if current t \<noteq> 0 then upd_proc (current t) (\<lambda>p. p\<lparr>p_runtime := p_runtime p + millisPerTick\<rparr>) t else t)"

section \<open>Scheduler\<close>

definition enqueueForDeath :: "u32 \<Rightarrow> tasks \<Rightarrow> tasks kernel" where
  "enqueueForDeath task t =
     (if state_of t task \<noteq> EXITED then Inl (Panic ''only EXITED processes can go on exited list'')
      else kbind (pt_set (pid_of t) task (gExitedProcesses t)) (\<lambda>e. Inr (t\<lparr>gExitedProcesses := e\<rparr>)))"

text \<open>
  One pass over the ready queue: \<open>Inl p\<close> is an exited process found before the end, \<open>Inr n\<close> the
  total number of tickets.
\<close>

fun lottery_scan :: "tasks \<Rightarrow> u32 list \<Rightarrow> u64 \<Rightarrow> u32 + u64" where
  "lottery_scan t [] n = Inr n"
| "lottery_scan t (p # ps) n =
     (case state_of t p of
        EXITED \<Rightarrow> Inl p
      | AVAILABLE \<Rightarrow> lottery_scan t ps (n + p_scheduling (procs t p))
      | _ \<Rightarrow> lottery_scan t ps n)"

fun lottery_purge :: "nat \<Rightarrow> tasks \<Rightarrow> (u64 \<times> tasks) kernel" where
  "lottery_purge fuel t =
     (case lottery_scan t (ready t) 0 of
        Inr n \<Rightarrow> Inr (n, t)
      | Inl p \<Rightarrow>
          (case fuel of
             0 \<Rightarrow> Inl Diverges
           | Suc k \<Rightarrow>
               kbind (enqueueForDeath p t) (\<lambda>t. lottery_purge k (t\<lparr>ready := remove1 p (ready t)\<rparr>))))"

fun lottery_pick :: "tasks \<Rightarrow> u32 list \<Rightarrow> u64 \<Rightarrow> u64 \<Rightarrow> u32" where
  "lottery_pick t [] winner n = 0"
| "lottery_pick t (p # ps) winner n =
     (let n = n + p_scheduling (procs t p) in
      if n \<ge> winner \<and> state_of t p = AVAILABLE then p else lottery_pick t ps winner n)"

definition lottery_next :: "tasks \<Rightarrow> (u32 \<times> tasks) kernel" where
  "lottery_next t =
     kbind (lottery_purge (length (ready t)) t) (\<lambda>(totalTickets, t).
     let (r1, g) = rng_next (rng t);
         (r2, g) = rng_next g;
         t = t\<lparr>rng := g\<rparr> in
     if totalTickets = 0 then Inl DivideError
     else
       let currentWinner = (ucast r1 OR push_bit 32 (ucast r2)) mod totalTickets;
           next_task = lottery_pick t (ready t) currentWinner 0 in
       if next_task = 0 then Inl (Panic ''lottery did not select a winner - scheduler aborted'')
       else Inr (next_task, t))"

fun rr_next :: "nat \<Rightarrow> tasks \<Rightarrow> (u32 \<times> tasks) kernel" where
  "rr_next fuel t =
     (case ready t of
        [] \<Rightarrow> Inl OutOfBounds
      | p # ps \<Rightarrow>
          (case fuel of
             0 \<Rightarrow> Inl Diverges
           | Suc k \<Rightarrow>
               let t = t\<lparr>ready := ps\<rparr> in
               (case state_of t p of
                  AVAILABLE \<Rightarrow> Inr (p, t\<lparr>ready := ready t @ [p]\<rparr>)
                | EXITED \<Rightarrow> kbind (enqueueForDeath p t) (rr_next k)
                | _ \<Rightarrow> rr_next k t)))"

definition ctxswitch :: "u32 \<Rightarrow> tasks \<Rightarrow> tasks" where
  "ctxswitch task t = t\<lparr>current := task, numCtxSwitches := numCtxSwitches t + 1\<rparr>"

definition scheduler_task :: "tasks \<Rightarrow> tasks kernel" where
  "scheduler_task t =
     kbind (lottery_next t) (\<lambda>(next_task, t).
     let t = upd_proc next_task (\<lambda>p. p\<lparr>p_due_for_reschedule := False\<rparr>) t in
     Inr (ctxswitch next_task t))"

declare deschedule_loop.simps [simp del] lottery_purge.simps [simp del] rr_next.simps [simp del]

end
