(* ===== verification/Scheduling.thy ===== *)
theory Scheduling
  imports Tasks
begin

text \<open>
  Correctness of the scheduling core modelled in \<open>Tasks\<close>: the invariant of the ready queue, what
  each operation on it and on the wait queues does, and what the two schedulers choose.
\<close>

section \<open>Projections\<close>

lemma upd_proc_simps [simp]:
  "ready (upd_proc p f t) = ready t" "waitqs (upd_proc p f t) = waitqs t" "current (upd_proc p f t) = current t"
  "sleepq (upd_proc p f t) = sleepq t" "rng (upd_proc p f t) = rng t" "uptime (upd_proc p f t) = uptime t"
  "gProcessTable (upd_proc p f t) = gProcessTable t" "gExitedProcesses (upd_proc p f t) = gExitedProcesses t"
  "gCollectedProcessList (upd_proc p f t) = gCollectedProcessList t"
  "procs (upd_proc p f t) = (procs t)(p := f (procs t p))"
  by (simp_all add: upd_proc_def)

lemma upd_proc_ready: "upd_proc p f (t\<lparr>ready := r\<rparr>) = (upd_proc p f t)\<lparr>ready := r\<rparr>"
  by (simp add: upd_proc_def)

lemma upd_proc_twice: "upd_proc p f (upd_proc p g t) = upd_proc p (\<lambda>x. f (g x)) t"
  by (simp add: upd_proc_def)

section \<open>Taking a process off the ready queue\<close>

definition take_off :: "u32 \<Rightarrow> process_state_t \<Rightarrow> u32 \<Rightarrow> tasks \<Rightarrow> tasks" where
  "take_off task ns wt t =
     (if task \<in> set (ready t)
      then (upd_proc task (\<lambda>p. p\<lparr>p_state := ns, p_wake_waitable := wt\<rparr>) t)\<lparr>ready := removeAll task (ready t)\<rparr>
      else t)"

lemma count_list_split:
  "b < length xs \<Longrightarrow> count_list xs y = count_list (take b xs @ drop (Suc b) xs) y + (if xs ! b = y then 1 else 0)"
  by (subst id_take_nth_drop [of b xs]) simp_all

lemma removeAll_split:
  "b < length xs \<Longrightarrow> xs ! b = y \<Longrightarrow> removeAll y (take b xs @ drop (Suc b) xs) = removeAll y xs"
  by (subst (3) id_take_nth_drop [of b xs]) simp_all

lemma deschedule_loop_eq:
  "task \<notin> set (take b (ready t)) \<Longrightarrow>
   deschedule_loop task ns wt b n t = (n + int (count_list (ready t) task), take_off task ns wt t)"
proof (induction task ns wt b n t rule: deschedule_loop.induct)
  case (1 task ns wt b n t)
  show ?case
  proof (cases "b < length (ready t)")
    case False
    then have no: "task \<notin> set (ready t)" using "1.prems" by simp
    then show ?thesis using False
      by (subst deschedule_loop.simps) (simp add: take_off_def count_list_0_iff)
  next
    case b: True
    show ?thesis
    proof (cases "ready t ! b = task")
      case True
      define t1 where "t1 = upd_proc task (\<lambda>p. p\<lparr>p_state := ns, p_wake_waitable := wt\<rparr>) t"
      define r where "r = take b (ready t) @ drop (Suc b) (ready t)"
      have IH: "deschedule_loop task ns wt 0 (n + 1) (t1\<lparr>ready := r\<rparr>) =
          (n + 1 + int (count_list r task), take_off task ns wt (t1\<lparr>ready := r\<rparr>))"
        using "1.IH"(1) [OF b True] by (simp add: t1_def r_def)
      have "int (count_list (ready t) task) = int (count_list r task) + 1"
        using count_list_split [OF b, of task] True by (simp add: r_def)
      moreover have "take_off task ns wt (t1\<lparr>ready := r\<rparr>) = take_off task ns wt t"
      proof -
        have ra: "removeAll task r = removeAll task (ready t)" using removeAll_split [OF b True] by (simp add: r_def)
        have "task \<in> set (ready t)" using b True by auto
        then have "take_off task ns wt t = t1\<lparr>ready := removeAll task (ready t)\<rparr>" by (simp add: take_off_def t1_def)
        moreover have "take_off task ns wt (t1\<lparr>ready := r\<rparr>) = t1\<lparr>ready := removeAll task r\<rparr>"
          by (simp add: take_off_def t1_def upd_proc_ready upd_proc_twice removeAll_id)
        ultimately show ?thesis using ra by simp
      qed
      moreover have "ready t1 = ready t" by (simp add: t1_def)
      ultimately show ?thesis
        using IH b True by (subst deschedule_loop.simps) (simp add: t1_def [symmetric] r_def [symmetric])
    next
      case False
      have "task \<notin> set (take (b + 1) (ready t))"
        using "1.prems" b False by (simp add: take_Suc_conv_app_nth)
      then show ?thesis
        using "1.IH"(2) [OF b False] b False by (subst deschedule_loop.simps) simp
    qed
  qed
qed

lemma deschedule_eq:
  "deschedule task ns wt t =
     (if count_list (ready t) task > 1 then Inl (Panic ''process enqueued for execution multiple times'')
      else Inr (take_off task ns wt t))"
  using deschedule_loop_eq [of task 0 t ns wt 0] by (simp add: deschedule_def)

lemma count_list_distinct: "distinct xs \<Longrightarrow> count_list xs y \<le> 1"
  by (induction xs) (auto simp: count_list_0_iff)

lemma deschedule_distinct: "distinct (ready t) \<Longrightarrow> deschedule task ns wt t = Inr (take_off task ns wt t)"
  using count_list_distinct [of "ready t" task] by (simp add: deschedule_eq)

section \<open>The invariant\<close>

text \<open>
  A process is queued for execution at most once; what is queued is runnable or has exited and
  still has to be noticed by the scheduler; and a runnable process is queued.
\<close>

definition sched_inv :: "tasks \<Rightarrow> bool" where
  "sched_inv t \<longleftrightarrow>
     distinct (ready t) \<and> 0 \<notin> set (ready t)
     \<and> (\<forall>p\<in>set (ready t). state_of t p \<in> {AVAILABLE, EXITED})
     \<and> (\<forall>p. p \<noteq> 0 \<longrightarrow> state_of t p = AVAILABLE \<longrightarrow> p \<in> set (ready t))"

lemma sched_inv_distinct: "sched_inv t \<Longrightarrow> distinct (ready t)"
  by (simp add: sched_inv_def)

lemma state_of_upd [simp]:
  "state_of (upd_proc p f t) q = (if q = p then p_state (f (procs t p)) else state_of t q)"
  by (simp add: state_of_def)

lemma state_of_other [simp]:
  "state_of (t\<lparr>ready := r\<rparr>) p = state_of t p" "state_of (t\<lparr>waitqs := w\<rparr>) p = state_of t p"
  "state_of (t\<lparr>sleepq := s\<rparr>) p = state_of t p" "state_of (t\<lparr>rng := g\<rparr>) p = state_of t p"
  "state_of (t\<lparr>current := c\<rparr>) p = state_of t p" "state_of (t\<lparr>numCtxSwitches := n\<rparr>) p = state_of t p"
  "state_of (t\<lparr>gExitedProcesses := x\<rparr>) p = state_of t p" "state_of (t\<lparr>gProcessTable := x\<rparr>) p = state_of t p"
  "state_of (t\<lparr>gCollectedProcessList := l\<rparr>) p = state_of t p" "state_of (t\<lparr>uptime := u\<rparr>) p = state_of t p"
  "state_of (t\<lparr>gPidBitmap := b\<rparr>) p = state_of t p" "state_of (t\<lparr>gGDTBitmap := b\<rparr>) p = state_of t p"
  by (simp_all add: state_of_def)

lemma sched_inv_cong:
  assumes "ready t' = ready t" and "\<And>p. state_of t' p = state_of t p"
  shows "sched_inv t' \<longleftrightarrow> sched_inv t"
  by (simp add: sched_inv_def assms)

lemma sched_inv_upd_proc:
  assumes "\<And>x. p_state (f x) = p_state x"
  shows "sched_inv (upd_proc p f t) \<longleftrightarrow> sched_inv t"
  using assms by (intro sched_inv_cong) (simp_all add: state_of_def)

lemma sched_inv_other [simp]:
  "sched_inv (t\<lparr>waitqs := w\<rparr>) = sched_inv t" "sched_inv (t\<lparr>sleepq := s\<rparr>) = sched_inv t"
  "sched_inv (t\<lparr>rng := g\<rparr>) = sched_inv t" "sched_inv (t\<lparr>current := c\<rparr>) = sched_inv t"
  "sched_inv (t\<lparr>numCtxSwitches := n\<rparr>) = sched_inv t" "sched_inv (t\<lparr>gExitedProcesses := x\<rparr>) = sched_inv t"
  "sched_inv (t\<lparr>gCollectedProcessList := l\<rparr>) = sched_inv t" "sched_inv (t\<lparr>uptime := u\<rparr>) = sched_inv t"
  "sched_inv (t\<lparr>gPidBitmap := b\<rparr>) = sched_inv t" "sched_inv (t\<lparr>gGDTBitmap := b\<rparr>) = sched_inv t"
  "sched_inv (t\<lparr>gProcessTable := y\<rparr>) = sched_inv t"
  by (auto intro!: sched_inv_cong)

lemma take_off_inv:
  assumes "sched_inv t" and "ns \<noteq> AVAILABLE"
  shows "sched_inv (take_off task ns wt t)"
  using assms by (auto simp: take_off_def sched_inv_def distinct_removeAll)

lemma reschedule_inv:
  assumes "sched_inv t" and "task \<noteq> 0" and "task \<notin> set (ready t)"
  shows "sched_inv (reschedule task t)"
  using assms by (auto simp: reschedule_def sched_inv_def Let_def)

lemma not_queued: "sched_inv t \<Longrightarrow> state_of t p \<notin> {AVAILABLE, EXITED} \<Longrightarrow> p \<notin> set (ready t)"
  by (auto simp: sched_inv_def)

lemma pm_ready_inv:
  assumes "sched_inv t" and "task \<noteq> 0" and "state_of t task \<noteq> EXITED"
  shows "sched_inv (pm_ready task wt t)"
proof (cases "state_of t task = AVAILABLE")
  case False
  then have "task \<notin> set (ready t)" using assms not_queued by blast
  moreover have "sched_inv (upd_proc task (\<lambda>p. p\<lparr>p_wake_timeout := False, p_wake_waitable := wt\<rparr>) t)"
    using assms(1) by (subst sched_inv_upd_proc) simp_all
  ultimately show ?thesis using assms(2) False by (simp add: pm_ready_def reschedule_inv)
qed (simp add: pm_ready_def assms)

lemma pm_wake_inv:
  assumes "sched_inv t" and "task \<noteq> 0" and "state_of t task \<noteq> EXITED"
  shows "sched_inv (pm_wake task t)"
proof (cases "state_of t task = AVAILABLE")
  case False
  define t1 where "t1 = (if p_wake_waitable (procs t task) \<noteq> 0 then wq_remove (p_wake_waitable (procs t task)) task t else t)"
  define t2 where "t2 = upd_proc task (\<lambda>p. p\<lparr>p_wake_timeout := True, p_wake_waitable := 0\<rparr>) t1"
  have "sched_inv t1" "ready t1 = ready t" using assms(1) by (simp_all add: t1_def wq_remove_def)
  then have "sched_inv t2" "ready t2 = ready t" by (simp_all add: t2_def sched_inv_upd_proc)
  moreover have "task \<notin> set (ready t)" using assms False not_queued by blast
  moreover have "pm_wake task t = reschedule task t2"
    using False by (simp add: pm_wake_def Let_def t1_def t2_def)
  ultimately show ?thesis using assms(2) by (simp add: reschedule_inv)
qed (simp add: pm_wake_def assms)

lemma wq_wake_inv: "sched_inv t \<Longrightarrow> sched_inv (snd (wq_wake wq q t))"
  by (simp add: wq_wake_def pm_ready_inv)

lemma wakeall_loop_inv: "sched_inv t \<Longrightarrow> sched_inv (wakeall_loop wq qs t)"
  by (induction wq qs t rule: wakeall_loop.induct) (simp_all add: wq_wake_inv)

lemma wq_wakeall_inv: "sched_inv t \<Longrightarrow> sched_inv (wq_wakeall wq t)"
  by (simp add: wq_wakeall_def wakeall_loop_inv Let_def)

lemma wakeone_loop_inv: "sched_inv t \<Longrightarrow> sched_inv (snd (snd (wakeone_loop wq qs t)))"
proof (induction wq qs t rule: wakeone_loop.induct)
  case (2 wq q qs t)
  obtain ok t1 where w: "wq_wake wq q t = (ok, t1)" by fastforce
  then have "sched_inv t1" using wq_wake_inv [OF 2(2), of wq q] by simp
  then show ?case using w 2(1) by (cases ok) auto
qed simp

lemma wq_wakeone_inv: "sched_inv t \<Longrightarrow> sched_inv (snd (wq_wakeone wq t))"
  using wakeone_loop_inv [of t wq "waitqs t wq"]
  by (auto simp: wq_wakeone_def split: prod.splits)

lemma wq_wait_inv:
  assumes "sched_inv t"
  shows "\<exists>t'. wq_wait wq task t = Inr t' \<and> sched_inv t'"
proof -
  define t1 where "t1 = t\<lparr>waitqs := (waitqs t)(wq := waitqs t wq @ [\<lparr>w_token = p_waitToken (procs t task), w_process = task\<rparr>])\<rparr>"
  have "sched_inv t1" using assms by (simp add: t1_def)
  then show ?thesis
    using take_off_inv [of t1 WAITING task wq]
    by (simp add: wq_wait_def pushToQueue_def t1_def [symmetric] deschedule_distinct sched_inv_distinct)
qed

lemma pm_yield_inv: "sched_inv t \<Longrightarrow> sched_inv (pm_yield b t)"
  by (simp add: pm_yield_def Let_def sched_inv_upd_proc)

lemma wq_wakeall_ready_sleepq [simp]:
  "sleepq (wq_wakeall wq t) = sleepq t" "current (wq_wakeall wq t) = current t"
proof -
  have "sleepq (wakeall_loop wq qs t) = sleepq t \<and> current (wakeall_loop wq qs t) = current t" for qs
    by (induction wq qs t rule: wakeall_loop.induct)
       (simp_all add: wq_wake_def pm_ready_def reschedule_def Let_def)
  then show "sleepq (wq_wakeall wq t) = sleepq t" "current (wq_wakeall wq t) = current t"
    by (simp_all add: wq_wakeall_def Let_def)
qed

lemma pm_sleep_inv:
  assumes "sched_inv t" and "Suc (length (sleepq t)) < 2 ^ 32"
  shows "\<exists>t'. pm_sleep d t = Inr t' \<and> sched_inv t'"
proof -
  define t1 where "t1 = upd_proc (current t) (\<lambda>p. p\<lparr>p_sleeptill := uptime t + ucast d\<rparr>) t"
  define t2 where "t2 = take_off (current t1) SLEEPING 0 t1"
  have i1: "sched_inv t1" using assms(1) by (simp add: t1_def sched_inv_upd_proc)
  then have i2: "sched_inv t2" and d: "deschedule (current t1) SLEEPING 0 t1 = Inr t2"
    by (simp_all add: t2_def take_off_inv deschedule_distinct sched_inv_distinct)
  have "sleepq t2 = sleepq t" by (simp add: t2_def t1_def take_off_def)
  then obtain sq where "pq_insert (sleep_compare (sleeptill_of t2))
      \<lparr>qe_token = p_waitToken (procs t2 (current t2)), qe_process = current t2\<rparr> (sleepq t2) = Inr sq"
    using pq_insert_total [of "sleepq t2"] assms(2) by metis
  then show ?thesis
    using i2 d by (simp add: pm_sleep_def t1_def [symmetric] Let_def pm_yield_inv wq_wakeall_inv)
qed

lemma wq_yield_inv:
  assumes "sched_inv t" and "Suc (length (sleepq t)) < 2 ^ 32"
  shows "\<exists>t'. wq_yield wq task timeout t = Inr t' \<and> sched_inv t'"
proof -
  obtain t1 where t1: "wq_wait wq task t = Inr t1" "sched_inv t1" using wq_wait_inv assms(1) by blast
  then have "sleepq t1 = sleepq t"
    using assms(1) by (auto simp: wq_wait_def pushToQueue_def deschedule_eq take_off_def split: if_splits)
  then show ?thesis using t1 assms(2) pm_sleep_inv [OF t1(2)] by (auto simp: wq_yield_def pm_yield_inv)
qed

section \<open>Lottery\<close>

definition runnable :: "tasks \<Rightarrow> u32 list" where
  "runnable t = filter (\<lambda>p. state_of t p = AVAILABLE) (ready t)"

definition tickets :: "tasks \<Rightarrow> u32 list \<Rightarrow> nat" where
  "tickets t ps = sum_list (map (\<lambda>p. unat (p_scheduling (procs t p))) ps)"

text \<open>
  The exited processes still queued can be recorded: they have different identifiers whose slots
  in the table of exited processes are free.
\<close>

definition death_ok :: "tasks \<Rightarrow> bool" where
  "death_ok t \<longleftrightarrow>
     (\<forall>p\<in>set (ready t). state_of t p = EXITED \<longrightarrow>
        unat (pid_of t p) < length (pt_table (gExitedProcesses t))
        \<and> pt_table (gExitedProcesses t) ! unat (pid_of t p) = 0)
     \<and> inj_on (pid_of t) {p \<in> set (ready t). state_of t p = EXITED}"

lemma lottery_scan_exited:
  assumes "\<exists>p\<in>set ps. state_of t p = EXITED"
  shows "\<exists>p\<in>set ps. lottery_scan t ps n = Inl p \<and> state_of t p = EXITED"
  using assms by (induction t ps n rule: lottery_scan.induct) (auto split: process_state_t.splits)

lemma lottery_scan_total:
  "\<forall>p\<in>set ps. state_of t p = AVAILABLE \<Longrightarrow> lottery_scan t ps n = Inr (n + of_nat (tickets t ps))"
proof (induction t ps n rule: lottery_scan.induct)
  case (2 t p ps n)
  then show ?case by (simp add: tickets_def)
qed (simp add: tickets_def)

text \<open>The purge moves every exited process to its slot of the table and touches no other slot.\<close>

definition buried :: "tasks \<Rightarrow> tasks \<Rightarrow> bool" where
  "buried t t' \<longleftrightarrow>
     (\<forall>p\<in>set (ready t). state_of t p = EXITED \<longrightarrow> pt_table (gExitedProcesses t') ! unat (pid_of t p) = p)
     \<and> (\<forall>i. (\<forall>p\<in>set (ready t). state_of t p = EXITED \<longrightarrow> unat (pid_of t p) \<noteq> i) \<longrightarrow>
          pt_table (gExitedProcesses t') ! i = pt_table (gExitedProcesses t) ! i)"

definition bury_one :: "u32 \<Rightarrow> tasks \<Rightarrow> tasks" where
  "bury_one p t = t\<lparr>gExitedProcesses := (gExitedProcesses t)
     \<lparr>pt_table := (pt_table (gExitedProcesses t))[unat (pid_of t p) := p],
      pt_size := pt_size (gExitedProcesses t) + 1\<rparr>, ready := remove1 p (ready t)\<rparr>"

lemma bury_one_simps [simp]:
  "procs (bury_one p t) = procs t" "ready (bury_one p t) = remove1 p (ready t)" "rng (bury_one p t) = rng t"
  "state_of (bury_one p t) q = state_of t q" "pid_of (bury_one p t) = pid_of t"
  "pt_table (gExitedProcesses (bury_one p t)) = (pt_table (gExitedProcesses t))[unat (pid_of t p) := p]"
  by (simp_all add: bury_one_def state_of_def pid_of_def fun_eq_iff)

lemma runnable_remove: "state_of t p = EXITED \<Longrightarrow> filter (\<lambda>q. state_of t q = AVAILABLE) (remove1 p ps) = filter (\<lambda>q. state_of t q = AVAILABLE) ps"
  by (induction ps) auto

lemma bury_one_ok:
  assumes inv: "sched_inv t" and ok: "death_ok t" and p: "p \<in> set (ready t)" "state_of t p = EXITED"
  shows "enqueueForDeath p t = Inr (bury_one p t\<lparr>ready := ready t\<rparr>)"
    and "sched_inv (bury_one p t)" and "death_ok (bury_one p t)" and "runnable (bury_one p t) = runnable t"
proof -
  have z: "p \<noteq> 0" using inv p(1) by (auto simp: sched_inv_def)
  have slot: "unat (pid_of t p) < length (pt_table (gExitedProcesses t))"
    "pt_table (gExitedProcesses t) ! unat (pid_of t p) = 0"
    using ok p by (auto simp: death_ok_def)
  show "enqueueForDeath p t = Inr (bury_one p t\<lparr>ready := ready t\<rparr>)"
    using z slot p(2) by (simp add: enqueueForDeath_def pt_set_def bury_one_def)
  have d: "distinct (ready t)" using inv by (rule sched_inv_distinct)
  have s: "set (remove1 p (ready t)) = set (ready t) - {p}" using d by (rule set_remove1_eq)
  show "sched_inv (bury_one p t)"
    using inv p d by (auto simp: sched_inv_def s)
  show "runnable (bury_one p t) = runnable t"
    using p(2) by (simp add: runnable_def runnable_remove)
  have inj: "inj_on (pid_of t) {p \<in> set (ready t). state_of t p = EXITED}" using ok by (simp add: death_ok_def)
  have "(pt_table (gExitedProcesses t))[unat (pid_of t p) := p] ! unat (pid_of t q) = 0"
    if "q \<in> set (ready t)" "state_of t q = EXITED" "q \<noteq> p" for q
  proof -
    have "unat (pid_of t p) \<noteq> unat (pid_of t q)" using inj_onD [OF inj, of q p] that p by (auto simp: word_unat_eq_iff)
    then show ?thesis using ok that by (simp add: death_ok_def)
  qed
  then show "death_ok (bury_one p t)"
    using ok s inj by (auto simp: death_ok_def intro: inj_on_subset)
qed

lemma buried_step:
  assumes inv: "sched_inv t" and ok: "death_ok t" and p: "p \<in> set (ready t)" "state_of t p = EXITED"
    and b: "buried (bury_one p t) t'" and l: "length (pt_table (gExitedProcesses t')) = length (pt_table (gExitedProcesses t))"
  shows "buried t t'"
proof -
  have d: "distinct (ready t)" using inv by (rule sched_inv_distinct)
  have s: "set (remove1 p (ready t)) = set (ready t) - {p}" using d by (rule set_remove1_eq)
  have slot: "unat (pid_of t p) < length (pt_table (gExitedProcesses t))" using ok p by (auto simp: death_ok_def)
  have inj: "inj_on (pid_of t) {p \<in> set (ready t). state_of t p = EXITED}" using ok by (simp add: death_ok_def)
  have ne: "unat (pid_of t q) \<noteq> unat (pid_of t p)" if "q \<in> set (ready t) - {p}" "state_of t q = EXITED" for q
    using inj_onD [OF inj, of q p] that p by (auto simp: word_unat_eq_iff)
  have "pt_table (gExitedProcesses t') ! unat (pid_of t p) = p"
    using b ne slot unfolding buried_def s bury_one_simps by (metis nth_list_update_eq)
  then show ?thesis using b slot p unfolding buried_def s bury_one_simps
    by (metis (no_types, lifting) Diff_iff empty_iff insert_iff nth_list_update_neq)
qed

lemma lottery_purge_spec:
  assumes "sched_inv t" and "death_ok t" and "length (ready t) \<le> fuel"
  shows "\<exists>t'. lottery_purge fuel t = Inr (of_nat (tickets t (runnable t)), t') \<and> procs t' = procs t
    \<and> ready t' = runnable t \<and> rng t' = rng t \<and> sched_inv t' \<and> buried t t'
    \<and> length (pt_table (gExitedProcesses t')) = length (pt_table (gExitedProcesses t))"
  using assms
proof (induction fuel arbitrary: t)
  case 0
  then show ?case by (subst lottery_purge.simps) (simp add: runnable_def tickets_def buried_def)
next
  case (Suc k)
  show ?case
  proof (cases "\<exists>p\<in>set (ready t). state_of t p = EXITED")
    case True
    then obtain p where p: "p \<in> set (ready t)" "lottery_scan t (ready t) 0 = Inl p" "state_of t p = EXITED"
      using lottery_scan_exited by blast
    note ok = bury_one_ok [OF Suc.prems(1,2) p(1,3)]
    have "length (ready (bury_one p t)) \<le> k" using p(1) Suc.prems(3) by (simp add: length_remove1)
    from Suc.IH [OF ok(2,3) this]
    obtain t' where t': "lottery_purge k (bury_one p t) = Inr (of_nat (tickets (bury_one p t) (runnable t)), t')"
        "procs t' = procs t" "ready t' = runnable t" "rng t' = rng t" "sched_inv t'" "buried (bury_one p t) t'"
        "length (pt_table (gExitedProcesses t')) = length (pt_table (gExitedProcesses t))"
      by (auto simp: ok(4))
    have "lottery_purge (Suc k) t = lottery_purge k (bury_one p t)"
      using p(2) ok(1) by (subst lottery_purge.simps) (simp add: bury_one_def)
    moreover have "tickets (bury_one p t) (runnable t) = tickets t (runnable t)" by (simp add: tickets_def)
    ultimately show ?thesis using t' buried_step [OF Suc.prems(1,2) p(1,3) t'(6,7)] by simp
  next
    case False
    then have all: "\<forall>p\<in>set (ready t). state_of t p = AVAILABLE" using Suc.prems(1) by (auto simp: sched_inv_def)
    then have "runnable t = ready t" by (simp add: runnable_def)
    moreover have "buried t t" using False by (simp add: buried_def)
    ultimately show ?thesis
      using lottery_scan_total [OF all, of 0] Suc.prems(1) by (subst lottery_purge.simps) simp
  qed
qed

lemma lottery_pick_wins:
  assumes "\<forall>p\<in>set ps. state_of t p = AVAILABLE" and "0 \<notin> set ps" and "ps \<noteq> []"
    and "unat n + tickets t ps < 2 ^ 64" and "unat w \<le> unat n + tickets t ps"
  shows "lottery_pick t ps w n \<in> set ps"
  using assms
proof (induction t ps w n rule: lottery_pick.induct)
  case (2 t p ps w n)
  have "unat n + unat (p_scheduling (procs t p)) < 2 ^ 64" using 2(5) by (simp add: tickets_def)
  then have u: "unat (n + p_scheduling (procs t p)) = unat n + unat (p_scheduling (procs t p))"
    by (simp add: unat_word_ariths)
  show ?case
  proof (cases "n + p_scheduling (procs t p) \<ge> w")
    case True
    then show ?thesis using 2(2) by simp
  next
    case False
    then have "ps \<noteq> []" using 2(6) u by (auto simp: word_le_nat_alt tickets_def)
    then have "lottery_pick t ps w (n + p_scheduling (procs t p)) \<in> set ps"
      using 2(1) [OF refl] False 2(2-) u by (simp add: tickets_def)
    then show ?thesis using False by simp
  qed
qed simp

lemma lottery_next_spec:
  assumes inv: "sched_inv t" and ok: "death_ok t"
    and tot: "0 < tickets t (runnable t)" "tickets t (runnable t) < 2 ^ 64"
  shows "\<exists>p t'. lottery_next t = Inr (p, t') \<and> p \<in> set (ready t) \<and> state_of t p = AVAILABLE
    \<and> procs t' = procs t \<and> ready t' = runnable t \<and> sched_inv t' \<and> buried t t'"
proof -
  obtain t1 where t1: "lottery_purge (length (ready t)) t = Inr (of_nat (tickets t (runnable t)), t1)"
      "procs t1 = procs t" "ready t1 = runnable t" "sched_inv t1" "buried t t1"
    using lottery_purge_spec [OF inv ok order_refl] by blast
  obtain r1 g1 where g1: "rng_next (rng t1) = (r1, g1)" by fastforce
  obtain r2 g2 where g2: "rng_next g1 = (r2, g2)" by fastforce
  define t2 where "t2 = t1\<lparr>rng := g2\<rparr>"
  define n :: u64 where "n = of_nat (tickets t (runnable t))"
  have n: "unat n = tickets t (runnable t)" using tot(2) by (simp add: n_def unat_of_nat)
  then have n0: "n \<noteq> 0" using tot(1) by auto
  define w :: u64 where "w = (ucast r1 OR push_bit 32 (ucast r2)) mod n"
  have "unat w < unat n" unfolding w_def using n0 by (metis unat_mod_distrib mod_less_divisor unat_gt_0)
  then have wn: "unat w \<le> unat (0 :: u64) + tickets t2 (runnable t)"
    using n t1(2) by (simp add: t2_def tickets_def)
  define q where "q = lottery_pick t2 (runnable t) w 0"
  have q: "q \<in> set (runnable t)"
    unfolding q_def
  proof (rule lottery_pick_wins)
    show "\<forall>p\<in>set (runnable t). state_of t2 p = AVAILABLE" using t1(2) by (simp add: runnable_def t2_def state_of_def)
    show "0 \<notin> set (runnable t)" using inv by (simp add: runnable_def sched_inv_def)
    show "runnable t \<noteq> []" using tot(1) by (auto simp: tickets_def)
    show "unat (0 :: u64) + tickets t2 (runnable t) < 2 ^ 64" using tot(2) t1(2) by (simp add: t2_def tickets_def)
  qed (rule wn)
  then have "q \<noteq> 0" "q \<in> set (ready t)" "state_of t q = AVAILABLE" using inv by (auto simp: runnable_def sched_inv_def)
  moreover have "lottery_next t = Inr (q, t2)"
    using t1(1,3) g1 g2 n0 \<open>q \<noteq> 0\<close>
    by (simp add: lottery_next_def n_def [symmetric] w_def [symmetric] q_def [symmetric] t2_def [symmetric] Let_def)
  ultimately show ?thesis using t1 by (auto simp: t2_def buried_def)
qed

end
