(* ===== verification/Waiting.thy ===== *)
theory Waiting
  imports Scheduling
begin

text \<open>
  No lost wake-ups: every waiting process is on the queue it waits on under its current token, and
  waking a queue leaves nobody waiting on it. Round robin reaches every runnable process; the
  lottery may not.
\<close>

section \<open>The invariant of waiting processes\<close>

definition waits_on :: "tasks \<Rightarrow> u32 \<Rightarrow> u32 \<Rightarrow> bool" where
  "waits_on t p wq \<longleftrightarrow> state_of t p = WAITING \<and> p_wake_waitable (procs t p) = wq"

definition wait_inv :: "tasks \<Rightarrow> bool" where
  "wait_inv t \<longleftrightarrow>
     (\<forall>p. state_of t p = WAITING \<longrightarrow>
        p \<noteq> 0 \<and> \<lparr>w_token = p_waitToken (procs t p), w_process = p\<rparr> \<in> set (waitqs t (p_wake_waitable (procs t p))))"

lemma wait_inv_queued:
  "wait_inv t \<Longrightarrow> waits_on t p wq \<Longrightarrow>
   p \<noteq> 0 \<and> \<lparr>w_token = p_waitToken (procs t p), w_process = p\<rparr> \<in> set (waitqs t wq)"
  by (auto simp: wait_inv_def waits_on_def)

lemma wait_inv_cong:
  assumes "procs t' = procs t" and "waitqs t' = waitqs t"
  shows "wait_inv t' = wait_inv t"
  by (simp add: wait_inv_def state_of_def assms)

lemma wait_inv_upd_same:
  assumes "p_state (f (procs t p)) = p_state (procs t p)"
    and "p_waitToken (f (procs t p)) = p_waitToken (procs t p)"
    and "p_wake_waitable (f (procs t p)) = p_wake_waitable (procs t p)"
  shows "wait_inv (upd_proc p f t) = wait_inv t"
  using assms by (auto simp: wait_inv_def state_of_def)

lemma wait_inv_upd_awake:
  assumes "wait_inv t" and "p_state (f (procs t p)) \<noteq> WAITING"
  shows "wait_inv (upd_proc p f t)"
  using assms by (auto simp: wait_inv_def state_of_def)

lemma wait_inv_other [simp]:
  "wait_inv (t\<lparr>ready := r\<rparr>) = wait_inv t" "wait_inv (t\<lparr>sleepq := s\<rparr>) = wait_inv t"
  "wait_inv (t\<lparr>rng := g\<rparr>) = wait_inv t" "wait_inv (t\<lparr>current := c\<rparr>) = wait_inv t"
  "wait_inv (t\<lparr>numCtxSwitches := n\<rparr>) = wait_inv t" "wait_inv (t\<lparr>gExitedProcesses := x\<rparr>) = wait_inv t"
  "wait_inv (t\<lparr>gCollectedProcessList := l\<rparr>) = wait_inv t" "wait_inv (t\<lparr>uptime := u\<rparr>) = wait_inv t"
  "wait_inv (t\<lparr>gPidBitmap := b\<rparr>) = wait_inv t" "wait_inv (t\<lparr>gGDTBitmap := b\<rparr>) = wait_inv t"
  "wait_inv (t\<lparr>gProcessTable := y\<rparr>) = wait_inv t"
  by (auto intro!: wait_inv_cong)

lemma reschedule_wait: "wait_inv t \<Longrightarrow> wait_inv (reschedule task t)"
  by (simp add: reschedule_def Let_def wait_inv_upd_awake)

lemma reschedule_upd_proc:
  "reschedule task (upd_proc task f t) =
   (upd_proc task (\<lambda>p. (f p)\<lparr>p_waitToken := p_waitToken (f p) + 1, p_state := AVAILABLE\<rparr>) t)\<lparr>ready := ready t @ [task]\<rparr>"
  by (simp add: reschedule_def Let_def upd_proc_twice)

lemma pm_ready_wait: "wait_inv t \<Longrightarrow> wait_inv (pm_ready task wt t)"
  by (simp add: pm_ready_def reschedule_upd_proc wait_inv_upd_awake)

lemma pm_wake_wait:
  assumes "wait_inv t"
  shows "wait_inv (pm_wake task t)"
proof (cases "state_of t task = AVAILABLE")
  case False
  define t1 where "t1 = (if p_wake_waitable (procs t task) \<noteq> 0 then wq_remove (p_wake_waitable (procs t task)) task t else t)"
  define f :: "process_t \<Rightarrow> process_t" where "f = (\<lambda>p. p\<lparr>p_wake_timeout := True, p_wake_waitable := 0\<rparr>)"
  have eq: "pm_wake task t = reschedule task (upd_proc task f t1)"
    using False by (simp add: pm_wake_def Let_def t1_def f_def)
  have "procs t1 = procs t" by (simp add: t1_def wq_remove_def)
  moreover have "q \<in> set (waitqs t1 w)" if "q \<in> set (waitqs t w)" "w_process q \<noteq> task" for q w
    using that by (auto simp: t1_def wq_remove_def)
  ultimately show ?thesis
    using assms unfolding eq reschedule_upd_proc
    by (auto simp: wait_inv_def state_of_def f_def)
qed (simp add: pm_wake_def assms)

text \<open>
  Popping entries of a queue keeps the invariant as long as the processes they were valid for are
  awake; \<open>wait_inv_but\<close> is the invariant while the entries \<open>qs\<close> of \<open>wq\<close> are being processed.
\<close>

definition wait_inv_but :: "u32 \<Rightarrow> queue_entry_t list \<Rightarrow> tasks \<Rightarrow> bool" where
  "wait_inv_but wq qs t \<longleftrightarrow> wait_inv (t\<lparr>waitqs := (waitqs t)(wq := qs)\<rparr>)"

lemma wq_wake_step:
  assumes "wait_inv_but wq (q # qs) t"
  shows "wait_inv_but wq qs (snd (wq_wake wq q t))"
proof (cases "fst (wq_wake wq q t)")
  case True
  define p where "p = w_process q"
  have t': "snd (wq_wake wq q t) = pm_ready p wq t" and st: "state_of t p = WAITING"
    using True by (auto simp: wq_wake_def p_def split: if_splits)
  then have "snd (wq_wake wq q t) = (upd_proc p (\<lambda>x. x\<lparr>p_wake_timeout := False, p_wake_waitable := wq,
      p_waitToken := p_waitToken x + 1, p_state := AVAILABLE\<rparr>) t)\<lparr>ready := ready t @ [p]\<rparr>"
    by (simp add: pm_ready_def reschedule_upd_proc)
  then show ?thesis using assms
    by (cases q) (auto simp: wait_inv_but_def wait_inv_def state_of_def p_def split: if_splits)
next
  case False
  then have t': "snd (wq_wake wq q t) = t"
    and no: "w_process q = 0 \<or> state_of t (w_process q) \<noteq> WAITING \<or> p_waitToken (procs t (w_process q)) \<noteq> w_token q"
    by (auto simp: wq_wake_def split: if_splits)
  then show ?thesis using assms
    by (cases q) (auto simp: wait_inv_but_def wait_inv_def state_of_def split: if_splits)
qed

lemma wakeall_loop_wait: "wait_inv_but wq qs t \<Longrightarrow> wait_inv_but wq [] (wakeall_loop wq qs t)"
  by (induction wq qs t rule: wakeall_loop.induct) (simp_all add: wq_wake_step)

lemma wakeone_loop_wait:
  "wait_inv_but wq qs t \<Longrightarrow> wakeone_loop wq qs t = (p, qs', t') \<Longrightarrow> wait_inv_but wq qs' t'"
proof (induction wq qs t rule: wakeone_loop.induct)
  case (2 wq q qs t)
  obtain ok t1 where w: "wq_wake wq q t = (ok, t1)" by fastforce
  then have "wait_inv_but wq qs t1" using wq_wake_step [OF 2(2)] by simp
  then show ?case using 2 w by (auto split: if_splits)
qed auto

lemma wq_wakeall_wait: "wait_inv t \<Longrightarrow> wait_inv (wq_wakeall wq t)"
  using wakeall_loop_wait [of wq "waitqs t wq" t] by (simp add: wait_inv_but_def wq_wakeall_def Let_def)

lemma wq_wakeone_wait: "wait_inv t \<Longrightarrow> wait_inv (snd (wq_wakeone wq t))"
  using wakeone_loop_wait [of wq "waitqs t wq" t]
  by (auto simp: wait_inv_but_def wq_wakeone_def split: prod.splits)

text \<open>Waking a queue leaves nobody waiting on it.\<close>

lemma wakeall_nobody_waits:
  assumes "wait_inv t"
  shows "\<not> waits_on (wq_wakeall wq t) p wq"
  using wait_inv_queued [OF wq_wakeall_wait [OF assms], of wq p wq] by (auto simp: wq_wakeall_def Let_def)

lemma take_off_wait:
  assumes "wait_inv t" and "ns = WAITING \<Longrightarrow> task \<in> set (ready t) \<Longrightarrow>
      task \<noteq> 0 \<and> \<lparr>w_token = p_waitToken (procs t task), w_process = task\<rparr> \<in> set (waitqs t wt)"
  shows "wait_inv (take_off task ns wt t)"
  using assms by (auto simp: take_off_def wait_inv_def state_of_def)

lemma wq_wait_wait:
  assumes "wait_inv t" and "sched_inv t" and "wq_wait wq task t = Inr t'"
  shows "wait_inv t'"
proof -
  define t1 where "t1 = t\<lparr>waitqs := (waitqs t)(wq := waitqs t wq @ [\<lparr>w_token = p_waitToken (procs t task), w_process = task\<rparr>])\<rparr>"
  have i: "wait_inv t1" using assms(1) by (auto simp: wait_inv_def t1_def state_of_def)
  have s: "sched_inv t1" using assms(2) by (simp add: t1_def)
  have t': "t' = take_off task WAITING wq t1"
    using assms(3) s by (simp add: wq_wait_def pushToQueue_def t1_def [symmetric] deschedule_distinct sched_inv_distinct)
  have "task \<noteq> 0 \<and> \<lparr>w_token = p_waitToken (procs t1 task), w_process = task\<rparr> \<in> set (waitqs t1 wq)"
    if "task \<in> set (ready t1)"
    using that assms(2) by (auto simp: t1_def sched_inv_def)
  then show ?thesis using take_off_wait [OF i, of WAITING task wq] t' by blast
qed

lemma pm_yield_wait: "wait_inv t \<Longrightarrow> wait_inv (pm_yield b t)"
  by (simp add: pm_yield_def Let_def wait_inv_upd_same)

lemma pm_sleep_wait:
  assumes "wait_inv t" and "sched_inv t" and "pm_sleep d t = Inr t'"
  shows "wait_inv t'"
proof -
  define t1 where "t1 = upd_proc (current t) (\<lambda>p. p\<lparr>p_sleeptill := uptime t + ucast d\<rparr>) t"
  define t2 where "t2 = take_off (current t1) SLEEPING 0 t1"
  have w1: "wait_inv t1" and i1: "sched_inv t1"
    using assms by (simp_all add: t1_def sched_inv_upd_proc wait_inv_upd_same)
  have w2: "wait_inv t2" unfolding t2_def using w1 by (rule take_off_wait) simp
  have d: "deschedule (current t1) SLEEPING 0 t1 = Inr t2"
    using i1 by (simp add: t2_def deschedule_distinct sched_inv_distinct)
  obtain sq where "t' = pm_yield False (wq_wakeall (awaker_queue t2) (t2\<lparr>sleepq := sq\<rparr>))"
    using assms(3) d by (auto simp: pm_sleep_def t1_def [symmetric] Let_def kbind_eq_Inr_iff)
  then show ?thesis using w2 by (simp add: pm_yield_wait wq_wakeall_wait)
qed

lemma wq_yield_wait:
  assumes "wait_inv t" and "sched_inv t" and "wq_yield wq task timeout t = Inr t'"
  shows "wait_inv t'"
proof -
  obtain t1 where t1: "wq_wait wq task t = Inr t1" "(if timeout \<noteq> 0 then pm_sleep timeout t1 else Inr (pm_yield False t1)) = Inr t'"
    using assms(3) by (auto simp: wq_yield_def kbind_eq_Inr_iff)
  have "wait_inv t1" using wq_wait_wait [OF assms(1,2) t1(1)] .
  moreover have "sched_inv t1" using wq_wait_inv [OF assms(2), of wq task] t1(1) by auto
  ultimately show ?thesis using t1(2) pm_sleep_wait pm_yield_wait by (auto split: if_splits)
qed

end
