(* ===== verification/Proc_Life.thy ===== *)
theory Proc_Life
  imports Waiting
begin

text \<open>
  The end of a process: \<open>exit\<close>, \<open>kill\<close>, \<open>collect\<close> and \<open>collectany\<close> of
  \<open>src/kernel/src/process/manager.cpp\<close>, the reaper, and the system tasks that wake sleepers,
  collect orphans and delete dead processes (\<open>src/kernel/src/tasks\<close>).

  What \<open>exit\<close> and the deleter do to memory, open files and the terminal is the argument \<open>env\<close>: it
  acts on the part \<open>'w\<close> of the machine outside the scheduling state. Where that code wakes
  processes, as closing a pipe and giving up the terminal do, it returns the wait queues it
  wakes, in order, and \<open>exit\<close> wakes them. An operation
  that may block returns \<open>Blocks\<close> together with the state it leaves when it yields; when the
  process runs again the code starts the operation over.
\<close>

section \<open>Exit status\<close>

definition toWord :: "process_exit_status_t \<Rightarrow> u32" where
  "toWord es = ucast (es_status es) OR push_bit 24 (ucast (es_reason es))"

definition exit_status_of_word :: "u32 \<Rightarrow> process_exit_status_t" where
  "exit_status_of_word word = \<lparr>es_reason = ucast (drop_bit 24 word), es_status = ucast (word AND 0xFF)\<rparr>"

section \<open>Leaving\<close>

record 'w task_env =
  env_cleanupAllRegions :: "u32 \<Rightarrow> 'w \<Rightarrow> (u32 list \<times> 'w) kernel"
  env_cleanAddressSpace :: "'w \<Rightarrow> 'w kernel"
  env_closeFd :: "u32 \<Rightarrow> nat \<Rightarrow> 'w \<Rightarrow> (u32 list \<times> 'w) kernel"
  env_popfg :: "u32 \<Rightarrow> u16 \<Rightarrow> tasks \<Rightarrow> 'w \<Rightarrow> (u32 list \<times> 'w) kernel"
  env_pushExitWord :: "u32 \<Rightarrow> u32 \<Rightarrow> 'w \<Rightarrow> 'w kernel"
  env_dealloc :: "u32 \<Rightarrow> 'w \<Rightarrow> 'w kernel"
  env_unmap :: "u32 \<Rightarrow> 'w \<Rightarrow> 'w kernel"
  env_freeStrings :: "u32 \<Rightarrow> 'w \<Rightarrow> 'w kernel"
  env_clearGDT :: "u32 \<Rightarrow> 'w \<Rightarrow> 'w kernel"

definition getprocess :: "u16 \<Rightarrow> tasks \<Rightarrow> u32 kernel" where
  "getprocess pid t = pt_get pid (gProcessTable t)"

fun reparent :: "u32 \<Rightarrow> u32 list \<Rightarrow> tasks \<Rightarrow> tasks" where
  "reparent coll [] t = t"
| "reparent coll (c # cs) t =
     (let t = upd_proc c (\<lambda>p. p\<lparr>p_ppid := p_pid (procs t coll)\<rparr>) t;
          t = upd_proc coll (\<lambda>p. p\<lparr>p_children := p_children p @ [c]\<rparr>) t in
      reparent coll cs (wq_wakeall (collector_queue t) t))"

definition wake_queues :: "u32 list \<Rightarrow> tasks \<Rightarrow> tasks" where
  "wake_queues qs t = fold wq_wakeall qs t"

definition close_fd :: "'w task_env \<Rightarrow> u32 \<Rightarrow> nat \<Rightarrow> tasks \<times> 'w \<Rightarrow> (tasks \<times> 'w) kernel" where
  "close_fd env task i = (\<lambda>(t, w). kbind (env_closeFd env task i w) (\<lambda>(qs, w). Inr (wake_queues qs t, w)))"

definition exit_task ::
  "'w task_env \<Rightarrow> u32 \<Rightarrow> process_exit_status_t \<Rightarrow> tasks \<times> 'w \<Rightarrow> (tasks \<times> 'w) kernel"
where
  "exit_task env task es = (\<lambda>(t, w).
     if p_system (procs t task) then Inl (Panic ''attempting to kill a system process'')
     else
       let t = reparent (collectorTask t) (p_children (procs t task)) t;
           t = upd_proc task (\<lambda>p. p\<lparr>p_children := []\<rparr>) t in
       kbind (env_cleanupAllRegions env task w) (\<lambda>(qs, w).
       let t = wake_queues qs t in
       kbind (env_cleanAddressSpace env w) (\<lambda>w.
       kbind (kfold (close_fd env task) [0..<64] (t, w)) (\<lambda>(t, w).
       let t = upd_proc task (\<lambda>p. p\<lparr>p_state := EXITED\<rparr>) t in
       kbind (env_popfg env task (pid_of t task) t w) (\<lambda>(qs, w).
       let t = wake_queues qs t;
           t = upd_proc task (\<lambda>p. p\<lparr>p_exitstatus := es\<rparr>) t in
       kbind (getprocess (p_ppid (procs t task)) t) (\<lambda>parent.
       if parent = 0 then Inl NullDeref
       else if state_of t parent = COLLECTING then Inr (reschedule parent t, w)
       else Inr (t, w)))))))"

lemma wake_queues_append: "wake_queues qs' (wake_queues qs t) = wake_queues (qs @ qs') t"
  by (simp add: wake_queues_def)

lemma close_fd_Inr:
  "close_fd env task i (t, w) = Inr (t', w') \<longleftrightarrow> (\<exists>qs. env_closeFd env task i w = Inr (qs, w') \<and> t' = wake_queues qs t)"
  by (auto simp: close_fd_def kbind_eq_Inr_iff)

lemma close_fds_wake:
  "kfold (close_fd env task) is (t, w) = Inr (t', w') \<Longrightarrow> \<exists>qs. t' = wake_queues qs t"
proof (induction "is" arbitrary: t w)
  case Nil
  then show ?case by (auto simp: wake_queues_def intro: exI [of _ "[]"])
next
  case (Cons i "is")
  then obtain qs w1 where "kfold (close_fd env task) is (wake_queues qs t, w1) = Inr (t', w')"
    by (auto simp: close_fd_Inr kbind_eq_Inr_iff)
  then show ?case using Cons.IH wake_queues_append by metis
qed

text \<open>The task state an exit leaves: what it wakes on the way is not known, the rest is.\<close>

lemma exit_task_cases:
  assumes "exit_task env task es (t, w) = Inr (t', w')"
  obtains qs qs' t1 where
    "t1 = upd_proc task (\<lambda>p. p\<lparr>p_exitstatus := es\<rparr>) (wake_queues qs' (upd_proc task (\<lambda>p. p\<lparr>p_state := EXITED\<rparr>)
      (wake_queues qs (upd_proc task (\<lambda>p. p\<lparr>p_children := []\<rparr>) (reparent (collectorTask t) (p_children (procs t task)) t)))))"
    and "t' = t1 \<or> (\<exists>parent. parent \<noteq> 0 \<and> state_of t1 parent = COLLECTING \<and> t' = reschedule parent t1)"
proof -
  define t0 where "t0 = upd_proc task (\<lambda>p. p\<lparr>p_children := []\<rparr>) (reparent (collectorTask t) (p_children (procs t task)) t)"
  define T where "T = (\<lambda>qs t2. upd_proc task (\<lambda>p. p\<lparr>p_exitstatus := es\<rparr>)
    (wake_queues qs (upd_proc task (\<lambda>p. p\<lparr>p_state := EXITED\<rparr>) t2)))"
  have T: "upd_proc task (\<lambda>p. p\<lparr>p_exitstatus := es\<rparr>) (wake_queues qs (upd_proc task (\<lambda>p. p\<lparr>p_state := EXITED\<rparr>) t2))
      = T qs t2" for qs t2
    by (simp add: T_def)
  obtain qs w1 w2 t2 qs' where "kfold (close_fd env task) [0..<64] (wake_queues qs t0, w1) = Inr (t2, w2)"
    and fin: "t' = T qs' t2 \<or> (\<exists>parent. parent \<noteq> 0 \<and> state_of (T qs' t2) parent = COLLECTING \<and> t' = reschedule parent (T qs' t2))"
    using assms
    by (auto simp: exit_task_def kbind_eq_Inr_iff Let_def t0_def [symmetric] T split: if_splits) blast+
  moreover from this(1) obtain qs1 where "t2 = wake_queues qs1 (wake_queues qs t0)"
    using close_fds_wake [of env task "[0..<64]" "wake_queues qs t0" w1 t2 w2] by auto
  ultimately have "t' = T qs' (wake_queues (qs @ qs1) t0) \<or> (\<exists>parent. parent \<noteq> 0
      \<and> state_of (T qs' (wake_queues (qs @ qs1) t0)) parent = COLLECTING \<and> t' = reschedule parent (T qs' (wake_queues (qs @ qs1) t0)))"
    by (simp add: wake_queues_append)
  then show ?thesis using that [OF refl, of qs' "qs @ qs1"] by (simp add: T_def t0_def)
qed

definition pm_exit :: "'w task_env \<Rightarrow> process_exit_status_t \<Rightarrow> tasks \<times> 'w \<Rightarrow> (tasks \<times> 'w) kernel" where
  "pm_exit env es = (\<lambda>(t, w).
     kbind (exit_task env (current t) es (t, w)) (\<lambda>(t, w). Inr (pm_yield False t, w)))"

definition reaper :: "'w task_env \<Rightarrow> u32 \<Rightarrow> tasks \<times> 'w \<Rightarrow> (tasks \<times> 'w) kernel" where
  "reaper env exitword = pm_exit env (exit_status_of_word exitword)"

definition resumeat :: "u32 \<Rightarrow> u32 \<Rightarrow> u32 \<Rightarrow> u16 \<Rightarrow> u16 \<Rightarrow> tasks \<Rightarrow> tasks" where
  "resumeat task eip esp cs ss =
     upd_proc task (\<lambda>p. p\<lparr>p_eip := eip, p_esp := esp, p_cs := cs, p_ss := ss\<rparr>)"

definition pm_kill :: "'w task_env \<Rightarrow> u32 \<Rightarrow> u16 \<Rightarrow> tasks \<times> 'w \<Rightarrow> (bool outcome \<times> tasks \<times> 'w) kernel" where
  "pm_kill env reaper_addr pid = (\<lambda>(t, w).
     let es = \<lparr>es_reason = reason_killed, es_status = 0\<rparr> in
     kbind (getprocess pid t) (\<lambda>task.
     if task = current t then kbind (pm_exit env es (t, w)) (\<lambda>s. Inr (Blocks, s))
     else if task \<noteq> 0 then
       if p_system (procs t task) \<and> \<not> p_system (procs t (current t)) then Inr (Returns False, t, w)
       else
         let stack = p_esp0start (procs t task) in
         kbind (env_pushExitWord env stack (toWord es) w) (\<lambda>w.
         Inr (Returns True, resumeat task reaper_addr (stack - 4) 0x08 0x10 t, w))
     else Inr (Returns True, t, w)))"

section \<open>Collecting\<close>

definition enqueueForCollection :: "u32 \<Rightarrow> tasks \<Rightarrow> tasks kernel" where
  "enqueueForCollection task t =
     (if state_of t task \<noteq> COLLECTED then Inl (Panic ''only COLLECTED processes can go on collected list'')
      else Inr (wq_wakeall (deleter_queue t) (t\<lparr>gCollectedProcessList := gCollectedProcessList t @ [task]\<rparr>)))"

definition apostrophe :: string where
  "apostrophe = [CHR 0x27]"

definition pm_collect :: "u16 \<Rightarrow> tasks \<Rightarrow> (process_exit_status_t outcome \<times> tasks) kernel" where
  "pm_collect pid t =
     kbind (getprocess pid t) (\<lambda>task.
     if task = 0 then Inl (Panic ''cannot collect a non-existant process'')
     else
     kbind (getprocess (p_ppid (procs t task)) t) (\<lambda>parent.
     if parent \<noteq> current t
     then Inl (Panic (''cannot collect another process'' @ apostrophe @ '' child - that'' @ apostrophe @ ''s creepy''))
     else if state_of t task \<noteq> EXITED then
       kbind (deschedule (current t) COLLECTING 0 t) (\<lambda>t. Inr (Blocks, pm_yield False t))
     else if task \<notin> set (p_children (procs t parent)) then Inl (Panic ''process not listed in children of parent'')
     else
       let t = upd_proc parent (\<lambda>p. p\<lparr>p_children := remove1 task (p_children p)\<rparr>) t;
           result = p_exitstatus (procs t task) in
       kbind (pt_free (pid_of t) task (gExitedProcesses t)) (\<lambda>e.
       let t = t\<lparr>gExitedProcesses := e\<rparr>;
           t = upd_proc task (\<lambda>p. p\<lparr>p_state := COLLECTED\<rparr>) t in
       kbind (enqueueForCollection task t) (\<lambda>t. Inr (Returns result, t)))))"

definition pm_collectany :: "bool \<Rightarrow> tasks \<Rightarrow> ((u16 \<times> process_exit_status_t) option outcome \<times> tasks) kernel" where
  "pm_collectany wait t =
     (case find (\<lambda>c. state_of t c = EXITED) (p_children (procs t (current t))) of
        Some child \<Rightarrow>
          kbind (pm_collect (pid_of t child) t) (\<lambda>(r, t).
            Inr (case r of Blocks \<Rightarrow> Blocks | Returns es \<Rightarrow> Returns (Some (pid_of t child, es)), t))
      | None \<Rightarrow>
          if wait then kbind (deschedule (current t) COLLECTING 0 t) (\<lambda>t. Inr (Blocks, pm_yield False t))
          else Inr (Returns None, t))"

section \<open>System tasks\<close>

text \<open>One turn of the inner loop of the awaker; \<open>Returns ()\<close> goes round again.\<close>

definition awaker_step :: "tasks \<Rightarrow> (unit outcome \<times> tasks) kernel" where
  "awaker_step t =
     (if sleepq t = [] then kbind (wq_yield (awaker_queue t) (current t) 0 t) (\<lambda>t. Inr (Blocks, t))
      else
        let now = uptime t in
        kbind (pq_top (sleepq t)) (\<lambda>top.
        if state_of t (qe_process top) = EXITED then
          kbind (pq_pop (sleep_compare (sleeptill_of t)) (sleepq t)) (\<lambda>(e, sq).
          kbind (enqueueForDeath (qe_process e) (t\<lparr>sleepq := sq\<rparr>)) (\<lambda>t. Inr (Returns (), t)))
        else if p_sleeptill (procs t (qe_process top)) \<le> now then
          if p_waitToken (procs t (qe_process top)) = qe_token top then
            kbind (pq_pop (sleep_compare (sleeptill_of t)) (sleepq t)) (\<lambda>(e, sq).
            Inr (Returns (), pm_wake (qe_process e) (t\<lparr>sleepq := sq\<rparr>)))
          else Inr (Returns (), t)
        else Inr (Blocks, pm_yield False t)))"

fun awaker_loop :: "nat \<Rightarrow> tasks \<Rightarrow> tasks kernel" where
  "awaker_loop 0 t = Inl Diverges"
| "awaker_loop (Suc k) t =
     kbind (awaker_step t) (\<lambda>(r, t). case r of Blocks \<Rightarrow> Inr t | Returns _ \<Rightarrow> awaker_loop k t)"

definition collector_step :: "tasks \<Rightarrow> (unit outcome \<times> tasks) kernel" where
  "collector_step t =
     (case p_children (procs t (current t)) of
        [] \<Rightarrow> kbind (wq_yield (collector_queue t) (current t) 0 t) (\<lambda>t. Inr (Blocks, t))
      | child # _ \<Rightarrow>
          kbind (pm_collect (pid_of t child) t) (\<lambda>(r, t).
            Inr (case r of Blocks \<Rightarrow> Blocks | Returns _ \<Rightarrow> Returns (), t)))"

definition delete_process :: "'w task_env \<Rightarrow> u32 \<Rightarrow> u32 \<Rightarrow> tasks \<times> 'w \<Rightarrow> (tasks \<times> 'w) kernel" where
  "delete_process env numsys proc = (\<lambda>(t, w).
     kbind (env_freeStrings env proc w) (\<lambda>w.
     kbind (env_clearGDT env (ucast (pid_of t proc) + numsys) w) (\<lambda>w.
     kbind (bm_free (pid_of t proc) (gPidBitmap t)) (\<lambda>pb.
     kbind (bm_free (ucast (p_gdtidx (procs t proc))) (gGDTBitmap t)) (\<lambda>gb.
     kbind (pt_free (pid_of t) proc (gProcessTable t)) (\<lambda>pt.
     kbind (env_dealloc env (p_cr3 (procs t proc)) w) (\<lambda>w.
     kbind (if p_esp0start (procs t proc) \<noteq> 0 then env_unmap env (p_esp0start (procs t proc)) w else Inr w) (\<lambda>w.
     kbind (if p_espstart (procs t proc) \<noteq> 0 then env_unmap env (p_espstart (procs t proc)) w else Inr w) (\<lambda>w.
     kbind (env_unmap env proc w) (\<lambda>w.
     Inr (t\<lparr>gPidBitmap := pb, gGDTBitmap := gb, gProcessTable := pt\<rparr>, w)))))))))))"

definition deleter_step :: "'w task_env \<Rightarrow> u32 \<Rightarrow> tasks \<times> 'w \<Rightarrow> (unit outcome \<times> tasks \<times> 'w) kernel" where
  "deleter_step env numsys = (\<lambda>(t, w).
     case gCollectedProcessList t of
       [] \<Rightarrow> kbind (wq_yield (deleter_queue t) (current t) 0 t) (\<lambda>t. Inr (Blocks, t, w))
     | proc # col \<Rightarrow>
         kbind (delete_process env numsys proc (t\<lparr>gCollectedProcessList := col\<rparr>, w)) (\<lambda>s. Inr (Returns (), s)))"

end
