(* ===== verification/Task_System.thy ===== *)
theory Task_System
  imports Proc_Life
begin

text \<open>
  The processes and the system tasks together: one step of \<open>task_step\<close> is what the running
  process does between two scheduling decisions, followed by the scheduler where the code yields.
  The theorems hold in every state reachable by such steps.
\<close>

section \<open>Steps\<close>

inductive task_step :: "'w task_env \<Rightarrow> u32 \<Rightarrow> u32 \<Rightarrow> tasks \<times> 'w \<Rightarrow> tasks \<times> 'w \<Rightarrow> bool"
  for env :: "'w task_env" and numsys :: u32 and reaper_addr :: u32
where
  ts_wait: "wq_yield wq (current t) timeout t = Inr t1 \<Longrightarrow> scheduler_task t1 = Inr t2 \<Longrightarrow>
    task_step env numsys reaper_addr (t, w) (t2, w)"
| ts_wakeall: "task_step env numsys reaper_addr (t, w) (wq_wakeall wq t, w)"
| ts_wakeone: "task_step env numsys reaper_addr (t, w) (snd (wq_wakeone wq t), w)"
| ts_sleep: "pm_sleep d t = Inr t1 \<Longrightarrow> scheduler_task t1 = Inr t2 \<Longrightarrow>
    task_step env numsys reaper_addr (t, w) (t2, w)"
| ts_yield: "scheduler_task (pm_yield bytimer t) = Inr t2 \<Longrightarrow> task_step env numsys reaper_addr (t, w) (t2, w)"
| ts_tick: "task_step env numsys reaper_addr (t, w) (snd (tickForSchedule can_yield t)\<lparr>uptime := u\<rparr>, w)"
| ts_exit: "pm_exit env es (t, w) = Inr (t1, w1) \<Longrightarrow> scheduler_task t1 = Inr t2 \<Longrightarrow>
    task_step env numsys reaper_addr (t, w) (t2, w1)"
| ts_kill: "pm_kill env reaper_addr pid (t, w) = Inr (Returns b, t1, w1) \<Longrightarrow>
    task_step env numsys reaper_addr (t, w) (t1, w1)"
| ts_kill_self: "pm_kill env reaper_addr pid (t, w) = Inr (Blocks, t1, w1) \<Longrightarrow> scheduler_task t1 = Inr t2 \<Longrightarrow>
    task_step env numsys reaper_addr (t, w) (t2, w1)"
| ts_collect: "pm_collect pid t = Inr (Returns es, t1) \<Longrightarrow> task_step env numsys reaper_addr (t, w) (t1, w)"
| ts_collect_wait: "pm_collect pid t = Inr (Blocks, t1) \<Longrightarrow> scheduler_task t1 = Inr t2 \<Longrightarrow>
    task_step env numsys reaper_addr (t, w) (t2, w)"
| ts_collectany: "pm_collectany wait t = Inr (Returns r, t1) \<Longrightarrow> task_step env numsys reaper_addr (t, w) (t1, w)"
| ts_collectany_wait: "pm_collectany wait t = Inr (Blocks, t1) \<Longrightarrow> scheduler_task t1 = Inr t2 \<Longrightarrow>
    task_step env numsys reaper_addr (t, w) (t2, w)"
| ts_awaker: "awaker_step t = Inr (Returns (), t1) \<Longrightarrow> task_step env numsys reaper_addr (t, w) (t1, w)"
| ts_awaker_wait: "awaker_step t = Inr (Blocks, t1) \<Longrightarrow> scheduler_task t1 = Inr t2 \<Longrightarrow>
    task_step env numsys reaper_addr (t, w) (t2, w)"
| ts_deleter: "deleter_step env numsys (t, w) = Inr (Returns (), t1, w1) \<Longrightarrow>
    task_step env numsys reaper_addr (t, w) (t1, w1)"
| ts_user: "task_step env numsys reaper_addr (t, w) (t, w1)"

section \<open>The invariant while a process runs\<close>

text \<open>
  When a process is running nobody on the ready queue has exited: the queue holds exactly the
  runnable processes, each once.
\<close>

definition run_inv :: "tasks \<Rightarrow> bool" where
  "run_inv t \<longleftrightarrow> sched_inv t \<and> wait_inv t \<and> (\<forall>p\<in>set (ready t). state_of t p = AVAILABLE)
     \<and> current t \<noteq> 0 \<and> (\<forall>e\<in>set (sleepq t). qe_process e \<noteq> 0)"

text \<open>What is left at the moment a process calls the scheduler.\<close>

definition yield_inv :: "tasks \<Rightarrow> bool" where
  "yield_inv t \<longleftrightarrow> sched_inv t \<and> wait_inv t \<and> (\<forall>e\<in>set (sleepq t). qe_process e \<noteq> 0)"

lemma run_yield_inv: "run_inv t \<Longrightarrow> yield_inv t"
  by (simp add: run_inv_def yield_inv_def)

lemma purge_done:
  assumes "lottery_scan t (ready t) 0 = Inr m" and "sched_inv t"
  shows "\<forall>p\<in>set (ready t). state_of t p = AVAILABLE"
proof -
  have "\<not> (\<exists>p\<in>set (ready t). state_of t p = EXITED)"
    using assms(1) lottery_scan_exited [of "ready t" t 0] by auto
  then show ?thesis using assms(2) by (auto simp: sched_inv_def)
qed

lemma lottery_purge_partial:
  assumes "lottery_purge fuel t = Inr (n, t')" and "yield_inv t"
  shows "yield_inv t' \<and> (\<forall>p\<in>set (ready t'). state_of t' p = AVAILABLE)"
  using assms
proof (induction fuel arbitrary: t)
  case 0
  then have "lottery_scan t (ready t) 0 = Inr n \<and> t' = t"
    by (subst (asm) lottery_purge.simps) (simp split: sum.splits)
  then show ?case using purge_done 0(2) by (auto simp: yield_inv_def)
next
  case (Suc k)
  show ?case
  proof (cases "lottery_scan t (ready t) 0")
    case (Inr m)
    then have "t' = t" using Suc.prems(1) by (subst (asm) lottery_purge.simps) simp
    then show ?thesis using purge_done [OF Inr] Suc.prems(2) by (auto simp: yield_inv_def)
  next
    case (Inl p)
    then obtain t1 where t1: "enqueueForDeath p t = Inr t1" "lottery_purge k (t1\<lparr>ready := remove1 p (ready t1)\<rparr>) = Inr (n, t')"
      using Suc.prems(1) by (subst (asm) lottery_purge.simps) (auto simp: kbind_eq_Inr_iff)
    then obtain e where e: "t1 = t\<lparr>gExitedProcesses := e\<rparr>" "state_of t p = EXITED"
      by (auto simp: enqueueForDeath_def kbind_eq_Inr_iff split: if_splits)
    have "set (remove1 p (ready t)) = set (ready t) - {p}"
      using Suc.prems(2) by (simp add: yield_inv_def sched_inv_def set_remove1_eq)
    then have "yield_inv (t1\<lparr>ready := remove1 p (ready t1)\<rparr>)"
      using Suc.prems(2) e by (auto simp: yield_inv_def sched_inv_def)
    then show ?thesis using Suc.IH t1(2) by blast
  qed
qed

lemma scheduler_task_inv:
  assumes "scheduler_task t = Inr t'" and "yield_inv t"
  shows "run_inv t'"
proof -
  obtain q t1 where q: "lottery_next t = Inr (q, t1)"
    "t' = ctxswitch q (upd_proc q (\<lambda>p. p\<lparr>p_due_for_reschedule := False\<rparr>) t1)"
    using assms(1) by (auto simp: scheduler_task_def kbind_eq_Inr_iff Let_def)
  obtain n t0 where n: "lottery_purge (length (ready t)) t = Inr (n, t0)"
    using q(1) by (auto simp: lottery_next_def kbind_eq_Inr_iff)
  obtain r1 g1 where g1: "rng_next (rng t0) = (r1, g1)" by fastforce
  obtain r2 g2 where g2: "rng_next g1 = (r2, g2)" by fastforce
  have "t1 = t0\<lparr>rng := g2\<rparr> \<and> q \<noteq> 0"
    using q(1) n g1 g2 by (auto simp: lottery_next_def Let_def split: if_splits)
  with n have p: "lottery_purge (length (ready t)) t = Inr (n, t0)" "t1 = t0\<lparr>rng := g2\<rparr>" "q \<noteq> 0" by simp_all
  have "yield_inv t0" "\<forall>p\<in>set (ready t0). state_of t0 p = AVAILABLE"
    using lottery_purge_partial [OF p(1) assms(2)] by auto
  then have "yield_inv t1" "\<forall>p\<in>set (ready t1). state_of t1 p = AVAILABLE"
    using p(2) by (auto simp: yield_inv_def)
  then show ?thesis
    using q(2) p(3)
    by (simp add: run_inv_def yield_inv_def ctxswitch_def sched_inv_upd_proc wait_inv_upd_same) (simp add: state_of_def)
qed

section \<open>Every step keeps it\<close>

lemma pm_wake_run:
  assumes run: "run_inv t" and "task \<noteq> 0" and "state_of t task \<noteq> EXITED"
  shows "run_inv (pm_wake task t)"
proof (cases "state_of t task = AVAILABLE")
  case False
  have r: "ready (pm_wake task t) = ready t @ [task]" and c: "current (pm_wake task t) = current t"
    "sleepq (pm_wake task t) = sleepq t"
    using False by (simp_all add: pm_wake_def Let_def reschedule_def wq_remove_def)
  have st: "state_of (pm_wake task t) q = (if q = task then AVAILABLE else state_of t q)" for q
    using False by (simp add: pm_wake_def Let_def reschedule_def wq_remove_def)
  have "sched_inv (pm_wake task t)" "wait_inv (pm_wake task t)"
    using pm_wake_inv pm_wake_wait assms by (simp_all add: run_inv_def)
  then show ?thesis using run r c st by (simp add: run_inv_def)
qed (simp add: pm_wake_def run)

lemma pm_yield_sleepq [simp]: "sleepq (pm_yield b t) = sleepq t"
  by (simp add: pm_yield_def Let_def)

lemma pm_yield_yield: "yield_inv t \<Longrightarrow> yield_inv (pm_yield b t)"
  by (simp add: yield_inv_def pm_yield_inv pm_yield_wait)

lemma wq_wakeall_avail:
  assumes "\<forall>p\<in>set (ready t). state_of t p = AVAILABLE"
  shows "\<forall>p\<in>set (ready (wq_wakeall wq t)). state_of (wq_wakeall wq t) p = AVAILABLE"
proof -
  have "\<forall>p\<in>set (ready (wakeall_loop wq qs t)). state_of (wakeall_loop wq qs t) p = AVAILABLE" for qs
    using assms
  proof (induction wq qs t rule: wakeall_loop.induct)
    case (2 wq q qs t)
    then show ?case
      by (auto simp: wq_wake_def pm_ready_def reschedule_def Let_def)
  qed simp
  then show ?thesis by (simp add: wq_wakeall_def Let_def)
qed

lemma wq_wakeall_run: "run_inv t \<Longrightarrow> run_inv (wq_wakeall wq t)"
  using wq_wakeall_avail by (auto simp: run_inv_def wq_wakeall_inv wq_wakeall_wait)

lemma wq_wakeall_yield: "yield_inv t \<Longrightarrow> yield_inv (wq_wakeall wq t)"
  by (simp add: yield_inv_def wq_wakeall_inv wq_wakeall_wait)

lemma wakeone_loop_avail:
  assumes "\<forall>p\<in>set (ready t). state_of t p = AVAILABLE" and "wakeone_loop wq qs t = (p, qs', t')"
  shows "(\<forall>p\<in>set (ready t'). state_of t' p = AVAILABLE) \<and> sleepq t' = sleepq t \<and> current t' = current t"
  using assms
proof (induction wq qs t rule: wakeone_loop.induct)
  case (2 wq q qs t)
  obtain ok t1 where w: "wq_wake wq q t = (ok, t1)" by fastforce
  then have "(\<forall>p\<in>set (ready t1). state_of t1 p = AVAILABLE) \<and> sleepq t1 = sleepq t \<and> current t1 = current t"
    using 2(2) by (auto simp: wq_wake_def pm_ready_def reschedule_def Let_def split: if_splits)
  then show ?case using 2 w by (auto split: if_splits)
qed auto

lemma wq_wakeone_run: "run_inv t \<Longrightarrow> run_inv (snd (wq_wakeone wq t))"
proof -
  assume run: "run_inv t"
  obtain p qs t1 where w: "wakeone_loop wq (waitqs t wq) t = (p, qs, t1)" using prod_cases3 by blast
  have a: "\<forall>p\<in>set (ready t). state_of t p = AVAILABLE" using run by (simp add: run_inv_def)
  have "snd (wq_wakeone wq t) = t1\<lparr>waitqs := (waitqs t1)(wq := qs)\<rparr>" using w by (simp add: wq_wakeone_def)
  moreover have "sched_inv (snd (wq_wakeone wq t))" "wait_inv (snd (wq_wakeone wq t))"
    using run wq_wakeone_inv wq_wakeone_wait by (simp_all add: run_inv_def)
  ultimately show ?thesis using run wakeone_loop_avail [OF a w] by (simp add: run_inv_def)
qed

lemma wq_wait_sleepq: "sched_inv t \<Longrightarrow> wq_wait wq task t = Inr t' \<Longrightarrow> sleepq t' = sleepq t \<and> current t' = current t"
  by (auto simp: wq_wait_def pushToQueue_def deschedule_eq take_off_def Let_def split: if_splits)

lemma pm_sleep_yield:
  assumes "yield_inv t" and "current t \<noteq> 0" and "pm_sleep d t = Inr t'"
  shows "yield_inv t'"
proof -
  define t1 where "t1 = upd_proc (current t) (\<lambda>p. p\<lparr>p_sleeptill := uptime t + ucast d\<rparr>) t"
  define t2 where "t2 = take_off (current t1) SLEEPING 0 t1"
  have i1: "sched_inv t1" using assms(1) by (simp add: t1_def sched_inv_upd_proc yield_inv_def)
  have i2: "sched_inv t2" unfolding t2_def using i1 by (rule take_off_inv) simp
  have c: "current t2 = current t" "sleepq t2 = sleepq t" by (simp_all add: t2_def t1_def take_off_def)
  have "deschedule (current t1) SLEEPING 0 t1 = Inr t2"
    using i1 by (simp add: t2_def deschedule_distinct sched_inv_distinct)
  then obtain e sq where sq: "pq_insert (sleep_compare (sleeptill_of t2)) e (sleepq t2) = Inr sq" "qe_process e = current t2"
    "t' = pm_yield False (wq_wakeall (awaker_queue t2) (t2\<lparr>sleepq := sq\<rparr>))"
    using assms(3) by (auto simp: pm_sleep_def t1_def [symmetric] Let_def kbind_eq_Inr_iff)
  have "set sq = insert e (set (sleepq t2))"
    using arg_cong [OF pq_insert_mset [OF sq(1)], of set_mset] by simp
  then have "\<forall>e\<in>set (sleepq t'). qe_process e \<noteq> 0" using sq c assms(1,2) by (auto simp: yield_inv_def)
  moreover have "sched_inv t'" using sq(3) i2 by (simp add: pm_yield_inv wq_wakeall_inv)
  moreover have "wait_inv t'" using pm_sleep_wait assms by (auto simp: yield_inv_def)
  ultimately show ?thesis by (simp add: yield_inv_def)
qed

lemma wq_yield_yield:
  assumes "run_inv t" and "wq_yield wq task timeout t = Inr t'"
  shows "yield_inv t'"
proof -
  have y: "yield_inv t" "current t \<noteq> 0" using assms(1) by (simp_all add: run_inv_def yield_inv_def)
  obtain t1 where t1: "wq_wait wq task t = Inr t1"
      "(if timeout \<noteq> 0 then pm_sleep timeout t1 else Inr (pm_yield False t1)) = Inr t'"
    using assms(2) by (auto simp: wq_yield_def kbind_eq_Inr_iff)
  have "sched_inv t1" using wq_wait_inv [of t wq task] t1(1) y by (auto simp: yield_inv_def)
  moreover have "wait_inv t1" using wq_wait_wait t1(1) y by (auto simp: yield_inv_def)
  moreover have s: "sleepq t1 = sleepq t" "current t1 = current t" using wq_wait_sleepq t1(1) y by (auto simp: yield_inv_def)
  ultimately have "yield_inv t1" using y by (simp add: yield_inv_def)
  then show ?thesis using t1(2) s y pm_sleep_yield pm_yield_yield by (auto split: if_splits)
qed

lemma tick_run: "run_inv t \<Longrightarrow> run_inv (snd (tickForSchedule b t)\<lparr>uptime := u\<rparr>)"
  by (simp add: tickForSchedule_def Let_def run_inv_def sched_inv_upd_proc wait_inv_upd_same)
     (simp add: state_of_def)

lemma deschedule_yield:
  assumes "run_inv t" and "deschedule task ns 0 t = Inr t1" and "ns \<noteq> AVAILABLE" and "ns \<noteq> WAITING"
  shows "yield_inv t1"
proof -
  have t1: "t1 = take_off task ns 0 t"
    using assms(1,2) by (simp add: run_inv_def deschedule_distinct sched_inv_distinct)
  have "wait_inv t1" unfolding t1 using assms(1,4) by (intro take_off_wait) (auto simp: run_inv_def)
  moreover have "sched_inv t1" unfolding t1 using assms(1,3) by (intro take_off_inv) (auto simp: run_inv_def)
  moreover have "sleepq t1 = sleepq t" unfolding t1 by (simp add: take_off_def)
  ultimately show ?thesis using assms(1) by (simp add: yield_inv_def run_inv_def)
qed

lemma upd_proc_run:
  assumes "run_inv t" and "\<And>x. p_state (f x) = p_state x" and "\<And>x. p_waitToken (f x) = p_waitToken x"
    and "\<And>x. p_wake_waitable (f x) = p_wake_waitable x"
  shows "run_inv (upd_proc p f t)"
  using assms by (simp add: run_inv_def sched_inv_upd_proc wait_inv_upd_same) (simp add: state_of_def)

lemma reparent_run: "run_inv t \<Longrightarrow> run_inv (reparent coll cs t)"
  by (induction coll cs t rule: reparent.induct)
     (simp_all add: Let_def wq_wakeall_run upd_proc_run)

lemma reparent_current [simp]: "current (reparent coll cs t) = current t"
  by (induction coll cs t rule: reparent.induct) (simp_all add: Let_def)

lemma wake_queues_run: "run_inv t \<Longrightarrow> run_inv (wake_queues qs t)"
  unfolding wake_queues_def by (induction qs arbitrary: t) (simp_all add: wq_wakeall_run)

lemma wake_queues_yield: "yield_inv t \<Longrightarrow> yield_inv (wake_queues qs t)"
  unfolding wake_queues_def by (induction qs arbitrary: t) (simp_all add: wq_wakeall_yield)

lemma exit_task_inv:
  assumes run: "run_inv t" and task: "task = current t" and ex: "exit_task env task es (t, w) = Inr (t', w')"
  shows "yield_inv t'"
  using ex
proof (cases rule: exit_task_cases)
  case (1 qs qs' t2)
  define t1 where "t1 = wake_queues qs (upd_proc task (\<lambda>p. p\<lparr>p_children := []\<rparr>)
    (reparent (collectorTask t) (p_children (procs t task)) t))"
  have r1: "run_inv t1" unfolding t1_def using run by (intro wake_queues_run upd_proc_run reparent_run) simp_all
  have "sched_inv (upd_proc task (\<lambda>p. p\<lparr>p_state := EXITED\<rparr>) t1)" "wait_inv (upd_proc task (\<lambda>p. p\<lparr>p_state := EXITED\<rparr>) t1)"
    using r1 by (auto simp: run_inv_def sched_inv_def wait_inv_def state_of_def)
  then have "yield_inv (upd_proc task (\<lambda>p. p\<lparr>p_state := EXITED\<rparr>) t1)"
    using r1 by (simp add: yield_inv_def run_inv_def)
  then have "yield_inv (wake_queues qs' (upd_proc task (\<lambda>p. p\<lparr>p_state := EXITED\<rparr>) t1))"
    by (rule wake_queues_yield)
  then have y2: "yield_inv t2"
    unfolding 1(1) t1_def [symmetric] by (simp add: yield_inv_def sched_inv_upd_proc wait_inv_upd_same)
  show ?thesis
  proof (cases "t' = t2")
    case False
    then obtain parent where q: "parent \<noteq> 0" "state_of t2 parent = COLLECTING" "t' = reschedule parent t2" using 1(2) by blast
    then have "parent \<notin> set (ready t2)" using y2 not_queued [of t2 parent] by (simp add: yield_inv_def)
    moreover have "sleepq t' = sleepq t2" using q(3) by (simp add: reschedule_def Let_def)
    ultimately show ?thesis using y2 q reschedule_inv reschedule_wait by (simp add: yield_inv_def)
  qed (simp add: y2)
qed

lemma pm_exit_inv:
  assumes "run_inv t" and "pm_exit env es (t, w) = Inr (t', w')"
  shows "yield_inv t'"
proof -
  obtain t1 where e: "exit_task env (current t) es (t, w) = Inr (t1, w')" and t': "t' = pm_yield False t1"
    using assms(2) by (auto simp: pm_exit_def kbind_eq_Inr_iff)
  show ?thesis unfolding t' by (intro pm_yield_yield exit_task_inv [OF assms(1) refl e])
qed

lemma retire_run:
  assumes run: "run_inv t" and ex: "state_of t p = EXITED"
  shows "run_inv (upd_proc p (\<lambda>x. x\<lparr>p_state := COLLECTED\<rparr>) t)"
proof -
  have "p \<notin> set (ready t)" using run ex by (auto simp: run_inv_def)
  then have "sched_inv (upd_proc p (\<lambda>x. x\<lparr>p_state := COLLECTED\<rparr>) t)" using run by (auto simp: run_inv_def sched_inv_def)
  moreover have "wait_inv (upd_proc p (\<lambda>x. x\<lparr>p_state := COLLECTED\<rparr>) t)"
    using run by (intro wait_inv_upd_awake) (simp_all add: run_inv_def)
  ultimately show ?thesis using run \<open>p \<notin> set (ready t)\<close> by (auto simp: run_inv_def)
qed

lemma pm_collect_inv:
  assumes run: "run_inv t" and c: "pm_collect pid t = Inr (r, t')"
  shows "case r of Blocks \<Rightarrow> yield_inv t' | Returns _ \<Rightarrow> run_inv t'"
proof -
  obtain task where g: "getprocess pid t = Inr task" using c by (auto simp: pm_collect_def kbind_eq_Inr_iff)
  show ?thesis
  proof (cases "state_of t task = EXITED")
    case False
    then obtain t1 where "deschedule (current t) COLLECTING 0 t = Inr t1" "t' = pm_yield False t1" "r = Blocks"
      using c g by (auto simp: pm_collect_def kbind_eq_Inr_iff Let_def split: if_splits)
    then show ?thesis using deschedule_yield [OF run] pm_yield_yield by auto
  next
    case True
    define t1 where "t1 = upd_proc (current t) (\<lambda>p. p\<lparr>p_children := remove1 task (p_children p)\<rparr>) t"
    obtain e es where e: "enqueueForCollection task (upd_proc task (\<lambda>p. p\<lparr>p_state := COLLECTED\<rparr>) (t1\<lparr>gExitedProcesses := e\<rparr>)) = Inr t'"
        "r = Returns es"
      using c g True by (auto simp: pm_collect_def kbind_eq_Inr_iff Let_def t1_def split: if_splits)
    define t2 where "t2 = upd_proc task (\<lambda>p. p\<lparr>p_state := COLLECTED\<rparr>) (t1\<lparr>gExitedProcesses := e\<rparr>)"
    have "run_inv t1" unfolding t1_def using run by (rule upd_proc_run) simp_all
    moreover have "state_of t1 task = EXITED" using True by (auto simp: t1_def state_of_def)
    ultimately have "run_inv t2" unfolding t2_def by (intro retire_run) (simp_all add: run_inv_def)
    then have "run_inv (t2\<lparr>gCollectedProcessList := gCollectedProcessList t2 @ [task]\<rparr>)" by (simp add: run_inv_def)
    moreover have "t' = wq_wakeall (deleter_queue t2) (t2\<lparr>gCollectedProcessList := gCollectedProcessList t2 @ [task]\<rparr>)"
      using e(1) by (simp add: enqueueForCollection_def t2_def [symmetric] split: if_splits)
    ultimately show ?thesis using e(2) wq_wakeall_run by simp
  qed
qed

lemma pm_collectany_inv:
  assumes run: "run_inv t" and c: "pm_collectany wait t = Inr (r, t')"
  shows "case r of Blocks \<Rightarrow> yield_inv t' | Returns _ \<Rightarrow> run_inv t'"
proof (cases "find (\<lambda>c. state_of t c = EXITED) (p_children (procs t (current t)))")
  case None
  then show ?thesis using c deschedule_yield [OF run] pm_yield_yield run
    by (auto simp: pm_collectany_def kbind_eq_Inr_iff split: if_splits)
next
  case (Some child)
  then obtain r1 where "pm_collect (pid_of t child) t = Inr (r1, t')"
      "r = (case r1 of Blocks \<Rightarrow> Blocks | Returns es \<Rightarrow> Returns (Some (pid_of t' child, es)))"
    using c by (auto simp: pm_collectany_def kbind_eq_Inr_iff)
  then show ?thesis using pm_collect_inv [OF run, of "pid_of t child" r1 t'] by (cases r1) simp_all
qed

lemma pm_kill_inv:
  assumes run: "run_inv t" and k: "pm_kill env ra pid (t, w) = Inr (r, t', w')"
  shows "case r of Blocks \<Rightarrow> yield_inv t' | Returns _ \<Rightarrow> run_inv t'"
proof -
  obtain task where g: "getprocess pid t = Inr task" using k by (auto simp: pm_kill_def kbind_eq_Inr_iff Let_def)
  have res: "run_inv (resumeat task a b c d t)" for a b c d
    unfolding resumeat_def using run by (rule upd_proc_run) simp_all
  show ?thesis
  proof (cases "task = current t")
    case True
    then obtain s where "pm_exit env \<lparr>es_reason = reason_killed, es_status = 0\<rparr> (t, w) = Inr s" "r = Blocks" "s = (t', w')"
      using k g by (auto simp: pm_kill_def kbind_eq_Inr_iff Let_def)
    then show ?thesis using pm_exit_inv [OF run] by simp
  next
    case False
    then show ?thesis using k g run res
      by (auto simp: pm_kill_def kbind_eq_Inr_iff Let_def split: if_splits)
  qed
qed

lemma delete_process_tables:
  assumes "delete_process env n proc (t, w) = Inr (t', w')"
  shows "\<exists>pb gb pt. t' = t\<lparr>gPidBitmap := pb, gGDTBitmap := gb, gProcessTable := pt\<rparr>"
  using assms unfolding delete_process_def prod.case
  by (elim kbind_eq_InrE) (simp, metis)

lemma deleter_run:
  assumes run: "run_inv t" and d: "deleter_step env n (t, w) = Inr (Returns u, t', w')"
  shows "run_inv t'"
proof -
  obtain proc col where del: "gCollectedProcessList t = proc # col"
      "delete_process env n proc (t\<lparr>gCollectedProcessList := col\<rparr>, w) = Inr (t', w')"
    using d by (auto simp: deleter_step_def kbind_eq_Inr_iff split: list.splits)
  from delete_process_tables [OF del(2)] show ?thesis
  proof (elim exE)
    fix pb gb pt
    assume "t' = t\<lparr>gCollectedProcessList := col, gPidBitmap := pb, gGDTBitmap := gb, gProcessTable := pt\<rparr>"
    then show ?thesis using run by (simp add: run_inv_def)
  qed
qed

lemma awaker_step_inv:
  assumes run: "run_inv t" and a: "awaker_step t = Inr (r, t')"
  shows "case r of Blocks \<Rightarrow> yield_inv t' | Returns _ \<Rightarrow> run_inv t'"
proof (cases "sleepq t")
  case Nil
  then show ?thesis using a wq_yield_yield [OF run] by (auto simp: awaker_step_def kbind_eq_Inr_iff)
next
  case (Cons top rest)
  define p where "p = qe_process top"
  have p0: "p \<noteq> 0" using run Cons by (simp add: run_inv_def p_def)
  have pop: "e = top \<and> set sq \<subseteq> set (sleepq t)" if "pq_pop c (sleepq t) = Inr (e, sq)" for c e sq
    using pq_pop_mset [OF that] Cons by (auto simp: set_mset_mset [symmetric] simp del: set_mset_mset)
  have sub: "run_inv (t\<lparr>sleepq := sq\<rparr>)" if "set sq \<subseteq> set (sleepq t)" for sq
    using run that by (auto simp: run_inv_def)
  consider "state_of t p = EXITED" | "state_of t p \<noteq> EXITED" "p_sleeptill (procs t p) \<le> uptime t" "p_waitToken (procs t p) = qe_token top"
    | "state_of t p \<noteq> EXITED" "p_sleeptill (procs t p) \<le> uptime t" "p_waitToken (procs t p) \<noteq> qe_token top"
    | "state_of t p \<noteq> EXITED" "\<not> p_sleeptill (procs t p) \<le> uptime t" by blast
  then show ?thesis
  proof cases
    case 1
    then obtain e sq x where "pq_pop (sleep_compare (sleeptill_of t)) (sleepq t) = Inr (e, sq)"
        "t' = t\<lparr>sleepq := sq, gExitedProcesses := x\<rparr>" "r = Returns ()"
      using a Cons by (auto simp: awaker_step_def pq_top_def p_def kbind_eq_Inr_iff enqueueForDeath_def split: if_splits)
    then show ?thesis using pop sub by (fastforce simp: run_inv_def)
  next
    case 2
    then obtain e sq where e: "pq_pop (sleep_compare (sleeptill_of t)) (sleepq t) = Inr (e, sq)"
        "t' = pm_wake (qe_process e) (t\<lparr>sleepq := sq\<rparr>)" "r = Returns ()"
      using a Cons by (auto simp: awaker_step_def pq_top_def p_def kbind_eq_Inr_iff split: if_splits)
    have "run_inv (t\<lparr>sleepq := sq\<rparr>)" using sub pop [OF e(1)] by simp
    then have "run_inv (pm_wake p (t\<lparr>sleepq := sq\<rparr>))" by (rule pm_wake_run) (use p0 2(1) in simp_all)
    then show ?thesis using e pop [OF e(1)] by (simp add: p_def)
  next
    case 3
    then show ?thesis using a Cons run by (auto simp: awaker_step_def pq_top_def p_def)
  next
    case 4
    then show ?thesis using a Cons pm_yield_yield [OF run_yield_inv [OF run]]
      by (auto simp: awaker_step_def pq_top_def p_def)
  qed
qed

lemma task_step_inv:
  assumes "task_step env n ra s s'" and "run_inv (fst s)"
  shows "run_inv (fst s')"
  using assms
proof (induction rule: task_step.induct)
  case (ts_wait wq t timeout t1 t2 w)
  then show ?case using wq_yield_yield scheduler_task_inv by fastforce
next
  case (ts_sleep d t t1 t2 w)
  then have "yield_inv t1" by (intro pm_sleep_yield [of t d t1] run_yield_inv) (simp_all add: run_inv_def)
  then show ?case using ts_sleep scheduler_task_inv by simp
next
  case (ts_yield b t t2 w)
  then have "yield_inv (pm_yield b t)" by (intro pm_yield_yield run_yield_inv) simp
  then show ?case using ts_yield scheduler_task_inv by simp
next
  case (ts_exit es t w t1 w1 t2)
  then have "yield_inv t1" by (intro pm_exit_inv [of t]) simp_all
  then show ?case using ts_exit scheduler_task_inv by simp
next
  case (ts_kill pid t w b t1 w1)
  then show ?case using pm_kill_inv [of t env ra pid w "Returns b" t1 w1] by simp
next
  case (ts_kill_self pid t w t1 w1 t2)
  then show ?case using pm_kill_inv [of t env ra pid w Blocks t1 w1] scheduler_task_inv by simp
next
  case (ts_collect pid t es t1 w)
  then show ?case using pm_collect_inv [of t pid "Returns es" t1] by simp
next
  case (ts_collect_wait pid t t1 t2 w)
  then show ?case using pm_collect_inv [of t pid Blocks t1] scheduler_task_inv by simp
next
  case (ts_collectany wait t r t1 w)
  then show ?case using pm_collectany_inv [of t wait "Returns r" t1] by simp
next
  case (ts_collectany_wait wait t t1 t2 w)
  then show ?case using pm_collectany_inv [of t wait Blocks t1] scheduler_task_inv by simp
next
  case (ts_awaker t t1 w)
  then show ?case using awaker_step_inv [of t "Returns ()" t1] by simp
next
  case (ts_awaker_wait t t1 t2 w)
  then show ?case using awaker_step_inv [of t Blocks t1] scheduler_task_inv by simp
next
  case (ts_deleter t w t1 w1)
  then show ?case using deleter_run [of t env n w "()" t1 w1] by simp
qed (simp_all add: wq_wakeall_run wq_wakeone_run tick_run)

lemma reachable_run_inv:
  assumes "(task_step env n ra)\<^sup>*\<^sup>* s s'" and "run_inv (fst s)"
  shows "run_inv (fst s')"
  using assms by (induction rule: rtranclp_induct) (simp_all add: task_step_inv)

section \<open>A machine after boot\<close>

definition new_process :: "u16 \<Rightarrow> process_state_t \<Rightarrow> u64 \<Rightarrow> process_t" where
  "new_process pid st tick =
     \<lparr>p_pid = pid, p_ppid = 0, p_state = st, p_gdtidx = 0, p_waitToken = 0, p_sleeptill = 0,
      p_wake_timeout = False, p_wake_waitable = 0, p_quantum = 1, p_quantum_max = 128,
      p_scheduling = tick, p_scheduling_max = 128, p_usedticks = 0, p_system = False,
      p_due_for_reschedule = False, p_exitstatus = \<lparr>es_reason = 0, es_status = 0\<rparr>, p_children = [],
      p_runtime = 0, p_ctxswitches = 0, p_eip = 0, p_esp = 0, p_cs = 0, p_ss = 0, p_esp0start = 0,
      p_espstart = 0, p_cr3 = 0\<rparr>"

text \<open>Two processes, at \<open>0x1000\<close> and \<open>0x2000\<close>, the first running, with one ticket each.\<close>

definition example_tasks :: tasks where
  "example_tasks =
     \<lparr>procs = (\<lambda>p. if p = 0x1000 then new_process 1 AVAILABLE 1
                   else if p = 0x2000 then new_process 2 AVAILABLE 1 else new_process 0 NEW 0),
      current = 0x1000, ready = [0x1000, 0x2000], sleepq = [], waitqs = (\<lambda>_. []),
      gProcessTable = (pt_new 2000)\<lparr>pt_table := (replicate 2000 0)[1 := 0x1000, 2 := 0x2000]\<rparr>,
      gExitedProcesses = pt_new 2000, gCollectedProcessList = [], gPidBitmap = bm_new 2000,
      gGDTBitmap = bm_new 2000, collectorTask = 0x3000, awaker_queue = 0x10, collector_queue = 0x20,
      deleter_queue = 0x30, uptime = 0, rng = rng_new 1, numCtxSwitches = 0\<rparr>"

lemma example_state: "state_of example_tasks p = (if p = 0x1000 \<or> p = 0x2000 then AVAILABLE else NEW)"
  by (simp add: example_tasks_def state_of_def new_process_def)

lemma example_run_inv: "run_inv example_tasks"
proof -
  have r: "ready example_tasks = [0x1000, 0x2000]" and c: "current example_tasks = 0x1000"
    and s: "sleepq example_tasks = []" by (simp_all add: example_tasks_def)
  show ?thesis by (simp add: run_inv_def sched_inv_def wait_inv_def example_state r c s split: if_splits)
qed

end
