(* ===== verification/Task_Props.thy ===== *)
theory Task_Props
  imports Task_System
begin

text \<open>
  The properties of the process subsystem: the invariant of the scheduling queues in every
  reachable state, what the scheduler chooses, round robin, exit and collection, and three places
  where the code does not do what it is meant to.
\<close>

section \<open>Reachable states\<close>

text \<open>
  C34: in every state the processes and system tasks can reach by waiting, waking, sleeping,
  yielding, exiting, killing, collecting and being deleted, the ready queue holds exactly the
  runnable processes and each of them once; taking a process off the ready queue therefore never
  panics; every waiting process is on the queue it waits on; and waking a queue leaves nobody
  waiting on it, so no wake-up is lost.
\<close>

theorem task_system_invariant:
  assumes "run_inv t0" and "(task_step env n ra)\<^sup>*\<^sup>* (t0, w0) (t, w)"
  shows "distinct (ready t) \<and> (\<forall>p. p \<noteq> 0 \<longrightarrow> (p \<in> set (ready t) \<longleftrightarrow> state_of t p = AVAILABLE))
    \<and> (\<forall>task ns wt. \<exists>t'. deschedule task ns wt t = Inr t')
    \<and> (\<forall>p. state_of t p = WAITING \<longrightarrow> p \<in> w_process ` set (waitqs t (p_wake_waitable (procs t p))))
    \<and> (\<forall>wq p. \<not> waits_on (wq_wakeall wq t) p wq)"
proof -
  have run: "run_inv t" using reachable_run_inv [OF assms(2)] assms(1) by simp
  then have "sched_inv t" "wait_inv t" and av: "\<forall>p\<in>set (ready t). state_of t p = AVAILABLE"
    by (simp_all add: run_inv_def)
  moreover have "p \<in> w_process ` set (waitqs t (p_wake_waitable (procs t p)))" if "state_of t p = WAITING" for p
    using \<open>wait_inv t\<close> that by (force simp: wait_inv_def image_iff)
  ultimately show ?thesis
    using deschedule_distinct wakeall_nobody_waits by (auto simp: sched_inv_def)
qed

theorem task_system_witness:
  "\<forall>wq p. \<not> waits_on (wq_wakeall wq (wq_wakeall 0x10 example_tasks)) p wq"
proof -
  have "(task_step env n ra)\<^sup>*\<^sup>* (example_tasks, w) (wq_wakeall 0x10 example_tasks, w)"
    for env :: "unit task_env" and n ra and w :: unit
    by (rule r_into_rtranclp) (rule ts_wakeall)
  from task_system_invariant [OF example_run_inv this] show ?thesis by blast
qed

section \<open>The scheduler\<close>

text \<open>
  C35: when at least one runnable process has tickets, the scheduler hands the processor to a
  process that is on the ready queue and runnable, takes the exited processes off the queue and
  records each of them for its parent, and leaves the runnable ones queued in their order.
\<close>

theorem scheduler_task_spec:
  assumes inv: "sched_inv t" and ok: "death_ok t"
    and tot: "0 < tickets t (runnable t)" "tickets t (runnable t) < 2 ^ 64"
  shows "\<exists>t'. scheduler_task t = Inr t' \<and> current t' \<in> set (ready t) \<and> state_of t (current t') = AVAILABLE
    \<and> (\<forall>p. state_of t' p = state_of t p) \<and> ready t' = filter (\<lambda>p. state_of t p = AVAILABLE) (ready t)
    \<and> (\<forall>p\<in>set (ready t). state_of t p = EXITED \<longrightarrow> pt_table (gExitedProcesses t') ! unat (pid_of t p) = p)"
proof -
  obtain q t1 where q: "lottery_next t = Inr (q, t1)" "q \<in> set (ready t)" "state_of t q = AVAILABLE"
    "procs t1 = procs t" "ready t1 = runnable t" "buried t t1"
    using lottery_next_spec [OF assms] by blast
  then show ?thesis
    by (auto simp: scheduler_task_def ctxswitch_def buried_def runnable_def state_of_def Let_def)
qed

theorem scheduler_task_witness:
  "\<exists>t'. scheduler_task example_tasks = Inr t' \<and> current t' \<in> {0x1000, 0x2000}"
proof -
  have r: "ready example_tasks = [0x1000, 0x2000]" by (simp add: example_tasks_def)
  have inv: "sched_inv example_tasks" using example_run_inv by (simp add: run_inv_def)
  have run: "runnable example_tasks = [0x1000, 0x2000]" by (simp add: runnable_def r example_state)
  have "death_ok example_tasks" by (auto simp: death_ok_def r example_state inj_on_def)
  moreover have "tickets example_tasks (runnable example_tasks) = 2"
    by (simp add: run tickets_def) (simp add: example_tasks_def new_process_def)
  ultimately show ?thesis using scheduler_task_spec [OF inv] r by auto
qed

text \<open>
  The lottery draws a number below the total and takes the first process at which the running sum
  of tickets reaches it. Because the comparison admits equality, the first process in the queue
  wins one number too many: when it holds all tickets but one, the others never run.
\<close>

lemma lottery_pick_first:
  assumes "state_of t p = AVAILABLE" and "w \<le> p_scheduling (procs t p)"
  shows "lottery_pick t (p # ps) w 0 = p"
  using assms by simp

text \<open>
  C39: a runnable process that holds the only ticket besides those of the process at the head of
  the ready queue is never chosen, whatever the random numbers are.
\<close>

theorem lottery_starves_last_ticket:
  assumes inv: "sched_inv t" and rq: "ready t = p # ps" and av: "\<forall>q\<in>set (p # ps). state_of t q = AVAILABLE"
    and tot: "tickets t (p # ps) = unat (p_scheduling (procs t p)) + 1" "tickets t (p # ps) < 2 ^ 64"
  shows "\<exists>t'. lottery_next t = Inr (p, t') \<and> ready t' = ready t"
proof -
  define n :: u64 where "n = of_nat (tickets t (p # ps))"
  have "unat n = tickets t (p # ps)" unfolding n_def using tot(2) by (subst unat_of_nat) simp
  then have n: "unat n = unat (p_scheduling (procs t p)) + 1" using tot(1) by simp
  have purge: "lottery_purge (length (ready t)) t = Inr (n, t)"
    using lottery_scan_total [of "ready t" t 0] av rq by (subst lottery_purge.simps) (simp add: n_def)
  obtain r1 g1 where g1: "rng_next (rng t) = (r1, g1)" by fastforce
  obtain r2 g2 where g2: "rng_next g1 = (r2, g2)" by fastforce
  define w :: u64 where "w = (ucast r1 OR push_bit 32 (ucast r2)) mod n"
  have n0: "n \<noteq> 0" using n by auto
  have "unat w < unat n" unfolding w_def using n0 by (metis unat_mod_distrib mod_less_divisor unat_gt_0)
  then have "w \<le> p_scheduling (procs (t\<lparr>rng := g2\<rparr>) p)" using n by (simp add: word_le_nat_alt)
  then have pick: "lottery_pick (t\<lparr>rng := g2\<rparr>) (p # ps) w 0 = p"
    using av by (intro lottery_pick_first) simp_all
  have "p \<noteq> 0" using inv rq by (auto simp: sched_inv_def)
  then have "lottery_next t = Inr (p, t\<lparr>rng := g2\<rparr>)"
    using purge g1 g2 n0 pick rq by (simp add: lottery_next_def w_def [symmetric] Let_def del: lottery_pick.simps)
  then show ?thesis by simp
qed

theorem lottery_starves_witness:
  "\<exists>t'. lottery_next example_tasks = Inr (0x1000, t') \<and> ready t' = [0x1000, 0x2000]"
proof -
  have r: "ready example_tasks = [0x1000, 0x2000]" by (simp add: example_tasks_def)
  have inv: "sched_inv example_tasks" using example_run_inv by (simp add: run_inv_def)
  have tk: "p_scheduling (procs example_tasks 0x1000) = 1" "p_scheduling (procs example_tasks 0x2000) = 1"
    by (simp_all add: example_tasks_def new_process_def)
  then show ?thesis
    using lottery_starves_last_ticket [OF inv r] r by (simp add: tickets_def example_state)
qed

section \<open>Round robin\<close>

fun rr_run :: "nat \<Rightarrow> tasks \<Rightarrow> (u32 list \<times> tasks) kernel" where
  "rr_run 0 t = Inr ([], t)"
| "rr_run (Suc n) t =
     kbind (rr_next (length (ready t)) t) (\<lambda>(p, t). kbind (rr_run n t) (\<lambda>(ps, t). Inr (p # ps, t)))"

lemma rr_next_rotates:
  assumes "ready t = p # ps" and "state_of t p = AVAILABLE"
  shows "rr_next (length (ready t)) t = Inr (p, t\<lparr>ready := ps @ [p]\<rparr>)"
  using assms by (subst rr_next.simps) simp

lemma rr_run_rotates:
  assumes "ready t = ps @ qs" and "\<forall>p\<in>set (ps @ qs). state_of t p = AVAILABLE"
  shows "rr_run (length ps) t = Inr (ps, t\<lparr>ready := qs @ ps\<rparr>)"
  using assms
proof (induction ps arbitrary: t qs)
  case (Cons p ps)
  have "rr_next (length (ready t)) t = Inr (p, t\<lparr>ready := (ps @ qs) @ [p]\<rparr>)"
    using Cons.prems by (intro rr_next_rotates) simp_all
  moreover have "rr_run (length ps) (t\<lparr>ready := (ps @ qs) @ [p]\<rparr>) = Inr (ps, t\<lparr>ready := (qs @ [p]) @ ps\<rparr>)"
    using Cons.IH [of "t\<lparr>ready := (ps @ qs) @ [p]\<rparr>" "qs @ [p]"] Cons.prems(2) by simp
  ultimately show ?case by simp
qed simp

text \<open>
  C38: under round robin every runnable process is chosen once in every round: as long as the
  processes only give up the processor, as many decisions as there are runnable processes choose
  each of them, in the order of the queue, and leave the queue as it was.
\<close>

theorem rr_serves_everyone:
  assumes "\<forall>p\<in>set (ready t). state_of t p = AVAILABLE"
  shows "rr_run (length (ready t)) t = Inr (ready t, t)"
  using rr_run_rotates [of t "ready t" "[]"] assms by simp

theorem rr_serves_everyone_witness: "rr_run 2 example_tasks = Inr ([0x1000, 0x2000], example_tasks)"
proof -
  have r: "ready example_tasks = [0x1000, 0x2000]" by (simp add: example_tasks_def)
  show ?thesis using rr_serves_everyone [of example_tasks] r by (simp add: example_state numeral_2_eq_2)
qed

section \<open>Exit status\<close>

text \<open>
  C40: the exit status a killer pushes on the stack of its victim is the one the reaper reads back:
  packing a status into a word and unpacking it loses nothing.
\<close>

theorem exit_status_round_trip: "exit_status_of_word (toWord es) = es"
proof -
  have ff: "(0xFF :: u32) = mask 8" by (simp add: mask_eq_exp_minus_1)
  have "ucast (toWord es AND 0xFF) = es_status es"
    unfolding ff by (rule bit_word_eqI) (auto simp: toWord_def bit_simps)
  moreover have "ucast (drop_bit 24 (toWord es)) = es_reason es"
    by (rule bit_word_eqI) (auto simp: toWord_def bit_simps dest: bit_imp_le_length)
  ultimately show ?thesis by (simp add: exit_status_of_word_def)
qed

section \<open>The awaker\<close>

lemma awaker_stuck:
  assumes "sleepq t = e # rest" and "state_of t (qe_process e) \<noteq> EXITED"
    and "p_sleeptill (procs t (qe_process e)) \<le> uptime t"
    and "p_waitToken (procs t (qe_process e)) \<noteq> qe_token e"
  shows "awaker_loop fuel t = Inl Diverges"
proof (induction fuel)
  case (Suc k)
  have "awaker_step t = Inr (Returns (), t)" using assms by (simp add: awaker_step_def pq_top_def)
  then show ?case using Suc by simp
qed simp

lemma wakeall_loop_other:
  "p \<notin> w_process ` set qs \<Longrightarrow> procs (wakeall_loop wq qs t) p = procs t p"
proof (induction wq qs t rule: wakeall_loop.induct)
  case (2 wq q qs t)
  then have "procs (snd (wq_wake wq q t)) p = procs t p"
    by (auto simp: wq_wake_def pm_ready_def reschedule_def Let_def)
  then show ?case using 2 by simp
qed simp

lemma wakeall_loop_waitqs [simp]: "waitqs (wakeall_loop wq qs t) = waitqs t" "uptime (wakeall_loop wq qs t) = uptime t"
  by (induction wq qs t rule: wakeall_loop.induct)
     (simp_all add: wq_wake_def pm_ready_def reschedule_def Let_def)

lemma wq_wakeall_uptime [simp]: "uptime (wq_wakeall wq t) = uptime t"
  by (simp add: wq_wakeall_def Let_def)

lemma timed_wait:
  assumes inv: "sched_inv t" and cur: "p \<in> set (ready t)" "current t = p" and sq: "sleepq t = []"
    and aw: "awaker_queue t \<noteq> wq" "p \<notin> w_process ` set (waitqs t (awaker_queue t))"
    and wq: "waitqs t wq = []" and y: "wq_yield wq p timeout t = Inr t1" "timeout \<noteq> 0"
  shows "sleepq t1 = [\<lparr>qe_token = p_waitToken (procs t p), qe_process = p\<rparr>]
    \<and> waitqs t1 wq = [\<lparr>w_token = p_waitToken (procs t p), w_process = p\<rparr>] \<and> state_of t1 p = WAITING
    \<and> p_waitToken (procs t1 p) = p_waitToken (procs t p) \<and> p_sleeptill (procs t1 p) = uptime t + ucast timeout"
proof -
  define entry where "entry = \<lparr>w_token = p_waitToken (procs t p), w_process = p\<rparr>"
  define ta where "ta = t\<lparr>waitqs := (waitqs t)(wq := waitqs t wq @ [entry])\<rparr>"
  define tb where "tb = take_off p WAITING wq ta"
  define tc where "tc = upd_proc p (\<lambda>x. x\<lparr>p_sleeptill := uptime t + ucast timeout\<rparr>) tb"
  have tb: "tb = (upd_proc p (\<lambda>x. x\<lparr>p_state := WAITING, p_wake_waitable := wq\<rparr>) ta)\<lparr>ready := removeAll p (ready t)\<rparr>"
    using cur(1) by (simp add: tb_def take_off_def ta_def)
  have "sched_inv ta" using inv by (simp add: ta_def)
  then have "wq_wait wq p t = Inr tb"
    by (simp add: wq_wait_def pushToQueue_def ta_def [symmetric] entry_def [symmetric] tb_def deschedule_distinct sched_inv_distinct)
  then have sl: "pm_sleep timeout tb = Inr t1" using y by (simp add: wq_yield_def)
  have c: "current tb = p" "uptime tb = uptime t" "sleepq tb = []" "ready tb = removeAll p (ready t)"
    using cur(2) sq by (simp_all add: tb ta_def)
  have "p \<notin> set (ready tc)" by (simp add: tc_def c)
  then have no: "take_off p SLEEPING 0 tc = tc" by (simp add: take_off_def)
  have dis: "distinct (ready tc)" using sched_inv_distinct [OF inv] by (simp add: tc_def c distinct_removeAll)
  define sq1 where "sq1 = [\<lparr>qe_token = p_waitToken (procs tc p), qe_process = p\<rparr>]"
  have ins: "pq_insert cmp \<lparr>qe_token = p_waitToken (procs tc p), qe_process = p\<rparr> [] = Inr sq1" for cmp
    by (simp add: pq_insert_def pq_up.simps sq1_def)
  have ctc: "current tc = p" "sleepq tc = []" by (simp_all add: tc_def c)
  have t1: "t1 = pm_yield False (wq_wakeall (awaker_queue tc) (tc\<lparr>sleepq := sq1\<rparr>))"
    using sl deschedule_distinct [OF dis, of p SLEEPING 0] no ctc ins
    by (simp add: pm_sleep_def c tc_def [symmetric] Let_def)
  have "awaker_queue tc = awaker_queue t" by (simp add: tc_def tb ta_def upd_proc_def)
  moreover have "waitqs tc = (waitqs t)(wq := [entry])" using wq by (simp add: tc_def tb ta_def)
  ultimately have aq: "waitqs tc (awaker_queue tc) = waitqs t (awaker_queue t)" using aw(1) by simp
  define td where "td = wakeall_loop (awaker_queue tc) (waitqs tc (awaker_queue tc)) (tc\<lparr>sleepq := sq1\<rparr>)"
  have td: "procs td p = procs tc p" "waitqs td = waitqs tc"
    using wakeall_loop_other [of p "waitqs tc (awaker_queue tc)"] aw(2) aq by (simp_all add: td_def)
  have te: "wq_wakeall (awaker_queue tc) (tc\<lparr>sleepq := sq1\<rparr>) = td\<lparr>waitqs := (waitqs td)(awaker_queue tc := [])\<rparr>"
    by (simp add: wq_wakeall_def td_def)
  have pc: "procs tc p = (procs t p)\<lparr>p_state := WAITING, p_wake_waitable := wq, p_sleeptill := uptime t + ucast timeout\<rparr>"
    by (simp add: tc_def tb ta_def)
  have y1: "p_state (procs t1 p) = p_state (procs td p)" "p_waitToken (procs t1 p) = p_waitToken (procs td p)"
    "p_sleeptill (procs t1 p) = p_sleeptill (procs td p)" "waitqs t1 = (waitqs td)(awaker_queue tc := [])"
    by (simp_all add: t1 te pm_yield_def Let_def)
  have "sleepq t1 = sq1" by (simp add: t1)
  moreover have "waitqs t1 wq = [entry]"
    using y1(4) td(2) \<open>waitqs tc = (waitqs t)(wq := [entry])\<close> \<open>awaker_queue tc = awaker_queue t\<close> aw(1) by simp
  ultimately show ?thesis using y1 td pc by (simp add: sq1_def entry_def state_of_def)
qed

text \<open>
  C36: when a process waits on an object with a timeout and the object is signalled before the
  timeout, the process resumes, but its entry stays in the sleep queue with the old token. Once
  the timeout has passed the awaker finds that entry, ignores it without removing it, and never
  leaves its loop again: sleeping processes are no longer woken.
\<close>

theorem early_wake_hangs_awaker:
  assumes inv: "sched_inv t" and cur: "p \<in> set (ready t)" "current t = p" and sq: "sleepq t = []"
    and aw: "awaker_queue t \<noteq> wq" "p \<notin> w_process ` set (waitqs t (awaker_queue t))"
    and wq: "waitqs t wq = []" and y: "wq_yield wq p timeout t = Inr t1" "timeout \<noteq> 0"
    and late: "uptime t + ucast timeout \<le> u"
  shows "awaker_loop fuel ((wq_wakeall wq t1)\<lparr>uptime := u\<rparr>) = Inl Diverges"
proof -
  note tw = timed_wait [OF inv cur sq aw wq y]
  have p0: "p \<noteq> 0" using inv cur(1) by (auto simp: sched_inv_def)
  have "wakeall_loop wq (waitqs t1 wq) t1 = pm_ready p wq t1"
    using tw p0 by (simp add: wq_wake_def)
  moreover have "procs (pm_ready p wq t1) p = (procs t1 p)\<lparr>p_wake_timeout := False, p_wake_waitable := wq,
      p_waitToken := p_waitToken (procs t1 p) + 1, p_state := AVAILABLE\<rparr>"
    using tw by (simp add: pm_ready_def reschedule_def Let_def)
  ultimately have pr: "procs (wq_wakeall wq t1) p = (procs t1 p)\<lparr>p_wake_timeout := False, p_wake_waitable := wq,
      p_waitToken := p_waitToken (procs t1 p) + 1, p_state := AVAILABLE\<rparr>"
    by (simp add: wq_wakeall_def Let_def)
  show ?thesis
  proof (rule awaker_stuck)
    show "sleepq ((wq_wakeall wq t1)\<lparr>uptime := u\<rparr>) = \<lparr>qe_token = p_waitToken (procs t p), qe_process = p\<rparr> # []"
      using tw by simp
  qed (use tw pr late in \<open>simp_all add: state_of_def\<close>)
qed

theorem early_wake_witness:
  "\<exists>t1. wq_yield 0x50 0x1000 100 example_tasks = Inr t1
     \<and> awaker_loop 1000 ((wq_wakeall 0x50 t1)\<lparr>uptime := 100\<rparr>) = Inl Diverges"
proof -
  have inv: "sched_inv example_tasks" using example_run_inv by (simp add: run_inv_def)
  have e: "ready example_tasks = [0x1000, 0x2000]" "current example_tasks = 0x1000" "sleepq example_tasks = []"
    "awaker_queue example_tasks = 0x10" "waitqs example_tasks = (\<lambda>_. [])" "uptime example_tasks = 0"
    by (simp_all add: example_tasks_def)
  obtain t1 where t1: "wq_yield 0x50 0x1000 100 example_tasks = Inr t1"
    using wq_yield_inv [OF inv, of "0x50" "0x1000" 100] e by auto
  have "awaker_loop 1000 ((wq_wakeall 0x50 t1)\<lparr>uptime := 100\<rparr>) = Inl Diverges"
    by (rule early_wake_hangs_awaker [OF inv _ e(2,3) _ _ _ t1]) (simp_all add: e)
  then show ?thesis using t1 by blast
qed

end
