(* ===== verification/Exit_Collect.thy ===== *)
theory Exit_Collect
  imports Task_System
begin

text \<open>
  Exit and collection across two processes: what a process leaves when it exits, and that its
  parent gets its status.
\<close>

section \<open>What waking leaves alone\<close>

lemma wakeall_loop_fields:
  "p_pid (procs (wakeall_loop wq qs t) x) = p_pid (procs t x) \<and> p_ppid (procs (wakeall_loop wq qs t) x) = p_ppid (procs t x)
   \<and> p_children (procs (wakeall_loop wq qs t) x) = p_children (procs t x)
   \<and> p_exitstatus (procs (wakeall_loop wq qs t) x) = p_exitstatus (procs t x)
   \<and> gProcessTable (wakeall_loop wq qs t) = gProcessTable t
   \<and> gCollectedProcessList (wakeall_loop wq qs t) = gCollectedProcessList t
   \<and> gExitedProcesses (wakeall_loop wq qs t) = gExitedProcesses t"
  by (induction wq qs t rule: wakeall_loop.induct)
     (simp_all add: wq_wake_def pm_ready_def reschedule_def Let_def)

lemma wakeall_fields [simp]:
  "p_pid (procs (wq_wakeall wq t) x) = p_pid (procs t x)" "p_ppid (procs (wq_wakeall wq t) x) = p_ppid (procs t x)"
  "p_children (procs (wq_wakeall wq t) x) = p_children (procs t x)"
  "p_exitstatus (procs (wq_wakeall wq t) x) = p_exitstatus (procs t x)"
  "gProcessTable (wq_wakeall wq t) = gProcessTable t"
  "gCollectedProcessList (wq_wakeall wq t) = gCollectedProcessList t"
  "gExitedProcesses (wq_wakeall wq t) = gExitedProcesses t"
  using wakeall_loop_fields [of wq "waitqs t wq" t x] by (simp_all add: wq_wakeall_def Let_def)

lemma wakeall_loop_state:
  "state_of t x \<noteq> WAITING \<Longrightarrow> state_of (wakeall_loop wq qs t) x = state_of t x"
proof (induction wq qs t rule: wakeall_loop.induct)
  case (2 wq q qs t)
  then have "state_of (snd (wq_wake wq q t)) x = state_of t x"
    by (auto simp: wq_wake_def pm_ready_def reschedule_def Let_def)
  then show ?case using 2 by simp
qed simp

lemma wakeall_state: "state_of t x \<noteq> WAITING \<Longrightarrow> state_of (wq_wakeall wq t) x = state_of t x"
  using wakeall_loop_state by (simp add: wq_wakeall_def Let_def)

lemma wake_queues_fields [simp]:
  "p_pid (procs (wake_queues qs t) x) = p_pid (procs t x)" "p_ppid (procs (wake_queues qs t) x) = p_ppid (procs t x)"
  "p_children (procs (wake_queues qs t) x) = p_children (procs t x)"
  "p_exitstatus (procs (wake_queues qs t) x) = p_exitstatus (procs t x)"
  "gProcessTable (wake_queues qs t) = gProcessTable t"
  unfolding wake_queues_def by (induction qs arbitrary: t) simp_all

lemma wake_queues_state: "state_of t x \<noteq> WAITING \<Longrightarrow> state_of (wake_queues qs t) x = state_of t x"
  unfolding wake_queues_def by (induction qs arbitrary: t) (simp_all add: wakeall_state)

section \<open>Exit\<close>

lemma reparent_fields:
  "gProcessTable (reparent coll cs t) = gProcessTable t"
  "gExitedProcesses (reparent coll cs t) = gExitedProcesses t"
  "p_pid (procs (reparent coll cs t) x) = p_pid (procs t x)"
  "x \<notin> set cs \<Longrightarrow> p_ppid (procs (reparent coll cs t) x) = p_ppid (procs t x)"
  "p_children (procs (reparent coll cs t) x) = p_children (procs t x) @ (if x = coll then cs else [])"
  by (induction coll cs t rule: reparent.induct) (auto simp: Let_def)

lemma reparent_ppid:
  "x \<in> set cs \<Longrightarrow> p_ppid (procs (reparent coll cs t) x) = p_pid (procs t coll)"
proof (induction coll cs t rule: reparent.induct)
  case (2 coll c cs t)
  then show ?case by (cases "x \<in> set cs") (auto simp: Let_def reparent_fields(4))
qed simp

lemma exit_task_spec:
  assumes "exit_task env c es (t, w) = Inr (t', w')" and "c \<noteq> 0" and "c \<notin> set (p_children (procs t c))" and "c \<noteq> collectorTask t"
  shows "state_of t' c = EXITED \<and> p_exitstatus (procs t' c) = es \<and> p_children (procs t' c) = []
    \<and> p_pid (procs t' c) = p_pid (procs t c) \<and> p_ppid (procs t' c) = p_ppid (procs t c)
    \<and> (\<forall>x\<in>set (p_children (procs t c)). p_ppid (procs t' x) = p_pid (procs t (collectorTask t)))
    \<and> (\<forall>x. x \<noteq> c \<longrightarrow> p_children (procs t' x) = p_children (procs t x) @ (if x = collectorTask t then p_children (procs t c) else []))
    \<and> (\<forall>x. p_pid (procs t' x) = p_pid (procs t x))
    \<and> gProcessTable t' = gProcessTable t"
  using assms(1)
proof (cases rule: exit_task_cases)
  case (1 qs qs' t2)
  define t0 where "t0 = reparent (collectorTask t) (p_children (procs t c)) t"
  have "state_of (wake_queues qs' (upd_proc c (\<lambda>p. p\<lparr>p_state := EXITED\<rparr>) u)) c = EXITED" for u
    using wake_queues_state [of "upd_proc c (\<lambda>p. p\<lparr>p_state := EXITED\<rparr>) u" c] by simp
  then have "state_of t2 c = EXITED" unfolding 1(1) by (simp add: state_of_def)
  then have "state_of t' c = EXITED" using 1(2) by (auto simp: reschedule_def Let_def)
  moreover have f2: "p_children (procs t' x) = p_children (procs t2 x) \<and> p_pid (procs t' x) = p_pid (procs t2 x)
      \<and> p_ppid (procs t' x) = p_ppid (procs t2 x) \<and> p_exitstatus (procs t' x) = p_exitstatus (procs t2 x)
      \<and> gProcessTable t' = gProcessTable t2" for x
    using 1(2) by (auto simp: reschedule_def Let_def)
  moreover have "p_ppid (procs t' x) = p_pid (procs t (collectorTask t))" if "x \<in> set (p_children (procs t c))" for x
    using f2 [of x] that assms(3) reparent_ppid [OF that] by (auto simp: 1(1))
  ultimately show ?thesis
    using assms(3,4) reparent_fields(1,3,5) reparent_fields(4) [of c "p_children (procs t c)"]
    by (simp add: 1(1))
qed

section \<open>Collecting what exited\<close>

lemma scheduler_task_fields:
  assumes "scheduler_task t = Inr t'"
  shows "(\<forall>x. p_pid (procs t' x) = p_pid (procs t x) \<and> p_ppid (procs t' x) = p_ppid (procs t x)
      \<and> p_children (procs t' x) = p_children (procs t x) \<and> p_exitstatus (procs t' x) = p_exitstatus (procs t x)
      \<and> state_of t' x = state_of t x) \<and> gProcessTable t' = gProcessTable t
      \<and> gCollectedProcessList t' = gCollectedProcessList t
      \<and> length (pt_table (gExitedProcesses t')) = length (pt_table (gExitedProcesses t))"
proof -
  have purge: "procs t'' = procs s \<and> gProcessTable t'' = gProcessTable s \<and> gCollectedProcessList t'' = gCollectedProcessList s
      \<and> length (pt_table (gExitedProcesses t'')) = length (pt_table (gExitedProcesses s))"
    if "lottery_purge fuel s = Inr (n, t'')" for fuel s n t''
    using that
  proof (induction fuel arbitrary: s)
    case 0
    then show ?case by (subst (asm) lottery_purge.simps) (simp split: sum.splits)
  next
    case (Suc k)
    show ?case
    proof (cases "lottery_scan s (ready s) 0")
      case (Inr m)
      then show ?thesis using Suc.prems by (subst (asm) lottery_purge.simps) simp
    next
      case (Inl p)
      then obtain t1 where t1: "enqueueForDeath p s = Inr t1" "lottery_purge k (t1\<lparr>ready := remove1 p (ready t1)\<rparr>) = Inr (n, t'')"
        using Suc.prems by (subst (asm) lottery_purge.simps) (auto simp: kbind_eq_Inr_iff)
      then show ?thesis using Suc.IH [OF t1(2)]
        by (auto simp: enqueueForDeath_def pt_set_def kbind_eq_Inr_iff split: if_splits)
    qed
  qed
  obtain q t1 where q: "lottery_next t = Inr (q, t1)"
    "t' = ctxswitch q (upd_proc q (\<lambda>p. p\<lparr>p_due_for_reschedule := False\<rparr>) t1)"
    using assms by (auto simp: scheduler_task_def kbind_eq_Inr_iff Let_def)
  obtain n t0 where n: "lottery_purge (length (ready t)) t = Inr (n, t0)"
    using q(1) by (auto simp: lottery_next_def kbind_eq_Inr_iff)
  obtain r1 g1 where g1: "rng_next (rng t0) = (r1, g1)" by fastforce
  obtain r2 g2 where g2: "rng_next g1 = (r2, g2)" by fastforce
  have "t1 = t0\<lparr>rng := g2\<rparr>"
    using q(1) n g1 g2 by (auto simp: lottery_next_def Let_def split: if_splits)
  then show ?thesis using q(2) purge [OF n] by (auto simp: ctxswitch_def state_of_def)
qed

lemma collect_exited:
  assumes "getprocess pid t = Inr c" and "c \<noteq> 0" and "p_pid (procs t c) = pid"
    and "getprocess (p_ppid (procs t c)) t = Inr p" and "current t = p" and "c \<noteq> p"
    and "state_of t c = EXITED" and "c \<in> set (p_children (procs t p))"
    and "unat pid < length (pt_table (gExitedProcesses t))"
  shows "\<exists>t'. pm_collect pid t = Inr (Returns (p_exitstatus (procs t c)), t') \<and> state_of t' c = COLLECTED
    \<and> p_children (procs t' p) = remove1 c (p_children (procs t p))
    \<and> gCollectedProcessList t' = gCollectedProcessList t @ [c]"
proof -
  define t1 where "t1 = upd_proc p (\<lambda>x. x\<lparr>p_children := remove1 c (p_children x)\<rparr>) t"
  obtain e where e: "pt_free (pid_of t1) c (gExitedProcesses t1) = Inr e"
    using assms(3,6,9) by (simp add: pt_free_def t1_def pid_of_def)
  define t2 where "t2 = upd_proc c (\<lambda>x. x\<lparr>p_state := COLLECTED\<rparr>) (t1\<lparr>gExitedProcesses := e\<rparr>)"
  define t3 where "t3 = t2\<lparr>gCollectedProcessList := gCollectedProcessList t2 @ [c]\<rparr>"
  have s: "state_of t2 c = COLLECTED" by (simp add: t2_def)
  have "pm_collect pid t = Inr (Returns (p_exitstatus (procs t c)), wq_wakeall (deleter_queue t2) t3)"
    using assms e s
    by (simp add: pm_collect_def Let_def t1_def [symmetric] t2_def [symmetric] t3_def enqueueForCollection_def)
       (simp add: t2_def t1_def)
  moreover have "state_of (wq_wakeall (deleter_queue t2) t3) c = COLLECTED"
    using wakeall_state [of t3 c] s by (simp add: t3_def)
  moreover have "p_children (procs (wq_wakeall (deleter_queue t2) t3) p) = remove1 c (p_children (procs t p))"
    using assms(6) by (simp add: t3_def t2_def t1_def)
  moreover have "gCollectedProcessList (wq_wakeall (deleter_queue t2) t3) = gCollectedProcessList t @ [c]"
    by (simp add: t3_def t2_def t1_def)
  ultimately show ?thesis by blast
qed

lemma pm_yield_fields:
  "p_pid (procs (pm_yield b t) x) = p_pid (procs t x)" "p_ppid (procs (pm_yield b t) x) = p_ppid (procs t x)"
  "p_children (procs (pm_yield b t) x) = p_children (procs t x)" "p_exitstatus (procs (pm_yield b t) x) = p_exitstatus (procs t x)"
  "state_of (pm_yield b t) x = state_of t x" "gProcessTable (pm_yield b t) = gProcessTable t"
  by (simp_all add: pm_yield_def Let_def state_of_def)

text \<open>
  C37: a parent that collects an exited child gets the status the child exited with: after the
  child calls exit with a status and the scheduler has switched away from it, collecting it from
  the parent returns that status, marks the child as collected, takes it off the list of children
  and queues it for deletion. The exit leaves the child without children: they have the collector
  task as parent and are at the end of its list of children, in order, and no other process but
  the two changes its list. Closing the child's files may wake any processes on the way.
\<close>

theorem exit_then_collect:
  assumes child: "current t = c" "c \<noteq> 0" "c \<notin> set (p_children (procs t c))" "c \<noteq> collectorTask t"
    and parent: "getprocess (p_pid (procs t c)) t = Inr c" "getprocess (p_ppid (procs t c)) t = Inr p" "p \<noteq> c"
      "c \<in> set (p_children (procs t p))"
    and ex: "pm_exit env es (t, w) = Inr (t1, w1)" and sched: "scheduler_task t1 = Inr t2"
    and slot: "unat (p_pid (procs t c)) < length (pt_table (gExitedProcesses t2))"
  shows "\<exists>t3. pm_collect (p_pid (procs t c)) (t2\<lparr>current := p\<rparr>) = Inr (Returns es, t3)
    \<and> state_of t3 c = COLLECTED \<and> c \<in> set (gCollectedProcessList t3)
    \<and> p_children (procs t3 p) = remove1 c (p_children (procs t2 p))
    \<and> (\<forall>x\<in>set (p_children (procs t c)). p_ppid (procs t2 x) = p_pid (procs t (collectorTask t)))
    \<and> p_children (procs t2 (collectorTask t)) = p_children (procs t (collectorTask t)) @ p_children (procs t c)
    \<and> p_children (procs t2 c) = []
    \<and> (\<forall>x. x \<noteq> c \<and> x \<noteq> collectorTask t \<longrightarrow> p_children (procs t2 x) = p_children (procs t x))"
proof -
  obtain ta where ta: "exit_task env c es (t, w) = Inr (ta, w1)" "t1 = pm_yield False ta"
    using ex child(1) by (auto simp: pm_exit_def kbind_eq_Inr_iff)
  note e = exit_task_spec [OF ta(1) child(2-4)]
  note s = scheduler_task_fields [OF sched]
  define s2 where "s2 = t2\<lparr>current := p\<rparr>"
  have f: "p_pid (procs s2 x) = p_pid (procs ta x)" "p_ppid (procs s2 x) = p_ppid (procs ta x)"
    "p_children (procs s2 x) = p_children (procs ta x)" "p_exitstatus (procs s2 x) = p_exitstatus (procs ta x)"
    "state_of s2 x = state_of ta x" "gProcessTable s2 = gProcessTable ta" for x
    using s ta(2) by (simp_all add: s2_def pm_yield_fields)
  have same: "p_children (procs t2 x) = p_children (procs ta x)" "p_ppid (procs t2 x) = p_ppid (procs ta x)" for x
    using f(2,3) [of x] by (simp_all add: s2_def)
  obtain t3 where t3: "pm_collect (p_pid (procs t c)) s2 = Inr (Returns (p_exitstatus (procs s2 c)), t3)"
      "state_of t3 c = COLLECTED" "p_children (procs t3 p) = remove1 c (p_children (procs s2 p))"
      "gCollectedProcessList t3 = gCollectedProcessList s2 @ [c]"
    using e parent f slot child collect_exited [of "p_pid (procs t c)" s2 c p] by (auto simp: getprocess_def s2_def)
  show ?thesis
  proof (intro exI conjI ballI allI impI)
    show "pm_collect (p_pid (procs t c)) (t2\<lparr>current := p\<rparr>) = Inr (Returns es, t3)"
      using t3(1) f(4) [of c] e by (simp add: s2_def)
    show "p_children (procs t3 p) = remove1 c (p_children (procs t2 p))" using t3(3) by (simp add: s2_def)
    show "c \<in> set (gCollectedProcessList t3)" using t3(4) by simp
  qed (use t3(2) same e child(4) in auto)
qed

definition example_env :: "unit task_env" where
  "example_env =
     \<lparr>env_cleanupAllRegions = (\<lambda>_ w. Inr ([], w)), env_cleanAddressSpace = Inr,
      env_closeFd = (\<lambda>_ i w. Inr (if i = 3 then [0x60] else [], w)),
      env_popfg = (\<lambda>_ _ _ w. Inr ([0x70], w)), env_pushExitWord = (\<lambda>_ _. Inr), env_dealloc = (\<lambda>_. Inr),
      env_unmap = (\<lambda>_. Inr), env_freeStrings = (\<lambda>_. Inr), env_clearGDT = (\<lambda>_. Inr)\<rparr>"

text \<open>
  The process at \<open>0x2000\<close> is a child of the one at \<open>0x1000\<close>, has a child of its own at \<open>0x4000\<close>,
  and runs. Closing its third file wakes the queue \<open>0x60\<close>, leaving the terminal wakes \<open>0x70\<close>.
\<close>

definition example_family :: tasks where
  "example_family =
     (upd_proc 0x1000 (\<lambda>p. p\<lparr>p_children := [0x2000]\<rparr>)
       (upd_proc 0x4000 (\<lambda>p. p\<lparr>p_pid := 4, p_ppid := 2\<rparr>)
         (upd_proc 0x2000 (\<lambda>p. p\<lparr>p_ppid := 1, p_children := [0x4000]\<rparr>) example_tasks)))\<lparr>current := 0x2000\<rparr>"

lemma example_family_proc:
  "procs example_family 0x1000 = (new_process 1 AVAILABLE 1)\<lparr>p_children := [0x2000]\<rparr>"
  "procs example_family 0x2000 = (new_process 2 AVAILABLE 1)\<lparr>p_ppid := 1, p_children := [0x4000]\<rparr>"
  "ready example_family = [0x1000, 0x2000]" "current example_family = 0x2000"
  "pt_table (gExitedProcesses example_family) = replicate 2000 0" "collectorTask example_family = 0x3000"
  "waitqs example_family = (\<lambda>_. [])"
  by (simp_all add: example_family_def example_tasks_def pt_new_def upd_proc_def)

lemma example_family_state: "state_of example_family p = (if p = 0x1000 \<or> p = 0x2000 then AVAILABLE else NEW)"
  by (simp add: example_family_def state_of_def example_tasks_def new_process_def)

lemma example_family_get: "getprocess 1 example_family = Inr 0x1000" "getprocess 2 example_family = Inr 0x2000"
  by (simp_all add: getprocess_def pt_get_def example_family_def example_tasks_def pt_new_def upd_proc_def)

lemma example_env_simps:
  "env_cleanupAllRegions example_env task w = Inr ([], w)" "env_cleanAddressSpace example_env = Inr"
  "env_popfg example_env task pid t w = Inr ([0x70], w)"
  by (simp_all add: example_env_def)

lemma wakeall_nobody: "waitqs t wq = [] \<Longrightarrow> wq_wakeall wq t = t"
  by (simp add: wq_wakeall_def fun_upd_idem)

lemma wake_queues_nobody: "waitqs t = (\<lambda>_. []) \<Longrightarrow> wake_queues qs t = t"
  unfolding wake_queues_def by (induction qs) (simp_all add: wakeall_nobody)

lemma close_fds_nobody:
  "waitqs t = (\<lambda>_. []) \<Longrightarrow> kfold (close_fd example_env task) is (t, w) = Inr (t, w)"
  by (induction "is") (simp_all add: close_fd_def example_env_def wake_queues_nobody)

definition example_exited :: tasks where
  "example_exited =
     upd_proc 0x2000 (\<lambda>p. p\<lparr>p_children := [], p_state := EXITED, p_exitstatus := \<lparr>es_reason = 1, es_status = 7\<rparr>\<rparr>)
       (upd_proc 0x3000 (\<lambda>p. p\<lparr>p_children := [0x4000]\<rparr>) (upd_proc 0x4000 (\<lambda>p. p\<lparr>p_ppid := 0\<rparr>) example_family))"

lemma example_exit:
  "exit_task example_env 0x2000 \<lparr>es_reason = 1, es_status = 7\<rparr> (example_family, ()) = Inr (example_exited, ())"
proof -
  define t0 where "t0 = upd_proc 0x3000 (\<lambda>p. p\<lparr>p_children := [0x4000]\<rparr>) (upd_proc 0x4000 (\<lambda>p. p\<lparr>p_ppid := 0\<rparr>) example_family)"
  have "reparent 0x3000 [0x4000] example_family = wq_wakeall 0x20 t0"
    by (simp add: t0_def example_family_def example_tasks_def new_process_def upd_proc_def fun_eq_iff)
  then have t0: "reparent 0x3000 [0x4000] example_family = t0"
    by (simp add: wakeall_nobody t0_def example_family_proc)
  have x: "example_exited = upd_proc 0x2000 (\<lambda>p. p\<lparr>p_exitstatus := \<lparr>es_reason = 1, es_status = 7\<rparr>\<rparr>)
      (upd_proc 0x2000 (\<lambda>p. p\<lparr>p_state := EXITED\<rparr>) (upd_proc 0x2000 (\<lambda>p. p\<lparr>p_children := []\<rparr>) t0))"
    by (simp add: example_exited_def upd_proc_twice t0_def)
  have "getprocess 1 example_exited = Inr 0x1000"
    using example_family_get(1) by (simp add: getprocess_def example_exited_def)
  moreover have "state_of example_exited 0x1000 = AVAILABLE" by (simp add: example_exited_def example_family_state)
  moreover have "p_ppid (procs t0 0x2000) = 1" by (simp add: t0_def example_family_proc)
  moreover have "waitqs t0 = (\<lambda>_. [])" by (simp add: t0_def example_family_proc)
  moreover have "p_children (procs example_family 0x2000) = [0x4000]" "\<not> p_system (procs example_family 0x2000)"
    by (simp_all add: example_family_proc new_process_def)
  ultimately show ?thesis
    by (simp add: exit_task_def example_family_proc(6) t0 close_fds_nobody wake_queues_nobody example_env_simps
        x [symmetric] del: reparent.simps)
qed

theorem exit_then_collect_witness:
  "\<exists>t1 t2 t3. pm_exit example_env \<lparr>es_reason = 1, es_status = 7\<rparr> (example_family, ()) = Inr (t1, ())
     \<and> scheduler_task t1 = Inr t2
     \<and> pm_collect 2 (t2\<lparr>current := 0x1000\<rparr>) = Inr (Returns \<lparr>es_reason = 1, es_status = 7\<rparr>, t3)
     \<and> p_children (procs t2 0x3000) = [0x4000] \<and> p_ppid (procs t2 0x4000) = 0"
proof -
  define t1 where "t1 = pm_yield False example_exited"
  have ex: "pm_exit example_env \<lparr>es_reason = 1, es_status = 7\<rparr> (example_family, ()) = Inr (t1, ())"
    using example_exit by (simp add: pm_exit_def example_family_proc t1_def)
  have st: "state_of t1 p = (if p = 0x1000 then AVAILABLE else if p = 0x2000 then EXITED else NEW)" for p
    unfolding t1_def pm_yield_fields
    by (simp add: example_exited_def example_family_state [unfolded state_of_def] state_of_def)
  have rd: "ready t1 = [0x1000, 0x2000]" and xt: "gExitedProcesses t1 = gExitedProcesses example_family"
    by (simp_all add: t1_def pm_yield_def Let_def example_exited_def example_family_proc)
  have inv: "sched_inv t1" by (simp add: sched_inv_def rd st)
  have pid: "pid_of t1 0x2000 = 2" by (simp add: pid_of_def t1_def pm_yield_fields example_exited_def example_family_proc new_process_def)
  have "death_ok t1"
    by (auto simp: death_ok_def rd st xt pid example_family_proc inj_on_def)
  moreover have "tickets t1 (runnable t1) = 1"
    by (simp add: runnable_def rd st tickets_def) (simp add: t1_def pm_yield_def Let_def example_exited_def example_family_proc new_process_def)
  ultimately obtain q t' where "lottery_next t1 = Inr (q, t')" using lottery_next_spec [OF inv] by auto
  then obtain t2 where t2: "scheduler_task t1 = Inr t2" by (simp add: scheduler_task_def)
  have slot: "unat (p_pid (procs example_family 0x2000)) < length (pt_table (gExitedProcesses t2))"
    using scheduler_task_fields [OF t2] xt by (simp add: example_family_proc new_process_def)
  have coll: "p_children (procs example_family 0x3000) = []" "p_pid (procs example_family 0x3000) = 0"
    by (simp_all add: example_family_def example_tasks_def new_process_def)
  have "\<exists>t3. pm_collect (p_pid (procs example_family 0x2000)) (t2\<lparr>current := 0x1000\<rparr>) = Inr (Returns \<lparr>es_reason = 1, es_status = 7\<rparr>, t3)
      \<and> p_children (procs t2 0x3000) = [0x4000] \<and> p_ppid (procs t2 0x4000) = 0"
    using exit_then_collect [OF _ _ _ _ _ _ _ _ ex t2 slot, of "0x1000"] example_family_get coll
    by (auto simp: example_family_proc new_process_def)
  then show ?thesis using ex t2 by (auto simp: example_family_proc new_process_def)
qed

end
