(* ===== verification/Synch.thy ===== *)
theory Synch
  imports Task_System
begin

text \<open>
  The objects a process can wait on (\<open>src/kernel/src/synch\<close>): mutexes, semaphores and events with
  their wait queue, and the spinlock. A waitable object is identified by the address of its wait
  queue. \<open>wait\<close> is split where it gives up the processor: the first part runs until the process
  has the object, gives up or is put to sleep; the second part is what it does when it runs again.
  The atomic instructions are single steps, as the kernel is not preempted.
\<close>

definition myWake :: "u32 \<Rightarrow> u32 \<Rightarrow> tasks \<Rightarrow> bool" where
  "myWake wq task t \<longleftrightarrow> p_wake_waitable (procs t task) = wq"

section \<open>Mutex\<close>

record Mutex =
  mtx_key :: string
  mLocked :: bool
  mPid :: u16
  mtx_wq :: u32

text \<open>The constructor leaves \<open>mPid\<close> as the memory had it; \<open>pid\<close> is that value.\<close>

definition mutex_new :: "string \<Rightarrow> u32 \<Rightarrow> u16 \<Rightarrow> Mutex" where
  "mutex_new name wq pid = \<lparr>mtx_key = name, mLocked = False, mPid = pid, mtx_wq = wq\<rparr>"

definition dolock :: "u32 \<Rightarrow> Mutex \<times> tasks \<Rightarrow> bool \<times> Mutex \<times> tasks" where
  "dolock task = (\<lambda>(m, t). (True, m\<lparr>mLocked := True, mPid := pid_of t task\<rparr>, t))"

definition mutex_wait_turn :: "bool \<Rightarrow> u32 \<Rightarrow> Mutex \<times> tasks \<Rightarrow> (bool outcome \<times> Mutex \<times> tasks) kernel" where
  "mutex_wait_turn wait timeout = (\<lambda>(m, t).
     if mLocked m then
       if \<not> wait then Inr (Returns False, m, t)
       else kbind (wq_yield (mtx_wq m) (current t) timeout t) (\<lambda>t. Inr (Blocks, m, t))
     else let (_, s) = dolock (current t) (m, t) in Inr (Returns True, s))"

definition mutex_wait :: "u32 \<Rightarrow> Mutex \<times> tasks \<Rightarrow> (bool outcome \<times> Mutex \<times> tasks) kernel" where
  "mutex_wait timeout s = mutex_wait_turn True timeout s"

definition mutex_wait_resume :: "u32 \<Rightarrow> Mutex \<times> tasks \<Rightarrow> (bool outcome \<times> Mutex \<times> tasks) kernel" where
  "mutex_wait_resume timeout = (\<lambda>(m, t).
     if \<not> myWake (mtx_wq m) (current t) t then Inr (Returns False, m, t)
     else mutex_wait_turn (timeout > 0) timeout (m, t))"

definition ignore_result :: "(bool outcome \<times> 's) kernel \<Rightarrow> (unit outcome \<times> 's) kernel" where
  "ignore_result r = kbind r (\<lambda>(o1, s). Inr (case o1 of Blocks \<Rightarrow> Blocks | Returns _ \<Rightarrow> Returns (), s))"

definition mutex_lock :: "Mutex \<times> tasks \<Rightarrow> (unit outcome \<times> Mutex \<times> tasks) kernel" where
  "mutex_lock s = ignore_result (mutex_wait 0 s)"

definition mutex_lock_resume :: "Mutex \<times> tasks \<Rightarrow> (unit outcome \<times> Mutex \<times> tasks) kernel" where
  "mutex_lock_resume s = ignore_result (mutex_wait_resume 0 s)"

definition mutex_trylock :: "Mutex \<times> tasks \<Rightarrow> bool \<times> Mutex \<times> tasks" where
  "mutex_trylock = (\<lambda>(m, t). if mLocked m then (False, m, t) else dolock (current t) (m, t))"

definition mutex_unlock :: "Mutex \<times> tasks \<Rightarrow> Mutex \<times> tasks" where
  "mutex_unlock = (\<lambda>(m, t).
     if mLocked m \<and> mPid m = pid_of t (current t) then (m\<lparr>mLocked := False\<rparr>, wq_wakeall (mtx_wq m) t)
     else (m, t))"

section \<open>Semaphore\<close>

record Semaphore =
  sem_key :: string
  sem_value :: u32
  sem_max :: u32
  sem_wq :: u32

definition semaphore_new :: "string \<Rightarrow> u32 \<Rightarrow> u32 \<Rightarrow> u32 \<Rightarrow> Semaphore" where
  "semaphore_new name initial mx wq = \<lparr>sem_key = name, sem_value = initial, sem_max = mx, sem_wq = wq\<rparr>"

text \<open>
  The loop body after the test for zero: take one if there is one; otherwise go round again while
  \<open>wait\<close> holds, which the non-preempted process does only after it slept.
\<close>

definition semaphore_take :: "Semaphore \<Rightarrow> bool \<times> Semaphore" where
  "semaphore_take s = (if sem_value s > 0 then (True, s\<lparr>sem_value := sem_value s - 1\<rparr>) else (False, s))"

definition semaphore_wait_turn :: "u32 \<Rightarrow> Semaphore \<times> tasks \<Rightarrow> (bool outcome \<times> Semaphore \<times> tasks) kernel" where
  "semaphore_wait_turn timeout = (\<lambda>(s, t).
     if sem_value s = 0 then
       kbind (wq_yield (sem_wq s) (current t) timeout t) (\<lambda>t. Inr (Blocks, s, t))
     else let (ok, s) = semaphore_take s in Inr (Returns ok, s, t))"

definition semaphore_wait :: "u32 \<Rightarrow> Semaphore \<times> tasks \<Rightarrow> (bool outcome \<times> Semaphore \<times> tasks) kernel" where
  "semaphore_wait timeout s = semaphore_wait_turn timeout s"

definition semaphore_wait_resume :: "u32 \<Rightarrow> Semaphore \<times> tasks \<Rightarrow> (bool outcome \<times> Semaphore \<times> tasks) kernel" where
  "semaphore_wait_resume timeout = (\<lambda>(s, t).
     if \<not> myWake (sem_wq s) (current t) t then Inr (Returns False, s, t)
     else
       let (ok, s) = semaphore_take s in
       if ok then Inr (Returns True, s, t)
       else if timeout > 0 then semaphore_wait_turn timeout (s, t)
       else Inr (Returns False, s, t))"

definition semaphore_signal :: "Semaphore \<times> tasks \<Rightarrow> Semaphore \<times> tasks" where
  "semaphore_signal = (\<lambda>(s, t).
     let t = wq_wakeall (sem_wq s) t;
         s = s\<lparr>sem_value := sem_value s + 1\<rparr> in
     (if sem_value s > sem_max s then s\<lparr>sem_value := sem_max s\<rparr> else s, t))"

definition semaphore_value :: "Semaphore \<Rightarrow> u32" where
  "semaphore_value s = sem_value s"

definition semaphore_max :: "Semaphore \<Rightarrow> u32" where
  "semaphore_max s = sem_max s"

definition semaphore_setmax :: "u32 \<Rightarrow> Semaphore \<Rightarrow> Semaphore" where
  "semaphore_setmax mv s = s\<lparr>sem_max := mv\<rparr>"

section \<open>Event\<close>

record Event =
  ev_key :: string
  mRaised :: bool
  ev_wq :: u32

definition event_new :: "string \<Rightarrow> u32 \<Rightarrow> Event" where
  "event_new name wq = \<lparr>ev_key = name, mRaised = False, ev_wq = wq\<rparr>"

definition event_raise :: "bool \<Rightarrow> Event \<times> tasks \<Rightarrow> Event \<times> tasks" where
  "event_raise level = (\<lambda>(e, t). (if level then e\<lparr>mRaised := True\<rparr> else e, wq_wakeall (ev_wq e) t))"

definition event_lower :: "Event \<Rightarrow> Event" where
  "event_lower e = e\<lparr>mRaised := False\<rparr>"

definition event_raised :: "Event \<Rightarrow> bool" where
  "event_raised e = mRaised e"

definition event_wait :: "u32 \<Rightarrow> Event \<times> tasks \<Rightarrow> (bool outcome \<times> Event \<times> tasks) kernel" where
  "event_wait timeout = (\<lambda>(e, t).
     if mRaised e then Inr (Returns True, e, t)
     else kbind (wq_yield (ev_wq e) (current t) timeout t) (\<lambda>t. Inr (Blocks, e, t)))"

definition event_wait_resume :: "Event \<times> tasks \<Rightarrow> bool" where
  "event_wait_resume = (\<lambda>(e, t). myWake (ev_wq e) (current t) t)"

section \<open>Spinlock\<close>

definition spin_tryLock :: "u32 \<Rightarrow> bool \<times> u32" where
  "spin_tryLock l = (if l = 0 then (True, 1) else (False, l))"

definition spin_unlock :: "u32 \<Rightarrow> u32" where
  "spin_unlock l = 0"

text \<open>Each turn of the waiting loop sees the value another processor left; \<open>ls\<close> are these values.\<close>

fun spin_lock :: "u32 list \<Rightarrow> u32 option" where
  "spin_lock [] = None"
| "spin_lock (l # ls) = (let (ok, l) = spin_tryLock l in if ok then Some l else spin_lock ls)"

section \<open>Mutual exclusion\<close>

text \<open>
  The steps of the processes that use a mutex, with the set of identifiers of the processes whose
  last acquisition returned success and that have not released it since.
\<close>

inductive mutex_step :: "Mutex \<times> tasks \<times> u16 set \<Rightarrow> Mutex \<times> tasks \<times> u16 set \<Rightarrow> bool" where
  ms_wait: "mutex_wait timeout (m, t) = Inr (Returns ok, m', t') \<Longrightarrow>
    mutex_step (m, t, owners) (m', t', if ok then insert (pid_of t (current t)) owners else owners)"
| ms_block: "mutex_wait timeout (m, t) = Inr (Blocks, m', t') \<Longrightarrow> mutex_step (m, t, owners) (m', t', owners)"
| ms_resume: "mutex_wait_resume timeout (m, t) = Inr (Returns ok, m', t') \<Longrightarrow>
    mutex_step (m, t, owners) (m', t', if ok then insert (pid_of t (current t)) owners else owners)"
| ms_block_again: "mutex_wait_resume timeout (m, t) = Inr (Blocks, m', t') \<Longrightarrow> mutex_step (m, t, owners) (m', t', owners)"
| ms_trylock: "mutex_trylock (m, t) = (ok, m', t') \<Longrightarrow>
    mutex_step (m, t, owners) (m', t', if ok then insert (pid_of t (current t)) owners else owners)"
| ms_unlock: "mutex_unlock (m, t) = (m', t') \<Longrightarrow>
    mutex_step (m, t, owners) (m', t', owners - {pid_of t (current t)})"
| ms_tasks: "mutex_step (m, t, owners) (m, t', owners)"

definition mutex_inv :: "Mutex \<Rightarrow> u16 set \<Rightarrow> bool" where
  "mutex_inv m owners \<longleftrightarrow> owners = (if mLocked m then {mPid m} else {})"

lemma mutex_wait_turn_cases:
  assumes "mutex_wait_turn wait timeout (m, t) = Inr (r, m', t')"
  shows "(r = Returns True \<and> \<not> mLocked m \<and> m' = m\<lparr>mLocked := True, mPid := pid_of t (current t)\<rparr> \<and> t' = t)
    \<or> (r = Returns False \<and> mLocked m \<and> \<not> wait \<and> m' = m \<and> t' = t) \<or> (r = Blocks \<and> mLocked m \<and> m' = m)"
  using assms by (auto simp: mutex_wait_turn_def dolock_def kbind_eq_Inr_iff split: if_splits)

lemma mutex_resume_cases:
  assumes "mutex_wait_resume timeout (m, t) = Inr (r, m', t')"
  shows "(r = Returns True \<and> \<not> mLocked m \<and> m' = m\<lparr>mLocked := True, mPid := pid_of t (current t)\<rparr> \<and> t' = t)
    \<or> (r = Returns False \<and> m' = m) \<or> (r = Blocks \<and> m' = m)"
  using assms mutex_wait_turn_cases [of "timeout > 0" timeout m t r m' t']
  by (auto simp: mutex_wait_resume_def split: if_splits)

lemma mutex_step_inv:
  "mutex_step s s' \<Longrightarrow> mutex_inv (fst s) (snd (snd s)) \<Longrightarrow> mutex_inv (fst s') (snd (snd s'))"
proof (induction rule: mutex_step.induct)
  case (ms_wait timeout m t ok m' t' owners)
  then show ?case using mutex_wait_turn_cases [of True timeout m t "Returns ok" m' t']
    by (auto simp: mutex_wait_def mutex_inv_def split: if_splits)
next
  case (ms_block timeout m t m' t' owners)
  then show ?case using mutex_wait_turn_cases [of True timeout m t Blocks m' t']
    by (auto simp: mutex_wait_def)
next
  case (ms_resume timeout m t ok m' t' owners)
  then show ?case using mutex_resume_cases [of timeout m t "Returns ok" m' t']
    by (auto simp: mutex_inv_def split: if_splits)
next
  case (ms_block_again timeout m t m' t' owners)
  then show ?case using mutex_resume_cases [of timeout m t Blocks m' t'] by auto
next
  case (ms_trylock m t ok m' t' owners)
  then show ?case by (auto simp: mutex_trylock_def dolock_def mutex_inv_def split: if_splits)
next
  case (ms_unlock m t m' t' owners)
  then show ?case by (auto simp: mutex_unlock_def mutex_inv_def split: if_splits)
qed simp

text \<open>
  C17: at every moment at most one process holds a mutex, and it is the one the mutex records: in
  every sequence of waits, time-outs, attempts and releases by any processes, the set of processes
  whose acquisition succeeded and that have not released the mutex is the singleton of the
  recorded identifier when the mutex is locked and empty when it is not. A release by the holder
  leaves no process waiting for the mutex.
\<close>

theorem mutex_mutual_exclusion:
  assumes "mutex_step\<^sup>*\<^sup>* (mutex_new name wq pid, t0, {}) (m, t, owners)"
  shows "owners = (if mLocked m then {mPid m} else {})
    \<and> (wait_inv t \<and> owners = {pid_of t (current t)} \<longrightarrow>
        (\<forall>p. \<not> waits_on (snd (mutex_unlock (m, t))) p (mtx_wq m)) \<and> \<not> mLocked (fst (mutex_unlock (m, t))))"
proof -
  have "mutex_inv (fst (m, t, owners)) (snd (snd (m, t, owners)))"
    using assms
  proof (induction rule: rtranclp_induct)
    case base
    then show ?case by (simp add: mutex_inv_def mutex_new_def)
  qed (use mutex_step_inv in blast)
  then have "mutex_inv m owners" by simp
  then show ?thesis
    using wakeall_nobody_waits by (auto simp: mutex_inv_def mutex_unlock_def split: if_splits)
qed

theorem mutex_mutual_exclusion_witness:
  "\<exists>m owners. mutex_step\<^sup>*\<^sup>* (mutex_new ''m'' 0x50 0, example_tasks, {}) (m, example_tasks, owners)
     \<and> owners = {1} \<and> mLocked m \<and> (\<forall>p. \<not> waits_on (snd (mutex_unlock (m, example_tasks))) p (mtx_wq m))"
proof -
  define m where "m = (mutex_new ''m'' 0x50 0)\<lparr>mLocked := True, mPid := 1\<rparr>"
  have pid: "pid_of example_tasks (current example_tasks) = 1"
    by (simp add: example_tasks_def pid_of_def new_process_def)
  have "mutex_trylock (mutex_new ''m'' 0x50 0, example_tasks) = (True, m, example_tasks)"
    by (simp add: mutex_trylock_def dolock_def mutex_new_def pid m_def)
  then have step: "mutex_step\<^sup>*\<^sup>* (mutex_new ''m'' 0x50 0, example_tasks, {}) (m, example_tasks, {1})"
    using ms_trylock [of "mutex_new ''m'' 0x50 0" example_tasks True m example_tasks "{}"] pid by auto
  have "wait_inv example_tasks" using example_run_inv by (simp add: run_inv_def)
  then show ?thesis using mutex_mutual_exclusion [OF step] step pid
    by (intro exI [of _ m] exI [of _ "{1}"]) (auto simp: m_def split: if_splits)
qed

text \<open>
  A waiter that is woken but finds the mutex taken again does not wait a second time unless it
  has a timeout, and \<open>lock\<close> does not report it.
\<close>

lemma wakeall_keeps_waitable:
  "p_wake_waitable (procs t q) = wq \<Longrightarrow> p_wake_waitable (procs (wq_wakeall wq t) q) = wq"
proof -
  have "p_wake_waitable (procs (wakeall_loop wq qs t) q) = wq" if "p_wake_waitable (procs t q) = wq" for qs
    using that
    by (induction wq qs t rule: wakeall_loop.induct)
       (auto simp: wq_wake_def pm_ready_def reschedule_def Let_def)
  then show "p_wake_waitable (procs t q) = wq \<Longrightarrow> p_wake_waitable (procs (wq_wakeall wq t) q) = wq"
    by (simp add: wq_wakeall_def Let_def)
qed

lemma wakeall_keeps_pid: "pid_of (wq_wakeall wq t) x = pid_of t x"
proof -
  have "pid_of (wakeall_loop wq qs t) x = pid_of t x" for qs
    by (induction wq qs t rule: wakeall_loop.induct)
       (auto simp: wq_wake_def pm_ready_def reschedule_def Let_def pid_of_def)
  then show ?thesis by (simp add: wq_wakeall_def Let_def pid_of_def)
qed

text \<open>
  C19: \<open>lock\<close> can return to a process that does not hold the mutex: when the holder releases a
  mutex on which \<open>q\<close> waits and another process \<open>p\<close> locks it before \<open>q\<close> runs again, the call of
  \<open>lock\<close> by \<open>q\<close> returns, as if it had succeeded, while \<open>p\<close> holds the mutex.
\<close>

theorem mutex_lock_returns_without_lock:
  assumes holder: "mLocked m" "mPid m = pid_of t (current t)" and q: "waits_on t q (mtx_wq m)"
    and unlock: "mutex_unlock (m, t) = (m1, t1)"
    and relock: "mutex_lock (m1, t1\<lparr>current := p\<rparr>) = Inr (Returns (), m2, t2)" and other: "pid_of t p \<noteq> pid_of t q"
  shows "mutex_lock_resume (m2, t2\<lparr>current := q\<rparr>) = Inr (Returns (), m2, t2\<lparr>current := q\<rparr>)
    \<and> mLocked m2 \<and> mPid m2 = pid_of t p \<and> mPid m2 \<noteq> pid_of t q"
proof -
  have m1: "m1 = m\<lparr>mLocked := False\<rparr>" and t1: "t1 = wq_wakeall (mtx_wq m) t"
    using holder unlock by (simp_all add: mutex_unlock_def)
  have pid: "pid_of (t1\<lparr>current := p\<rparr>) p = pid_of t p"
    using wakeall_keeps_pid [of "mtx_wq m" t p] by (simp add: t1 pid_of_def)
  have m2: "m2 = m1\<lparr>mLocked := True, mPid := pid_of t p\<rparr>" and t2: "t2 = t1\<lparr>current := p\<rparr>"
    using relock pid by (auto simp: mutex_lock_def ignore_result_def mutex_wait_def mutex_wait_turn_def dolock_def m1)
  have "p_wake_waitable (procs t1 q) = mtx_wq m"
    using wakeall_keeps_waitable [of t q "mtx_wq m"] q by (simp add: t1 waits_on_def)
  then have "mutex_lock_resume (m2, t2\<lparr>current := q\<rparr>) = Inr (Returns (), m2, t2\<lparr>current := q\<rparr>)"
    by (simp add: mutex_lock_resume_def ignore_result_def mutex_wait_resume_def mutex_wait_turn_def myWake_def m2 m1 t2)
  then show ?thesis using m2 other by simp
qed

text \<open>The process at \<open>0x2000\<close> waits on the queue at \<open>0x50\<close>, the one at \<open>0x1000\<close> runs.\<close>

definition example_waiter :: tasks where
  "example_waiter = (upd_proc 0x2000 (\<lambda>p. p\<lparr>p_state := WAITING, p_wake_waitable := 0x50\<rparr>) example_tasks)
     \<lparr>ready := [0x1000], waitqs := (\<lambda>_. [])(0x50 := [\<lparr>w_token = 0, w_process = 0x2000\<rparr>])\<rparr>"

theorem mutex_lock_returns_witness:
  "\<exists>m2 t2. mutex_lock_resume (m2, t2\<lparr>current := 0x2000\<rparr>) = Inr (Returns (), m2, t2\<lparr>current := 0x2000\<rparr>)
     \<and> mLocked m2 \<and> mPid m2 = 1 \<and> mPid m2 \<noteq> pid_of example_waiter 0x2000"
proof -
  define m where "m = (mutex_new ''m'' 0x50 0)\<lparr>mLocked := True, mPid := 1\<rparr>"
  have pid: "pid_of example_waiter 0x1000 = 1" "pid_of example_waiter 0x2000 = 2" "current example_waiter = 0x1000"
    by (simp_all add: example_waiter_def example_tasks_def pid_of_def new_process_def)
  obtain m1 t1 where u: "mutex_unlock (m, example_waiter) = (m1, t1)" by fastforce
  have m1: "\<not> mLocked m1" using u pid by (auto simp: mutex_unlock_def m_def)
  obtain m2 t2 where l: "mutex_lock (m1, t1\<lparr>current := 0x1000\<rparr>) = Inr (Returns (), m2, t2)"
    using m1 by (simp add: mutex_lock_def ignore_result_def mutex_wait_def mutex_wait_turn_def dolock_def)
  have wt: "waits_on example_waiter 0x2000 (mtx_wq m)"
    by (simp add: waits_on_def example_waiter_def m_def mutex_new_def)
  have h: "mLocked m" "mPid m = pid_of example_waiter (current example_waiter)"
    and other: "pid_of example_waiter 0x1000 \<noteq> pid_of example_waiter 0x2000"
    using pid by (simp_all add: m_def)
  show ?thesis
    using mutex_lock_returns_without_lock [OF h wt u l other] pid by (intro exI [of _ m2] exI [of _ t2]) simp
qed

section \<open>Counting\<close>

text \<open>
  The steps of a semaphore, with a log of the units taken so far, of the signals given, of the
  highest maximum so far, and whether every change of the maximum so far left it at or above the
  value of that moment. A step of another process may change the scheduling state in any way.
\<close>

record semaphore_log =
  units :: nat
  signals :: nat
  highest :: u32
  covered :: bool

definition log_wait :: "bool outcome \<Rightarrow> semaphore_log \<Rightarrow> semaphore_log" where
  "log_wait r l = (if r = Returns True then l\<lparr>units := units l + 1\<rparr> else l)"

inductive semaphore_step ::
    "Semaphore \<times> tasks \<times> semaphore_log \<Rightarrow> Semaphore \<times> tasks \<times> semaphore_log \<Rightarrow> bool" where
  ss_wait: "semaphore_wait timeout (s, t) = Inr (r, s', t') \<Longrightarrow> semaphore_step (s, t, l) (s', t', log_wait r l)"
| ss_resume: "semaphore_wait_resume timeout (s, t) = Inr (r, s', t') \<Longrightarrow>
    semaphore_step (s, t, l) (s', t', log_wait r l)"
| ss_signal: "semaphore_signal (s, t) = (s', t') \<Longrightarrow>
    semaphore_step (s, t, l) (s', t', l\<lparr>signals := signals l + 1\<rparr>)"
| ss_setmax: "semaphore_step (s, t, l)
    (semaphore_setmax mv s, t, l\<lparr>highest := max (highest l) mv, covered := covered l \<and> sem_value s \<le> mv\<rparr>)"
| ss_tasks: "semaphore_step (s, t, l) (s, t', l)"

definition semaphore_inv :: "u32 \<Rightarrow> Semaphore \<Rightarrow> semaphore_log \<Rightarrow> bool" where
  "semaphore_inv initial s l \<longleftrightarrow>
     unat (sem_value s) + units l \<le> unat initial + signals l \<and> sem_value s \<le> max initial (highest l)
     \<and> sem_max s \<le> highest l \<and> (covered l \<longrightarrow> sem_value s \<le> sem_max s)"

lemma u32_decr:
  assumes "v \<noteq> 0"
  shows "unat (v - 1 :: u32) + 1 = unat v" and "v - 1 \<le> (v :: u32)"
proof -
  have "0 < unat v" using assms by (simp add: unat_gt_0)
  then show *: "unat (v - 1) + 1 = unat v" using assms by (simp add: unat_minus_one)
  then show "v - 1 \<le> v" by (simp add: word_le_nat_alt)
qed

lemma u32_incr_le: "unat (v + 1 :: u32) \<le> unat v + 1"
  by (simp add: unat_word_ariths)

lemma semaphore_take_inv:
  assumes "semaphore_take s = (ok, s')" and "semaphore_inv i s l"
  shows "semaphore_inv i s' (log_wait (Returns ok) l)"
proof (cases "sem_value s = 0")
  case True
  then show ?thesis using assms by (auto simp: semaphore_take_def log_wait_def)
next
  case False
  then have "ok" and "s' = s\<lparr>sem_value := sem_value s - 1\<rparr>"
    using assms(1) by (auto simp: semaphore_take_def word_neq_0_conv)
  then show ?thesis
    using assms(2) u32_decr [OF False]
    by (auto simp: semaphore_inv_def log_wait_def intro: order_trans)
qed

lemma semaphore_turn_inv:
  assumes "semaphore_wait_turn timeout (s, t) = Inr (r, s', t')" and "semaphore_inv i s l"
  shows "semaphore_inv i s' (log_wait r l)"
proof (cases "sem_value s = 0")
  case True
  then have "s' = s \<and> r = Blocks" using assms(1) by (auto simp: semaphore_wait_turn_def kbind_eq_Inr_iff)
  then show ?thesis using assms(2) by (simp add: log_wait_def)
next
  case False
  obtain ok s1 where k: "semaphore_take s = (ok, s1)" by fastforce
  then have "s' = s1 \<and> r = Returns ok" using assms(1) False by (simp add: semaphore_wait_turn_def)
  then show ?thesis using semaphore_take_inv [OF k assms(2)] by simp
qed

lemma semaphore_resume_inv:
  assumes "semaphore_wait_resume timeout (s, t) = Inr (r, s', t')" and i: "semaphore_inv i s l"
  shows "semaphore_inv i s' (log_wait r l)"
proof -
  obtain ok s1 where k: "semaphore_take s = (ok, s1)" by fastforce
  note j = semaphore_take_inv [OF k i]
  show ?thesis
  proof (cases "myWake (sem_wq s) (current t) t \<and> \<not> ok \<and> timeout > 0")
    case True
    then have "semaphore_wait_turn timeout (s1, t) = Inr (r, s', t')"
      using assms(1) k by (simp add: semaphore_wait_resume_def)
    then show ?thesis using semaphore_turn_inv j True by (simp add: log_wait_def)
  next
    case False
    then have "(r = Returns True \<and> ok \<and> s' = s1) \<or> (r = Returns False \<and> (s' = s \<or> \<not> ok \<and> s' = s1))"
      using assms(1) k by (auto simp: semaphore_wait_resume_def split: if_splits)
    then show ?thesis using i j by (auto simp: log_wait_def)
  qed
qed

lemma semaphore_signal_eq:
  "semaphore_signal (s, t) = (s', t') \<Longrightarrow>
    s' = s\<lparr>sem_value := if sem_value s + 1 > sem_max s then sem_max s else sem_value s + 1\<rparr>"
  by (auto simp: semaphore_signal_def Let_def split: if_splits)

lemma semaphore_step_inv:
  "semaphore_step x y \<Longrightarrow> semaphore_inv i (fst x) (snd (snd x)) \<Longrightarrow> semaphore_inv i (fst y) (snd (snd y))"
proof (induction rule: semaphore_step.induct)
  case (ss_wait timeout s t r s' t' l)
  then show ?case using semaphore_turn_inv [of timeout s t r s' t'] by (simp add: semaphore_wait_def)
next
  case (ss_resume timeout s t r s' t' l)
  then show ?case using semaphore_resume_inv by simp
next
  case (ss_signal s t s' t' l)
  have "sem_value s' \<le> sem_max s'" "sem_max s' = sem_max s" "unat (sem_value s') \<le> unat (sem_value s) + 1"
    using semaphore_signal_eq [OF ss_signal.hyps] u32_incr_le [of "sem_value s"]
    by (auto simp: word_less_nat_alt word_le_nat_alt)
  with ss_signal.prems show ?case by (auto simp: semaphore_inv_def le_max_iff_disj intro: order_trans)
next
  case (ss_setmax s t l mv)
  then show ?case by (auto simp: semaphore_inv_def semaphore_setmax_def le_max_iff_disj)
qed simp



end
