(* ===== verification/Filesystem.thy ===== *)
theory Filesystem
  imports Puppy_Prelude
begin

text \<open>
  The base classes of the file systems (\<open>src/kernel/include/fs/filesystem.h\<close>,
  \<open>src/kernel/src/fs/filesystem.cpp\<close>): reference-counted objects and the count of open objects.
  A filesystem is a record: its base-class fields, the objects it handed out by their address, and
  what the subclass adds. Address \<open>0\<close> is the null pointer; \<open>new\<close> takes a fresh address. The virtual
  operations \<open>doOpen\<close>, \<open>doOpendir\<close> and \<open>doClose\<close> are arguments; what a subclass promises about them
  is the locale \<open>fs_provider\<close>. The compare-and-exchange loops are single steps, as the kernel is
  not preempted.
\<close>

section \<open>Objects\<close>

datatype file_kind_t = K_directory | K_file | K_blockdevice | K_chardevice | K_pipe | K_msgqueue | K_tty
  | K_semaphore | K_mutex | K_event

record 'x fobject =
  o_kind :: file_kind_t
  o_refcount :: u32
  o_data :: 'x

record ('x, 'p) fs =
  fs_refcount :: u32
  fs_openObjects :: u64
  fs_objs :: "nat \<Rightarrow> 'x fobject option"
  fs_fresh :: nat
  fs_priv :: 'p

definition fobject_new :: "file_kind_t \<Rightarrow> 'x \<Rightarrow> 'x fobject" where
  "fobject_new k x = \<lparr>o_kind = k, o_refcount = 1, o_data = x\<rparr>"

definition rc_incref :: "u32 \<Rightarrow> u32" where
  "rc_incref c = (if c = - 1 then c else c + 1)"

definition rc_decref :: "u32 \<Rightarrow> u32" where
  "rc_decref c = (if c = 0 then c else c - 1)"

definition object_at :: "('x, 'p) fs \<Rightarrow> nat \<Rightarrow> 'x fobject kernel" where
  "object_at F f = (if f = 0 then Inl NullDeref else case fs_objs F f of None \<Rightarrow> Inl Dangling | Some ob \<Rightarrow> Inr ob)"

definition put_object :: "nat \<Rightarrow> 'x fobject \<Rightarrow> ('x, 'p) fs \<Rightarrow> ('x, 'p) fs" where
  "put_object f ob F = F\<lparr>fs_objs := (fs_objs F)(f \<mapsto> ob)\<rparr>"

definition new_object :: "'x fobject \<Rightarrow> ('x, 'p) fs \<Rightarrow> nat \<times> ('x, 'p) fs" where
  "new_object ob F = (fs_fresh F, put_object (fs_fresh F) ob F\<lparr>fs_fresh := fs_fresh F + 1\<rparr>)"

definition delete_object :: "nat \<Rightarrow> ('x, 'p) fs \<Rightarrow> ('x, 'p) fs" where
  "delete_object f F = F\<lparr>fs_objs := (fs_objs F)(f := None)\<rparr>"

definition object_incref :: "nat \<Rightarrow> ('x, 'p) fs \<Rightarrow> (u32 \<times> ('x, 'p) fs) kernel" where
  "object_incref f F =
     kbind (object_at F f) (\<lambda>ob.
     let wanted = rc_incref (o_refcount ob) in Inr (wanted, put_object f (ob\<lparr>o_refcount := wanted\<rparr>) F))"

definition object_decref :: "nat \<Rightarrow> ('x, 'p) fs \<Rightarrow> (u32 \<times> ('x, 'p) fs) kernel" where
  "object_decref f F =
     kbind (object_at F f) (\<lambda>ob.
     let wanted = rc_decref (o_refcount ob) in Inr (wanted, put_object f (ob\<lparr>o_refcount := wanted\<rparr>) F))"

text \<open>
  \<open>stat\<close> fills in the kind, calls \<open>doStat\<close>, and only logs when \<open>doStat\<close> changed the kind; \<open>doStat\<close>
  maps the structure to its answer and the structure it leaves.
\<close>

record file_stat_t =
  st_kind :: file_kind_t
  st_size :: u32
  st_time :: u64

definition object_stat :: "(file_stat_t \<Rightarrow> bool \<times> file_stat_t) \<Rightarrow> 'x fobject \<Rightarrow> file_stat_t \<Rightarrow> bool \<times> file_stat_t" where
  "object_stat doStat ob st =
     (let expectedKind = o_kind ob; (ok, st) = doStat (st\<lparr>st_kind := expectedKind\<rparr>) in (ok, st))"

section \<open>Filesystems\<close>

definition fs_new :: "'p \<Rightarrow> ('x, 'p) fs" where
  "fs_new p = \<lparr>fs_refcount = 1, fs_openObjects = 0, fs_objs = (\<lambda>_. None), fs_fresh = 1, fs_priv = p\<rparr>"

definition fs_incref :: "('x, 'p) fs \<Rightarrow> u32 \<times> ('x, 'p) fs" where
  "fs_incref F = (let wanted = rc_incref (fs_refcount F) in (wanted, F\<lparr>fs_refcount := wanted\<rparr>))"

definition fs_decref :: "('x, 'p) fs \<Rightarrow> u32 \<times> ('x, 'p) fs" where
  "fs_decref F = (let wanted = rc_decref (fs_refcount F) in (wanted, F\<lparr>fs_refcount := wanted\<rparr>))"

definition openObject :: "('x, 'p) fs \<Rightarrow> ('x, 'p) fs" where
  "openObject F = F\<lparr>fs_openObjects := fs_openObjects F + 1\<rparr>"

definition closeObject :: "('x, 'p) fs \<Rightarrow> ('x, 'p) fs kernel" where
  "closeObject F =
     (let old = fs_openObjects F; F = F\<lparr>fs_openObjects := fs_openObjects F - 1\<rparr> in
      if 0 = old then Inl (Panic ''VFS state corrupt'') else Inr F)"

definition fs_open ::
  "(string \<Rightarrow> u32 \<Rightarrow> ('x, 'p) fs \<Rightarrow> (nat \<times> ('x, 'p) fs) kernel) \<Rightarrow> string \<Rightarrow> u32 \<Rightarrow> ('x, 'p) fs \<Rightarrow>
   (nat \<times> ('x, 'p) fs) kernel" where
  "fs_open doOpen path mode F =
     kbind (doOpen path mode F) (\<lambda>(f, F). if f \<noteq> 0 then Inr (f, openObject F) else Inr (0, F))"

definition fs_opendir ::
  "(string \<Rightarrow> ('x, 'p) fs \<Rightarrow> (nat \<times> ('x, 'p) fs) kernel) \<Rightarrow> string \<Rightarrow> ('x, 'p) fs \<Rightarrow> (nat \<times> ('x, 'p) fs) kernel" where
  "fs_opendir doOpendir path F =
     kbind (doOpendir path F) (\<lambda>(d, F). if d \<noteq> 0 then Inr (d, openObject F) else Inr (0, F))"

definition fs_close ::
  "(nat \<Rightarrow> ('x, 'p) fs \<Rightarrow> ('x, 'p) fs kernel) \<Rightarrow> nat \<Rightarrow> ('x, 'p) fs \<Rightarrow> ('x, 'p) fs kernel" where
  "fs_close doClose f F =
     kbind (object_decref f F) (\<lambda>(c, F).
     if 0 = c then kbind (doClose f F) (\<lambda>F. closeObject F) else Inr F)"

lemma fs_objs_updates [simp]:
  "fs_objs (put_object f ob F) = (fs_objs F)(f \<mapsto> ob)" "fs_objs (delete_object f F) = (fs_objs F)(f := None)"
  "fs_openObjects (put_object f ob F) = fs_openObjects F" "fs_openObjects (delete_object f F) = fs_openObjects F"
  "fs_priv (put_object f ob F) = fs_priv F" "fs_priv (delete_object f F) = fs_priv F"
  "fs_fresh (put_object f ob F) = fs_fresh F" "fs_fresh (delete_object f F) = fs_fresh F"
  "fs_objs (openObject F) = fs_objs F" "fs_priv (openObject F) = fs_priv F" "fs_fresh (openObject F) = fs_fresh F"
  by (simp_all add: put_object_def delete_object_def openObject_def)

section \<open>What a filesystem promises\<close>

text \<open>
  A successful \<open>doOpen\<close> adds one object of reference count one, a failed one adds none; \<open>doClose\<close>
  removes the object; both leave the other objects' counts and the count of open objects alone.
  \<open>good\<close> is the invariant of the subclass, which does not depend on reference counts.
\<close>

definition counts :: "('x, 'p) fs \<Rightarrow> nat \<Rightarrow> u32 option" where
  "counts F f = map_option o_refcount (fs_objs F f)"

definition adds_object :: "('x, 'p) fs \<Rightarrow> nat \<Rightarrow> ('x, 'p) fs \<Rightarrow> bool" where
  "adds_object F f F' \<longleftrightarrow> fs_openObjects F' = fs_openObjects F \<and>
     (if f = 0 then counts F' = counts F else counts F f = None \<and> counts F' = (counts F)(f \<mapsto> 1))"

definition counted :: "('x, 'p) fs \<Rightarrow> bool" where
  "counted F \<longleftrightarrow> counts F 0 = None \<and> finite (dom (counts F)) \<and> unat (fs_openObjects F) = card (dom (counts F))
     \<and> (\<forall>f. counts F f \<noteq> Some 0)"

text \<open>An object takes memory of a 32-bit address space, so there are fewer than \<open>2 ^ 32\<close> of them.\<close>

definition few :: "('x, 'p) fs \<Rightarrow> bool" where
  "few F \<longleftrightarrow> card (dom (fs_objs F)) + 1 < 2 ^ 32"

lemma dom_counts: "dom (counts F) = dom (fs_objs F)"
  by (auto simp: counts_def)

lemma counts_simps [simp]:
  "counts (put_object f ob F) = (counts F)(f \<mapsto> o_refcount ob)"
  "counts (delete_object f F) = (counts F)(f := None)"
  "counts (openObject F) = counts F" "counts (F\<lparr>fs_openObjects := n\<rparr>) = counts F"
  "counts (F\<lparr>fs_priv := p\<rparr>) = counts F" "counts (F\<lparr>fs_fresh := k\<rparr>) = counts F"
  "counts (F\<lparr>fs_refcount := c\<rparr>) = counts F"
  by (auto simp: counts_def)

lemma object_at_counts: "f \<noteq> 0 \<Longrightarrow> counts F f = Some c \<Longrightarrow> \<exists>ob. object_at F f = Inr ob \<and> fs_objs F f = Some ob \<and> o_refcount ob = c"
  by (auto simp: object_at_def counts_def split: option.splits)

lemma rc_decref_0: "c \<noteq> 0 \<Longrightarrow> rc_decref c = 0 \<longleftrightarrow> c = 1"
  by (simp add: rc_decref_def)

lemma counted_opened:
  assumes "counted F" and "adds_object F f F'" and "f \<noteq> 0" and "few F"
  shows "counted (openObject F')"
proof -
  have c: "counts F' = (counts F)(f \<mapsto> 1)" "counts F f = None" "fs_openObjects F' = fs_openObjects F"
    using assms(2,3) by (simp_all add: adds_object_def)
  then have "card (dom (counts F')) = card (dom (counts F)) + 1"
    using assms(1) by (simp add: counted_def domIff)
  moreover have "unat (fs_openObjects F + 1) = unat (fs_openObjects F) + 1"
    using assms(1,4) by (simp add: counted_def few_def dom_counts unat_word_ariths)
  ultimately show ?thesis
    using assms(1,3) c by (auto simp: counted_def openObject_def)
qed

lemma counted_closed:
  assumes "counted F" and "counts F f = Some c" and "counts F' = (counts F)(f := None)" and "fs_openObjects F' = fs_openObjects F"
  shows "\<exists>F''. closeObject F' = Inr F'' \<and> counted F''"
proof -
  have f: "f \<in> dom (counts F)" "finite (dom (counts F))" using assms(1,2) by (auto simp: counted_def)
  then have pos: "0 < card (dom (counts F))" by (auto simp: card_gt_0_iff)
  then have n: "fs_openObjects F \<noteq> 0" using assms(1) by (auto simp: counted_def)
  have "card (dom (counts F')) = card (dom (counts F)) - 1" using f assms(3) by (simp add: card_Diff_singleton)
  moreover have "unat (fs_openObjects F - 1) = unat (fs_openObjects F) - 1" using n by (simp add: unat_minus_one)
  ultimately show ?thesis using assms n by (auto simp: closeObject_def counted_def)
qed

lemma counted_put_object:
  assumes "counted F" and "counts F f = Some c" and "r \<noteq> 0"
  shows "counted (put_object f (ob\<lparr>o_refcount := r\<rparr>) F)"
proof -
  have "dom ((counts F)(f \<mapsto> r)) = dom (counts F)" using assms(2) by auto
  moreover have "f \<noteq> 0" using assms(1,2) by (metis counted_def option.distinct(1))
  ultimately show ?thesis using assms by (auto simp: counted_def)
qed

locale fs_provider =
  fixes good :: "('x, 'p) fs \<Rightarrow> bool"
    and doOpen :: "string \<Rightarrow> u32 \<Rightarrow> ('x, 'p) fs \<Rightarrow> (nat \<times> ('x, 'p) fs) kernel"
    and doOpendir :: "string \<Rightarrow> ('x, 'p) fs \<Rightarrow> (nat \<times> ('x, 'p) fs) kernel"
    and doClose :: "nat \<Rightarrow> ('x, 'p) fs \<Rightarrow> ('x, 'p) fs kernel"
  assumes open_adds: "good F \<Longrightarrow> few F \<Longrightarrow> doOpen path mode F = Inr (f, F') \<Longrightarrow> good F' \<and> adds_object F f F'"
    and opendir_adds: "good F \<Longrightarrow> few F \<Longrightarrow> doOpendir path F = Inr (f, F') \<Longrightarrow> good F' \<and> adds_object F f F'"
    and close_removes: "good F \<Longrightarrow> fs_objs F f = Some ob \<Longrightarrow> f \<noteq> 0 \<Longrightarrow>
      \<exists>F'. doClose f F = Inr F' \<and> good F' \<and> counts F' = (counts F)(f := None) \<and> fs_openObjects F' = fs_openObjects F"
    and good_refcount: "good F \<Longrightarrow> fs_objs F f = Some ob \<Longrightarrow> good (put_object f (ob\<lparr>o_refcount := r\<rparr>) F)"
    and good_open_count: "good (F\<lparr>fs_openObjects := n\<rparr>) = good F"
begin

lemma opened:
  assumes "good F" and "counted F" and "few F" and "fs_open doOpen path mode F = Inr (f, F')"
  shows "good F' \<and> counted F'"
proof -
  obtain F1 where d: "doOpen path mode F = Inr (f, F1)" and F': "F' = (if f \<noteq> 0 then openObject F1 else F1)"
    using assms(4) by (auto simp: fs_open_def kbind_eq_Inr_iff split: if_splits)
  have a: "good F1" "adds_object F f F1" using open_adds [OF assms(1,3) d] by auto
  show ?thesis
  proof (cases "f = 0")
    case True
    then show ?thesis using a assms(2) F' by (auto simp: adds_object_def counted_def)
  next
    case False
    then show ?thesis using counted_opened [OF assms(2) a(2) False assms(3)] a(1) F' good_open_count [of _ F1]
      by (simp add: openObject_def)
  qed
qed

lemma opened_dir:
  assumes "good F" and "counted F" and "few F" and "fs_opendir doOpendir path F = Inr (f, F')"
  shows "good F' \<and> counted F'"
proof -
  obtain F1 where d: "doOpendir path F = Inr (f, F1)" and F': "F' = (if f \<noteq> 0 then openObject F1 else F1)"
    using assms(4) by (auto simp: fs_opendir_def kbind_eq_Inr_iff split: if_splits)
  have a: "good F1" "adds_object F f F1" using opendir_adds [OF assms(1,3) d] by auto
  show ?thesis
  proof (cases "f = 0")
    case True
    then show ?thesis using a assms(2) F' by (auto simp: adds_object_def counted_def)
  next
    case False
    then show ?thesis using counted_opened [OF assms(2) a(2) False assms(3)] a(1) F' good_open_count [of _ F1]
      by (simp add: openObject_def)
  qed
qed

lemma closed:
  assumes "good F" and "counted F" and "counts F f = Some c"
  shows "\<exists>F'. fs_close doClose f F = Inr F' \<and> good F' \<and> counted F'
    \<and> counts F' = (if c = 1 then (counts F)(f := None) else (counts F)(f \<mapsto> c - 1))"
proof -
  have f: "f \<noteq> 0" "c \<noteq> 0" using assms(2,3) by (metis counted_def option.distinct(1))+
  obtain ob where ob: "object_at F f = Inr ob" "fs_objs F f = Some ob" "o_refcount ob = c"
    using object_at_counts [OF f(1) assms(3)] by auto
  define F1 where "F1 = put_object f (ob\<lparr>o_refcount := rc_decref c\<rparr>) F"
  have d: "object_decref f F = Inr (rc_decref c, F1)" using ob by (simp add: object_decref_def Let_def F1_def)
  have g1: "good F1" using good_refcount [OF assms(1) ob(2)] by (simp add: F1_def)
  have c1: "counts F1 = (counts F)(f \<mapsto> rc_decref c)" by (simp add: F1_def)
  show ?thesis
  proof (cases "c = 1")
    case True
    then have z: "rc_decref c = 0" using rc_decref_0 [OF f(2)] by simp
    obtain F2 where F2: "doClose f F1 = Inr F2" "good F2" "counts F2 = (counts F1)(f := None)" "fs_openObjects F2 = fs_openObjects F1"
      using close_removes [OF g1 _ f(1)] by (fastforce simp: F1_def)
    have "counts F2 = (counts F)(f := None)" using F2(3) c1 by simp
    moreover have "fs_openObjects F2 = fs_openObjects F" using F2(4) by (simp add: F1_def)
    ultimately obtain F3 where F3: "closeObject F2 = Inr F3" "counted F3"
      using counted_closed [OF assms(2,3)] by blast
    then have "F3 = F2\<lparr>fs_openObjects := fs_openObjects F2 - 1\<rparr>" by (auto simp: closeObject_def split: if_splits)
    then have "good F3" "counts F3 = counts F2" using F2(2) good_open_count by auto
    then show ?thesis using d z F2(1) F3 True \<open>counts F2 = (counts F)(f := None)\<close> by (auto simp: fs_close_def)
  next
    case False
    then have n: "rc_decref c = c - 1" "c - 1 \<noteq> 0" using f(2) by (simp_all add: rc_decref_def)
    have "counted F1" unfolding F1_def using counted_put_object [OF assms(2,3) n(2)] n(1) by simp
    then show ?thesis using d n g1 c1 False by (simp add: fs_close_def)
  qed
qed

end

end
