(* ===== verification/Keyed_Store.thy ===== *)
theory Keyed_Store
  imports Puppy_Prelude
begin

text \<open>
  The hash table of \<open>src/kernel/include/libc/hash.h\<close> and the reference-counted store of named objects
  on top of it (\<open>src/kernel/include/libc/keyedstore.h\<close>). The buckets are the item lists of their
  \<open>slist\<close> (the lists refine them, see \<open>Slist\<close>). The locale \<open>finite_map\<close> is what the store relies on,
  the locale \<open>object_store\<close> what the filesystems of named objects rely on.
\<close>

section \<open>Maps\<close>

locale finite_map =
  fixes ok :: "'h \<Rightarrow> bool" and lookup :: "'k \<Rightarrow> 'h \<Rightarrow> 'v option"
    and insert :: "'k \<Rightarrow> 'v \<Rightarrow> 'h \<Rightarrow> 'h" and erase :: "'k \<Rightarrow> 'h \<Rightarrow> bool \<times> 'h"
  assumes lookup_insert: "ok h \<Longrightarrow> lookup k' (insert k v h) = (if k' = k then Some v else lookup k' h)"
    and lookup_erase: "ok h \<Longrightarrow> lookup k' (snd (erase k h)) = (if k' = k then None else lookup k' h)"
    and erase_found: "ok h \<Longrightarrow> fst (erase k h) \<longleftrightarrow> lookup k h \<noteq> None"
    and ok_insert: "ok h \<Longrightarrow> ok (insert k v h)"
    and ok_erase: "ok h \<Longrightarrow> ok (snd (erase k h))"
begin

text \<open>The table after a list of insertions is the map of the list, later ones winning.\<close>

lemma insert_all:
  "ok h \<Longrightarrow> ok (fold (\<lambda>(k, v). insert k v) kvs h) \<and>
   lookup k' (fold (\<lambda>(k, v). insert k v) kvs h) = (case map_of (rev kvs) k' of None \<Rightarrow> lookup k' h | Some v \<Rightarrow> Some v)"
proof (induction kvs arbitrary: h)
  case (Cons kv kvs)
  obtain k v where "kv = (k, v)" by fastforce
  then show ?case using Cons.IH [OF ok_insert [OF Cons.prems]] Cons.prems
    by (simp add: lookup_insert map_add_def split: option.split)
qed simp

lemma lookup_as_function: "ok h \<Longrightarrow> (\<lambda>k. lookup k (insert a v h)) = (\<lambda>k. lookup k h)(a \<mapsto> v)"
  by (simp add: fun_eq_iff lookup_insert)

lemma lookup_erase_function: "ok h \<Longrightarrow> (\<lambda>k. lookup k (snd (erase a h))) = (\<lambda>k. lookup k h)(a := None)"
  by (simp add: fun_eq_iff lookup_erase)

end

section \<open>Hash table\<close>

type_synonym ('k, 'v) hash_t = "('k \<times> 'v) list list"

definition hash_new :: "nat \<Rightarrow> ('k, 'v) hash_t" where
  "hash_new N = replicate N []"

definition hash_slot :: "('k \<Rightarrow> u32) \<Rightarrow> 'k \<Rightarrow> ('k, 'v) hash_t \<Rightarrow> nat" where
  "hash_slot index key h = unat (index key) mod length h"

fun entry_remove :: "('k \<Rightarrow> 'k \<Rightarrow> bool) \<Rightarrow> 'k \<Rightarrow> ('k \<times> 'v) list \<Rightarrow> ('k \<times> 'v) list" where
  "entry_remove eq key [] = []"
| "entry_remove eq key (candidate # b) = (if eq (fst candidate) key then b else candidate # entry_remove eq key b)"

definition hash_insert :: "('k \<Rightarrow> u32) \<Rightarrow> ('k \<Rightarrow> 'k \<Rightarrow> bool) \<Rightarrow> 'k \<Rightarrow> 'v \<Rightarrow> ('k, 'v) hash_t \<Rightarrow> ('k, 'v) hash_t" where
  "hash_insert index eq key value h =
     (let idx = hash_slot index key h; entry = h ! idx;
          entry = (if entry \<noteq> [] then entry_remove eq key entry else entry) in
      h[idx := entry @ [(key, value)]])"

fun entry_find :: "('k \<Rightarrow> 'k \<Rightarrow> bool) \<Rightarrow> 'k \<Rightarrow> ('k \<times> 'v) list \<Rightarrow> 'v option" where
  "entry_find eq key [] = None"
| "entry_find eq key (candidate # b) = (if eq (fst candidate) key then Some (snd candidate) else entry_find eq key b)"

definition hash_find :: "('k \<Rightarrow> u32) \<Rightarrow> ('k \<Rightarrow> 'k \<Rightarrow> bool) \<Rightarrow> 'k \<Rightarrow> ('k, 'v) hash_t \<Rightarrow> 'v option" where
  "hash_find index eq key h = entry_find eq key (h ! hash_slot index key h)"

definition hash_erase :: "('k \<Rightarrow> u32) \<Rightarrow> ('k \<Rightarrow> 'k \<Rightarrow> bool) \<Rightarrow> 'k \<Rightarrow> ('k, 'v) hash_t \<Rightarrow> bool \<times> ('k, 'v) hash_t" where
  "hash_erase index eq key h =
     (let idx = hash_slot index key h; entry = h ! idx in
      if \<exists>candidate\<in>set entry. eq (fst candidate) key then (True, h[idx := entry_remove eq key entry]) else (False, h))"

definition hash_clear :: "('k, 'v) hash_t \<Rightarrow> ('k, 'v) hash_t" where
  "hash_clear h = map (\<lambda>entry. []) h"

text \<open>Every key is in its bucket, once.\<close>

definition hash_ok :: "('k \<Rightarrow> u32) \<Rightarrow> ('k, 'v) hash_t \<Rightarrow> bool" where
  "hash_ok index h \<longleftrightarrow> h \<noteq> [] \<and> (\<forall>i<length h. distinct (map fst (h ! i)) \<and> (\<forall>(k, v)\<in>set (h ! i). hash_slot index k h = i))"

lemma entry_remove_subset: "set (entry_remove (=) k es) \<subseteq> set es"
  by (induction es) auto

lemma entry_remove_filter: "distinct (map fst es) \<Longrightarrow> entry_remove (=) k es = filter (\<lambda>e. fst e \<noteq> k) es"
proof (induction es)
  case (Cons e es)
  then have "filter (\<lambda>e. fst e \<noteq> k) es = es" if "fst e = k" using that Cons.prems by (intro filter_True) (auto simp: image_iff)
  with Cons show ?case by auto
qed simp

lemma entry_find_map_of: "entry_find (=) k es = map_of es k"
  by (induction es) auto

lemma hash_slot_less: "h \<noteq> [] \<Longrightarrow> hash_slot index k h < length h"
  by (simp add: hash_slot_def)

lemma hash_slot_update [simp]: "hash_slot index k (h[i := e]) = hash_slot index k h"
  by (simp add: hash_slot_def)

lemma hash_okD:
  assumes "hash_ok index h"
  shows "distinct (map fst (h ! hash_slot index k h))"
    and "(k', v) \<in> set (h ! hash_slot index k h) \<Longrightarrow> hash_slot index k' h = hash_slot index k h"
  using assms hash_slot_less [of h index k] by (auto simp: hash_ok_def)

lemma hash_ok_update:
  assumes "hash_ok index h" and "distinct (map fst e)" and "\<And>k v. (k, v) \<in> set e \<Longrightarrow> hash_slot index k h = i"
  shows "hash_ok index (h[i := e])"
proof -
  have "distinct (map fst (h[i := e] ! j)) \<and> (\<forall>(k, v)\<in>set (h[i := e] ! j). hash_slot index k h = j)" if "j < length h" for j
    using that assms by (cases "j = i") (auto simp: hash_ok_def)
  then show ?thesis using assms(1) by (simp add: hash_ok_def)
qed

lemma map_of_filter_key: "map_of (filter (\<lambda>e. fst e \<noteq> k) es) k' = (if k' = k then None else map_of es k')"
  by (induction es) auto

lemma hash_insert_ok:
  assumes "hash_ok index h"
  shows "hash_ok index (hash_insert index (=) k v h)"
proof -
  define e where "e = h ! hash_slot index k h"
  have "distinct (map fst e)" and s: "\<And>k' v. (k', v) \<in> set e \<Longrightarrow> hash_slot index k' h = hash_slot index k h"
    using hash_okD [OF assms] by (auto simp: e_def)
  then have "distinct (map fst (entry_remove (=) k e @ [(k, v)]))"
    by (auto simp: entry_remove_filter distinct_map inj_on_def)
  moreover have "hash_slot index k' h = hash_slot index k h" if "(k', v') \<in> set (entry_remove (=) k e @ [(k, v)])" for k' v'
    using that s entry_remove_subset [of k e] by auto
  ultimately show ?thesis using hash_ok_update [OF assms, of "entry_remove (=) k e @ [(k, v)]"]
    by (cases "e = []") (auto simp: hash_insert_def Let_def e_def [symmetric])
qed

lemma hash_insert_find:
  assumes "hash_ok index h"
  shows "hash_find index (=) k' (hash_insert index (=) k v h) = (if k' = k then Some v else hash_find index (=) k' h)"
proof -
  define e where "e = h ! hash_slot index k h"
  have d: "distinct (map fst e)" using hash_okD(1) [OF assms, of k] by (simp add: e_def)
  have l: "hash_slot index k h < length h" using assms by (auto simp: hash_ok_def hash_slot_less)
  have i: "hash_insert index (=) k v h = h[hash_slot index k h := entry_remove (=) k e @ [(k, v)]]"
    by (cases "e = []") (auto simp: hash_insert_def Let_def e_def [symmetric])
  have "map_of (entry_remove (=) k e @ [(k, v)]) k' = (if k' = k then Some v else map_of e k')"
    using d by (auto simp: entry_remove_filter map_add_def map_of_filter_key split: option.splits)
  then show ?thesis using l
    by (cases "hash_slot index k' h = hash_slot index k h") (auto simp: i hash_find_def entry_find_map_of e_def)
qed

lemma hash_erase_cases:
  assumes "hash_ok index h"
  shows "snd (hash_erase index (=) k h) = h[hash_slot index k h := filter (\<lambda>e. fst e \<noteq> k) (h ! hash_slot index k h)]"
proof (cases "\<exists>c\<in>set (h ! hash_slot index k h). fst c = k")
  case True
  then show ?thesis using hash_okD(1) [OF assms, of k] by (simp add: hash_erase_def Let_def entry_remove_filter)
next
  case False
  then have "filter (\<lambda>e. fst e \<noteq> k) (h ! hash_slot index k h) = h ! hash_slot index k h" by (auto intro!: filter_True)
  then show ?thesis using False by (simp add: hash_erase_def Let_def)
qed

lemma hash_erase_ok:
  assumes "hash_ok index h"
  shows "hash_ok index (snd (hash_erase index (=) k h))"
  unfolding hash_erase_cases [OF assms]
proof (rule hash_ok_update [OF assms])
  show "distinct (map fst (filter (\<lambda>e. fst e \<noteq> k) (h ! hash_slot index k h)))"
    using hash_okD(1) [OF assms, of k] by (auto simp: distinct_map inj_on_def)
qed (use hash_okD(2) [OF assms] in auto)

lemma hash_erase_find:
  assumes "hash_ok index h"
  shows "hash_find index (=) k' (snd (hash_erase index (=) k h)) = (if k' = k then None else hash_find index (=) k' h)"
proof -
  have l: "hash_slot index k h < length h" using assms by (auto simp: hash_ok_def hash_slot_less)
  then show ?thesis unfolding hash_erase_cases [OF assms]
    by (cases "hash_slot index k' h = hash_slot index k h")
       (auto simp: hash_find_def entry_find_map_of map_of_filter_key)
qed

lemma hash_erase_flag: "fst (hash_erase index (=) k h) \<longleftrightarrow> hash_find index (=) k h \<noteq> None"
  by (auto simp: hash_erase_def Let_def hash_find_def entry_find_map_of map_of_eq_None_iff)

lemma hash_new_ok: "0 < N \<Longrightarrow> hash_ok index (hash_new N) \<and> hash_find index (=) k (hash_new N) = None"
  by (auto simp: hash_new_def hash_ok_def hash_find_def hash_slot_def)

interpretation hm: finite_map "hash_ok index" "hash_find index (=)" "hash_insert index (=)" "hash_erase index (=)" for index
  by unfold_locales (simp_all add: hash_insert_find hash_erase_find hash_erase_flag hash_insert_ok hash_erase_ok)

section \<open>Store of named objects\<close>

text \<open>The hash function of the store: characters are signed, the sum wraps at 32 bits.\<close>

definition ks_index :: "string \<Rightarrow> u32" where
  "ks_index s = foldl (\<lambda>i c. 31 * i + scast (of_char c :: u8)) 0 s"

text \<open>
  The hash maps a name to a \<open>pair<T*, uint32_t>\<close> on the heap, which points to the object. Deleted
  cells are \<open>None\<close>; following a pointer to one is the fault \<open>Dangling\<close>.
\<close>

record 't kstore =
  ks_hash :: "(string, nat) hash_t"
  ks_vals :: "nat \<Rightarrow> (nat \<times> u32) option"
  ks_things :: "nat \<Rightarrow> 't option"
  ks_fresh :: nat

definition ks_new :: "nat \<Rightarrow> 't kstore" where
  "ks_new N = \<lparr>ks_hash = hash_new N, ks_vals = (\<lambda>_. None), ks_things = (\<lambda>_. None), ks_fresh = 1\<rparr>"

definition ks_find :: "string \<Rightarrow> 't kstore \<Rightarrow> nat option" where
  "ks_find key s = hash_find ks_index (=) key (ks_hash s)"

definition val_at :: "'t kstore \<Rightarrow> nat \<Rightarrow> (nat \<times> u32) kernel" where
  "val_at s p = (case ks_vals s p of None \<Rightarrow> Inl Dangling | Some v \<Rightarrow> Inr v)"

definition makeOrNull :: "(string \<Rightarrow> nat \<Rightarrow> 't) \<Rightarrow> string \<Rightarrow> 't kstore \<Rightarrow> nat \<times> 't kstore" where
  "makeOrNull mk key s =
     (case ks_find key s of
        Some pointer \<Rightarrow> (0, s)
      | None \<Rightarrow>
          let thing = ks_fresh s; pointer = ks_fresh s + 1 in
          (thing, s\<lparr>ks_things := (ks_things s)(thing \<mapsto> mk key thing), ks_vals := (ks_vals s)(pointer \<mapsto> (thing, 1)),
                    ks_hash := hash_insert ks_index (=) key pointer (ks_hash s), ks_fresh := ks_fresh s + 2\<rparr>))"

definition getOrNull :: "string \<Rightarrow> 't kstore \<Rightarrow> (nat \<times> 't kstore) kernel" where
  "getOrNull key s =
     (case ks_find key s of
        Some pointer \<Rightarrow>
          kbind (val_at s pointer) (\<lambda>(first, second).
          Inr (first, s\<lparr>ks_vals := (ks_vals s)(pointer \<mapsto> (first, second + 1))\<rparr>))
      | None \<Rightarrow> Inr (0, s))"

definition getOrMake :: "(string \<Rightarrow> nat \<Rightarrow> 't) \<Rightarrow> string \<Rightarrow> 't kstore \<Rightarrow> (nat \<times> 't kstore) kernel" where
  "getOrMake mk key s =
     (let (obj, s) = makeOrNull mk key s in if obj \<noteq> 0 then Inr (obj, s) else getOrNull key s)"

definition ks_release :: "string \<Rightarrow> 't kstore \<Rightarrow> (bool \<times> 't kstore) kernel" where
  "ks_release key s =
     (case ks_find key s of
        Some pointer \<Rightarrow>
          kbind (val_at s pointer) (\<lambda>(first, second).
          let second = second - 1; s = s\<lparr>ks_vals := (ks_vals s)(pointer \<mapsto> (first, second))\<rparr> in
          if second = 0 then
            let s = s\<lparr>ks_hash := snd (hash_erase ks_index (=) key (ks_hash s))\<rparr> in
            Inr (True, s\<lparr>ks_things := (ks_things s)(first := None), ks_vals := (ks_vals s)(pointer := None)\<rparr>)
          else Inr (False, s))
      | None \<Rightarrow> Inr (False, s))"

text \<open>
  Every name in the table leads to a live pair with a positive count and a live object that bears
  the name.
\<close>

definition ks_cell :: "('t \<Rightarrow> string) \<Rightarrow> 't kstore \<Rightarrow> string \<Rightarrow> nat \<Rightarrow> bool" where
  "ks_cell nm s k p \<longleftrightarrow> p < ks_fresh s \<and>
     (\<exists>th c ob. ks_vals s p = Some (th, c) \<and> c \<noteq> 0 \<and> 0 < th \<and> th < ks_fresh s \<and> ks_things s th = Some ob \<and> nm ob = k)"

definition ks_inv :: "('t \<Rightarrow> string) \<Rightarrow> 't kstore \<Rightarrow> bool" where
  "ks_inv nm s \<longleftrightarrow> hash_ok ks_index (ks_hash s) \<and> 0 < ks_fresh s \<and> (\<forall>k p. ks_find k s = Some p \<longrightarrow> ks_cell nm s k p)"

definition ks_obj :: "'t kstore \<Rightarrow> string \<Rightarrow> nat option" where
  "ks_obj s k = (case ks_find k s of None \<Rightarrow> None | Some p \<Rightarrow> map_option fst (ks_vals s p))"

definition ks_users :: "'t kstore \<Rightarrow> string \<Rightarrow> nat" where
  "ks_users s k = (case ks_find k s of None \<Rightarrow> 0 | Some p \<Rightarrow> (case ks_vals s p of None \<Rightarrow> 0 | Some v \<Rightarrow> unat (snd v)))"

lemma ks_cellE:
  assumes "ks_inv nm s" and "ks_find k s = Some p"
  obtains th c ob where "ks_vals s p = Some (th, c)" "c \<noteq> 0" "0 < th" "th < ks_fresh s" "ks_things s th = Some ob" "nm ob = k" "p < ks_fresh s"
  using assms unfolding ks_inv_def ks_cell_def by blast

lemma ks_find_inj:
  assumes "ks_inv nm s" "ks_find k s = Some p" "ks_find k' s = Some p"
  shows "k = k'"
  using ks_cellE [OF assms(1,2)] ks_cellE [OF assms(1,3)] by (metis Pair_inject option.inject)

lemma ks_thing_inj:
  assumes "ks_inv nm s" "ks_find k s = Some p" "ks_find k' s = Some p'" "ks_vals s p = Some (th, c)" "ks_vals s p' = Some (th, c')"
  shows "k = k'"
  using ks_cellE [OF assms(1,2)] ks_cellE [OF assms(1,3)] assms(4,5) by (metis Pair_inject option.inject)

lemma ks_find_put [simp]:
  "ks_find k (s\<lparr>ks_vals := v\<rparr>) = ks_find k s" "ks_find k (s\<lparr>ks_things := th\<rparr>) = ks_find k s"
  by (simp_all add: ks_find_def)

lemma ks_new_inv: "0 < N \<Longrightarrow> ks_inv nm (ks_new N) \<and> ks_obj (ks_new N) k = None \<and> ks_users (ks_new N) k = 0"
  by (simp add: ks_inv_def ks_new_def ks_find_def ks_obj_def ks_users_def hash_new_ok)

lemma ks_obj_None: "ks_inv nm s \<Longrightarrow> ks_obj s k = None \<longleftrightarrow> ks_find k s = None"
  by (cases "ks_find k s") (auto simp: ks_obj_def elim: ks_cellE)

lemma ks_obj_Some:
  assumes "ks_inv nm s" and "ks_obj s k = Some th"
  obtains p c ob where "ks_find k s = Some p" "ks_vals s p = Some (th, c)" "c \<noteq> 0" "ks_things s th = Some ob" "nm ob = k" "0 < th"
proof -
  obtain p where p: "ks_find k s = Some p" using assms(2) by (auto simp: ks_obj_def split: option.splits)
  obtain th' c ob where c: "ks_vals s p = Some (th', c)" "c \<noteq> 0" "0 < th'" "ks_things s th' = Some ob" "nm ob = k"
    using ks_cellE [OF assms(1) p] by metis
  have "th' = th" using assms(2) p c(1) by (simp add: ks_obj_def)
  then show ?thesis using that p c by simp
qed

lemma ks_users_eq: "ks_find k s = Some p \<Longrightarrow> ks_vals s p = Some (th, c) \<Longrightarrow> ks_users s k = unat c"
  by (simp add: ks_users_def)

lemma ks_users_0:
  assumes "ks_inv nm s"
  shows "ks_users s k = 0 \<longleftrightarrow> ks_obj s k = None"
proof (cases "ks_find k s")
  case None
  then show ?thesis by (simp add: ks_users_def ks_obj_def)
next
  case (Some p)
  then show ?thesis using assms by (elim ks_cellE) (auto simp: ks_users_def ks_obj_def unat_eq_zero)
qed

text \<open>Changing the count of one pair changes nothing else.\<close>

lemma ks_put_count:
  assumes "ks_inv nm s" and "ks_find k s = Some p" and "ks_vals s p = Some (th, c)" and "c' \<noteq> 0"
  shows "ks_inv nm (s\<lparr>ks_vals := (ks_vals s)(p \<mapsto> (th, c'))\<rparr>)
    \<and> ks_obj (s\<lparr>ks_vals := (ks_vals s)(p \<mapsto> (th, c'))\<rparr>) = ks_obj s
    \<and> ks_users (s\<lparr>ks_vals := (ks_vals s)(p \<mapsto> (th, c'))\<rparr>) = (ks_users s)(k := unat c')"
proof (intro conjI ext)
  let ?s = "s\<lparr>ks_vals := (ks_vals s)(p \<mapsto> (th, c'))\<rparr>"
  have "ks_cell nm ?s k' p'" if "ks_find k' s = Some p'" for k' p'
  proof -
    have "ks_cell nm s k' p'" using that assms(1) by (simp add: ks_inv_def)
    then show ?thesis using assms(3,4) by (auto simp: ks_cell_def)
  qed
  then show "ks_inv nm ?s" using assms(1) by (simp add: ks_inv_def)
  fix k'
  show "ks_obj ?s k' = ks_obj s k'" using assms(3) by (auto simp: ks_obj_def split: option.splits)
  show "ks_users ?s k' = ((ks_users s)(k := unat c')) k'"
  proof (cases "k' = k")
    case True
    then show ?thesis using assms(2) by (simp add: ks_users_def)
  next
    case False
    then have "ks_find k' s \<noteq> Some p" using ks_find_inj [OF assms(1,2)] by metis
    then show ?thesis using False by (cases "ks_find k' s") (simp_all add: ks_users_def)
  qed
qed

lemma getOrNull_found:
  assumes "ks_inv nm s" and "ks_obj s k = Some th" and "ks_users s k + 1 < 2 ^ 32"
  shows "\<exists>s'. getOrNull k s = Inr (th, s') \<and> ks_inv nm s' \<and> ks_obj s' = ks_obj s \<and> ks_users s' = (ks_users s)(k := ks_users s k + 1)"
proof -
  obtain p c where p: "ks_find k s = Some p" "ks_vals s p = Some (th, c)" using ks_obj_Some [OF assms(1,2)] by metis
  have u: "unat (c + 1) = ks_users s k + 1" using assms(3) p by (simp add: ks_users_def unat_word_ariths)
  then have "c + 1 \<noteq> 0" by (metis add_is_0 one_neq_zero unat_0)
  then show ?thesis using ks_put_count [OF assms(1) p, of "c + 1"] p u by (simp add: getOrNull_def val_at_def)
qed

lemma getOrNull_none: "ks_inv nm s \<Longrightarrow> ks_obj s k = None \<Longrightarrow> getOrNull k s = Inr (0, s)"
  by (simp add: getOrNull_def ks_obj_None)

lemma makeOrNull_new:
  assumes "ks_inv nm s" and "ks_obj s k = None" and nm: "\<And>k a. nm (mk k a) = k"
  shows "\<exists>th s'. makeOrNull mk k s = (th, s') \<and> th \<noteq> 0 \<and> ks_inv nm s' \<and> ks_obj s' = (ks_obj s)(k \<mapsto> th) \<and> ks_users s' = (ks_users s)(k := 1)"
proof -
  have n: "ks_find k s = None" and h: "hash_ok ks_index (ks_hash s)" and f: "0 < ks_fresh s"
    using assms(1,2) ks_obj_None [OF assms(1), of k] by (simp_all add: ks_inv_def)
  obtain th s' where m: "makeOrNull mk k s = (th, s')" by fastforce
  then have s': "th = ks_fresh s" "ks_things s' = (ks_things s)(ks_fresh s \<mapsto> mk k (ks_fresh s))"
    "ks_vals s' = (ks_vals s)(ks_fresh s + 1 \<mapsto> (ks_fresh s, 1))" "ks_fresh s' = ks_fresh s + 2"
    "ks_hash s' = hash_insert ks_index (=) k (ks_fresh s + 1) (ks_hash s)"
    using n by (auto simp: makeOrNull_def Let_def)
  have find: "ks_find k' s' = (if k' = k then Some (ks_fresh s + 1) else ks_find k' s)" for k'
    using hm.lookup_insert [OF h] s'(5) by (simp add: ks_find_def)
  have old: "ks_cell nm s k' p" if "ks_find k' s = Some p" for k' p using assms(1) that by (auto simp: ks_inv_def)
  have cell: "ks_cell nm s' k' p" if "ks_find k' s' = Some p" for k' p
  proof (cases "k' = k")
    case True
    then show ?thesis using that f find nm s' by (simp add: ks_cell_def)
  next
    case False
    then have "ks_find k' s = Some p" using that find by simp
    then obtain th' c ob where "ks_vals s p = Some (th', c)" "c \<noteq> 0" "0 < th'" "th' < ks_fresh s" "ks_things s th' = Some ob" "nm ob = k'" "p < ks_fresh s"
      using ks_cellE [OF assms(1)] by metis
    then show ?thesis using s' unfolding ks_cell_def by (intro conjI exI [of _ th'] exI [of _ c] exI [of _ ob]) auto
  qed
  have "ks_inv nm s'" using hm.ok_insert [OF h] cell s' f by (simp add: ks_inv_def)
  moreover have "ks_find k' s \<noteq> Some (ks_fresh s + 1)" for k'
    using old [of k' "ks_fresh s + 1"] by (auto simp: ks_cell_def)
  then have "ks_obj s' k' = ((ks_obj s)(k \<mapsto> th)) k'" "ks_users s' k' = ((ks_users s)(k := 1)) k'" for k'
    using s'(1,3) by (auto simp: ks_obj_def ks_users_def find split: option.splits)
  then have "ks_obj s' = (ks_obj s)(k \<mapsto> th)" "ks_users s' = (ks_users s)(k := 1)" by (simp_all add: fun_eq_iff)
  ultimately show ?thesis using m s'(1) f by auto
qed

lemma ks_release_spec:
  assumes "ks_inv nm s" and "ks_obj s k = Some th"
  shows "\<exists>s'. ks_release k s = Inr (ks_users s k = 1, s') \<and> ks_inv nm s'
    \<and> ks_obj s' = (if ks_users s k = 1 then (ks_obj s)(k := None) else ks_obj s) \<and> ks_users s' = (ks_users s)(k := ks_users s k - 1)"
proof -
  obtain p c where p: "ks_find k s = Some p" "ks_vals s p = Some (th, c)" "c \<noteq> 0" using ks_obj_Some [OF assms] by metis
  have u: "ks_users s k = unat c" using p by (simp add: ks_users_def)
  have h: "hash_ok ks_index (ks_hash s)" using assms(1) by (simp add: ks_inv_def)
  show ?thesis
  proof (cases "c = 1")
    case False
    then have "c - 1 \<noteq> 0" by simp
    moreover have "unat c \<noteq> 1" using False by (metis unat_1 word_unat_eq_iff)
    moreover have "unat (c - 1) = unat c - 1" using p(3) by (simp add: unat_minus_one)
    ultimately show ?thesis using ks_put_count [OF assms(1) p(1,2), of "c - 1"] p u
      by (simp add: ks_release_def val_at_def Let_def)
  next
    case True
    define s' where "s' = s\<lparr>ks_hash := snd (hash_erase ks_index (=) k (ks_hash s)), ks_things := (ks_things s)(th := None), ks_vals := (ks_vals s)(p := None)\<rparr>"
    have r: "ks_release k s = Inr (True, s')" using p True by (simp add: ks_release_def val_at_def Let_def s'_def)
    have find: "ks_find k' s' = (if k' = k then None else ks_find k' s)" for k'
      using hm.lookup_erase [OF h] by (simp add: ks_find_def s'_def)
    have diff: "p' \<noteq> p \<and> (\<forall>th' c'. ks_vals s p' = Some (th', c') \<longrightarrow> th' \<noteq> th)" if "ks_find k' s = Some p'" "k' \<noteq> k" for k' p'
      using that ks_find_inj [OF assms(1) p(1)] ks_thing_inj [OF assms(1) p(1) that(1) p(2)] by blast
    have "ks_cell nm s' k' p'" if "ks_find k' s' = Some p'" for k' p'
    proof -
      have q: "ks_find k' s = Some p'" "k' \<noteq> k" using that find by (auto split: if_splits)
      have "ks_cell nm s k' p'" using assms(1) q(1) by (simp add: ks_inv_def)
      then show ?thesis using diff [OF q] by (auto simp: ks_cell_def s'_def)
    qed
    then have "ks_inv nm s'" using hm.ok_erase [OF h] assms(1) by (simp add: ks_inv_def s'_def)
    moreover have "ks_obj s' = (ks_obj s)(k := None)" "ks_users s' = (ks_users s)(k := 0)"
      using find diff by (auto simp: fun_eq_iff ks_obj_def ks_users_def s'_def split: option.splits)
    ultimately show ?thesis using r u True by simp
  qed
qed

end
