(* ===== verification/Named_Objects.thy ===== *)
theory Named_Objects
  imports Filesystem Keyed_Store Synch
begin

text \<open>
  The filesystems of named mutexes, semaphores and events (\<open>src/kernel/src/synch/mutexfs.cpp\<close>,
  \<open>semaphorefs.cpp\<close>, \<open>eventfs.cpp\<close>): opening a name creates the object or shares it, closing the
  last file deletes it. A file points to its object in the store.
\<close>

section \<open>The contract of a store\<close>

text \<open>
  \<open>files_at\<close> are the open files on an object. Files and store are \<open>linked\<close> when every file points to
  an object of the store and every object has as many users as files.
\<close>

definition files_at :: "('x \<Rightarrow> nat) \<Rightarrow> (nat \<Rightarrow> 'x fobject option) \<Rightarrow> nat \<Rightarrow> nat set" where
  "files_at ptr objs p = {f. \<exists>ob. objs f = Some ob \<and> ptr (o_data ob) = p}"

definition linked :: "('x \<Rightarrow> nat) \<Rightarrow> (string \<Rightarrow> nat option) \<Rightarrow> (string \<Rightarrow> nat) \<Rightarrow> (nat \<Rightarrow> 'x fobject option) \<Rightarrow> bool" where
  "linked ptr obj users objs \<longleftrightarrow> finite (dom objs)
     \<and> (\<forall>f ob. objs f = Some ob \<longrightarrow> (\<exists>k. obj k = Some (ptr (o_data ob))))
     \<and> (\<forall>k p. obj k = Some p \<longrightarrow> users k = card (files_at ptr objs p))"

lemma files_at_finite: "finite (dom objs) \<Longrightarrow> finite (files_at ptr objs p)"
  by (rule finite_subset [of _ "dom objs"]) (auto simp: files_at_def)

lemma files_at_add:
  "objs f = None \<Longrightarrow> files_at ptr (objs(f \<mapsto> ob)) p = (if ptr (o_data ob) = p then insert f (files_at ptr objs p) else files_at ptr objs p)"
  by (auto simp: files_at_def)

lemma files_at_remove: "files_at ptr (objs(f := None)) p = files_at ptr objs p - {f}"
  by (auto simp: files_at_def)

lemma linkedD: "linked ptr obj users objs \<Longrightarrow> objs f = Some ob \<Longrightarrow> \<exists>k. obj k = Some (ptr (o_data ob))"
  by (simp add: linked_def)

lemma linked_users_bound:
  assumes "linked ptr obj users objs" and "obj k = Some p"
  shows "users k \<le> card (dom objs)"
  using assms by (auto simp: linked_def files_at_def intro!: card_mono)

locale object_store =
  fixes inv :: "'s \<Rightarrow> bool" and obj :: "'s \<Rightarrow> string \<Rightarrow> nat option" and users :: "'s \<Rightarrow> string \<Rightarrow> nat"
    and name_of :: "'s \<Rightarrow> nat \<Rightarrow> string option"
    and get :: "string \<Rightarrow> 's \<Rightarrow> (nat \<times> 's) kernel" and make :: "string \<Rightarrow> 's \<Rightarrow> nat \<times> 's"
    and release :: "string \<Rightarrow> 's \<Rightarrow> (bool \<times> 's) kernel"
  assumes named: "inv s \<Longrightarrow> obj s k = Some p \<Longrightarrow> name_of s p = Some k \<and> p \<noteq> 0"
    and users_0: "inv s \<Longrightarrow> users s k = 0 \<longleftrightarrow> obj s k = None"
    and get_found: "inv s \<Longrightarrow> obj s k = Some p \<Longrightarrow> users s k + 1 < 2 ^ 32 \<Longrightarrow>
      \<exists>s'. get k s = Inr (p, s') \<and> inv s' \<and> obj s' = obj s \<and> users s' = (users s)(k := users s k + 1)"
    and get_none: "inv s \<Longrightarrow> obj s k = None \<Longrightarrow> get k s = Inr (0, s)"
    and make_new: "inv s \<Longrightarrow> obj s k = None \<Longrightarrow>
      \<exists>p s'. make k s = (p, s') \<and> p \<noteq> 0 \<and> inv s' \<and> obj s' = (obj s)(k \<mapsto> p) \<and> users s' = (users s)(k := 1)"
    and release_spec: "inv s \<Longrightarrow> obj s k = Some p \<Longrightarrow>
      \<exists>s'. release k s = Inr (users s k = 1, s') \<and> inv s'
        \<and> obj s' = (if users s k = 1 then (obj s)(k := None) else obj s) \<and> users s' = (users s)(k := users s k - 1)"
begin

lemma obj_inj: "inv s \<Longrightarrow> obj s k = Some p \<Longrightarrow> obj s k' = Some p \<Longrightarrow> k = k'"
  using named [of s k p] named [of s k' p] by simp

text \<open>Asking for a name and then adding a file on the object keeps files and store linked.\<close>

lemma acquire:
  assumes "inv s" and "linked ptr (obj s) (users s) objs" and "card (dom objs) + 1 < 2 ^ 32"
  shows "\<exists>p s'. kbind (get k s) (\<lambda>(p, s). if p = 0 then Inr (make k s) else Inr (p, s)) = Inr (p, s')
    \<and> p \<noteq> 0 \<and> inv s' \<and> obj s' = (obj s)(k \<mapsto> p) \<and> (obj s k = None \<or> obj s k = Some p)
    \<and> users s' = (users s)(k := users s k + 1)"
proof (cases "obj s k")
  case None
  then have "users s k = 0" using users_0 [OF assms(1)] by simp
  then show ?thesis using get_none [OF assms(1) None] make_new [OF assms(1) None] None by auto
next
  case (Some p)
  have "users s k + 1 < 2 ^ 32" using linked_users_bound [OF assms(2) Some] assms(3) by linarith
  then show ?thesis using get_found [OF assms(1) Some] Some named [OF assms(1) Some] by (auto simp: fun_upd_idem)
qed

lemma linked_add:
  assumes "inv s'" and "linked ptr (obj s) (users s) objs" and "objs f = None" and "ptr (o_data ob) = p"
    and "obj s' = (obj s)(k \<mapsto> p)" and "obj s k = None \<or> obj s k = Some p" and "users s' = (users s)(k := users s k + 1)"
    and "users s k = 0 \<longleftrightarrow> obj s k = None"
  shows "linked ptr (obj s') (users s') (objs(f \<mapsto> ob))"
proof -
  have fin: "finite (dom objs)" using assms(2) by (simp add: linked_def)
  have other: "k' = k" if "obj s' k' = Some p" for k'
    using obj_inj [OF assms(1) that, of k] assms(5) by simp
  have here: "users s k = card (files_at ptr objs p)"
  proof (cases "obj s k")
    case None
    have "files_at ptr objs p = {}"
    proof (rule equals0I)
      fix g
      assume "g \<in> files_at ptr objs p"
      then obtain k' where k': "obj s k' = Some p" using linkedD [OF assms(2)] by (fastforce simp: files_at_def)
      then have "k' \<noteq> k" using None by auto
      then have "obj s' k' = Some p" using k' assms(5) by simp
      then show False using other \<open>k' \<noteq> k\<close> by blast
    qed
    then show ?thesis using None assms(8) by simp
  next
    case (Some q)
    then show ?thesis using assms(2,6) by (auto simp: linked_def)
  qed
  have "users s' k' = card (files_at ptr (objs(f \<mapsto> ob)) p')" if "obj s' k' = Some p'" for k' p'
  proof (cases "k' = k")
    case True
    then have "p' = p" using that assms(5) by simp
    moreover have "f \<notin> files_at ptr objs p" using assms(3) by (simp add: files_at_def)
    ultimately show ?thesis using True assms(4,7) here files_at_finite [OF fin]
      by (simp add: files_at_add [of objs f, OF assms(3)])
  next
    case False
    then have o': "obj s k' = Some p'" using that assms(5) by simp
    have "p' \<noteq> p" using that other False by blast
    then have "files_at ptr (objs(f \<mapsto> ob)) p' = files_at ptr objs p'" using assms(4) files_at_add [of objs f, OF assms(3)] by simp
    then show ?thesis using assms(2,7) False o' by (simp add: linked_def)
  qed
  moreover have "\<exists>k'. obj s' k' = Some (ptr (o_data ob'))" if gob: "(objs(f \<mapsto> ob)) g = Some ob'" for g ob'
  proof (cases "g = f")
    case True
    then show ?thesis using gob assms(4,5) by (intro exI [of _ k]) simp
  next
    case False
    then obtain k' where "obj s k' = Some (ptr (o_data ob'))" using linkedD [OF assms(2), of g ob'] gob by auto
    then show ?thesis using assms(5,6) by (cases "k' = k") (auto intro: exI [of _ k'])
  qed
  ultimately show ?thesis using fin by (simp add: linked_def)
qed

lemma dispose:
  assumes "inv s" and l: "linked ptr (obj s) (users s) objs" and "objs f = Some ob"
  shows "\<exists>k s'. name_of s (ptr (o_data ob)) = Some k \<and> release k s = Inr (users s k = 1, s') \<and> inv s'
    \<and> linked ptr (obj s') (users s') (objs(f := None))"
proof -
  define p where "p = ptr (o_data ob)"
  obtain k where k: "obj s k = Some p" using linkedD [OF l assms(3)] by (auto simp: p_def)
  obtain s' where s': "release k s = Inr (users s k = 1, s')" "inv s'"
    "obj s' = (if users s k = 1 then (obj s)(k := None) else obj s)" "users s' = (users s)(k := users s k - 1)"
    using release_spec [OF assms(1) k] by blast
  have fin: "finite (dom objs)" using l by (simp add: linked_def)
  have u: "users s k = card (files_at ptr objs p)" using l k by (simp add: linked_def)
  have f: "f \<in> files_at ptr objs p" using assms(3) by (simp add: files_at_def p_def)
  have last: "g = f" if "users s k = 1" "g \<in> files_at ptr objs p" for g
    using that u f files_at_finite [OF fin] by (metis card_1_singletonE singletonD)
  have "users s' k' = card (files_at ptr (objs(f := None)) p')" if "obj s' k' = Some p'" for k' p'
  proof (cases "k' = k")
    case True
    then have "p' = p" using that s'(3) k by (auto split: if_splits)
    then show ?thesis using True u f s'(4) files_at_finite [OF fin] by (simp add: files_at_remove card_Diff_singleton)
  next
    case False
    then have o': "obj s k' = Some p'" using that s'(3) by (auto split: if_splits)
    then have "p' \<noteq> p" using obj_inj [OF assms(1) k] False by blast
    then have "f \<notin> files_at ptr objs p'" using assms(3) by (simp add: files_at_def p_def)
    then show ?thesis using o' l False s'(4) by (simp add: files_at_remove linked_def)
  qed
  moreover have "\<exists>k'. obj s' k' = Some (ptr (o_data ob'))" if g: "(objs(f := None)) g = Some ob'" for g ob'
  proof -
    have g': "g \<noteq> f" "objs g = Some ob'" using g by (auto split: if_splits)
    then obtain k' where k': "obj s k' = Some (ptr (o_data ob'))" using linkedD [OF l] by blast
    show ?thesis
    proof (cases "users s k = 1 \<and> k' = k")
      case True
      then have "g \<in> files_at ptr objs p" using k k' g' by (auto simp: files_at_def)
      then show ?thesis using last True g' by blast
    next
      case False
      then show ?thesis using k' s'(3) by (intro exI [of _ k']) auto
    qed
  qed
  ultimately have "linked ptr (obj s') (users s') (objs(f := None))"
    using fin by (simp add: linked_def)
  then show ?thesis using s' named [OF assms(1) k] by (auto simp: p_def)
qed

end

section \<open>Files on named objects\<close>

text \<open>The parts the three filesystems share: a file's data is the address of its object.\<close>

definition thing_at :: "'t kstore \<Rightarrow> nat \<Rightarrow> 't kernel" where
  "thing_at s p = (if p = 0 then Inl NullDeref else case ks_things s p of None \<Rightarrow> Inl Dangling | Some x \<Rightarrow> Inr x)"

definition put_thing :: "nat \<Rightarrow> 't \<Rightarrow> (nat, 't kstore) fs \<Rightarrow> (nat, 't kstore) fs" where
  "put_thing p x F = F\<lparr>fs_priv := (fs_priv F)\<lparr>ks_things := (ks_things (fs_priv F))(p \<mapsto> x)\<rparr>\<rparr>"

definition store_getOrCreate :: "(string \<Rightarrow> nat \<Rightarrow> 't) \<Rightarrow> string \<Rightarrow> 't kstore \<Rightarrow> (nat \<times> 't kstore) kernel" where
  "store_getOrCreate mk name s =
     kbind (getOrNull name s) (\<lambda>(p, s). if p = 0 then Inr (makeOrNull mk name s) else Inr (p, s))"

definition store_doOpen :: "file_kind_t \<Rightarrow> (string \<Rightarrow> nat \<Rightarrow> 't) \<Rightarrow> string \<Rightarrow> (nat, 't kstore) fs \<Rightarrow> (nat \<times> (nat, 't kstore) fs) kernel" where
  "store_doOpen kind mk name F =
     kbind (store_getOrCreate mk name (fs_priv F)) (\<lambda>(p, s).
     let F = F\<lparr>fs_priv := s\<rparr> in
     if p = 0 then Inr (0, F) else Inr (new_object (fobject_new kind p) F))"

definition store_doClose :: "file_kind_t \<Rightarrow> ('t \<Rightarrow> string) \<Rightarrow> nat \<Rightarrow> (nat, 't kstore) fs \<Rightarrow> (nat, 't kstore) fs kernel" where
  "store_doClose kind key f F =
     (if f = 0 then Inr F
      else kbind (object_at F f) (\<lambda>ob.
        if o_kind ob \<noteq> kind then Inl (Panic ''invalid RTTI cast'')
        else kbind (thing_at (fs_priv F) (o_data ob)) (\<lambda>x.
             kbind (ks_release (key x) (fs_priv F)) (\<lambda>(erased, s).
             Inr (delete_object f (F\<lparr>fs_priv := s\<rparr>))))))"

definition with_thing ::
  "nat \<Rightarrow> ('t \<times> tasks \<Rightarrow> ('r \<times> 't \<times> tasks) kernel) \<Rightarrow> (nat, 't kstore) fs \<times> tasks \<Rightarrow> ('r \<times> (nat, 't kstore) fs \<times> tasks) kernel" where
  "with_thing f act = (\<lambda>(F, t).
     kbind (object_at F f) (\<lambda>ob.
     kbind (thing_at (fs_priv F) (o_data ob)) (\<lambda>x.
     kbind (act (x, t)) (\<lambda>(r, x, t). Inr (r, put_thing (o_data ob) x F, t)))))"

definition answer :: "u32 \<Rightarrow> 'a outcome \<Rightarrow> u32 outcome" where
  "answer v r = (case r of Blocks \<Rightarrow> Blocks | Returns _ \<Rightarrow> Returns v)"

subsection \<open>Mutexes\<close>

definition mutex_make :: "u16 \<Rightarrow> string \<Rightarrow> nat \<Rightarrow> Mutex" where
  "mutex_make junk name a = mutex_new name (of_nat a) junk"

definition mutexfs_doOpen :: "u16 \<Rightarrow> string \<Rightarrow> u32 \<Rightarrow> (nat, Mutex kstore) fs \<Rightarrow> (nat \<times> (nat, Mutex kstore) fs) kernel" where
  "mutexfs_doOpen junk name mode F = store_doOpen K_mutex (mutex_make junk) name F"

definition mutexfs_doClose :: "nat \<Rightarrow> (nat, Mutex kstore) fs \<Rightarrow> (nat, Mutex kstore) fs kernel" where
  "mutexfs_doClose f F = store_doClose K_mutex mtx_key f F"

definition mutex_command :: "u32 \<Rightarrow> Mutex \<times> tasks \<Rightarrow> (u32 outcome \<times> Mutex \<times> tasks) kernel" where
  "mutex_command a = (\<lambda>(m, t).
     if a = 0x561410C7 then kbind (mutex_lock (m, t)) (\<lambda>(r, s). Inr (answer 1 r, s))
     else if a = 0x561410C8 then Inr (Returns 1, mutex_unlock (m, t))
     else if a = 0x561410C9 then let (ok, s) = mutex_trylock (m, t) in Inr (Returns (if ok then 1 else 0), s)
     else Inr (Returns 0, m, t))"

definition mutex_ioctl :: "u32 \<Rightarrow> nat \<Rightarrow> (nat, Mutex kstore) fs \<times> tasks \<Rightarrow> (u32 outcome \<times> (nat, Mutex kstore) fs \<times> tasks) kernel" where
  "mutex_ioctl a f = with_thing f (mutex_command a)"

definition mutex_ioctl_resume :: "nat \<Rightarrow> (nat, Mutex kstore) fs \<times> tasks \<Rightarrow> (u32 outcome \<times> (nat, Mutex kstore) fs \<times> tasks) kernel" where
  "mutex_ioctl_resume f = with_thing f (\<lambda>s. kbind (mutex_lock_resume s) (\<lambda>(r, s). Inr (answer 1 r, s)))"

subsection \<open>Semaphores\<close>

definition semaphore_make :: "string \<Rightarrow> nat \<Rightarrow> Semaphore" where
  "semaphore_make name a = semaphore_new name 0 1 (of_nat a)"

definition semaphorefs_doOpen :: "string \<Rightarrow> u32 \<Rightarrow> (nat, Semaphore kstore) fs \<Rightarrow> (nat \<times> (nat, Semaphore kstore) fs) kernel" where
  "semaphorefs_doOpen name mode F = store_doOpen K_semaphore semaphore_make name F"

definition semaphorefs_doClose :: "nat \<Rightarrow> (nat, Semaphore kstore) fs \<Rightarrow> (nat, Semaphore kstore) fs kernel" where
  "semaphorefs_doClose f F = store_doClose K_semaphore sem_key f F"

text \<open>The request for information also answers with the value and the maximum it stores at \<open>b\<close>.\<close>

definition semaphore_ioctl ::
  "u32 \<Rightarrow> u32 \<Rightarrow> nat \<Rightarrow> (nat, Semaphore kstore) fs \<times> tasks \<Rightarrow> ((u32 outcome \<times> (u32 \<times> u32) option) \<times> (nat, Semaphore kstore) fs \<times> tasks) kernel" where
  "semaphore_ioctl a b f = with_thing f (\<lambda>(s, t).
     if a = 0x5EA02222 then Inr ((Returns 1, None), semaphore_signal (s, t))
     else if a = 0x5EA01111 then kbind (semaphore_wait 0 (s, t)) (\<lambda>(r, s). Inr ((answer 1 r, None), s))
     else if a = 0x5EA03333 then Inr ((Returns 1, Some (semaphore_value s, semaphore_max s)), s, t)
     else if a = 0x5EA03334 then Inr ((Returns 1, None), semaphore_setmax b s, t)
     else Inr ((Returns 0, None), s, t))"

definition semaphore_ioctl_resume :: "nat \<Rightarrow> (nat, Semaphore kstore) fs \<times> tasks \<Rightarrow> (u32 outcome \<times> (nat, Semaphore kstore) fs \<times> tasks) kernel" where
  "semaphore_ioctl_resume f = with_thing f (\<lambda>s. kbind (semaphore_wait_resume 0 s) (\<lambda>(r, s). Inr (answer 1 r, s)))"

subsection \<open>Events\<close>

definition event_make :: "string \<Rightarrow> nat \<Rightarrow> Event" where
  "event_make name a = event_new name (of_nat a)"

definition eventfs_doOpen :: "string \<Rightarrow> u32 \<Rightarrow> (nat, Event kstore) fs \<Rightarrow> (nat \<times> (nat, Event kstore) fs) kernel" where
  "eventfs_doOpen name mode F = store_doOpen K_event event_make name F"

definition eventfs_doClose :: "nat \<Rightarrow> (nat, Event kstore) fs \<Rightarrow> (nat, Event kstore) fs kernel" where
  "eventfs_doClose f F = store_doClose K_event ev_key f F"

definition event_ioctl :: "u32 \<Rightarrow> u32 \<Rightarrow> nat \<Rightarrow> (nat, Event kstore) fs \<times> tasks \<Rightarrow> (u32 \<times> (nat, Event kstore) fs \<times> tasks) kernel" where
  "event_ioctl a b f = with_thing f (\<lambda>(e, t).
     if a = 0xE117AAAA then Inr (1, event_raise (b = 0) (e, t))
     else if a = 0xE117BBBB then Inr (1, event_lower e, t)
     else Inr (0, e, t))"

text \<open>None of the three has directories.\<close>

definition no_opendir :: "string \<Rightarrow> ('x, 'p) fs \<Rightarrow> (nat \<times> ('x, 'p) fs) kernel" where
  "no_opendir path F = Inr (0, F)"

section \<open>Files and objects stay linked\<close>

definition store_good :: "file_kind_t \<Rightarrow> ('t \<Rightarrow> string) \<Rightarrow> (nat, 't kstore) fs \<Rightarrow> bool" where
  "store_good kind nm F \<longleftrightarrow> ks_inv nm (fs_priv F) \<and> linked id (ks_obj (fs_priv F)) (ks_users (fs_priv F)) (fs_objs F)
     \<and> 0 < fs_fresh F \<and> (\<forall>f ob. fs_objs F f = Some ob \<longrightarrow> o_kind ob = kind \<and> 0 < f \<and> f < fs_fresh F)"

lemma kstore_object_store:
  assumes "\<And>k a. nm (mk k a) = k"
  shows "object_store (ks_inv nm) ks_obj ks_users (\<lambda>s p. map_option nm (ks_things s p)) getOrNull (makeOrNull mk) ks_release"
proof
  fix s :: "'a kstore" and k p
  assume i: "ks_inv nm s"
  show "ks_users s k = 0 \<longleftrightarrow> ks_obj s k = None" by (rule ks_users_0 [OF i])
  show "ks_obj s k = Some p \<Longrightarrow> map_option nm (ks_things s p) = Some k \<and> p \<noteq> 0"
    by (erule ks_obj_Some [OF i]) simp
qed (use assms getOrNull_found getOrNull_none makeOrNull_new ks_release_spec in \<open>blast+\<close>)

interpretation mutexes: object_store "ks_inv mtx_key" ks_obj ks_users "\<lambda>s p. map_option mtx_key (ks_things s p)"
    getOrNull "makeOrNull (mutex_make junk)" ks_release for junk
  by (rule kstore_object_store) (simp add: mutex_make_def mutex_new_def)

interpretation semaphores: object_store "ks_inv sem_key" ks_obj ks_users "\<lambda>s p. map_option sem_key (ks_things s p)"
    getOrNull "makeOrNull semaphore_make" ks_release
  by (rule kstore_object_store) (simp add: semaphore_make_def semaphore_new_def)

interpretation events: object_store "ks_inv ev_key" ks_obj ks_users "\<lambda>s p. map_option ev_key (ks_things s p)"
    getOrNull "makeOrNull event_make" ks_release
  by (rule kstore_object_store) (simp add: event_make_def event_new_def)

lemma store_opens:
  assumes nm: "\<And>k a. nm (mk k a) = k" and g: "store_good kind nm F" and few: "few F"
  shows "\<exists>p F'. store_doOpen kind mk name F = Inr (fs_fresh F, F') \<and> store_good kind nm F' \<and> adds_object F (fs_fresh F) F'
    \<and> fs_objs F' = (fs_objs F)(fs_fresh F \<mapsto> fobject_new kind p)
    \<and> ks_obj (fs_priv F') = (ks_obj (fs_priv F))(name \<mapsto> p) \<and> (ks_obj (fs_priv F) name = None \<or> ks_obj (fs_priv F) name = Some p)"
proof -
  note os = kstore_object_store [of nm mk, OF nm]
  define s where "s = fs_priv F"
  have i: "ks_inv nm s" and l: "linked id (ks_obj s) (ks_users s) (fs_objs F)" and n: "fs_objs F (fs_fresh F) = None" "0 < fs_fresh F"
    using g by (auto simp: store_good_def s_def intro: ccontr)
  obtain p s' where a: "store_getOrCreate mk name s = Inr (p, s')" "p \<noteq> 0" "ks_inv nm s'" "ks_obj s' = (ks_obj s)(name \<mapsto> p)"
    "ks_obj s name = None \<or> ks_obj s name = Some p" "ks_users s' = (ks_users s)(name := ks_users s name + 1)"
    using object_store.acquire [OF os i l, of name] few by (auto simp: few_def store_getOrCreate_def)
  define F' where "F' = snd (new_object (fobject_new kind p) (F\<lparr>fs_priv := s'\<rparr>))"
  have o: "store_doOpen kind mk name F = Inr (fs_fresh F, F')"
    using a(1,2) by (simp add: store_doOpen_def s_def [symmetric] F'_def new_object_def Let_def)
  have F': "fs_objs F' = (fs_objs F)(fs_fresh F \<mapsto> fobject_new kind p)" "fs_priv F' = s'" "fs_fresh F' = fs_fresh F + 1"
    "fs_openObjects F' = fs_openObjects F"
    by (simp_all add: F'_def new_object_def put_object_def)
  have "linked id (ks_obj s') (ks_users s') (fs_objs F')" unfolding F'(1)
    by (rule object_store.linked_add [OF os a(3) l n(1) _ a(4,5,6) ks_users_0 [OF i]]) (simp add: fobject_new_def)
  then have "store_good kind nm F'" using g a(3) F' by (auto simp: store_good_def fobject_new_def intro: less_SucI)
  moreover have "adds_object F (fs_fresh F) F'"
    using F' n by (auto simp: adds_object_def counts_def fobject_new_def)
  ultimately show ?thesis using o F' a(4,5) by (auto simp: s_def)
qed

lemma store_closes:
  fixes mk :: "string \<Rightarrow> nat \<Rightarrow> 't"
  assumes nm: "\<And>k a. nm (mk k a) = k" and g: "store_good kind nm F" and ob: "fs_objs F f = Some ob"
  shows "\<exists>F'. store_doClose kind nm f F = Inr F' \<and> store_good kind nm F' \<and> fs_objs F' = (fs_objs F)(f := None)
    \<and> fs_openObjects F' = fs_openObjects F"
proof -
  note os = kstore_object_store [of nm mk, OF nm]
  define s where "s = fs_priv F"
  have i: "ks_inv nm s" and l: "linked id (ks_obj s) (ks_users s) (fs_objs F)" and k: "o_kind ob = kind" "0 < f"
    using g ob by (auto simp: store_good_def s_def)
  obtain k s' where r: "map_option nm (ks_things s (o_data ob)) = Some k" "ks_release k s = Inr (ks_users s k = 1, s')" "ks_inv nm s'"
    "linked id (ks_obj s') (ks_users s') ((fs_objs F)(f := None))"
    using object_store.dispose [OF os i l ob] unfolding id_apply by blast
  obtain p where "ks_obj s p = Some (o_data ob)" using linkedD [OF l ob] by auto
  then have "o_data ob \<noteq> 0" using ks_obj_Some [OF i] by (metis less_irrefl)
  then obtain x where x: "thing_at s (o_data ob) = Inr x" "nm x = k" using r(1) by (auto simp: thing_at_def)
  have "store_doClose kind nm f F = Inr (delete_object f (F\<lparr>fs_priv := s'\<rparr>))"
    using k ob x r(2) by (simp add: store_doClose_def object_at_def s_def)
  moreover have "store_good kind nm (delete_object f (F\<lparr>fs_priv := s'\<rparr>))"
    using g r by (auto simp: store_good_def)
  ultimately show ?thesis by simp
qed

lemma store_good_refcount:
  assumes "store_good kind nm F" and "fs_objs F f = Some ob"
  shows "store_good kind nm (put_object f (ob\<lparr>o_refcount := r\<rparr>) F)"
proof -
  have "files_at id ((fs_objs F)(f \<mapsto> ob\<lparr>o_refcount := r\<rparr>)) p = files_at id (fs_objs F) p" for p
    using assms(2) by (auto simp: files_at_def)
  moreover have "dom ((fs_objs F)(f \<mapsto> ob\<lparr>o_refcount := r\<rparr>)) = dom (fs_objs F)" using assms(2) by auto
  ultimately show ?thesis using assms by (auto simp: store_good_def linked_def)
qed

lemma store_fs_provider:
  assumes "\<And>k a. nm (mk k a) = k"
  shows "fs_provider (store_good kind nm) (\<lambda>name mode. store_doOpen kind mk name) no_opendir (store_doClose kind nm)"
proof
  fix F F' :: "(nat, 'a kstore) fs" and path :: string and f ob r n
  assume g: "store_good kind nm F"
  show "no_opendir path F = Inr (f, F') \<Longrightarrow> store_good kind nm F' \<and> adds_object F f F'"
    using g by (auto simp: no_opendir_def adds_object_def)
  show "few F \<Longrightarrow> store_doOpen kind mk path F = Inr (f, F') \<Longrightarrow> store_good kind nm F' \<and> adds_object F f F'"
    using store_opens [of nm mk, OF assms g, of path] by auto
  show "fs_objs F f = Some ob \<Longrightarrow> store_good kind nm (put_object f (ob\<lparr>o_refcount := r\<rparr>) F)"
    by (rule store_good_refcount [OF g])
  show "fs_objs F f = Some ob \<Longrightarrow> f \<noteq> 0 \<Longrightarrow> \<exists>F'. store_doClose kind nm f F = Inr F' \<and> store_good kind nm F'
      \<and> counts F' = (counts F)(f := None) \<and> fs_openObjects F' = fs_openObjects F"
    using store_closes [of nm mk, OF assms g, of f ob] by (auto simp: counts_def fun_eq_iff)
next
  fix F :: "(nat, 'a kstore) fs" and n
  show "store_good kind nm (F\<lparr>fs_openObjects := n\<rparr>) = store_good kind nm F" by (simp add: store_good_def)
qed

interpretation mutex_files: fs_provider "store_good K_mutex mtx_key" "mutexfs_doOpen junk" no_opendir mutexfs_doClose for junk
  using store_fs_provider [of mtx_key "mutex_make junk" K_mutex]
  by (simp add: mutexfs_doOpen_def [abs_def] mutexfs_doClose_def [abs_def] mutex_make_def mutex_new_def)

interpretation semaphore_files: fs_provider "store_good K_semaphore sem_key" semaphorefs_doOpen no_opendir semaphorefs_doClose
  using store_fs_provider [of sem_key semaphore_make K_semaphore]
  by (simp add: semaphorefs_doOpen_def [abs_def] semaphorefs_doClose_def [abs_def] semaphore_make_def semaphore_new_def)

interpretation event_files: fs_provider "store_good K_event ev_key" eventfs_doOpen no_opendir eventfs_doClose
  using store_fs_provider [of ev_key event_make K_event]
  by (simp add: eventfs_doOpen_def [abs_def] eventfs_doClose_def [abs_def] event_make_def event_new_def)

section \<open>No file outlives its object\<close>

text \<open>
  What processes do to the filesystem of mutexes: open a name, share an open file (as a clone of
  the process does), close, and operate the mutex of an open file, possibly resuming a blocked
  lock. Other activity changes the scheduling state only.
\<close>

inductive mutexfs_step :: "u16 \<Rightarrow> (nat, Mutex kstore) fs \<times> tasks \<Rightarrow> (nat, Mutex kstore) fs \<times> tasks \<Rightarrow> bool" for junk where
  mf_open: "few F \<Longrightarrow> fs_open (mutexfs_doOpen junk) name mode F = Inr (f, F') \<Longrightarrow> mutexfs_step junk (F, t) (F', t)"
| mf_share: "object_incref f F = Inr (c, F') \<Longrightarrow> mutexfs_step junk (F, t) (F', t)"
| mf_close: "fs_close mutexfs_doClose f F = Inr F' \<Longrightarrow> mutexfs_step junk (F, t) (F', t)"
| mf_ioctl: "mutex_ioctl a f (F, t) = Inr (r, F', t') \<Longrightarrow> mutexfs_step junk (F, t) (F', t')"
| mf_resume: "mutex_ioctl_resume f (F, t) = Inr (r, F', t') \<Longrightarrow> mutexfs_step junk (F, t) (F', t')"
| mf_tasks: "mutexfs_step junk (F, t) (F, t')"

lemma mutex_turn_key: "mutex_wait_turn w timeout (m, t) = Inr (r, m', t') \<Longrightarrow> mtx_key m' = mtx_key m"
  by (auto dest!: mutex_wait_turn_cases)

lemma mutex_resume_key: "mutex_wait_resume timeout (m, t) = Inr (r, m', t') \<Longrightarrow> mtx_key m' = mtx_key m"
  by (auto dest!: mutex_resume_cases)

lemma mutex_command_key:
  assumes "mutex_command a (m, t) = Inr (r, m', t')"
  shows "mtx_key m' = mtx_key m"
proof -
  have "mtx_key m' = mtx_key m" if "mutex_lock (m, t) = Inr (r, m', t')" for r
    using that mutex_turn_key by (auto simp: mutex_lock_def mutex_wait_def ignore_result_def kbind_eq_Inr_iff)
  then show ?thesis using assms
    by (auto simp: mutex_command_def kbind_eq_Inr_iff mutex_unlock_def mutex_trylock_def dolock_def split: if_splits)
qed

lemma mutex_lock_resume_key:
  "kbind (mutex_lock_resume (m, t)) (\<lambda>(r, s). Inr (answer 1 r, s)) = Inr (r, m', t') \<Longrightarrow> mtx_key m' = mtx_key m"
  using mutex_resume_key by (auto simp: mutex_lock_resume_def ignore_result_def kbind_eq_Inr_iff)

lemma ks_put_thing:
  assumes i: "ks_inv nm s" and "ks_things s p = Some x" and "nm x' = nm x"
  shows "ks_inv nm (s\<lparr>ks_things := (ks_things s)(p \<mapsto> x')\<rparr>)"
    and "ks_obj (s\<lparr>ks_things := th\<rparr>) = ks_obj s" and "ks_users (s\<lparr>ks_things := th\<rparr>) = ks_users s"
proof -
  define s' where "s' = s\<lparr>ks_things := (ks_things s)(p \<mapsto> x')\<rparr>"
  have "ks_cell nm s' k q" if kq: "ks_find k s = Some q" for k q
  proof -
    obtain th c ob where c: "ks_vals s q = Some (th, c)" "c \<noteq> 0" "0 < th" "th < ks_fresh s" "ks_things s th = Some ob" "nm ob = k" "q < ks_fresh s"
      using ks_cellE [OF i kq] by metis
    have "\<exists>ob'. ks_things s' th = Some ob' \<and> nm ob' = k"
      using c(5,6) assms(2,3) by (cases "th = p") (auto simp: s'_def)
    then show ?thesis using c unfolding ks_cell_def by (auto simp: s'_def)
  qed
  then show "ks_inv nm s'" using i by (simp add: ks_inv_def s'_def)
  show "ks_obj (s\<lparr>ks_things := th\<rparr>) = ks_obj s" "ks_users (s\<lparr>ks_things := th\<rparr>) = ks_users s"
    by (simp_all add: fun_eq_iff ks_obj_def ks_users_def split: option.split)
qed

lemma put_thing_good:
  assumes "store_good kind nm F" and "ks_things (fs_priv F) p = Some x" and "nm x' = nm x"
  shows "store_good kind nm (put_thing p x' F)"
  using assms ks_put_thing [of nm "fs_priv F" p x x'] by (simp add: store_good_def put_thing_def)

lemma with_thing_keeps:
  assumes "with_thing f act (F, t) = Inr (r, F', t')" and "store_good kind nm F" and "counted F"
    and "\<And>x t r x' t'. act (x, t) = Inr (r, x', t') \<Longrightarrow> nm x' = nm x"
  shows "store_good kind nm F' \<and> counted F'"
proof -
  obtain ob :: "nat fobject" and x y where x: "thing_at (fs_priv F) (o_data ob) = Inr x" "act (x, t) = Inr y"
      "(case y of (r, x, t) \<Rightarrow> Inr (r, put_thing (o_data ob) x F, t)) = (Inr (r, F', t') :: _ kernel)"
    using assms(1) unfolding with_thing_def prod.case kbind_eq_Inr_iff by blast
  obtain x' where y: "y = (r, x', t')" and F': "F' = put_thing (o_data ob) x' F"
    using x(3) by (cases y) auto
  have "ks_things (fs_priv F) (o_data ob) = Some x" using x(1) by (auto simp: thing_at_def split: if_splits option.splits)
  then have "store_good kind nm F'" using put_thing_good [OF assms(2)] assms(4) [of x t r x' t'] x(2) y F' by simp
  moreover have "counts F' = counts F" "fs_openObjects F' = fs_openObjects F" by (simp_all add: F' put_thing_def)
  ultimately show ?thesis using assms(3) by (simp add: counted_def)
qed

lemma incref_keeps:
  assumes "object_incref f F = Inr (c, F')" and "store_good kind nm F" and "counted F"
  shows "store_good kind nm F' \<and> counted F'"
proof -
  obtain ob where ob: "fs_objs F f = Some ob" and F': "F' = put_object f (ob\<lparr>o_refcount := rc_incref (o_refcount ob)\<rparr>) F"
    using assms(1) by (auto simp: object_incref_def object_at_def Let_def kbind_eq_Inr_iff split: if_splits option.splits)
  have "o_refcount ob \<noteq> - 1 \<Longrightarrow> o_refcount ob + 1 \<noteq> 0" by (simp add: eq_neg_iff_add_eq_0)
  then have "rc_incref (o_refcount ob) \<noteq> 0" by (auto simp: rc_incref_def)
  then show ?thesis using store_good_refcount [OF assms(2) ob] counted_put_object [OF assms(3)] ob F' by (simp add: counts_def)
qed

lemma close_live:
  assumes "fs_close doClose f F = Inr F'"
  shows "\<exists>c. counts F f = Some c"
  using assms by (auto simp: fs_close_def object_decref_def object_at_def counts_def Let_def split: if_splits option.splits)

lemma mutexfs_step_good:
  "mutexfs_step junk x y \<Longrightarrow> store_good K_mutex mtx_key (fst x) \<and> counted (fst x) \<Longrightarrow> store_good K_mutex mtx_key (fst y) \<and> counted (fst y)"
proof (induction rule: mutexfs_step.induct)
  case (mf_open F name mode f F' t)
  then show ?case using mutex_files.opened [OF _ _ mf_open.hyps] by simp
next
  case (mf_share f F c F' t)
  then show ?case using incref_keeps [OF mf_share.hyps, of K_mutex mtx_key] by simp
next
  case (mf_close f F F' t)
  obtain c where "counts F f = Some c" using close_live [OF mf_close.hyps] by blast
  then show ?case using mutex_files.closed [of F f c] mf_close by auto
next
  case (mf_ioctl a f F t r F' t')
  show ?case unfolding fst_conv
    by (rule with_thing_keeps [OF mf_ioctl.hyps [unfolded mutex_ioctl_def]]) (use mf_ioctl.prems mutex_command_key in auto)
next
  case (mf_resume f F t r F' t')
  show ?case unfolding fst_conv
    by (rule with_thing_keeps [OF mf_resume.hyps [unfolded mutex_ioctl_resume_def]]) (use mf_resume.prems mutex_lock_resume_key in auto)
qed simp

lemma store_new_good: "store_good kind nm (fs_new (ks_new 1024)) \<and> counted (fs_new (ks_new 1024) :: (nat, 't kstore) fs)"
proof -
  have "counts (fs_new (ks_new 1024) :: (nat, 't kstore) fs) = (\<lambda>_. None)" by (simp add: fun_eq_iff counts_def fs_new_def)
  then show ?thesis by (simp add: store_good_def fs_new_def linked_def counted_def ks_new_inv)
qed

lemma mutexfs_reachable:
  assumes "(mutexfs_step junk)\<^sup>*\<^sup>* (fs_new (ks_new 1024), t0) (F, t)"
  shows "store_good K_mutex mtx_key F \<and> counted F"
proof -
  have "store_good K_mutex mtx_key (fst (F, t)) \<and> counted (fst (F, t))"
    using assms
  proof (induction rule: rtranclp_induct)
    case base
    then show ?case using store_new_good by simp
  qed (use mutexfs_step_good in blast)
  then show ?thesis by simp
qed

text \<open>
  C20: no open file of the mutex filesystem outlives its mutex. After any sequence of opens, shares,
  closes and operations by any processes, every open file points to a live mutex, the store counts
  exactly the open files of that mutex, closing the file succeeds, and opening the mutex's name
  again gives a file on the same mutex.
\<close>

theorem mutex_files_safe:
  assumes "(mutexfs_step junk)\<^sup>*\<^sup>* (fs_new (ks_new 1024), t0) (F, t)" and "fs_objs F f = Some ob"
  shows "\<exists>m. thing_at (fs_priv F) (o_data ob) = Inr m
    \<and> ks_users (fs_priv F) (mtx_key m) = card {g. \<exists>ob'. fs_objs F g = Some ob' \<and> o_data ob' = o_data ob}
    \<and> (\<exists>F'. fs_close mutexfs_doClose f F = Inr F')
    \<and> (few F \<longrightarrow> (\<exists>g F'. fs_open (mutexfs_doOpen junk) (mtx_key m) mode F = Inr (g, F')
          \<and> map_option o_data (fs_objs F' g) = Some (o_data ob)))"
proof -
  have g: "store_good K_mutex mtx_key F" and c: "counted F" using mutexfs_reachable [OF assms(1)] by auto
  have i: "ks_inv mtx_key (fs_priv F)" and l: "linked id (ks_obj (fs_priv F)) (ks_users (fs_priv F)) (fs_objs F)"
    using g by (simp_all add: store_good_def)
  obtain k where k: "ks_obj (fs_priv F) k = Some (o_data ob)" using linkedD [OF l assms(2)] by auto
  obtain m where m: "thing_at (fs_priv F) (o_data ob) = Inr m" "mtx_key m = k"
    using ks_obj_Some [OF i k] by (metis thing_at_def option.simps(5) less_irrefl)
  have u: "ks_users (fs_priv F) k = card {g. \<exists>ob'. fs_objs F g = Some ob' \<and> o_data ob' = o_data ob}"
    using l k by (simp add: linked_def files_at_def)
  have cl: "\<exists>F'. fs_close mutexfs_doClose f F = Inr F'"
    using mutex_files.closed [OF g c, of f "o_refcount ob"] assms(2) by (auto simp: counts_def)
  have "\<exists>g F'. fs_open (mutexfs_doOpen junk) k mode F = Inr (g, F') \<and> map_option o_data (fs_objs F' g) = Some (o_data ob)" if few: "few F"
  proof -
    obtain p F' where F': "mutexfs_doOpen junk k mode F = Inr (fs_fresh F, F')" "fs_objs F' = (fs_objs F)(fs_fresh F \<mapsto> fobject_new K_mutex p)"
      "ks_obj (fs_priv F) k = None \<or> ks_obj (fs_priv F) k = Some p"
      using store_opens [of mtx_key "mutex_make junk", OF _ g few, of k]
      by (auto simp: mutexfs_doOpen_def mutex_make_def mutex_new_def)
    have "fs_fresh F \<noteq> 0" using g by (simp add: store_good_def)
    then have "fs_open (mutexfs_doOpen junk) k mode F = Inr (fs_fresh F, openObject F')" using F'(1) by (simp add: fs_open_def)
    moreover have "map_option o_data (fs_objs (openObject F') (fs_fresh F)) = Some (o_data ob)"
      using F'(2,3) k by (simp add: fobject_new_def)
    ultimately show ?thesis by blast
  qed
  then show ?thesis using m u cl by blast
qed

theorem mutex_files_safe_witness:
  "\<exists>F ob m. (mutexfs_step 0)\<^sup>*\<^sup>* (fs_new (ks_new 1024), example_tasks) (F, example_tasks) \<and> fs_objs F 1 = Some ob
     \<and> thing_at (fs_priv F) (o_data ob) = Inr m \<and> ks_users (fs_priv F) (mtx_key m) = card {g. \<exists>ob'. fs_objs F g = Some ob' \<and> o_data ob' = o_data ob}"
proof -
  define F0 where "F0 = (fs_new (ks_new 1024) :: (nat, Mutex kstore) fs)"
  have few: "few F0" by (simp add: F0_def few_def fs_new_def)
  have one: "fs_fresh F0 = 1" by (simp add: F0_def fs_new_def)
  obtain p F' where F': "mutexfs_doOpen 0 ''a'' 1 F0 = Inr (1, F')" "fs_objs F' = (fs_objs F0)(1 \<mapsto> fobject_new K_mutex p)"
    using store_opens [of mtx_key "mutex_make 0" K_mutex F0 "''a''"] store_new_good [of K_mutex mtx_key] few one
    by (auto simp: mutexfs_doOpen_def mutex_make_def mutex_new_def F0_def)
  then have "fs_open (mutexfs_doOpen 0) ''a'' 1 F0 = Inr (1, openObject F')" by (simp add: fs_open_def)
  then have "(mutexfs_step 0)\<^sup>*\<^sup>* (F0, example_tasks) (openObject F', example_tasks)" using mf_open [OF few] by blast
  moreover have "fs_objs (openObject F') 1 = Some (fobject_new K_mutex p)" using F'(2) by simp
  ultimately show ?thesis using mutex_files_safe [of 0 example_tasks "openObject F'"] unfolding F0_def by blast
qed

end
