(* ===== verification/Blocking.thy ===== *)
theory Blocking
  imports Task_System
begin

text \<open>
  What blocking code needs to know about the task state: giving up the processor adds the caller to
  one queue, waking a queue empties it, and neither touches the waiters of other queues.
\<close>

definition calm :: "tasks \<Rightarrow> bool" where
  "calm t \<longleftrightarrow> sched_inv t \<and> wait_inv t"

lemma waits_on_yield [simp]: "waits_on (pm_yield b t) p wq = waits_on t p wq"
  by (simp add: waits_on_def pm_yield_def state_of_def Let_def)

lemma block_spec:
  assumes "calm t"
  shows "\<exists>t'. wq_yield wq task 0 t = Inr t' \<and> calm t' \<and> (\<forall>p w. waits_on t' p w \<longrightarrow> waits_on t p w \<or> (w = wq \<and> p = task))"
proof -
  define t1 where "t1 = t\<lparr>waitqs := (waitqs t)(wq := waitqs t wq @ [\<lparr>w_token = p_waitToken (procs t task), w_process = task\<rparr>])\<rparr>"
  define t2 where "t2 = take_off task WAITING wq t1"
  have s: "sched_inv t1" using assms by (simp add: calm_def t1_def)
  then have w: "wq_wait wq task t = Inr t2"
    by (simp add: wq_wait_def pushToQueue_def t1_def [symmetric] deschedule_distinct sched_inv_distinct t2_def)
  then have y: "wq_yield wq task 0 t = Inr (pm_yield False t2)" by (simp add: wq_yield_def)
  have "sched_inv t2" using take_off_inv [OF s] by (simp add: t2_def)
  moreover have "wait_inv t2" using wq_wait_wait [OF _ _ w] assms by (simp add: calm_def)
  ultimately have "calm (pm_yield False t2)" by (simp add: calm_def pm_yield_inv pm_yield_wait)
  moreover have "waits_on t p v \<or> (v = wq \<and> p = task)" if "waits_on t2 p v" for p v
    using that by (auto simp: waits_on_def t2_def t1_def take_off_def state_of_def split: if_splits)
  ultimately show ?thesis using y by auto
qed

lemma wakeall_loop_waits: "waits_on (wakeall_loop wq qs t) p w \<Longrightarrow> waits_on t p w"
proof (induction wq qs t rule: wakeall_loop.induct)
  case (2 wq q qs t)
  then have "waits_on (snd (wq_wake wq q t)) p w" by simp
  then show ?case
    by (auto simp: wq_wake_def pm_ready_def reschedule_def Let_def waits_on_def state_of_def split: if_splits)
qed simp

lemma wakeall_waits: "waits_on (wq_wakeall wq t) p w \<Longrightarrow> waits_on t p w"
proof -
  assume a: "waits_on (wq_wakeall wq t) p w"
  have "waits_on (wakeall_loop wq (waitqs t wq) t) p w" using a by (simp add: wq_wakeall_def Let_def waits_on_def state_of_def)
  then show "waits_on t p w" by (rule wakeall_loop_waits)
qed

lemma wakeall_calm:
  assumes "calm t"
  shows "calm (wq_wakeall wq t)" and "\<not> waits_on (wq_wakeall wq t) p wq"
  using assms wakeall_nobody_waits by (auto simp: calm_def wq_wakeall_inv wq_wakeall_wait)

text \<open>What other processes do meanwhile: anything that puts nobody on the given queues.\<close>

definition others :: "u32 set \<Rightarrow> tasks \<Rightarrow> tasks \<Rightarrow> bool" where
  "others qs t t' \<longleftrightarrow> calm t' \<and> (\<forall>p. \<forall>q\<in>qs. waits_on t' p q \<longrightarrow> waits_on t p q)"

text \<open>
  A channel with one queue for readers and one for writers, which hold \<open>n\<close> of at most \<open>room\<close> items:
  a process waits for items only when there are none and a writer may come (\<open>wopen\<close>), and for room only
  when there is none and a reader may come (\<open>ropen\<close>).
\<close>

definition channel_waits :: "u32 \<Rightarrow> u32 \<Rightarrow> nat \<Rightarrow> nat \<Rightarrow> bool \<Rightarrow> bool \<Rightarrow> tasks \<Rightarrow> bool" where
  "channel_waits emptyq fullq room n wopen ropen t \<longleftrightarrow> calm t
     \<and> (\<forall>p. waits_on t p emptyq \<longrightarrow> n = 0 \<and> wopen) \<and> (\<forall>p. waits_on t p fullq \<longrightarrow> n = room \<and> ropen)"

lemma channel_waits_others:
  "channel_waits eq fq room n wo ro t \<Longrightarrow> others {fq, eq} t t' \<Longrightarrow> channel_waits eq fq room n wo ro t'"
  by (auto simp: channel_waits_def others_def)

lemma channel_block_reader:
  assumes "channel_waits eq fq room 0 True ro t" and "eq \<noteq> fq"
  shows "\<exists>t'. wq_yield eq task 0 t = Inr t' \<and> channel_waits eq fq room 0 True ro t'"
  using block_spec [of t eq task] assms unfolding channel_waits_def by metis

lemma channel_block_writer:
  assumes "channel_waits eq fq room room wo True t" and "eq \<noteq> fq"
  shows "\<exists>t'. wq_yield fq task 0 t = Inr t' \<and> channel_waits eq fq room room wo True t'"
  using block_spec [of t fq task] assms unfolding channel_waits_def by metis

lemma channel_wake_readers:
  assumes "channel_waits eq fq room n wo ro t" and "n \<le> m" and "m \<le> room"
  shows "channel_waits eq fq room m wo' ro (wq_wakeall eq t)"
  using assms wakeall_calm [of t eq] wakeall_waits [of eq t] unfolding channel_waits_def by (metis le_antisym)

lemma channel_wake_writers:
  assumes "channel_waits eq fq room n wo ro t" and "m \<le> n"
  shows "channel_waits eq fq room m wo ro' (wq_wakeall fq t)"
  using assms wakeall_calm [of t fq] wakeall_waits [of fq t] unfolding channel_waits_def by (metis le_zero_eq)

end
