(* ===== verification/Pipe.thy ===== *)
theory Pipe
  imports Filesystem Fifo Blocking
begin

text \<open>
  Pipes (\<open>src/kernel/include/synch/pipe.h\<close>, \<open>src/kernel/src/synch/pipe.cpp\<close>): a ring of bytes with
  one wait queue for readers and one for writers. \<open>read\<close> and \<open>write\<close> are split where they give up the
  processor; when the process runs again it takes the same turn of the waiting loop. Indices and
  counts are naturals: they stay within the buffer (\<open>pipe_rep\<close>).
\<close>

section \<open>The buffer\<close>

definition gBufferSize :: nat where
  "gBufferSize = 4096"

record PipeBuffer =
  pb_buffer :: "u8 list"
  pb_read :: nat
  pb_write :: nat
  pb_free :: nat
  pb_fullWQ :: u32
  pb_emptyWQ :: u32
  pb_readOpen :: bool
  pb_writeOpen :: bool

definition pipebuffer_new :: "u32 \<Rightarrow> u32 \<Rightarrow> PipeBuffer" where
  "pipebuffer_new fullq emptyq = \<lparr>pb_buffer = replicate gBufferSize 0, pb_read = 0, pb_write = 0, pb_free = gBufferSize,
     pb_fullWQ = fullq, pb_emptyWQ = emptyq, pb_readOpen = True, pb_writeOpen = True\<rparr>"

definition closeReadFile :: "PipeBuffer \<times> tasks \<Rightarrow> PipeBuffer \<times> tasks" where
  "closeReadFile = (\<lambda>(b, t). (b\<lparr>pb_readOpen := False\<rparr>, wq_wakeall (pb_fullWQ b) t))"

definition isReadFileOpen :: "PipeBuffer \<Rightarrow> bool" where
  "isReadFileOpen b = pb_readOpen b"

definition closeWriteFile :: "PipeBuffer \<times> tasks \<Rightarrow> PipeBuffer \<times> tasks" where
  "closeWriteFile = (\<lambda>(b, t). (b\<lparr>pb_writeOpen := False\<rparr>, wq_wakeall (pb_emptyWQ b) t))"

definition isWriteFileOpen :: "PipeBuffer \<Rightarrow> bool" where
  "isWriteFileOpen b = pb_writeOpen b"

definition tryPutchar :: "u8 \<Rightarrow> PipeBuffer \<Rightarrow> (bool \<times> PipeBuffer) kernel" where
  "tryPutchar c b =
     (if pb_free b = 0 then Inr (False, b)
      else if pb_write b \<ge> length (pb_buffer b) then Inl OutOfBounds
      else
        let b = b\<lparr>pb_buffer := (pb_buffer b)[pb_write b := c], pb_write := pb_write b + 1\<rparr>;
            b = (if pb_write b = gBufferSize then b\<lparr>pb_write := 0\<rparr> else b) in
        Inr (True, b\<lparr>pb_free := pb_free b - 1\<rparr>))"

definition tryGetchar :: "PipeBuffer \<Rightarrow> (u8 option \<times> PipeBuffer) kernel" where
  "tryGetchar b =
     (if pb_free b = gBufferSize then Inr (None, b)
      else if pb_read b \<ge> length (pb_buffer b) then Inl OutOfBounds
      else
        let c = pb_buffer b ! pb_read b;
            b = b\<lparr>pb_read := pb_read b + 1\<rparr>;
            b = (if pb_read b = gBufferSize then b\<lparr>pb_read := 0\<rparr> else b) in
        Inr (Some c, b\<lparr>pb_free := pb_free b + 1\<rparr>))"

text \<open>The copying loops: at most \<open>n\<close> bytes out, at most the given bytes in.\<close>

fun pipe_get_loop :: "nat \<Rightarrow> PipeBuffer \<Rightarrow> (u8 list \<times> PipeBuffer) kernel" where
  "pipe_get_loop 0 b = Inr ([], b)"
| "pipe_get_loop (Suc n) b =
     kbind (tryGetchar b) (\<lambda>(c, b).
     case c of None \<Rightarrow> Inr ([], b) | Some c \<Rightarrow> kbind (pipe_get_loop n b) (\<lambda>(cs, b). Inr (c # cs, b)))"

fun pipe_put_loop :: "u8 list \<Rightarrow> PipeBuffer \<Rightarrow> (nat \<times> PipeBuffer) kernel" where
  "pipe_put_loop [] b = Inr (0, b)"
| "pipe_put_loop (c # cs) b =
     kbind (tryPutchar c b) (\<lambda>(ok, b).
     if ok then kbind (pipe_put_loop cs b) (\<lambda>(count, b). Inr (count + 1, b)) else Inr (0, b))"

definition pipe_read :: "nat \<Rightarrow> PipeBuffer \<times> tasks \<Rightarrow> (u8 list outcome \<times> PipeBuffer \<times> tasks) kernel" where
  "pipe_read n = (\<lambda>(b, t).
     if gBufferSize = pb_free b \<and> isWriteFileOpen b then
       kbind (wq_yield (pb_emptyWQ b) (current t) 0 t) (\<lambda>t. Inr (Blocks, b, t))
     else
       kbind (pipe_get_loop n b) (\<lambda>(out, b).
       Inr (Returns out, b, if length out > 0 then wq_wakeall (pb_fullWQ b) t else t)))"

definition pipe_write :: "u8 list \<Rightarrow> PipeBuffer \<times> tasks \<Rightarrow> (nat outcome \<times> PipeBuffer \<times> tasks) kernel" where
  "pipe_write data = (\<lambda>(b, t).
     if 0 = pb_free b then
       if \<not> isReadFileOpen b then Inr (Returns (length data), b, t)
       else kbind (wq_yield (pb_fullWQ b) (current t) 0 t) (\<lambda>t. Inr (Blocks, b, t))
     else
       kbind (pipe_put_loop data b) (\<lambda>(count, b).
       Inr (Returns count, b, if count > 0 then wq_wakeall (pb_emptyWQ b) t else t)))"

section \<open>Pipe files\<close>

text \<open>
  A pipe file knows its buffer and its direction. The manager's state has the buffers by address and
  the scheduling state; the two wait queues of the buffer at \<open>a\<close> are named \<open>2 a\<close> and \<open>2 a + 1\<close>.
\<close>

record pipefile =
  pf_buffer :: nat
  pf_isRead :: bool

record pipes =
  pm_bufs :: "nat \<Rightarrow> PipeBuffer option"
  pm_fresh :: nat
  pm_tasks :: tasks

definition buffer_at :: "pipes \<Rightarrow> nat \<Rightarrow> PipeBuffer kernel" where
  "buffer_at s p = (if p = 0 then Inl NullDeref else case pm_bufs s p of None \<Rightarrow> Inl Dangling | Some b \<Rightarrow> Inr b)"

definition put_buffer :: "nat \<Rightarrow> PipeBuffer \<times> tasks \<Rightarrow> pipes \<Rightarrow> pipes" where
  "put_buffer p = (\<lambda>(b, t) s. s\<lparr>pm_bufs := (pm_bufs s)(p \<mapsto> b), pm_tasks := t\<rparr>)"

definition pipe_doClose :: "nat \<Rightarrow> (pipefile, pipes) fs \<Rightarrow> (pipefile, pipes) fs kernel" where
  "pipe_doClose f F =
     kbind (object_at F f) (\<lambda>ob.
     if o_kind ob \<noteq> K_pipe then Inl (Panic ''cannot close a non-pipe via PipeManager'')
     else
       let p = pf_buffer (o_data ob); s = fs_priv F in
       kbind (buffer_at s p) (\<lambda>b.
       let bt = (b, pm_tasks s);
           bt = (if pf_isRead (o_data ob) then closeReadFile bt else bt);
           bt = (if \<not> pf_isRead (o_data ob) then closeWriteFile bt else bt);
           s = put_buffer p bt s;
           s = (if isReadFileOpen (fst bt) = False \<and> isWriteFileOpen (fst bt) = False
                then s\<lparr>pm_bufs := (pm_bufs s)(p := None)\<rparr> else s) in
       Inr (delete_object f (F\<lparr>fs_priv := s\<rparr>))))"

definition readfile_read :: "nat \<Rightarrow> nat \<Rightarrow> (pipefile, pipes) fs \<Rightarrow> (u8 list outcome \<times> (pipefile, pipes) fs) kernel" where
  "readfile_read f n F =
     kbind (object_at F f) (\<lambda>ob.
     if \<not> pf_isRead (o_data ob) then Inr (Returns [], F)
     else
       kbind (buffer_at (fs_priv F) (pf_buffer (o_data ob))) (\<lambda>b.
       kbind (pipe_read n (b, pm_tasks (fs_priv F))) (\<lambda>(r, bt).
       Inr (r, F\<lparr>fs_priv := put_buffer (pf_buffer (o_data ob)) bt (fs_priv F)\<rparr>))))"

definition writefile_write :: "nat \<Rightarrow> u8 list \<Rightarrow> (pipefile, pipes) fs \<Rightarrow> (nat outcome \<times> (pipefile, pipes) fs) kernel" where
  "writefile_write f data F =
     kbind (object_at F f) (\<lambda>ob.
     if pf_isRead (o_data ob) then Inr (Returns 0, F)
     else
       kbind (buffer_at (fs_priv F) (pf_buffer (o_data ob))) (\<lambda>b.
       kbind (pipe_write data (b, pm_tasks (fs_priv F))) (\<lambda>(r, bt).
       Inr (r, F\<lparr>fs_priv := put_buffer (pf_buffer (o_data ob)) bt (fs_priv F)\<rparr>))))"

definition pipe_pipe :: "(pipefile, pipes) fs \<Rightarrow> (nat \<times> nat) \<times> (pipefile, pipes) fs" where
  "pipe_pipe F =
     (let s = fs_priv F; p = pm_fresh s;
          s = s\<lparr>pm_bufs := (pm_bufs s)(p \<mapsto> pipebuffer_new (of_nat (2 * p)) (of_nat (2 * p + 1))), pm_fresh := p + 1\<rparr>;
          (r, F) = new_object (fobject_new K_pipe \<lparr>pf_buffer = p, pf_isRead = True\<rparr>) (F\<lparr>fs_priv := s\<rparr>);
          (w, F) = new_object (fobject_new K_pipe \<lparr>pf_buffer = p, pf_isRead = False\<rparr>) F in
      ((r, w), openObject (openObject F)))"

definition pipe_doOpen :: "string \<Rightarrow> u32 \<Rightarrow> (pipefile, pipes) fs \<Rightarrow> (nat \<times> (pipefile, pipes) fs) kernel" where
  "pipe_doOpen path mode F = Inr (0, F)"

definition pipe_doOpendir :: "string \<Rightarrow> (pipefile, pipes) fs \<Rightarrow> (nat \<times> (pipefile, pipes) fs) kernel" where
  "pipe_doOpendir path F = Inr (0, F)"

section \<open>The ring holds a list\<close>

definition pipe_rep :: "PipeBuffer \<Rightarrow> u8 list \<Rightarrow> bool" where
  "pipe_rep b xs \<longleftrightarrow>
     length (pb_buffer b) = gBufferSize \<and> pb_read b < gBufferSize \<and> pb_free b + length xs = gBufferSize
     \<and> pb_write b = (pb_read b + length xs) mod gBufferSize \<and> ring_items (pb_buffer b) (pb_read b) (length xs) = xs"

lemma gBufferSize_pos: "0 < gBufferSize"
  by (simp add: gBufferSize_def)

lemma pipe_rep_new: "pipe_rep (pipebuffer_new fullq emptyq) []"
  by (simp add: pipe_rep_def pipebuffer_new_def gBufferSize_def)

lemma step_mod: "k < N \<Longrightarrow> (if k + 1 = N then 0 else k + 1) = Suc k mod N"
  by auto

lemma tryPutchar_full: "pipe_rep b xs \<Longrightarrow> length xs = gBufferSize \<Longrightarrow> tryPutchar c b = Inr (False, b)"
  by (simp add: pipe_rep_def tryPutchar_def)

lemma tryPutchar_appends:
  assumes "pipe_rep b xs" and "length xs < gBufferSize"
  shows "\<exists>b'. tryPutchar c b = Inr (True, b') \<and> pipe_rep b' (xs @ [c])
    \<and> pb_fullWQ b' = pb_fullWQ b \<and> pb_emptyWQ b' = pb_emptyWQ b \<and> pb_readOpen b' = pb_readOpen b \<and> pb_writeOpen b' = pb_writeOpen b"
proof -
  have *: "length (pb_buffer b) = gBufferSize" "pb_read b < gBufferSize" "pb_free b + length xs = gBufferSize"
    "pb_write b = (pb_read b + length xs) mod gBufferSize" "ring_items (pb_buffer b) (pb_read b) (length xs) = xs"
    using assms(1) by (simp_all add: pipe_rep_def)
  have w: "pb_write b < gBufferSize" using *(4) gBufferSize_pos by simp
  have r: "ring_items ((pb_buffer b)[pb_write b := c]) (pb_read b) (Suc (length xs)) = xs @ [c]"
    using ring_items_append [of "length xs" "pb_buffer b" "pb_read b" c] * assms(2) by simp
  have m: "Suc (pb_write b) mod gBufferSize = Suc (pb_read b + length xs) mod gBufferSize" using *(4) by (simp add: mod_Suc_eq)
  define b' where "b' = b\<lparr>pb_buffer := (pb_buffer b)[pb_write b := c],
    pb_write := if pb_write b + 1 = gBufferSize then 0 else pb_write b + 1, pb_free := pb_free b - 1\<rparr>"
  have "tryPutchar c b = Inr (True, b')" using *(1,3) assms(2) w by (auto simp: tryPutchar_def Let_def b'_def)
  moreover have "pipe_rep b' (xs @ [c])"
    using *(1,2,3) r m w assms(2) step_mod [OF w] by (simp add: pipe_rep_def b'_def)
  ultimately show ?thesis by (simp add: b'_def)
qed

lemma tryGetchar_empty: "pipe_rep b [] \<Longrightarrow> tryGetchar b = Inr (None, b)"
  by (simp add: pipe_rep_def tryGetchar_def)

lemma tryGetchar_first:
  assumes "pipe_rep b (x # xs)"
  shows "\<exists>b'. tryGetchar b = Inr (Some x, b') \<and> pipe_rep b' xs
    \<and> pb_fullWQ b' = pb_fullWQ b \<and> pb_emptyWQ b' = pb_emptyWQ b \<and> pb_readOpen b' = pb_readOpen b \<and> pb_writeOpen b' = pb_writeOpen b"
proof -
  have *: "length (pb_buffer b) = gBufferSize" "pb_read b < gBufferSize" "pb_free b + Suc (length xs) = gBufferSize"
    "pb_write b = (pb_read b + Suc (length xs)) mod gBufferSize" "ring_items (pb_buffer b) (pb_read b) (Suc (length xs)) = x # xs"
    using assms by (simp_all add: pipe_rep_def)
  have x: "pb_buffer b ! pb_read b = x" "ring_items (pb_buffer b) (Suc (pb_read b)) (length xs) = xs"
    using *(1,2) *(5) [unfolded ring_items_Suc_first] by auto
  have r: "ring_items (pb_buffer b) (Suc (pb_read b) mod gBufferSize) (length xs) = xs"
    using ring_items_mod [of "pb_buffer b" "Suc (pb_read b)"] *(1) x(2) by simp
  have m: "(Suc (pb_read b) mod gBufferSize + length xs) mod gBufferSize = pb_write b" using *(4) by (simp add: mod_add_left_eq)
  define b' where "b' = b\<lparr>pb_read := if pb_read b + 1 = gBufferSize then 0 else pb_read b + 1, pb_free := pb_free b + 1\<rparr>"
  have "tryGetchar b = Inr (Some x, b')" using * x(1) by (auto simp: tryGetchar_def Let_def b'_def)
  moreover have "pipe_rep b' xs"
    using *(1,3) r m gBufferSize_pos step_mod [OF *(2)] by (simp add: pipe_rep_def b'_def)
  ultimately show ?thesis by (simp add: b'_def)
qed

text \<open>The bytes of a pipe are a first-in first-out buffer.\<close>

interpretation pipe_bytes: fifo pipe_rep "\<lambda>b. pb_free b = gBufferSize"
    "\<lambda>c b. kbind (tryPutchar c b) (\<lambda>(ok, b). if ok then Inr b else Inl OutOfBounds)"
    "\<lambda>b. kbind (tryGetchar b) (\<lambda>(c, b). case c of None \<Rightarrow> Inl OutOfBounds | Some c \<Rightarrow> Inr (c, b))" gBufferSize
proof
  fix b and xs :: "u8 list" and x
  show "pipe_rep b xs \<Longrightarrow> (pb_free b = gBufferSize) = (xs = [])" by (auto simp: pipe_rep_def)
  show "pipe_rep b xs \<Longrightarrow> length xs < gBufferSize \<Longrightarrow>
    \<exists>q'. kbind (tryPutchar x b) (\<lambda>(ok, b). if ok then Inr b else Inl OutOfBounds) = Inr q' \<and> pipe_rep q' (xs @ [x])"
    using tryPutchar_appends [of b xs x] by auto
  show "pipe_rep b (x # xs) \<Longrightarrow>
    \<exists>q'. kbind (tryGetchar b) (\<lambda>(c, b). case c of None \<Rightarrow> Inl OutOfBounds | Some c \<Rightarrow> Inr (c, b)) = Inr (x, q') \<and> pipe_rep q' xs"
    using tryGetchar_first [of b x xs] by auto
qed

section \<open>Reading and writing\<close>

definition same_ends :: "PipeBuffer \<Rightarrow> PipeBuffer \<Rightarrow> bool" where
  "same_ends b b' \<longleftrightarrow> pb_fullWQ b' = pb_fullWQ b \<and> pb_emptyWQ b' = pb_emptyWQ b \<and> pb_readOpen b' = pb_readOpen b
     \<and> pb_writeOpen b' = pb_writeOpen b"

lemma pipe_put_loop_spec:
  "pipe_rep b xs \<Longrightarrow> \<exists>b'. pipe_put_loop data b = Inr (min (length data) (gBufferSize - length xs), b')
     \<and> pipe_rep b' (xs @ take (gBufferSize - length xs) data) \<and> same_ends b b'"
proof (induction data arbitrary: b xs)
  case Nil
  then show ?case by (simp add: same_ends_def)
next
  case (Cons c cs)
  show ?case
  proof (cases "length xs < gBufferSize")
    case True
    obtain b1 where b1: "tryPutchar c b = Inr (True, b1)" "pipe_rep b1 (xs @ [c])" "same_ends b b1"
      using tryPutchar_appends [OF Cons.prems True, of c] by (auto simp: same_ends_def)
    obtain b2 where b2: "pipe_put_loop cs b1 = Inr (min (length cs) (gBufferSize - length (xs @ [c])), b2)"
      "pipe_rep b2 ((xs @ [c]) @ take (gBufferSize - length (xs @ [c])) cs)" "same_ends b1 b2"
      using Cons.IH [OF b1(2)] by blast
    have "gBufferSize - length xs = Suc (gBufferSize - length (xs @ [c]))" using True by simp
    then show ?thesis using b1 b2 by (auto simp: same_ends_def)
  next
    case False
    then have "length xs = gBufferSize" using Cons.prems by (auto simp: pipe_rep_def)
    then show ?thesis using tryPutchar_full [OF Cons.prems, of c] Cons.prems by (simp add: same_ends_def)
  qed
qed

lemma pipe_get_loop_spec:
  "pipe_rep b xs \<Longrightarrow> \<exists>b'. pipe_get_loop n b = Inr (take n xs, b') \<and> pipe_rep b' (drop n xs) \<and> same_ends b b'"
proof (induction n arbitrary: b xs)
  case 0
  then show ?case by (simp add: same_ends_def)
next
  case (Suc n)
  show ?case
  proof (cases xs)
    case Nil
    then show ?thesis using Suc.prems tryGetchar_empty [of b] by (simp add: same_ends_def)
  next
    case (Cons y ys)
    obtain b1 where b1: "tryGetchar b = Inr (Some y, b1)" "pipe_rep b1 ys" "same_ends b b1"
      using tryGetchar_first [of b y ys] Suc.prems Cons by (auto simp: same_ends_def)
    obtain b2 where "pipe_get_loop n b1 = Inr (take n ys, b2)" "pipe_rep b2 (drop n ys)" "same_ends b1 b2"
      using Suc.IH [OF b1(2)] by blast
    then show ?thesis using b1 Cons by (simp add: same_ends_def)
  qed
qed

definition pipe_inv :: "u8 list \<Rightarrow> PipeBuffer \<times> tasks \<Rightarrow> bool" where
  "pipe_inv xs = (\<lambda>(b, t). pipe_rep b xs \<and> pb_emptyWQ b \<noteq> pb_fullWQ b
     \<and> channel_waits (pb_emptyWQ b) (pb_fullWQ b) gBufferSize (length xs) (pb_writeOpen b) (pb_readOpen b) t)"

lemma pipe_rep_le: "pipe_rep b xs \<Longrightarrow> length xs \<le> gBufferSize"
  by (auto simp: pipe_rep_def)

lemma channel_waits_calm: "channel_waits eq fq room n wo ro t \<Longrightarrow> calm t"
  by (simp add: channel_waits_def)

text \<open>
  A read of a pipe with bytes, or whose writer is gone, returns the first bytes, up to as many as
  asked for; otherwise it blocks. It never faults.
\<close>

lemma pipe_read_spec:
  assumes "pipe_inv xs (b, t)"
  shows "\<exists>r b' t'. pipe_read n (b, t) = Inr (r, b', t') \<and>
    (if xs = [] \<and> pb_writeOpen b then r = Blocks \<and> pipe_inv xs (b', t') else r = Returns (take n xs) \<and> pipe_inv (drop n xs) (b', t'))"
proof -
  have rep: "pipe_rep b xs" and ne: "pb_emptyWQ b \<noteq> pb_fullWQ b"
    and ch: "channel_waits (pb_emptyWQ b) (pb_fullWQ b) gBufferSize (length xs) (pb_writeOpen b) (pb_readOpen b) t"
    using assms by (simp_all add: pipe_inv_def)
  have e: "gBufferSize = pb_free b \<longleftrightarrow> xs = []" using rep by (auto simp: pipe_rep_def)
  show ?thesis
  proof (cases "xs = [] \<and> pb_writeOpen b")
    case True
    then obtain t' where "wq_yield (pb_emptyWQ b) (current t) 0 t = Inr t'"
        "channel_waits (pb_emptyWQ b) (pb_fullWQ b) gBufferSize 0 True (pb_readOpen b) t'"
      using channel_block_reader [OF _ ne, of gBufferSize "pb_readOpen b" t "current t"] ch by auto
    then show ?thesis using True e rep ne by (simp add: pipe_read_def isWriteFileOpen_def pipe_inv_def)
  next
    case False
    obtain b' where b': "pipe_get_loop n b = Inr (take n xs, b')" "pipe_rep b' (drop n xs)" "same_ends b b'"
      using pipe_get_loop_spec [OF rep] by blast
    define t' where "t' = (if length (take n xs) > 0 then wq_wakeall (pb_fullWQ b') t else t)"
    have "pipe_read n (b, t) = Inr (Returns (take n xs), b', t')"
      using False e b'(1) by (auto simp: pipe_read_def isWriteFileOpen_def t'_def)
    moreover have "channel_waits (pb_emptyWQ b) (pb_fullWQ b) gBufferSize (length (drop n xs)) (pb_writeOpen b) (pb_readOpen b) t'"
    proof (cases "length (take n xs) > 0")
      case True
      then show ?thesis using channel_wake_writers [OF ch, of "length (drop n xs)" "pb_readOpen b"] b'(3) by (simp add: t'_def same_ends_def)
    next
      case False
      then have "drop n xs = xs" by auto
      then show ?thesis using False ch by (auto simp: t'_def)
    qed
    ultimately show ?thesis using False b'(2,3) ne by (auto simp: pipe_inv_def same_ends_def)
  qed
qed

text \<open>
  A write to a pipe with room stores the bytes that fit; a write to a full pipe blocks, unless
  its reader is gone, when the bytes are dropped.
\<close>

lemma pipe_write_spec:
  assumes "pipe_inv xs (b, t)"
  shows "\<exists>r b' t'. pipe_write data (b, t) = Inr (r, b', t') \<and>
    (if length xs = gBufferSize then pipe_inv xs (b', t') \<and> r = (if pb_readOpen b then Blocks else Returns (length data))
     else r = Returns (min (length data) (gBufferSize - length xs)) \<and> pipe_inv (xs @ take (gBufferSize - length xs) data) (b', t'))"
proof -
  have rep: "pipe_rep b xs" and ne: "pb_emptyWQ b \<noteq> pb_fullWQ b"
    and ch: "channel_waits (pb_emptyWQ b) (pb_fullWQ b) gBufferSize (length xs) (pb_writeOpen b) (pb_readOpen b) t"
    using assms by (simp_all add: pipe_inv_def)
  have e: "0 = pb_free b \<longleftrightarrow> length xs = gBufferSize" using rep by (auto simp: pipe_rep_def)
  show ?thesis
  proof (cases "length xs = gBufferSize")
    case True
    show ?thesis
    proof (cases "pb_readOpen b")
      case True
      then obtain t' where "wq_yield (pb_fullWQ b) (current t) 0 t = Inr t'"
          "channel_waits (pb_emptyWQ b) (pb_fullWQ b) gBufferSize gBufferSize (pb_writeOpen b) True t'"
        using channel_block_writer [OF _ ne, of gBufferSize "pb_writeOpen b" t "current t"] ch \<open>length xs = gBufferSize\<close> by auto
      then show ?thesis using True e rep ne \<open>length xs = gBufferSize\<close> by (simp add: pipe_write_def isReadFileOpen_def pipe_inv_def)
    next
      case False
      then show ?thesis using assms e \<open>length xs = gBufferSize\<close> by (simp add: pipe_write_def isReadFileOpen_def)
    qed
  next
    case False
    define ys where "ys = take (gBufferSize - length xs) data"
    obtain b' where b': "pipe_put_loop data b = Inr (min (length data) (gBufferSize - length xs), b')" "pipe_rep b' (xs @ ys)" "same_ends b b'"
      using pipe_put_loop_spec [OF rep, of data] by (auto simp: ys_def)
    define t' where "t' = (if min (length data) (gBufferSize - length xs) > 0 then wq_wakeall (pb_emptyWQ b') t else t)"
    have w: "pipe_write data (b, t) = Inr (Returns (min (length data) (gBufferSize - length xs)), b', t')"
      using False e b'(1) by (auto simp: pipe_write_def t'_def)
    have "channel_waits (pb_emptyWQ b) (pb_fullWQ b) gBufferSize (length (xs @ ys)) (pb_writeOpen b) (pb_readOpen b) t'"
    proof (cases "min (length data) (gBufferSize - length xs) > 0")
      case True
      then show ?thesis using channel_wake_readers [OF ch, of "length (xs @ ys)" "pb_writeOpen b"] b'(3) pipe_rep_le [OF b'(2)]
        by (simp add: t'_def same_ends_def)
    next
      case False
      then have "ys = []" by (auto simp: ys_def)
      then show ?thesis using False ch by (auto simp: t'_def)
    qed
    then show ?thesis using False b'(2,3) ne w by (auto simp: pipe_inv_def same_ends_def ys_def)
  qed
qed

lemma pipe_close_inv:
  assumes "pipe_inv xs bt"
  shows "pipe_inv xs (closeReadFile bt)" and "pipe_inv xs (closeWriteFile bt)"
proof -
  obtain b t where bt: "bt = (b, t)" by fastforce
  have rep: "pipe_rep b xs" and ch: "channel_waits (pb_emptyWQ b) (pb_fullWQ b) gBufferSize (length xs) (pb_writeOpen b) (pb_readOpen b) t"
    using assms by (simp_all add: pipe_inv_def bt)
  show "pipe_inv xs (closeReadFile bt)"
    using channel_wake_writers [OF ch order_refl, of False] assms rep by (simp add: pipe_inv_def closeReadFile_def bt pipe_rep_def)
  show "pipe_inv xs (closeWriteFile bt)"
    using channel_wake_readers [OF ch order_refl pipe_rep_le [OF rep], of False] assms rep
    by (simp add: pipe_inv_def closeWriteFile_def bt pipe_rep_def)
qed

section \<open>Every byte arrives once and in order\<close>

text \<open>
  The steps of the processes at the two ends, with the bytes accepted and the bytes delivered so
  far. A write to a full pipe without a reader accepts nothing.
\<close>

inductive pipe_step :: "PipeBuffer \<times> tasks \<times> u8 list \<times> u8 list \<Rightarrow> PipeBuffer \<times> tasks \<times> u8 list \<times> u8 list \<Rightarrow> bool" where
  ps_read: "pipe_read n (b, t) = Inr (Returns out, b', t') \<Longrightarrow> pipe_step (b, t, sent, received) (b', t', sent, received @ out)"
| ps_read_block: "pipe_read n (b, t) = Inr (Blocks, b', t') \<Longrightarrow> pipe_step (b, t, sent, received) (b', t', sent, received)"
| ps_write: "pipe_write data (b, t) = Inr (Returns cnt, b', t') \<Longrightarrow>
    pipe_step (b, t, sent, received) (b', t', sent @ (if pb_free b = 0 then [] else take cnt data), received)"
| ps_write_block: "pipe_write data (b, t) = Inr (Blocks, b', t') \<Longrightarrow> pipe_step (b, t, sent, received) (b', t', sent, received)"
| ps_close_read: "closeReadFile (b, t) = (b', t') \<Longrightarrow> pipe_step (b, t, sent, received) (b', t', sent, received)"
| ps_close_write: "closeWriteFile (b, t) = (b', t') \<Longrightarrow> pipe_step (b, t, sent, received) (b', t', sent, received)"
| ps_others: "others {pb_fullWQ b, pb_emptyWQ b} t t' \<Longrightarrow> pipe_step (b, t, sent, received) (b, t', sent, received)"

fun pipe_stream_inv :: "PipeBuffer \<times> tasks \<times> u8 list \<times> u8 list \<Rightarrow> bool" where
  "pipe_stream_inv (b, t, sent, received) \<longleftrightarrow> (\<exists>xs. pipe_inv xs (b, t) \<and> sent = received @ xs)"

lemma pipe_step_inv: "pipe_step x y \<Longrightarrow> pipe_stream_inv x \<Longrightarrow> pipe_stream_inv y"
proof (induction rule: pipe_step.induct)
  case (ps_read n b t out b' t' sent received)
  then obtain xs where xs: "pipe_inv xs (b, t)" "sent = received @ xs" by auto
  have "out = take n xs \<and> pipe_inv (drop n xs) (b', t')" using pipe_read_spec [OF xs(1), of n] ps_read.hyps by (auto split: if_splits)
  then show ?case using xs(2) by auto
next
  case (ps_read_block n b t b' t' sent received)
  then obtain xs where xs: "pipe_inv xs (b, t)" "sent = received @ xs" by auto
  then show ?case using pipe_read_spec [OF xs(1), of n] ps_read_block.hyps by (auto split: if_splits)
next
  case (ps_write data b t cnt b' t' sent received)
  then obtain xs where xs: "pipe_inv xs (b, t)" "sent = received @ xs" by auto
  have f: "pb_free b = 0 \<longleftrightarrow> length xs = gBufferSize" using xs(1) by (auto simp: pipe_inv_def pipe_rep_def)
  show ?case
  proof (cases "length xs = gBufferSize")
    case True
    then show ?thesis using pipe_write_spec [OF xs(1), of data] ps_write.hyps f xs(2) by (auto split: if_splits)
  next
    case False
    then have "cnt = min (length data) (gBufferSize - length xs) \<and> pipe_inv (xs @ take (gBufferSize - length xs) data) (b', t')"
      using pipe_write_spec [OF xs(1), of data] ps_write.hyps by auto
    moreover have "take (min (length data) (gBufferSize - length xs)) data = take (gBufferSize - length xs) data"
      by (simp add: min_def)
    ultimately show ?thesis using False f xs(2) by auto
  qed
next
  case (ps_write_block data b t b' t' sent received)
  then obtain xs where xs: "pipe_inv xs (b, t)" "sent = received @ xs" by auto
  then show ?case using pipe_write_spec [OF xs(1), of data] ps_write_block.hyps by (auto split: if_splits)
next
  case (ps_close_read b t b' t' sent received)
  then show ?case using pipe_close_inv(1) by fastforce
next
  case (ps_close_write b t b' t' sent received)
  then show ?case using pipe_close_inv(2) by fastforce
next
  case (ps_others b t t' sent received)
  then show ?case using channel_waits_others by (fastforce simp: pipe_inv_def)
qed

text \<open>
  C21: a pipe delivers every byte it accepts exactly once and in order, and no process waits in vain.
  After any sequence of reads, writes, closes and other activity, the bytes accepted are the bytes
  delivered followed by those in the buffer; a process waits to read only while the pipe is empty
  and its write end open, and waits to write only while it is full and its read end open.
\<close>

theorem pipe_delivers:
  assumes "pipe_step\<^sup>*\<^sup>* (pipebuffer_new fq eq, t0, [], []) (b, t, sent, received)" and "fq \<noteq> eq"
    and "calm t0" and "\<forall>p. \<not> waits_on t0 p fq \<and> \<not> waits_on t0 p eq"
  shows "\<exists>xs. sent = received @ xs \<and> length xs \<le> gBufferSize \<and> pb_free b = gBufferSize - length xs
    \<and> (\<forall>p. waits_on t p (pb_emptyWQ b) \<longrightarrow> xs = [] \<and> pb_writeOpen b)
    \<and> (\<forall>p. waits_on t p (pb_fullWQ b) \<longrightarrow> length xs = gBufferSize \<and> pb_readOpen b)"
proof -
  have "pipe_stream_inv (b, t, sent, received)"
    using assms(1)
  proof (induction rule: rtranclp_induct)
    case base
    have "pipe_inv [] (pipebuffer_new fq eq, t0)"
      using assms(2-4) pipe_rep_new [of fq eq] by (simp add: pipe_inv_def channel_waits_def pipebuffer_new_def)
    then show ?case by simp
  qed (use pipe_step_inv in blast)
  then obtain xs where xs: "pipe_inv xs (b, t)" "sent = received @ xs" by auto
  then have "pb_free b = gBufferSize - length xs" "length xs \<le> gBufferSize" by (auto simp: pipe_inv_def pipe_rep_def)
  then show ?thesis using xs by (auto simp: pipe_inv_def channel_waits_def intro!: exI [of _ xs])
qed

lemma example_calm: "calm example_tasks"
  using example_run_inv by (simp add: run_inv_def calm_def)

lemma example_nobody_waits: "\<not> waits_on example_tasks p wq"
  by (simp add: waits_on_def example_state)

theorem pipe_delivers_witness:
  "\<exists>b t. pipe_step\<^sup>*\<^sup>* (pipebuffer_new 0x50 0x60, example_tasks, [], []) (b, t, [1, 2], [1]) \<and> pb_free b = gBufferSize - 1"
proof -
  have ne: "(0x50 :: u32) \<noteq> 0x60" by simp
  let ?b0 = "pipebuffer_new 0x50 0x60"
  have i0: "pipe_inv [] (?b0, example_tasks)"
    using pipe_rep_new [of "0x50" "0x60"] example_calm example_nobody_waits
    by (simp add: pipe_inv_def channel_waits_def pipebuffer_new_def)
  have free: "pb_free ?b0 = gBufferSize" "gBufferSize = 4096" by (simp_all add: pipebuffer_new_def gBufferSize_def)
  obtain b1 t1 where w: "pipe_write [1, 2] (?b0, example_tasks) = Inr (Returns 2, b1, t1)" "pipe_inv [1, 2] (b1, t1)"
    using pipe_write_spec [OF i0, of "[1, 2]"] free by auto
  obtain b2 t2 where r: "pipe_read 1 (b1, t1) = Inr (Returns [1], b2, t2)"
    using pipe_read_spec [OF w(2), of 1] by auto
  have "pipe_step (?b0, example_tasks, [], []) (b1, t1, [1, 2], [])" using ps_write [OF w(1), of "[]" "[]"] free by simp
  moreover have "pipe_step (b1, t1, [1, 2], []) (b2, t2, [1, 2], [1])" using ps_read [OF r, of "[1, 2]" "[]"] by simp
  ultimately have steps: "pipe_step\<^sup>*\<^sup>* (?b0, example_tasks, [], []) (b2, t2, [1, 2], [1])" by (meson converse_rtranclp_into_rtranclp rtranclp.rtrancl_refl)
  then show ?thesis using pipe_delivers [OF steps ne example_calm] example_nobody_waits by auto
qed

section \<open>A buffer lives as long as one of its files\<close>

definition pipe_good :: "(pipefile, pipes) fs \<Rightarrow> bool" where
  "pipe_good F \<longleftrightarrow>
     (\<forall>f ob. fs_objs F f = Some ob \<longrightarrow> o_kind ob = K_pipe \<and> pf_buffer (o_data ob) \<noteq> 0
        \<and> (\<exists>b. pm_bufs (fs_priv F) (pf_buffer (o_data ob)) = Some b \<and> (if pf_isRead (o_data ob) then pb_readOpen b else pb_writeOpen b)))
     \<and> (\<forall>f g ob ob'. fs_objs F f = Some ob \<longrightarrow> fs_objs F g = Some ob' \<longrightarrow> o_data ob = o_data ob' \<longrightarrow> f = g)"

lemma pipe_goodD:
  assumes "pipe_good F" and "fs_objs F f = Some ob"
  shows "o_kind ob = K_pipe" "pf_buffer (o_data ob) \<noteq> 0"
    and "\<exists>b. pm_bufs (fs_priv F) (pf_buffer (o_data ob)) = Some b \<and> (if pf_isRead (o_data ob) then pb_readOpen b else pb_writeOpen b)"
  using assms unfolding pipe_good_def by blast+

text \<open>Closing one end leaves the buffer to the file at the other end, if there is one.\<close>

lemma pipe_doClose_good:
  assumes g: "pipe_good F" and ob: "fs_objs F f = Some ob" and "f \<noteq> 0"
  shows "\<exists>F'. pipe_doClose f F = Inr F' \<and> pipe_good F' \<and> fs_objs F' = (fs_objs F)(f := None) \<and> fs_openObjects F' = fs_openObjects F"
proof -
  define p where "p = pf_buffer (o_data ob)"
  obtain b where b: "pm_bufs (fs_priv F) p = Some b" "if pf_isRead (o_data ob) then pb_readOpen b else pb_writeOpen b"
    using pipe_goodD(3) [OF g ob] by (auto simp: p_def)
  define bt where "bt = (if pf_isRead (o_data ob) then closeReadFile (b, pm_tasks (fs_priv F)) else closeWriteFile (b, pm_tasks (fs_priv F)))"
  define s where "s = (if isReadFileOpen (fst bt) = False \<and> isWriteFileOpen (fst bt) = False
    then (put_buffer p bt (fs_priv F))\<lparr>pm_bufs := (pm_bufs (put_buffer p bt (fs_priv F)))(p := None)\<rparr> else put_buffer p bt (fs_priv F))"
  define F' where "F' = delete_object f (F\<lparr>fs_priv := s\<rparr>)"
  have c: "pipe_doClose f F = Inr F'"
    using assms(3) ob pipe_goodD [OF g ob] b(1)
    by (cases "pf_isRead (o_data ob)") (simp_all add: pipe_doClose_def object_at_def buffer_at_def p_def [symmetric] bt_def s_def F'_def Let_def)
  have alive: "\<exists>b'. pm_bufs s (pf_buffer (o_data ob')) = Some b' \<and> (if pf_isRead (o_data ob') then pb_readOpen b' else pb_writeOpen b')"
    if ob': "fs_objs F h = Some ob'" "h \<noteq> f" for h ob'
  proof (cases "pf_buffer (o_data ob') = p")
    case True
    have "o_data ob' \<noteq> o_data ob" using g ob ob' unfolding pipe_good_def by blast
    then have opp: "pf_isRead (o_data ob') \<noteq> pf_isRead (o_data ob)" using True pipefile.equality by (fastforce simp: p_def)
    obtain b' where "pm_bufs (fs_priv F) p = Some b'" "if pf_isRead (o_data ob') then pb_readOpen b' else pb_writeOpen b'"
      using pipe_goodD(3) [OF g ob'(1)] True by auto
    then have "if pf_isRead (o_data ob') then pb_readOpen (fst bt) else pb_writeOpen (fst bt)"
      using opp b(1) by (auto simp: bt_def closeReadFile_def closeWriteFile_def)
    then show ?thesis using True by (cases bt) (auto simp: s_def put_buffer_def isReadFileOpen_def isWriteFileOpen_def)
  next
    case False
    then have "pm_bufs s (pf_buffer (o_data ob')) = pm_bufs (fs_priv F) (pf_buffer (o_data ob'))"
      by (cases bt) (simp add: s_def put_buffer_def)
    then show ?thesis using pipe_goodD(3) [OF g ob'(1)] by simp
  qed
  have "fs_objs F' = (fs_objs F)(f := None)" "fs_priv F' = s" "fs_openObjects F' = fs_openObjects F" by (simp_all add: F'_def)
  then have "pipe_good F'" using g alive unfolding pipe_good_def by (auto split: if_splits)
  then show ?thesis using c \<open>fs_objs F' = (fs_objs F)(f := None)\<close> \<open>fs_openObjects F' = fs_openObjects F\<close> by auto
qed

interpretation pipe_files: fs_provider pipe_good pipe_doOpen pipe_doOpendir pipe_doClose
proof
  fix F F' :: "(pipefile, pipes) fs" and path :: string and mode f ob r
  assume g: "pipe_good F"
  show "pipe_doOpen path mode F = Inr (f, F') \<Longrightarrow> pipe_good F' \<and> adds_object F f F'"
    "pipe_doOpendir path F = Inr (f, F') \<Longrightarrow> pipe_good F' \<and> adds_object F f F'"
    using g by (auto simp: pipe_doOpen_def pipe_doOpendir_def adds_object_def)
  show "fs_objs F f = Some ob \<Longrightarrow> f \<noteq> 0 \<Longrightarrow> \<exists>F'. pipe_doClose f F = Inr F' \<and> pipe_good F' \<and> counts F' = (counts F)(f := None) \<and> fs_openObjects F' = fs_openObjects F"
    using pipe_doClose_good [OF g, of f ob] by (auto simp: counts_def fun_eq_iff)
  show "fs_objs F f = Some ob \<Longrightarrow> pipe_good (put_object f (ob\<lparr>o_refcount := r\<rparr>) F)"
    using g unfolding pipe_good_def by (auto split: if_splits)
next
  fix F :: "(pipefile, pipes) fs" and n
  show "pipe_good (F\<lparr>fs_openObjects := n\<rparr>) = pipe_good F" by (simp add: pipe_good_def)
qed

end
