(* ===== verification/Msg_Queue.thy ===== *)
theory Msg_Queue
  imports Named_Objects Blocking Fifo
begin

text \<open>
  Message queues (\<open>src/kernel/include/synch/msgqueue.h\<close>, \<open>src/kernel/src/synch/msgueue.cpp\<close>): a ring
  of messages per name, files that read or write it, and the filesystem that creates a queue with its
  first file and deletes it with its last. The messages are kept in a list; the kernel region that
  holds them is not part of the state. Blocking operations are split at the point where they give up
  the processor.
\<close>

section \<open>Queues\<close>

record message_t =
  msg_sender :: u16
  msg_timestamp :: u64
  msg_size :: u32
  msg_payload :: "u8 list"

definition gTotalSize :: u32 where
  "gTotalSize = 4096"

definition gBodySize :: u32 where
  "gBodySize = gTotalSize - 16"

record MessageQueueBuffer =
  mq_name :: string
  mq_buffer :: "message_t list"
  mq_read :: nat
  mq_write :: nat
  mq_total :: nat
  mq_free :: nat
  mq_readers :: u32
  mq_writers :: u32
  mq_fullWQ :: u32
  mq_emptyWQ :: u32

definition mq_new :: "message_t \<Rightarrow> string \<Rightarrow> nat \<Rightarrow> u32 \<Rightarrow> u32 \<Rightarrow> MessageQueueBuffer" where
  "mq_new junk name numMessages fullq emptyq = \<lparr>mq_name = name, mq_buffer = replicate numMessages junk,
     mq_read = 0, mq_write = 0, mq_total = numMessages, mq_free = numMessages, mq_readers = 0, mq_writers = 0,
     mq_fullWQ = fullq, mq_emptyWQ = emptyq\<rparr>"

definition openWriter :: "MessageQueueBuffer \<Rightarrow> MessageQueueBuffer" where
  "openWriter b = b\<lparr>mq_writers := mq_writers b + 1\<rparr>"

definition openReader :: "MessageQueueBuffer \<Rightarrow> MessageQueueBuffer" where
  "openReader b = b\<lparr>mq_readers := mq_readers b + 1\<rparr>"

definition closeWriter :: "MessageQueueBuffer \<Rightarrow> MessageQueueBuffer" where
  "closeWriter b = (if mq_writers b > 0 then b\<lparr>mq_writers := mq_writers b - 1\<rparr> else b)"

definition closeReader :: "MessageQueueBuffer \<Rightarrow> MessageQueueBuffer" where
  "closeReader b = (if mq_readers b > 0 then b\<lparr>mq_readers := mq_readers b - 1\<rparr> else b)"

definition tryWrite :: "message_t \<Rightarrow> MessageQueueBuffer \<Rightarrow> (bool \<times> MessageQueueBuffer) kernel" where
  "tryWrite msg b =
     (if mq_free b = 0 then Inr (False, b)
      else if mq_write b \<ge> length (mq_buffer b) then Inl OutOfBounds
      else
        let b = b\<lparr>mq_buffer := (mq_buffer b)[mq_write b := msg], mq_write := mq_write b + 1\<rparr>;
            b = (if mq_write b = mq_total b then b\<lparr>mq_write := 0\<rparr> else b) in
        Inr (True, b\<lparr>mq_free := mq_free b - 1\<rparr>))"

definition tryRead :: "MessageQueueBuffer \<Rightarrow> (message_t option \<times> MessageQueueBuffer) kernel" where
  "tryRead b =
     (if mq_free b = mq_total b then Inr (None, b)
      else if mq_read b \<ge> length (mq_buffer b) then Inl OutOfBounds
      else
        let msg = mq_buffer b ! mq_read b;
            b = b\<lparr>mq_read := mq_read b + 1\<rparr>;
            b = (if mq_read b = mq_total b then b\<lparr>mq_read := 0\<rparr> else b) in
        Inr (Some msg, b\<lparr>mq_free := mq_free b + 1\<rparr>))"

text \<open>\<open>read\<close> returns the message it copies out, or none for a return value of zero.\<close>

definition mq_doread :: "u32 \<Rightarrow> bool \<Rightarrow> MessageQueueBuffer \<times> tasks \<Rightarrow> (message_t option outcome \<times> MessageQueueBuffer \<times> tasks) kernel" where
  "mq_doread n allowBlock = (\<lambda>(b, t).
     if n \<noteq> gTotalSize then Inr (Returns None, b, t)
     else if mq_free b = mq_total b \<and> mq_writers b \<noteq> 0 then
       if allowBlock then kbind (wq_yield (mq_emptyWQ b) (current t) 0 t) (\<lambda>t. Inr (Blocks, b, t))
       else Inr (Returns None, b, t)
     else
       kbind (tryRead b) (\<lambda>(m, b).
       case m of
         Some msg \<Rightarrow> Inr (Returns (Some msg), b, wq_wakeall (mq_fullWQ b) t)
       | None \<Rightarrow> Inr (Returns None, b, t)))"

text \<open>
  \<open>write\<close> builds the message on its stack first: the bytes of the payload after the given ones are
  what the stack held, \<open>stack\<close>. The waiting loop then uses the finished message.
\<close>

definition mq_message :: "u8 list \<Rightarrow> u8 list \<Rightarrow> u64 \<Rightarrow> tasks \<Rightarrow> message_t" where
  "mq_message stack src now t = \<lparr>msg_sender = pid_of t (current t), msg_timestamp = now,
     msg_size = of_nat (length src), msg_payload = src @ drop (length src) (take (unat gBodySize) stack)\<rparr>"

definition mq_write_turn :: "message_t \<Rightarrow> nat \<Rightarrow> bool \<Rightarrow> MessageQueueBuffer \<times> tasks \<Rightarrow> (nat outcome \<times> MessageQueueBuffer \<times> tasks) kernel" where
  "mq_write_turn msg n allowBlock = (\<lambda>(b, t).
     if 0 = mq_free b then
       if allowBlock then kbind (wq_yield (mq_fullWQ b) (current t) 0 t) (\<lambda>t. Inr (Blocks, b, t))
       else Inr (Returns 0, b, t)
     else
       kbind (tryWrite msg b) (\<lambda>(ok, b).
       if ok then Inr (Returns n, b, wq_wakeall (mq_emptyWQ b) t) else Inr (Returns 0, b, t)))"

definition mq_dowrite ::
  "u8 list \<Rightarrow> u64 \<Rightarrow> u8 list \<Rightarrow> bool \<Rightarrow> MessageQueueBuffer \<times> tasks \<Rightarrow> (nat outcome \<times> MessageQueueBuffer \<times> tasks) kernel" where
  "mq_dowrite stack now src allowBlock = (\<lambda>(b, t).
     if length src > unat gBodySize then Inr (Returns 0, b, t)
     else mq_write_turn (mq_message stack src now t) (length src) allowBlock (b, t))"

section \<open>Files and filesystem\<close>

record mqfile =
  mqf_buffer :: nat
  mqf_reader :: bool
  mqf_block :: bool

type_synonym mqfs = "(mqfile, MessageQueueBuffer kstore) fs"

definition put_mq :: "nat \<Rightarrow> MessageQueueBuffer \<Rightarrow> mqfs \<Rightarrow> mqfs" where
  "put_mq p b F = F\<lparr>fs_priv := (fs_priv F)\<lparr>ks_things := (ks_things (fs_priv F))(p \<mapsto> b)\<rparr>\<rparr>"

definition mqreadfile_read :: "nat \<Rightarrow> u32 \<Rightarrow> mqfs \<times> tasks \<Rightarrow> (message_t option outcome \<times> mqfs \<times> tasks) kernel" where
  "mqreadfile_read f n = (\<lambda>(F, t).
     kbind (object_at F f) (\<lambda>ob.
     if \<not> mqf_reader (o_data ob) then Inr (Returns None, F, t)
     else
       kbind (thing_at (fs_priv F) (mqf_buffer (o_data ob))) (\<lambda>b.
       kbind (mq_doread n (mqf_block (o_data ob)) (b, t)) (\<lambda>(r, b, t).
       Inr (r, put_mq (mqf_buffer (o_data ob)) b F, t)))))"

definition mqwritefile_write :: "u8 list \<Rightarrow> u64 \<Rightarrow> nat \<Rightarrow> u8 list \<Rightarrow> mqfs \<times> tasks \<Rightarrow> (nat outcome \<times> mqfs \<times> tasks) kernel" where
  "mqwritefile_write stack now f src = (\<lambda>(F, t).
     kbind (object_at F f) (\<lambda>ob.
     if mqf_reader (o_data ob) then Inr (Returns 0, F, t)
     else
       kbind (thing_at (fs_priv F) (mqf_buffer (o_data ob))) (\<lambda>b.
       kbind (mq_dowrite stack now src (mqf_block (o_data ob)) (b, t)) (\<lambda>(r, b, t).
       Inr (r, put_mq (mqf_buffer (o_data ob)) b F, t)))))"

definition mqfile_ioctl :: "nat \<Rightarrow> u32 \<Rightarrow> u32 \<Rightarrow> mqfs \<Rightarrow> (u32 \<times> mqfs) kernel" where
  "mqfile_ioctl f a b F =
     kbind (object_at F f) (\<lambda>ob.
     let file = o_data ob in
     if a = (if mqf_reader file then 2 else 3) then Inr (1, put_object f (ob\<lparr>o_data := file\<lparr>mqf_block := (b \<noteq> 0)\<rparr>\<rparr>) F)
     else if a = 1 then kbind (thing_at (fs_priv F) (mqf_buffer file)) (\<lambda>q. Inr (of_nat (mq_total q), F))
     else Inr (0, F))"

text \<open>A queue has room for 256 messages; its wait queues are named after its address \<open>a\<close>.\<close>

definition mq_make :: "message_t \<Rightarrow> string \<Rightarrow> nat \<Rightarrow> MessageQueueBuffer" where
  "mq_make junk name a = mq_new junk name 256 (of_nat (2 * a)) (of_nat (2 * a + 1))"

definition mqfs_doOpen :: "message_t \<Rightarrow> string \<Rightarrow> u32 \<Rightarrow> mqfs \<Rightarrow> (nat \<times> mqfs) kernel" where
  "mqfs_doOpen junk name mode F =
     (if mode AND 3 = 3 then Inr (0, F)
      else if mode AND 16 = 16 then Inr (0, F)
      else
        kbind (getOrNull name (fs_priv F)) (\<lambda>(p, s).
        let (p, s) = (if p = 0 then makeOrNull (mq_make junk) name s else (p, s)); F = F\<lparr>fs_priv := s\<rparr> in
        if p = 0 then Inr (0, F)
        else if mode AND 1 \<noteq> 0 then
          kbind (thing_at s p) (\<lambda>b.
          Inr (new_object (fobject_new K_msgqueue \<lparr>mqf_buffer = p, mqf_reader = True, mqf_block = True\<rparr>) (put_mq p (openReader b) F)))
        else if mode AND 2 \<noteq> 0 then
          kbind (thing_at s p) (\<lambda>b.
          Inr (new_object (fobject_new K_msgqueue \<lparr>mqf_buffer = p, mqf_reader = False, mqf_block = True\<rparr>) (put_mq p (openWriter b) F)))
        else Inr (0, F)))"

definition mqfs_doClose :: "nat \<Rightarrow> mqfs \<Rightarrow> mqfs kernel" where
  "mqfs_doClose f F =
     kbind (object_at F f) (\<lambda>ob.
     if o_kind ob \<noteq> K_msgqueue then Inl (Panic ''MessageQueueFS cannot close anything but message queues'')
     else
       let p = mqf_buffer (o_data ob) in
       kbind (thing_at (fs_priv F) p) (\<lambda>b.
       let b = (if mqf_reader (o_data ob) then closeReader b else closeWriter b);
           F = put_mq p b F;
           nr = mq_readers b; nw = mq_writers b in
       kbind (ks_release (mq_name b) (fs_priv F)) (\<lambda>(erased, s).
       let F = F\<lparr>fs_priv := s\<rparr> in
       if nr = 0 \<and> nw = 0 \<and> erased = False then Inl (Panic ''msgqueue has no client left but memory was leaked'')
       else Inr (delete_object f F))))"

section \<open>The ring holds a list\<close>

definition mq_rep :: "MessageQueueBuffer \<Rightarrow> message_t list \<Rightarrow> bool" where
  "mq_rep b xs \<longleftrightarrow>
     length (mq_buffer b) = mq_total b \<and> mq_read b < mq_total b \<and> mq_free b + length xs = mq_total b
     \<and> mq_write b = (mq_read b + length xs) mod mq_total b \<and> ring_items (mq_buffer b) (mq_read b) (length xs) = xs"

lemma next_mod: "k < N \<Longrightarrow> (if Suc k = N then 0 else Suc k) = Suc k mod N"
  by auto

lemma tryWrite_appends:
  assumes "mq_rep b xs" and "length xs < mq_total b"
  shows "\<exists>b'. tryWrite m b = Inr (True, b') \<and> mq_rep b' (xs @ [m]) \<and> mq_total b' = mq_total b \<and> mq_writers b' = mq_writers b
    \<and> mq_emptyWQ b' = mq_emptyWQ b \<and> mq_fullWQ b' = mq_fullWQ b \<and> mq_name b' = mq_name b \<and> mq_readers b' = mq_readers b"
proof -
  have *: "length (mq_buffer b) = mq_total b" "mq_read b < mq_total b" "mq_free b + length xs = mq_total b"
    "mq_write b = (mq_read b + length xs) mod mq_total b" "ring_items (mq_buffer b) (mq_read b) (length xs) = xs"
    using assms(1) by (simp_all add: mq_rep_def)
  have w: "mq_write b < mq_total b" using *(2,4) by simp
  have r: "ring_items ((mq_buffer b)[mq_write b := m]) (mq_read b) (Suc (length xs)) = xs @ [m]"
    using ring_items_append [of "length xs" "mq_buffer b" "mq_read b" m] * assms(2) by simp
  have n: "Suc (mq_write b) mod mq_total b = Suc (mq_read b + length xs) mod mq_total b" using *(4) by (simp add: mod_Suc_eq)
  define b' where "b' = b\<lparr>mq_buffer := (mq_buffer b)[mq_write b := m],
    mq_write := if Suc (mq_write b) = mq_total b then 0 else Suc (mq_write b), mq_free := mq_free b - 1\<rparr>"
  have "tryWrite m b = Inr (True, b')" using *(1,3) assms(2) w by (auto simp: tryWrite_def Let_def b'_def)
  moreover have "mq_rep b' (xs @ [m])"
    using *(1,2,3) r n w assms(2) next_mod [OF w] by (simp add: mq_rep_def b'_def)
  ultimately show ?thesis by (simp add: b'_def)
qed

lemma tryRead_first:
  assumes "mq_rep b (x # xs)"
  shows "\<exists>b'. tryRead b = Inr (Some x, b') \<and> mq_rep b' xs \<and> mq_total b' = mq_total b \<and> mq_writers b' = mq_writers b
    \<and> mq_emptyWQ b' = mq_emptyWQ b \<and> mq_fullWQ b' = mq_fullWQ b \<and> mq_name b' = mq_name b \<and> mq_readers b' = mq_readers b"
proof -
  have *: "length (mq_buffer b) = mq_total b" "mq_read b < mq_total b" "mq_free b + Suc (length xs) = mq_total b"
    "mq_write b = (mq_read b + Suc (length xs)) mod mq_total b" "ring_items (mq_buffer b) (mq_read b) (Suc (length xs)) = x # xs"
    using assms by (simp_all add: mq_rep_def)
  have x: "mq_buffer b ! mq_read b = x" "ring_items (mq_buffer b) (Suc (mq_read b)) (length xs) = xs"
    using *(1,2) *(5) [unfolded ring_items_Suc_first] by auto
  have r: "ring_items (mq_buffer b) (Suc (mq_read b) mod mq_total b) (length xs) = xs"
    using ring_items_mod [of "mq_buffer b" "Suc (mq_read b)"] *(1) x(2) by simp
  have m: "(Suc (mq_read b) mod mq_total b + length xs) mod mq_total b = mq_write b" using *(4) by (simp add: mod_add_left_eq)
  define b' where "b' = b\<lparr>mq_read := if Suc (mq_read b) = mq_total b then 0 else Suc (mq_read b), mq_free := mq_free b + 1\<rparr>"
  have "tryRead b = Inr (Some x, b')" using *(1-3) x(1) by (auto simp: tryRead_def Let_def b'_def)
  moreover have "mq_rep b' xs"
    using *(1,2,3) r m next_mod [OF *(2)] by (simp add: mq_rep_def b'_def)
  ultimately show ?thesis by (simp add: b'_def)
qed

interpretation mq_items: fifo "\<lambda>b xs. mq_rep b xs \<and> mq_total b = N" "\<lambda>b. mq_free b = mq_total b"
    "\<lambda>m b. kbind (tryWrite m b) (\<lambda>(ok, b). if ok then Inr b else Inl OutOfBounds)"
    "\<lambda>b. kbind (tryRead b) (\<lambda>(m, b). case m of None \<Rightarrow> Inl OutOfBounds | Some m \<Rightarrow> Inr (m, b))" N for N
proof
  fix b and xs :: "message_t list" and x
  show "mq_rep b xs \<and> mq_total b = N \<Longrightarrow> (mq_free b = mq_total b) = (xs = [])" by (auto simp: mq_rep_def)
  show "mq_rep b xs \<and> mq_total b = N \<Longrightarrow> length xs < N \<Longrightarrow>
    \<exists>q'. kbind (tryWrite x b) (\<lambda>(ok, b). if ok then Inr b else Inl OutOfBounds) = Inr q' \<and> mq_rep q' (xs @ [x]) \<and> mq_total q' = N"
    using tryWrite_appends [of b xs x] by auto
  show "mq_rep b (x # xs) \<and> mq_total b = N \<Longrightarrow>
    \<exists>q'. kbind (tryRead b) (\<lambda>(m, b). case m of None \<Rightarrow> Inl OutOfBounds | Some m \<Rightarrow> Inr (m, b)) = Inr (x, q') \<and> mq_rep q' xs \<and> mq_total q' = N"
    using tryRead_first [of b x xs] by auto
qed

text \<open>
  What a reader gets: the message as the writer's stack had it, beyond the bytes that were written.
\<close>

lemma mq_write_then_read:
  assumes "mq_rep b []" and "0 < mq_total b" and "length src \<le> unat gBodySize" and "length stack = unat gBodySize" and "mq_writers b \<noteq> 0"
  shows "\<exists>b' t' b'' t''. mq_dowrite stack now src blk (b, t) = Inr (Returns (length src), b', t')
    \<and> mq_doread gTotalSize blk' (b', t') = Inr (Returns (Some (mq_message stack src now t)), b'', t'')
    \<and> drop (length src) (msg_payload (mq_message stack src now t)) = drop (length src) stack"
proof -
  define m where "m = mq_message stack src now t"
  obtain b' where b': "tryWrite m b = Inr (True, b')" "mq_rep b' [m]" "mq_writers b' = mq_writers b"
    using tryWrite_appends [OF assms(1), of m] assms(2) by auto
  have ne: "mq_free b \<noteq> 0" "mq_free b' \<noteq> mq_total b'" using assms(1,2) b'(2) by (auto simp: mq_rep_def)
  obtain b'' where b'': "tryRead b' = Inr (Some m, b'')" using tryRead_first [OF b'(2)] by auto
  define t' where "t' = wq_wakeall (mq_emptyWQ b') t"
  have "mq_dowrite stack now src blk (b, t) = Inr (Returns (length src), b', t')"
    using assms(3) ne b'(1) by (simp add: mq_dowrite_def mq_write_turn_def m_def [symmetric] t'_def)
  moreover have "mq_doread gTotalSize blk' (b', t') = Inr (Returns (Some m), b'', wq_wakeall (mq_fullWQ b'') t')"
    using ne b'' by (simp add: mq_doread_def)
  moreover have "drop (length src) (msg_payload m) = drop (length src) stack"
    using assms(4) by (simp add: m_def mq_message_def)
  ultimately show ?thesis by (auto simp: m_def)
qed

text \<open>
  Closing the last writer wakes nobody: a process that waits for messages goes on waiting, while a
  process that reads now returns at once.
\<close>

lemma closeWriter_strands_readers:
  assumes "mq_rep b []" and "waits_on t p (mq_emptyWQ b)" and "mq_writers b = 1"
  shows "waits_on t p (mq_emptyWQ (closeWriter b)) \<and> mq_doread gTotalSize blk (closeWriter b, t) = Inr (Returns None, closeWriter b, t)"
proof -
  have "mq_free b = mq_total b" using assms(1) by (simp add: mq_rep_def)
  then show ?thesis using assms(2,3) by (simp add: closeWriter_def mq_doread_def tryRead_def)
qed

section \<open>Readers, writers and users of a queue\<close>

definition clients :: "bool \<Rightarrow> (nat \<Rightarrow> mqfile fobject option) \<Rightarrow> nat \<Rightarrow> nat set" where
  "clients reader objs p = {f. \<exists>ob. objs f = Some ob \<and> mqf_buffer (o_data ob) = p \<and> mqf_reader (o_data ob) = reader}"

definition mq_counts :: "(nat \<Rightarrow> mqfile fobject option) \<Rightarrow> nat \<Rightarrow> MessageQueueBuffer \<Rightarrow> bool" where
  "mq_counts objs p b \<longleftrightarrow> unat (mq_readers b) = card (clients True objs p) \<and> unat (mq_writers b) = card (clients False objs p)"

definition mq_good :: "mqfs \<Rightarrow> bool" where
  "mq_good F \<longleftrightarrow> ks_inv mq_name (fs_priv F)
     \<and> linked mqf_buffer (ks_obj (fs_priv F)) (ks_users (fs_priv F)) (fs_objs F)
     \<and> 0 < fs_fresh F \<and> (\<forall>f ob. fs_objs F f = Some ob \<longrightarrow> o_kind ob = K_msgqueue \<and> 0 < f \<and> f < fs_fresh F)
     \<and> (\<forall>k p b. ks_obj (fs_priv F) k = Some p \<longrightarrow> ks_things (fs_priv F) p = Some b \<longrightarrow> mq_counts (fs_objs F) p b)"

lemma clients_files: "clients True objs p \<union> clients False objs p = files_at mqf_buffer objs p"
  by (auto simp: clients_def files_at_def)

lemma clients_card:
  assumes "finite (dom objs)"
  shows "card (files_at mqf_buffer objs p) = card (clients True objs p) + card (clients False objs p)"
    and "finite (clients r objs p)"
proof -
  have f: "finite (clients r objs p)" for r by (rule finite_subset [OF _ assms]) (auto simp: clients_def)
  have "clients True objs p \<inter> clients False objs p = {}" by (auto simp: clients_def)
  then show "card (files_at mqf_buffer objs p) = card (clients True objs p) + card (clients False objs p)"
    using card_Un_disjoint [OF f f] clients_files [of objs p] by metis
  show "finite (clients r objs p)" by (rule f)
qed

lemma clients_add:
  assumes "objs f = None"
  shows "clients r (objs(f \<mapsto> ob)) p =
    (if mqf_buffer (o_data ob) = p \<and> mqf_reader (o_data ob) = r then insert f (clients r objs p) else clients r objs p)"
  using assms by (auto simp: clients_def)

lemma clients_remove: "clients r (objs(f := None)) p = clients r objs p - {f}"
  by (auto simp: clients_def)

lemma makeOrNull_things:
  assumes "ks_inv nm s" and "ks_obj s k = None" and "makeOrNull mk k s = (p, s')"
  shows "p = ks_fresh s \<and> ks_things s' = (ks_things s)(p \<mapsto> mk k p)"
  using assms ks_obj_None [OF assms(1)] by (auto simp: makeOrNull_def Let_def)

lemma getOrNull_things: "getOrNull k s = Inr (p, s') \<Longrightarrow> ks_things s' = ks_things s"
  by (auto simp: getOrNull_def kbind_eq_Inr_iff split: option.splits)

lemma ks_release_things:
  assumes "ks_obj s k = Some p" and "ks_release k s = Inr (e, s')"
  shows "ks_things s' = (if e then (ks_things s)(p := None) else ks_things s)"
  using assms by (auto simp: ks_release_def ks_obj_def val_at_def Let_def split: option.splits if_splits)

text \<open>Acquiring the queue of a name: the old one, or a new one without clients.\<close>

lemma mq_acquire:
  assumes g: "mq_good F" and few: "few F"
  shows "\<exists>p s' b. kbind (getOrNull name (fs_priv F)) (\<lambda>(p, s). Inr (if p = 0 then makeOrNull (mq_make junk) name s else (p, s))) = Inr (p, s')
    \<and> p \<noteq> 0 \<and> ks_inv mq_name s' \<and> ks_obj s' = (ks_obj (fs_priv F))(name \<mapsto> p)
    \<and> (ks_obj (fs_priv F) name = None \<or> ks_obj (fs_priv F) name = Some p)
    \<and> ks_users s' = (ks_users (fs_priv F))(name := ks_users (fs_priv F) name + 1)
    \<and> ks_things s' p = Some b \<and> mq_counts (fs_objs F) p b
    \<and> (\<forall>k q. ks_obj (fs_priv F) k = Some q \<longrightarrow> q \<noteq> p \<longrightarrow> ks_things s' q = ks_things (fs_priv F) q)"
proof -
  define s where "s = fs_priv F"
  have os: "object_store (ks_inv mq_name) ks_obj ks_users (\<lambda>s p. map_option mq_name (ks_things s p)) getOrNull (makeOrNull (mq_make junk)) ks_release"
    by (rule kstore_object_store) (simp add: mq_make_def mq_new_def)
  have i: "ks_inv mq_name s" and l: "linked mqf_buffer (ks_obj s) (ks_users s) (fs_objs F)"
    using g by (simp_all add: mq_good_def s_def)
  have "card (dom (fs_objs F)) + 1 < 2 ^ 32" using few by (simp add: few_def)
  from object_store.acquire [OF os i l this, of name]
  obtain p s' where a: "kbind (getOrNull name s) (\<lambda>(p, s). if p = 0 then Inr (makeOrNull (mq_make junk) name s) else Inr (p, s)) = Inr (p, s')"
    "p \<noteq> 0" "ks_inv mq_name s'" "ks_obj s' = (ks_obj s)(name \<mapsto> p)" "ks_obj s name = None \<or> ks_obj s name = Some p"
    "ks_users s' = (ks_users s)(name := ks_users s name + 1)" by blast
  obtain b where b: "ks_things s' p = Some b" using ks_obj_Some [OF a(3), of name p] a(4) by (metis fun_upd_same)
  have "mq_counts (fs_objs F) p b \<and> (\<forall>k q. ks_obj s k = Some q \<longrightarrow> q \<noteq> p \<longrightarrow> ks_things s' q = ks_things s q)"
  proof (cases "ks_obj s name")
    case None
    then have m: "makeOrNull (mq_make junk) name s = (p, s')" using a(1) getOrNull_none [OF i None] by simp
    have "clients r (fs_objs F) p = {}" for r
    proof (rule equals0I)
      fix f assume "f \<in> clients r (fs_objs F) p"
      then obtain k where k: "ks_obj s k = Some p" using linkedD [OF l] by (fastforce simp: clients_def)
      then have "k \<noteq> name" using None by auto
      then show False using object_store.obj_inj [OF os a(3), of k p name] a(4) k by simp
    qed
    then show ?thesis using makeOrNull_things [OF i None m] b by (auto simp: mq_counts_def mq_make_def mq_new_def)
  next
    case (Some q)
    then have q: "ks_obj s name = Some p" using a(5) by simp
    then have "getOrNull name s = Inr (p, s')"
      using a(1,2) by (auto simp: kbind_eq_Inr_iff getOrNull_def ks_obj_def val_at_def split: if_splits option.splits)
    then have "ks_things s' = ks_things s" by (rule getOrNull_things)
    then show ?thesis using g q b by (simp add: mq_good_def s_def)
  qed
  moreover have "kbind (getOrNull name s) (\<lambda>(p, s). Inr (if p = 0 then makeOrNull (mq_make junk) name s else (p, s))) = Inr (p, s')"
    using a(1) by (simp add: if_distrib [of Inr])
  ultimately show ?thesis using a b unfolding s_def by blast
qed

text \<open>Opening a queue for reading or writing keeps the counts exact.\<close>

lemma mq_add_file:
  assumes g: "mq_good F" and few: "few F" and p: "p \<noteq> 0" "ks_inv mq_name s'" "ks_obj s' = (ks_obj (fs_priv F))(name \<mapsto> p)"
    "ks_obj (fs_priv F) name = None \<or> ks_obj (fs_priv F) name = Some p"
    "ks_users s' = (ks_users (fs_priv F))(name := ks_users (fs_priv F) name + 1)"
    and b: "ks_things s' p = Some b" "mq_counts (fs_objs F) p b"
    and frame: "\<And>k q. ks_obj (fs_priv F) k = Some q \<Longrightarrow> q \<noteq> p \<Longrightarrow> ks_things s' q = ks_things (fs_priv F) q"
    and F': "F' = snd (new_object (fobject_new K_msgqueue \<lparr>mqf_buffer = p, mqf_reader = r, mqf_block = True\<rparr>)
               (put_mq p (if r then openReader b else openWriter b) (F\<lparr>fs_priv := s'\<rparr>)))"
  shows "mq_good F' \<and> adds_object F (fs_fresh F) F'"
proof -
  define b' where "b' = (if r then openReader b else openWriter b)"
  define ob where "ob = fobject_new K_msgqueue \<lparr>mqf_buffer = p, mqf_reader = r, mqf_block = True\<rparr>"
  have os: "object_store (ks_inv mq_name) ks_obj ks_users (\<lambda>s p. map_option mq_name (ks_things s p)) getOrNull (makeOrNull (mq_make undefined)) ks_release"
    by (rule kstore_object_store) (simp add: mq_make_def mq_new_def)
  have i: "ks_inv mq_name (fs_priv F)" and l: "linked mqf_buffer (ks_obj (fs_priv F)) (ks_users (fs_priv F)) (fs_objs F)"
    and n: "fs_objs F (fs_fresh F) = None" "0 < fs_fresh F" using g by (auto simp: mq_good_def intro: ccontr)
  have objs: "fs_objs F' = (fs_objs F)(fs_fresh F \<mapsto> ob)" and priv: "fs_priv F' = s'\<lparr>ks_things := (ks_things s')(p \<mapsto> b')\<rparr>"
    and fr: "fs_fresh F' = fs_fresh F + 1" "fs_openObjects F' = fs_openObjects F"
    by (simp_all add: F' new_object_def put_mq_def put_object_def b'_def ob_def)
  have data: "mqf_buffer (o_data ob) = p" "mqf_reader (o_data ob) = r" by (simp_all add: ob_def fobject_new_def)
  have nm: "mq_name b' = mq_name b" by (simp add: b'_def openReader_def openWriter_def)
  note s'' = ks_put_thing [where s = s' and nm = mq_name, OF p(2) b(1) nm]
  have lk: "linked mqf_buffer (ks_obj (fs_priv F')) (ks_users (fs_priv F')) (fs_objs F')"
    unfolding objs priv s''(2,3)
    by (rule object_store.linked_add [OF os p(2) l n(1) data(1) p(3,4,5) ks_users_0 [OF i]])
  have fin: "finite (dom (fs_objs F))" using l by (simp add: linked_def)
  have few': "card (clients r' (fs_objs F) p) + 1 < 2 ^ 32" for r'
  proof -
    have "card (clients r' (fs_objs F) p) \<le> card (dom (fs_objs F))" by (rule card_mono [OF fin]) (auto simp: clients_def)
    then show ?thesis using few by (simp add: few_def)
  qed
  have "mq_counts (fs_objs F') p b'"
  proof -
    have "fs_fresh F \<notin> clients r' (fs_objs F) p" for r' using n(1) by (simp add: clients_def)
    moreover have "unat (mq_readers b + 1) = unat (mq_readers b) + 1" "unat (mq_writers b + 1) = unat (mq_writers b) + 1"
      using few' [of True] few' [of False] b(2) by (simp_all add: mq_counts_def unat_word_ariths)
    ultimately show ?thesis using b(2) data clients_card(2) [OF fin]
      by (simp add: mq_counts_def objs clients_add [of "fs_objs F" "fs_fresh F", OF n(1)] b'_def openReader_def openWriter_def)
  qed
  moreover have "mq_counts (fs_objs F') q c" if "ks_obj s' k = Some q" "q \<noteq> p" "ks_things s' q = Some c" for k q c
  proof -
    have kq: "ks_obj (fs_priv F) k = Some q" using that p(3) by (auto split: if_splits)
    then have "mq_counts (fs_objs F) q c" using g that frame [OF kq that(2)] by (simp add: mq_good_def)
    then show ?thesis using that(2) data by (simp add: mq_counts_def objs clients_add [of "fs_objs F" "fs_fresh F", OF n(1)])
  qed
  ultimately have "\<forall>k q c. ks_obj (fs_priv F') k = Some q \<longrightarrow> ks_things (fs_priv F') q = Some c \<longrightarrow> mq_counts (fs_objs F') q c"
    by (auto simp: priv s''(2))
  moreover have "o_kind ob' = K_msgqueue \<and> 0 < f \<and> f < fs_fresh F'" if "fs_objs F' f = Some ob'" for f ob'
    using that g n(2) fr by (cases "f = fs_fresh F") (auto simp: objs mq_good_def ob_def fobject_new_def intro: less_SucI)
  ultimately have "mq_good F'" using lk s''(1) fr(1) unfolding mq_good_def priv by simp
  moreover have "adds_object F (fs_fresh F) F'"
    using n fr(2) by (auto simp: adds_object_def counts_def objs ob_def fobject_new_def)
  ultimately show ?thesis by simp
qed

lemma mq_opens:
  assumes g: "mq_good F" and few: "few F" and flags: "mode AND 3 \<noteq> 0" and o: "mqfs_doOpen junk name mode F = Inr (f, F')"
  shows "mq_good F' \<and> adds_object F f F'"
proof (cases "mode AND 3 = 3 \<or> mode AND 16 = 16")
  case True
  then have "mqfs_doOpen junk name mode F = Inr (0, F)" by (auto simp only: mqfs_doOpen_def split: if_split)
  then show ?thesis using o g by (auto simp: adds_object_def)
next
  case False
  obtain p s' b where a: "kbind (getOrNull name (fs_priv F)) (\<lambda>(p, s). Inr (if p = 0 then makeOrNull (mq_make junk) name s else (p, s))) = Inr (p, s')"
    and p: "p \<noteq> 0" "ks_inv mq_name s'" "ks_obj s' = (ks_obj (fs_priv F))(name \<mapsto> p)"
    "ks_obj (fs_priv F) name = None \<or> ks_obj (fs_priv F) name = Some p"
    "ks_users s' = (ks_users (fs_priv F))(name := ks_users (fs_priv F) name + 1)"
    and b: "ks_things s' p = Some b" "mq_counts (fs_objs F) p b"
    and frame: "\<forall>k q. ks_obj (fs_priv F) k = Some q \<longrightarrow> q \<noteq> p \<longrightarrow> ks_things s' q = ks_things (fs_priv F) q"
    using mq_acquire [OF g few, of name junk] by blast
  obtain q s1 where q: "getOrNull name (fs_priv F) = Inr (q, s1)" "(if q = 0 then makeOrNull (mq_make junk) name s1 else (q, s1)) = (p, s')"
    using a by (auto simp: kbind_eq_Inr_iff)
  define r where "r = (mode AND 1 \<noteq> 0)"
  have w: "\<not> r \<Longrightarrow> mode AND 2 \<noteq> 0"
  proof -
    assume "\<not> r"
    moreover have "mode AND 3 = (mode AND 1) OR (mode AND 2)" by (simp flip: bit.conj_disj_distrib)
    ultimately show ?thesis using flags by (auto simp: r_def)
  qed
  have th: "thing_at s' p = Inr b" using p(1) b(1) by (simp add: thing_at_def)
  define N where "N = new_object (fobject_new K_msgqueue \<lparr>mqf_buffer = p, mqf_reader = r, mqf_block = True\<rparr>)
               (put_mq p (if r then openReader b else openWriter b) (F\<lparr>fs_priv := s'\<rparr>))"
  have "mqfs_doOpen junk name mode F = Inr N"
    using False q p(1) th w by (cases r) (auto simp: mqfs_doOpen_def N_def r_def)
  then have "f = fs_fresh F" "F' = snd N" using o by (auto simp: N_def new_object_def put_mq_def)
  then show ?thesis using mq_add_file [OF g few p b, of F' r] frame by (auto simp: N_def)
qed

text \<open>Closing a file counts it out; the queue goes with its last file and never leaks.\<close>

lemma mq_counts_close:
  assumes "mq_counts objs p b" and "objs f = Some ob" and "mqf_buffer (o_data ob) = p" and fin: "finite (dom objs)"
  shows "mq_counts (objs(f := None)) p (if mqf_reader (o_data ob) then closeReader b else closeWriter b)"
proof -
  define r where "r = mqf_reader (o_data ob)"
  have f: "f \<in> clients r objs p" "f \<notin> clients (\<not> r) objs p" using assms(2,3) by (auto simp: clients_def r_def)
  then have "card (clients r objs p) > 0" using clients_card(2) [OF fin] by (auto simp: card_gt_0_iff)
  then have pos: "if r then mq_readers b > 0 else mq_writers b > 0" using assms(1) by (cases r) (auto simp: mq_counts_def word_less_nat_alt)
  then have "unat ((if r then mq_readers b else mq_writers b) - 1) = unat (if r then mq_readers b else mq_writers b) - 1"
    by (simp add: unat_minus_one word_neq_0_conv)
  then show ?thesis
    using assms(1) f pos clients_card(2) [OF fin]
    by (cases r) (auto simp: mq_counts_def clients_remove closeReader_def closeWriter_def card_Diff_singleton r_def [symmetric])
qed

lemma mq_closes:
  assumes g: "mq_good F" and ob: "fs_objs F f = Some ob" and "f \<noteq> 0"
  shows "\<exists>F'. mqfs_doClose f F = Inr F' \<and> mq_good F' \<and> fs_objs F' = (fs_objs F)(f := None) \<and> fs_openObjects F' = fs_openObjects F"
proof -
  define p where "p = mqf_buffer (o_data ob)"
  have os: "object_store (ks_inv mq_name) ks_obj ks_users (\<lambda>s p. map_option mq_name (ks_things s p)) getOrNull (makeOrNull (mq_make undefined)) ks_release"
    by (rule kstore_object_store) (simp add: mq_make_def mq_new_def)
  have i: "ks_inv mq_name (fs_priv F)" and l: "linked mqf_buffer (ks_obj (fs_priv F)) (ks_users (fs_priv F)) (fs_objs F)"
    and kd: "o_kind ob = K_msgqueue" using g ob by (auto simp: mq_good_def)
  have fin: "finite (dom (fs_objs F))" using l by (simp add: linked_def)
  obtain k where k: "ks_obj (fs_priv F) k = Some p" using linkedD [OF l ob] by (auto simp: p_def)
  obtain b where b: "ks_things (fs_priv F) p = Some b" "mq_name b = k" "0 < p" using ks_obj_Some [OF i k] by metis
  have cn: "mq_counts (fs_objs F) p b" using g k b(1) by (simp add: mq_good_def)
  define b' where "b' = (if mqf_reader (o_data ob) then closeReader b else closeWriter b)"
  have nm: "mq_name b' = mq_name b" by (simp add: b'_def closeReader_def closeWriter_def)
  define s1 where "s1 = (fs_priv F)\<lparr>ks_things := (ks_things (fs_priv F))(p \<mapsto> b')\<rparr>"
  note s1 = ks_put_thing [where s = "fs_priv F" and nm = mq_name, OF i b(1) nm, folded s1_def]
  have o1: "ks_obj s1 = ks_obj (fs_priv F)" "ks_users s1 = ks_users (fs_priv F)" by (simp_all add: s1_def s1(2,3))
  have l1: "linked mqf_buffer (ks_obj s1) (ks_users s1) (fs_objs F)" using l by (simp add: o1)
  obtain k' s2 where d: "map_option mq_name (ks_things s1 (mqf_buffer (o_data ob))) = Some k'" "ks_release k' s1 = Inr (ks_users s1 k' = 1, s2)"
    "ks_inv mq_name s2" "linked mqf_buffer (ks_obj s2) (ks_users s2) ((fs_objs F)(f := None))"
    using object_store.dispose [OF os s1(1) l1 ob] by blast
  have k': "k' = k" using d(1) nm b(2) by (simp add: s1_def p_def [symmetric])
  have cn': "mq_counts ((fs_objs F)(f := None)) p b'"
    using mq_counts_close [OF cn ob _ fin] by (simp add: p_def b'_def)
  have u: "ks_users s1 k = card (files_at mqf_buffer (fs_objs F) p)" using l k by (simp add: linked_def o1)
  have safe: "\<not> (mq_readers b' = 0 \<and> mq_writers b' = 0 \<and> ks_users s1 k \<noteq> 1)"
  proof
    assume a: "mq_readers b' = 0 \<and> mq_writers b' = 0 \<and> ks_users s1 k \<noteq> 1"
    have f': "finite (dom ((fs_objs F)(f := None)))" using fin by simp
    have "card (files_at mqf_buffer ((fs_objs F)(f := None)) p) = 0" using clients_card(1) [OF f', of p] cn' a by (simp add: mq_counts_def)
    then have "files_at mqf_buffer (fs_objs F) p - {f} = {}" using files_at_finite [OF fin] by (simp add: files_at_remove)
    moreover have "f \<in> files_at mqf_buffer (fs_objs F) p" using ob by (simp add: files_at_def p_def)
    ultimately have "files_at mqf_buffer (fs_objs F) p = {f}" by blast
    then show False using u a by simp
  qed
  define F' where "F' = delete_object f (put_mq p b' F\<lparr>fs_priv := s2\<rparr>)"
  have "mqfs_doClose f F = Inr F'"
    using assms(3) ob kd b nm d(2) k' safe
    by (auto simp: mqfs_doClose_def object_at_def thing_at_def p_def [symmetric] b'_def [symmetric] put_mq_def s1_def [symmetric] Let_def F'_def)
  moreover have objs: "fs_objs F' = (fs_objs F)(f := None)" "fs_openObjects F' = fs_openObjects F" "fs_priv F' = s2" "fs_fresh F' = fs_fresh F"
    by (simp_all add: F'_def put_mq_def)
  moreover have "mq_counts (fs_objs F') q c" if "ks_obj s2 j = Some q" "ks_things s2 q = Some c" for j q c
  proof -
    have th: "ks_things s2 = (if ks_users s1 k = 1 then (ks_things s1)(p := None) else ks_things s1)"
      using ks_release_things [of s1 k p "ks_users s1 k = 1" s2] k d(2) k' by (simp add: o1)
    have "ks_obj s1 j = Some q"
      using object_store.release_spec [OF os s1(1), of k p] k d(2) k' that(1) by (auto simp: o1 split: if_splits)
    show ?thesis
    proof (cases "q = p")
      case True
      then have "c = b'" using th that(2) by (auto simp: s1_def split: if_splits)
      then show ?thesis using True cn' by (simp add: objs)
    next
      case False
      then have "ks_things (fs_priv F) q = Some c" using th that(2) by (auto simp: s1_def split: if_splits)
      then have "mq_counts (fs_objs F) q c" using g \<open>ks_obj s1 j = Some q\<close> by (simp add: mq_good_def o1)
      moreover have "f \<notin> clients r (fs_objs F) q" for r using False ob by (auto simp: clients_def p_def)
      ultimately show ?thesis by (simp add: mq_counts_def objs clients_remove)
    qed
  qed
  then have "mq_good F'" using g d(3,4) objs unfolding mq_good_def by (auto split: if_splits)
  ultimately show ?thesis by blast
qed

lemma mq_good_refcount:
  assumes "mq_good F" and "fs_objs F f = Some ob" and "mqf_buffer (o_data ob') = mqf_buffer (o_data ob)"
    "mqf_reader (o_data ob') = mqf_reader (o_data ob)" "o_kind ob' = o_kind ob"
  shows "mq_good (put_object f ob' F)"
proof -
  have "files_at mqf_buffer ((fs_objs F)(f \<mapsto> ob')) p = files_at mqf_buffer (fs_objs F) p" for p
    using assms(2,3) by (auto simp: files_at_def)
  moreover have "clients r ((fs_objs F)(f \<mapsto> ob')) p = clients r (fs_objs F) p" for r p
    using assms(2,3,4) by (auto simp: clients_def)
  moreover have "dom ((fs_objs F)(f \<mapsto> ob')) = dom (fs_objs F)" using assms(2) by auto
  ultimately show ?thesis using assms by (auto simp: mq_good_def linked_def mq_counts_def)
qed

text \<open>As long as every open asks for reading or writing, the filesystem keeps its contract.\<close>

interpretation mq_files: fs_provider mq_good "\<lambda>name mode F. if mode AND 3 = 0 then Inr (0, F) else mqfs_doOpen junk name mode F"
    no_opendir mqfs_doClose for junk
proof
  fix F F' :: mqfs and path :: string and mode f ob r
  assume g: "mq_good F"
  show "few F \<Longrightarrow> (if mode AND 3 = 0 then Inr (0, F) else mqfs_doOpen junk path mode F) = Inr (f, F') \<Longrightarrow> mq_good F' \<and> adds_object F f F'"
    using mq_opens [OF g, of mode junk path f F'] g by (auto simp: adds_object_def split: if_splits)
  show "no_opendir path F = Inr (f, F') \<Longrightarrow> mq_good F' \<and> adds_object F f F'"
    using g by (auto simp: no_opendir_def adds_object_def)
  show "fs_objs F f = Some ob \<Longrightarrow> f \<noteq> 0 \<Longrightarrow> \<exists>F'. mqfs_doClose f F = Inr F' \<and> mq_good F' \<and> counts F' = (counts F)(f := None) \<and> fs_openObjects F' = fs_openObjects F"
    using mq_closes [OF g, of f ob] by (auto simp: counts_def fun_eq_iff)
  show "fs_objs F f = Some ob \<Longrightarrow> mq_good (put_object f (ob\<lparr>o_refcount := r\<rparr>) F)"
    using mq_good_refcount [OF g] by simp
next
  fix F :: mqfs and n
  show "mq_good (F\<lparr>fs_openObjects := n\<rparr>) = mq_good F" by (simp add: mq_good_def)
qed

section \<open>Clients of message queues\<close>

text \<open>
  A client may open a name with any mode. The last component of the state says whether every open
  so far asked for reading or writing and found fewer than \<open>2^32 - 1\<close> objects open.
\<close>

definition proper_open :: "u32 \<Rightarrow> mqfs \<Rightarrow> bool" where
  "proper_open mode F \<longleftrightarrow> mode AND 3 \<noteq> 0 \<and> few F"

inductive mqfs_step :: "message_t \<Rightarrow> mqfs \<times> tasks \<times> bool \<Rightarrow> mqfs \<times> tasks \<times> bool \<Rightarrow> bool" for junk where
  mq_open: "fs_open (mqfs_doOpen junk) name mode F = Inr (f, F') \<Longrightarrow>
    mqfs_step junk (F, t, ok) (F', t, ok \<and> proper_open mode F)"
| mq_share: "object_incref f F = Inr (c, F') \<Longrightarrow> mqfs_step junk (F, t, ok) (F', t, ok)"
| mq_close: "fs_close mqfs_doClose f F = Inr F' \<Longrightarrow> mqfs_step junk (F, t, ok) (F', t, ok)"
| mq_fread: "mqreadfile_read f n (F, t) = Inr (r, F', t') \<Longrightarrow> mqfs_step junk (F, t, ok) (F', t', ok)"
| mq_fwrite: "mqwritefile_write stack now f src (F, t) = Inr (w, F', t') \<Longrightarrow>
    mqfs_step junk (F, t, ok) (F', t', ok)"
| mq_ioctl: "mqfile_ioctl f a b F = Inr (v, F') \<Longrightarrow> mqfs_step junk (F, t, ok) (F', t, ok)"
| mq_tasks: "mqfs_step junk (F, t, ok) (F, t', ok)"

definition same_clients :: "MessageQueueBuffer \<Rightarrow> MessageQueueBuffer \<Rightarrow> bool" where
  "same_clients b b' \<longleftrightarrow> mq_name b' = mq_name b \<and> mq_readers b' = mq_readers b \<and> mq_writers b' = mq_writers b"

lemma tryRead_clients: "tryRead b = Inr (m, b') \<Longrightarrow> same_clients b b'"
  by (auto simp: tryRead_def same_clients_def Let_def split: if_splits)

lemma tryWrite_clients: "tryWrite m b = Inr (ok, b') \<Longrightarrow> same_clients b b'"
  by (auto simp: tryWrite_def same_clients_def Let_def split: if_splits)

lemma mq_doread_clients: "mq_doread n blk (b, t) = Inr (r, b', t') \<Longrightarrow> same_clients b b'"
  by (auto simp: mq_doread_def kbind_eq_Inr_iff dest: tryRead_clients split: if_splits option.splits)
     (auto simp: same_clients_def)

lemma mq_dowrite_clients: "mq_dowrite stack now src blk (b, t) = Inr (r, b', t') \<Longrightarrow> same_clients b b'"
  by (auto simp: mq_dowrite_def mq_write_turn_def kbind_eq_Inr_iff dest: tryWrite_clients split: if_splits)
     (auto simp: same_clients_def)

lemma put_mq_good:
  assumes "mq_good F" and "thing_at (fs_priv F) p = Inr b" and "same_clients b b'" and "counted F"
  shows "mq_good (put_mq p b' F) \<and> counted (put_mq p b' F)"
proof -
  have b: "ks_things (fs_priv F) p = Some b" using assms(2) by (auto simp: thing_at_def split: if_splits option.splits)
  have nm: "mq_name b' = mq_name b" using assms(3) by (simp add: same_clients_def)
  note k = ks_put_thing [where nm = mq_name and s = "fs_priv F", OF _ b nm]
  have "mq_good (put_mq p b' F)"
    using assms(1,3) b k by (auto simp: mq_good_def put_mq_def same_clients_def mq_counts_def split: if_splits)
  moreover have "counts (put_mq p b' F) = counts F" "fs_openObjects (put_mq p b' F) = fs_openObjects F" by (simp_all add: put_mq_def)
  ultimately show ?thesis using assms(4) by (simp add: counted_def)
qed

lemma mq_fread_good:
  assumes "mqreadfile_read f n (F, t) = Inr (r, F', t')" and "mq_good F" and "counted F"
  shows "mq_good F' \<and> counted F'"
proof -
  obtain ob where ob: "object_at F f = Inr ob" using assms(1) by (auto simp: mqreadfile_read_def kbind_eq_Inr_iff)
  show ?thesis
  proof (cases "mqf_reader (o_data ob)")
    case True
    obtain b b' where "thing_at (fs_priv F) (mqf_buffer (o_data ob)) = Inr b" "mq_doread n (mqf_block (o_data ob)) (b, t) = Inr (r, b', t')"
      "F' = put_mq (mqf_buffer (o_data ob)) b' F"
      using assms(1) ob True by (auto simp: mqreadfile_read_def kbind_eq_Inr_iff)
    then show ?thesis using put_mq_good [OF assms(2) _ mq_doread_clients assms(3)] by blast
  qed (use assms ob in \<open>auto simp: mqreadfile_read_def\<close>)
qed

lemma mq_fwrite_good:
  assumes "mqwritefile_write stack now f src (F, t) = Inr (r, F', t')" and "mq_good F" and "counted F"
  shows "mq_good F' \<and> counted F'"
proof -
  obtain ob where ob: "object_at F f = Inr ob" using assms(1) by (auto simp: mqwritefile_write_def kbind_eq_Inr_iff)
  show ?thesis
  proof (cases "mqf_reader (o_data ob)")
    case False
    obtain b b' where "thing_at (fs_priv F) (mqf_buffer (o_data ob)) = Inr b" "mq_dowrite stack now src (mqf_block (o_data ob)) (b, t) = Inr (r, b', t')"
      "F' = put_mq (mqf_buffer (o_data ob)) b' F"
      using assms(1) ob False by (auto simp: mqwritefile_write_def kbind_eq_Inr_iff)
    then show ?thesis using put_mq_good [OF assms(2) _ mq_dowrite_clients assms(3)] by blast
  qed (use assms ob in \<open>auto simp: mqwritefile_write_def\<close>)
qed

lemma mq_ioctl_good:
  assumes "mqfile_ioctl f a b F = Inr (v, F')" and "mq_good F" and "counted F"
  shows "mq_good F' \<and> counted F'"
proof -
  obtain ob where ob: "object_at F f = Inr ob" using assms(1) by (auto simp: mqfile_ioctl_def kbind_eq_Inr_iff)
  then have o: "fs_objs F f = Some ob" by (auto simp: object_at_def split: if_splits option.splits)
  show ?thesis
  proof (cases "a = (if mqf_reader (o_data ob) then 2 else 3)")
    case True
    define ob' where "ob' = ob\<lparr>o_data := (o_data ob)\<lparr>mqf_block := (b \<noteq> 0)\<rparr>\<rparr>"
    have F': "F' = put_object f ob' F" using assms(1) ob True by (simp add: mqfile_ioctl_def Let_def ob'_def)
    have "mq_good F'" unfolding F' by (rule mq_good_refcount [OF assms(2) o]) (simp_all add: ob'_def)
    moreover have "counts F' = counts F" using o by (auto simp: F' ob'_def counts_def)
    then have "counted F'" using assms(3) by (simp add: counted_def F')
    ultimately show ?thesis by simp
  next
    case False
    then have "F' = F" using assms(1) ob by (auto simp: mqfile_ioctl_def Let_def kbind_eq_Inr_iff split: if_splits)
    then show ?thesis using assms by simp
  qed
qed

lemma mqfs_step_good:
  "mqfs_step junk x y \<Longrightarrow> (snd (snd x) \<Longrightarrow> mq_good (fst x) \<and> counted (fst x)) \<Longrightarrow> snd (snd y) \<Longrightarrow>
    mq_good (fst y) \<and> counted (fst y)"
proof (induction rule: mqfs_step.induct)
  case (mq_open name mode F f F' t ok)
  then have p: "mode AND 3 \<noteq> 0" "few F" by (simp_all add: proper_open_def)
  then have "fs_open (\<lambda>name mode F. if mode AND 3 = 0 then Inr (0, F) else mqfs_doOpen junk name mode F) name mode F = Inr (f, F')"
    using mq_open.hyps by (simp add: fs_open_def)
  then show ?case using mq_files.opened [OF _ _ p(2)] mq_open.prems by simp
next
  case (mq_share f F c F' t ok)
  obtain ob where ob: "fs_objs F f = Some ob" and F': "F' = put_object f (ob\<lparr>o_refcount := rc_incref (o_refcount ob)\<rparr>) F"
    using mq_share.hyps by (auto simp: object_incref_def object_at_def Let_def kbind_eq_Inr_iff split: if_splits option.splits)
  have "o_refcount ob \<noteq> - 1 \<Longrightarrow> o_refcount ob + 1 \<noteq> 0" by (simp add: eq_neg_iff_add_eq_0)
  then have "rc_incref (o_refcount ob) \<noteq> 0" by (auto simp: rc_incref_def)
  then show ?case using mq_good_refcount [of F f ob] counted_put_object [of F f "o_refcount ob"] ob F' mq_share.prems by (simp add: counts_def)
next
  case (mq_close f F F' t ok)
  obtain c where "counts F f = Some c" using close_live [OF mq_close.hyps] by blast
  then show ?case using mq_files.closed [of F f c] mq_close by auto
next
  case (mq_fread f n F t r F' t' ok)
  then show ?case using mq_fread_good by simp
next
  case (mq_fwrite stack now f src F t r F' t' ok)
  then show ?case using mq_fwrite_good by simp
next
  case (mq_ioctl f a b F v F' t ok)
  then show ?case using mq_ioctl_good by simp
qed simp


lemma mq_open_reader:
  assumes i: "ks_inv mq_name (fs_priv F)" and p: "ks_obj (fs_priv F) name = Some p" and b: "ks_things (fs_priv F) p = Some b"
    and u: "ks_users (fs_priv F) name + 1 < 2 ^ 32" and fr: "0 < fs_fresh F"
  shows "\<exists>F'. fs_open (mqfs_doOpen junk) name 1 F = Inr (fs_fresh F, F')
    \<and> fs_objs F' (fs_fresh F) = Some (fobject_new K_msgqueue \<lparr>mqf_buffer = p, mqf_reader = True, mqf_block = True\<rparr>)
    \<and> ks_inv mq_name (fs_priv F') \<and> ks_obj (fs_priv F') name = Some p \<and> ks_users (fs_priv F') name = ks_users (fs_priv F) name + 1
    \<and> ks_things (fs_priv F') p = Some (openReader b)"
proof -
  obtain s' where s': "getOrNull name (fs_priv F) = Inr (p, s')" "ks_inv mq_name s'" "ks_obj s' = ks_obj (fs_priv F)"
    "ks_users s' = (ks_users (fs_priv F))(name := ks_users (fs_priv F) name + 1)" using getOrNull_found [OF i p u] by blast
  have th: "ks_things s' p = Some b" using getOrNull_things [OF s'(1)] b by simp
  have p0: "p \<noteq> 0" using ks_obj_Some [OF i p] by (metis less_irrefl)
  define N where "N = new_object (fobject_new K_msgqueue \<lparr>mqf_buffer = p, mqf_reader = True, mqf_block = True\<rparr>) (put_mq p (openReader b) (F\<lparr>fs_priv := s'\<rparr>))"
  have "mqfs_doOpen junk name 1 F = Inr N" using s'(1) th p0 by (simp add: mqfs_doOpen_def thing_at_def N_def)
  then have "fs_open (mqfs_doOpen junk) name 1 F = Inr (fs_fresh F, openObject (snd N))"
    using fr by (simp add: fs_open_def N_def new_object_def put_mq_def)
  moreover have "fs_priv (openObject (snd N)) = s'\<lparr>ks_things := (ks_things s')(p \<mapsto> openReader b)\<rparr>"
    "fs_objs (openObject (snd N)) (fs_fresh F) = Some (fobject_new K_msgqueue \<lparr>mqf_buffer = p, mqf_reader = True, mqf_block = True\<rparr>)"
    by (simp_all add: N_def new_object_def put_mq_def)
  ultimately show ?thesis
    using ks_put_thing [where nm = mq_name and s = s', OF s'(2) th, of "openReader b"] s'(3,4) p by (simp add: openReader_def)
qed

text \<open>
  C23: one open of a message queue without access flags makes the kernel panic later: opening an unused
  name with none of the flags for reading, writing and appending fails, but takes a reference to the
  queue it creates; when a process then opens the name for reading and closes it again, the last
  client is gone, the queue is not erased, and the close panics.
\<close>

theorem msgqueue_flagless_open_panics:
  assumes "mode AND 19 = 0" and "ks_inv mq_name (fs_priv F)" and "ks_obj (fs_priv F) name = None" and "0 < fs_fresh F"
  shows "\<exists>F1 F2 f. fs_open (mqfs_doOpen junk) name mode F = Inr (0, F1)
    \<and> fs_open (mqfs_doOpen junk) name 1 F1 = Inr (f, F2)
    \<and> fs_close mqfs_doClose f F2 = Inl (Panic ''msgqueue has no client left but memory was leaked'')"
proof -
  have sub: "mode AND m = 0" if "19 AND m = m" for m
    using arg_cong [OF assms(1), of "\<lambda>x. x AND m"] that by (simp add: and.assoc)
  have fl: "mode AND 3 = 0" "mode AND 16 = 0" "mode AND 1 = 0" "mode AND 2 = 0"
    by (rule sub, simp)+
  obtain p s1 where s1: "makeOrNull (mq_make junk) name (fs_priv F) = (p, s1)" "p \<noteq> 0" "ks_inv mq_name s1"
    "ks_obj s1 = (ks_obj (fs_priv F))(name \<mapsto> p)" "ks_users s1 = (ks_users (fs_priv F))(name := 1)"
    using makeOrNull_new [OF assms(2,3), of "mq_make junk"] by (auto simp: mq_make_def mq_new_def)
  define F1 where "F1 = F\<lparr>fs_priv := s1\<rparr>"
  have o1: "fs_open (mqfs_doOpen junk) name mode F = Inr (0, F1)"
    using fl getOrNull_none [OF assms(2,3)] s1(1,2) by (simp add: fs_open_def mqfs_doOpen_def F1_def)
  have b: "ks_things s1 p = Some (mq_make junk name p)" using makeOrNull_things [OF assms(2,3) s1(1)] by simp
  obtain F2 where F2: "fs_open (mqfs_doOpen junk) name 1 F1 = Inr (fs_fresh F, F2)"
    "fs_objs F2 (fs_fresh F) = Some (fobject_new K_msgqueue \<lparr>mqf_buffer = p, mqf_reader = True, mqf_block = True\<rparr>)"
    "ks_inv mq_name (fs_priv F2)" "ks_obj (fs_priv F2) name = Some p" "ks_users (fs_priv F2) name = 2"
    "ks_things (fs_priv F2) p = Some (openReader (mq_make junk name p))"
    using mq_open_reader [of F1 name p "mq_make junk name p" junk] s1 b assms(4) by (auto simp: F1_def)
  define c where "c = closeReader (openReader (mq_make junk name p))"
  have c: "mq_readers c = 0" "mq_writers c = 0" "mq_name c = name"
    by (simp_all add: c_def closeReader_def openReader_def mq_make_def mq_new_def)
  define s3 where "s3 = (fs_priv F2)\<lparr>ks_things := (ks_things (fs_priv F2))(p \<mapsto> c)\<rparr>"
  have "mq_name c = mq_name (openReader (mq_make junk name p))" using c(3) by (simp add: openReader_def mq_make_def mq_new_def)
  note k = ks_put_thing [where nm = mq_name and s = "fs_priv F2", OF F2(3,6) this, folded s3_def]
  have "ks_obj s3 name = Some p" "ks_users s3 name = 2" using F2(4,5) by (simp_all add: s3_def k(2,3))
  then obtain s4 where r: "ks_release name s3 = Inr (False, s4)" using ks_release_spec [OF k(1), of name p] by auto
  have "fs_close mqfs_doClose (fs_fresh F) F2 = Inl (Panic ''msgqueue has no client left but memory was leaked'')"
    using F2(2,6) r c assms(4) s1(2)
    by (simp add: fs_close_def object_decref_def object_at_def fobject_new_def rc_decref_def mqfs_doClose_def thing_at_def put_mq_def
        c_def [symmetric] s3_def [symmetric] Let_def)
  then show ?thesis using o1 F2(1) by blast
qed

definition empty_mqfs :: mqfs where
  "empty_mqfs = fs_new (ks_new 1024)"

lemma empty_mqfs_store: "ks_inv mq_name (fs_priv empty_mqfs)" "ks_obj (fs_priv empty_mqfs) name = None" "0 < fs_fresh empty_mqfs"
  by (simp_all add: empty_mqfs_def fs_new_def ks_new_inv)

definition zero_message :: message_t where
  "zero_message = \<lparr>msg_sender = 0, msg_timestamp = 0, msg_size = 0, msg_payload = []\<rparr>"

theorem msgqueue_flagless_witness:
  "\<exists>F1 F2 f. fs_open (mqfs_doOpen zero_message) ''/q'' 0 empty_mqfs = Inr (0, F1)
    \<and> fs_open (mqfs_doOpen zero_message) ''/q'' 1 F1 = Inr (f, F2)
    \<and> fs_close mqfs_doClose f F2 = Inl (Panic ''msgqueue has no client left but memory was leaked'')"
  using msgqueue_flagless_open_panics [of 0 empty_mqfs "''/q''" zero_message] empty_mqfs_store by simp


end
