(* ===== verification/Vfs.thy ===== *)
theory Vfs
  imports Filesystem Slist "HOL-Library.Sublist"
begin

text \<open>
  The virtual file system (\<open>src/kernel/include/fs/vfs.h\<close>, \<open>src/kernel/src/fs/vfs.cpp\<close>): the list of
  mounts with its nodes on the heap of \<open>Slist\<close>, path resolution, mounting and unmounting, opening and
  closing through the filesystem of a path. Filesystems live on a heap by address; the virtual
  operations of their classes are the record \<open>vtable\<close>. C strings are lists of characters without
  the terminating zero; a null pointer where the code tests for one is \<open>None\<close>.
\<close>

section \<open>State\<close>

record mount_t =
  m_path :: string
  m_when :: u64
  m_volume :: nat
  m_fs :: nat

record ('x, 'p) vtable =
  v_doOpen :: "string \<Rightarrow> u32 \<Rightarrow> ('x, 'p) fs \<Rightarrow> (nat \<times> ('x, 'p) fs) kernel"
  v_doOpendir :: "string \<Rightarrow> ('x, 'p) fs \<Rightarrow> (nat \<times> ('x, 'p) fs) kernel"
  v_doClose :: "nat \<Rightarrow> ('x, 'p) fs \<Rightarrow> ('x, 'p) fs kernel"
  v_del :: "string \<Rightarrow> ('x, 'p) fs \<Rightarrow> (bool \<times> ('x, 'p) fs) kernel"
  v_mkdir :: "string \<Rightarrow> ('x, 'p) fs \<Rightarrow> (bool \<times> ('x, 'p) fs) kernel"

record ('x, 'p) vfs =
  vfs_mounts :: "mount_t slist_state"
  vfs_fs :: "nat \<Rightarrow> ('x, 'p) fs option"

record filehandle_t =
  fh_filesystem :: nat
  fh_object :: nat
  fh_region :: nat

definition null_handle :: filehandle_t where
  "null_handle = \<lparr>fh_filesystem = 0, fh_object = 0, fh_region = 0\<rparr>"

definition fs_at :: "('x, 'p) vfs \<Rightarrow> nat \<Rightarrow> ('x, 'p) fs kernel" where
  "fs_at S p = (if p = 0 then Inl NullDeref else case vfs_fs S p of None \<Rightarrow> Inl Dangling | Some F \<Rightarrow> Inr F)"

definition put_fs :: "nat \<Rightarrow> ('x, 'p) fs \<Rightarrow> ('x, 'p) vfs \<Rightarrow> ('x, 'p) vfs" where
  "put_fs p F S = S\<lparr>vfs_fs := (vfs_fs S)(p \<mapsto> F)\<rparr>"

section \<open>Handles\<close>

definition fh_valid :: "filehandle_t \<Rightarrow> bool" where
  "fh_valid h \<longleftrightarrow> fh_filesystem h \<noteq> 0 \<and> fh_object h \<noteq> 0"

definition fh_close :: "('x, 'p) vtable \<Rightarrow> filehandle_t \<Rightarrow> ('x, 'p) vfs \<Rightarrow> ('x, 'p) vfs kernel" where
  "fh_close vt h S =
     (if fh_filesystem h \<noteq> 0 \<and> fh_object h \<noteq> 0 then
        kbind (fs_at S (fh_filesystem h)) (\<lambda>F.
        kbind (fs_close (v_doClose vt) (fh_object h) F) (\<lambda>F. Inr (put_fs (fh_filesystem h) F S)))
      else Inr S)"

definition fh_reset :: "filehandle_t \<Rightarrow> filehandle_t" where
  "fh_reset h = h\<lparr>fh_filesystem := 0, fh_object := 0\<rparr>"

text \<open>Every kind but a directory is like a file (\<open>file_kinds.tbl\<close>); the null pointer stands for the others.\<close>

definition fh_asFile :: "filehandle_t \<Rightarrow> ('x, 'p) vfs \<Rightarrow> nat kernel" where
  "fh_asFile h S =
     kbind (fs_at S (fh_filesystem h)) (\<lambda>F.
     kbind (object_at F (fh_object h)) (\<lambda>ob. Inr (if o_kind ob = K_directory then 0 else fh_object h)))"

section \<open>Strings\<close>

definition strprefix :: "string \<Rightarrow> string \<Rightarrow> string option" where
  "strprefix p full = (if take (length p) full = p then Some (drop (length p) full) else None)"

definition skip_slash :: "string \<Rightarrow> string" where
  "skip_slash path = (if path \<noteq> [] \<and> hd path = CHR ''/'' then tl path else path)"

text \<open>\<open>strstr(path, "/.")\<close> finds something.\<close>

fun has_dot_component :: "string \<Rightarrow> bool" where
  "has_dot_component (a # b # r) \<longleftrightarrow> (a = CHR ''/'' \<and> b = CHR ''.'') \<or> has_dot_component (b # r)"
| "has_dot_component _ \<longleftrightarrow> False"

definition isAbsolutePath :: "string option \<Rightarrow> bool" where
  "isAbsolutePath path =
     (case path of
        None \<Rightarrow> False
      | Some p \<Rightarrow> if p = [] \<or> hd p \<noteq> CHR ''/'' then False else if has_dot_component p then False else True)"

section \<open>Mounts\<close>

text \<open>The search loops over the mounts: the node and the item of the first mount that satisfies the test.\<close>

definition find_mount :: "(mount_t \<Rightarrow> bool) \<Rightarrow> mount_t slist_state \<Rightarrow> (nat \<times> mount_t) option kernel" where
  "find_mount P = (\<lambda>(h, l).
     kbind (slist_end (h, l)) (\<lambda>e.
     kbind (slist_find_loop (fresh h) h P (slist_begin l) e) (\<lambda>b.
     if b = e then Inr None else kbind (node_at h b) (\<lambda>n. Inr (Some (b, item n))))))"

definition vfs_mount :: "u64 \<Rightarrow> string \<Rightarrow> nat \<Rightarrow> nat \<Rightarrow> ('x, 'p) vfs \<Rightarrow> (bool \<times> ('x, 'p) vfs) kernel" where
  "vfs_mount now path f vol S =
     (let path = skip_slash path in
      kbind (slist_add \<lparr>m_path = path, m_when = now, m_volume = vol, m_fs = f\<rparr> (vfs_mounts S)) (\<lambda>l.
      Inr (True, S\<lparr>vfs_mounts := l\<rparr>)))"

definition findvol :: "string \<Rightarrow> ('x, 'p) vfs \<Rightarrow> nat kernel" where
  "findvol mnt S =
     kbind (find_mount (\<lambda>m. m_path m = mnt) (vfs_mounts S)) (\<lambda>r. Inr (case r of Some (b, m) \<Rightarrow> m_volume m | None \<Rightarrow> 0))"

definition findfs :: "string \<Rightarrow> ('x, 'p) vfs \<Rightarrow> nat kernel" where
  "findfs mnt S =
     kbind (find_mount (\<lambda>m. m_path m = mnt) (vfs_mounts S)) (\<lambda>r. Inr (case r of Some (b, m) \<Rightarrow> m_fs m | None \<Rightarrow> 0))"

text \<open>
  The buffer has \<open>path_len + 2\<close> bytes, of which the print may use one less, the last for the
  terminating zero; at most \<open>path_len + 1\<close> characters of the path are printed.
\<close>

definition fsForPath :: "string option \<Rightarrow> ('x, 'p) vfs \<Rightarrow> nat kernel" where
  "fsForPath path S =
     (case path of
        None \<Rightarrow> Inr 0
      | Some path \<Rightarrow>
          if path = [] then Inr 0
          else
            let path_start = skip_slash path;
                path_len = length (takeWhile (\<lambda>c. c \<noteq> CHR ''/'') path_start);
                buf = take (path_len + 2 - 1 - 1) (take (path_len + 1) path_start) in
            kbind (find_mount (\<lambda>m. m_path m = buf) (vfs_mounts S)) (\<lambda>r. Inr (case r of Some (b, m) \<Rightarrow> m_fs m | None \<Rightarrow> 0)))"

definition findMountInfo :: "nat \<Rightarrow> ('x, 'p) vfs \<Rightarrow> mount_t option kernel" where
  "findMountInfo vol S =
     (if vol = 0 then Inl (Panic ''cannot locate mount info for no volume'')
      else kbind (find_mount (\<lambda>m. m_volume m = vol) (vfs_mounts S)) (\<lambda>r. Inr (map_option snd r)))"

text \<open>
  After the node is removed the code reads the path through its reference to the item of that
  node; the node is deleted unless it was the first.
\<close>

definition unmount :: "string \<Rightarrow> ('x, 'p) vfs \<Rightarrow> (bool \<times> ('x, 'p) vfs) kernel" where
  "unmount path S =
     (let path = skip_slash path in
      kbind (find_mount (\<lambda>m. m_path m = path) (vfs_mounts S)) (\<lambda>r.
      case r of
        None \<Rightarrow> Inr (False, S)
      | Some (b, m) \<Rightarrow>
          kbind (fs_at S (m_fs m)) (\<lambda>F.
          let unmountable = (fs_refcount F > 1 \<or> (fs_refcount F = 1 \<and> fs_openObjects F = 0)) in
          if \<not> unmountable then Inr (False, S)
          else
            let (c, F) = fs_decref F;
                S = (if 0 = c then S\<lparr>vfs_fs := (vfs_fs S)(m_fs m := None)\<rparr> else put_fs (m_fs m) F S) in
            kbind (slist_remove b (vfs_mounts S)) (\<lambda>l.
            kbind (node_at (fst l) b) (\<lambda>n. Inr (True, S\<lparr>vfs_mounts := l\<rparr>))))))"

text \<open>
  \<open>known\<close> is the table of known filesystem types up to its end marker: the system identifier and the
  mounting helper, if any. A helper returns whether it mounted the volume and where.
\<close>

fun doMountVolume ::
  "(u8 \<times> (nat \<Rightarrow> string \<Rightarrow> ('x, 'p) vfs \<Rightarrow> ((bool \<times> string) \<times> ('x, 'p) vfs) kernel) option) list \<Rightarrow> (nat \<Rightarrow> u8) \<Rightarrow>
   nat \<Rightarrow> string \<Rightarrow> ('x, 'p) vfs \<Rightarrow> ((bool \<times> string) \<times> ('x, 'p) vfs) kernel" where
  "doMountVolume [] sysid vol where_to S = Inr ((False, []), S)"
| "doMountVolume ((i, fmount) # known) sysid vol where_to S =
     (if i = sysid vol then
        case fmount of None \<Rightarrow> doMountVolume known sysid vol where_to S | Some mnt \<Rightarrow> mnt vol where_to S
      else doMountVolume known sysid vol where_to S)"

definition mount_volume ::
  "(u8 \<times> (nat \<Rightarrow> string \<Rightarrow> ('x, 'p) vfs \<Rightarrow> ((bool \<times> string) \<times> ('x, 'p) vfs) kernel) option) list \<Rightarrow> (nat \<Rightarrow> u8) \<Rightarrow>
   u64 \<Rightarrow> nat \<Rightarrow> string \<Rightarrow> ('x, 'p) vfs \<Rightarrow> ((bool \<times> string) \<times> ('x, 'p) vfs) kernel" where
  "mount_volume known sysid now vol where_to S =
     kbind (findMountInfo vol S) (\<lambda>previous.
     if (case previous of None \<Rightarrow> True | Some m \<Rightarrow> m_fs m = 0) then doMountVolume known sysid vol where_to S
     else
       let f = m_fs (the previous) in
       kbind (fs_at S f) (\<lambda>F.
       let S = put_fs f (snd (fs_incref F)) S in
       kbind (slist_add \<lparr>m_path = where_to, m_when = now, m_volume = vol, m_fs = f\<rparr> (vfs_mounts S)) (\<lambda>l.
       Inr ((True, where_to), S\<lparr>vfs_mounts := l\<rparr>))))"

section \<open>Paths\<close>

definition mount_match :: "string \<Rightarrow> mount_t \<Rightarrow> bool" where
  "mount_match root m =
     (case strprefix (m_path m) root of None \<Rightarrow> False | Some next \<Rightarrow> next = [] \<or> hd next = CHR ''/'')"

definition getfs :: "string option \<Rightarrow> ('x, 'p) vfs \<Rightarrow> (nat \<times> string) kernel" where
  "getfs root S =
     (case root of
        None \<Rightarrow> Inr (0, [])
      | Some root \<Rightarrow>
          if root = [] then Inr (0, [])
          else
            let root = skip_slash root in
            kbind (find_mount (mount_match root) (vfs_mounts S)) (\<lambda>r.
            Inr (case r of Some (b, m) \<Rightarrow> (m_fs m, drop (length (m_path m)) root) | None \<Rightarrow> (0, []))))"

definition vfs_del :: "('x, 'p) vtable \<Rightarrow> string option \<Rightarrow> ('x, 'p) vfs \<Rightarrow> (bool \<times> ('x, 'p) vfs) kernel" where
  "vfs_del vt path S =
     (if \<not> isAbsolutePath path then Inr (False, S)
      else kbind (getfs path S) (\<lambda>(f, rest).
        if f = 0 then Inr (False, S)
        else kbind (fs_at S f) (\<lambda>F. kbind (v_del vt rest F) (\<lambda>(ok, F). Inr (ok, put_fs f F S)))))"

definition vfs_mkdir :: "('x, 'p) vtable \<Rightarrow> string option \<Rightarrow> ('x, 'p) vfs \<Rightarrow> (bool \<times> ('x, 'p) vfs) kernel" where
  "vfs_mkdir vt path S =
     (if \<not> isAbsolutePath path then Inr (False, S)
      else kbind (getfs path S) (\<lambda>(f, rest).
        if f = 0 then Inr (False, S)
        else kbind (fs_at S f) (\<lambda>F. kbind (v_mkdir vt rest F) (\<lambda>(ok, F). Inr (ok, put_fs f F S)))))"

definition vfs_open :: "('x, 'p) vtable \<Rightarrow> string option \<Rightarrow> u32 \<Rightarrow> ('x, 'p) vfs \<Rightarrow> (filehandle_t \<times> ('x, 'p) vfs) kernel" where
  "vfs_open vt path mode S =
     (if \<not> isAbsolutePath path then Inr (null_handle, S)
      else kbind (getfs path S) (\<lambda>(f, rest).
        if f = 0 then Inr (null_handle, S)
        else kbind (fs_at S f) (\<lambda>F.
             kbind (fs_open (v_doOpen vt) rest mode F) (\<lambda>(ob, F).
             Inr (\<lparr>fh_filesystem = f, fh_object = ob, fh_region = 0\<rparr>, put_fs f F S)))))"

text \<open>The root directory is opened on its own filesystem, at the address \<open>rootfs\<close>.\<close>

definition vfs_opendir ::
  "('x, 'p) vtable \<Rightarrow> nat \<Rightarrow> string option \<Rightarrow> ('x, 'p) vfs \<Rightarrow> (filehandle_t \<times> ('x, 'p) vfs) kernel" where
  "vfs_opendir vt rootfs path S =
     (if \<not> isAbsolutePath path then Inr (null_handle, S)
      else
        let p = the path;
            deleg = (\<lambda>f rest. kbind (fs_at S f) (\<lambda>F.
                      kbind (fs_opendir (v_doOpendir vt) rest F) (\<lambda>(ob, F).
                      Inr (\<lparr>fh_filesystem = f, fh_object = ob, fh_region = 0\<rparr>, put_fs f F S)))) in
        if tl p = [] then deleg rootfs p
        else
          kbind (getfs (Some (tl p)) S) (\<lambda>(f, rest).
          if f = 0 then Inr (null_handle, S) else deleg f rest))"

section \<open>The root directory\<close>

record rootdir =
  rd_iterator :: nat
  rd_end :: nat
  rd_time :: u64

record file_info_t =
  fi_size :: u32
  fi_time :: u64
  fi_name :: string
  fi_kind :: file_kind_t

definition rootdir_new :: "u64 \<Rightarrow> ('x, 'p) vfs \<Rightarrow> rootdir kernel" where
  "rootdir_new now S =
     kbind (slist_end (vfs_mounts S)) (\<lambda>e.
     Inr \<lparr>rd_iterator = slist_begin (snd (vfs_mounts S)), rd_end = e, rd_time = now\<rparr>)"

definition rootdir_next :: "('x, 'p) vfs \<Rightarrow> rootdir \<Rightarrow> (file_info_t option \<times> rootdir) kernel" where
  "rootdir_next S d =
     (if rd_iterator d = rd_end d then Inr (None, d)
      else
        kbind (node_at (fst (vfs_mounts S)) (rd_iterator d)) (\<lambda>n.
        let fi = \<lparr>fi_size = 0, fi_time = m_when (item n), fi_name = take 255 (m_path (item n)), fi_kind = K_directory\<rparr> in
        kbind (iter_next (fst (vfs_mounts S)) (rd_iterator d)) (\<lambda>i. Inr (Some fi, d\<lparr>rd_iterator := i\<rparr>))))"

section \<open>Searching the mounts\<close>

definition first_index :: "(mount_t \<Rightarrow> bool) \<Rightarrow> mount_t list \<Rightarrow> nat" where
  "first_index P ms = length (takeWhile (\<lambda>m. \<not> P m) ms)"

lemma first_index_less: "\<exists>m\<in>set ms. P m \<Longrightarrow> first_index P ms < length ms"
  unfolding first_index_def by (induction ms) auto

lemma find_first_index:
  "List.find P ms = (if \<exists>m\<in>set ms. P m then Some (ms ! first_index P ms) else None)"
  unfolding first_index_def by (induction ms) auto

lemma rep_item:
  assumes "slist_rep ps ms (h, l)" and "i < length ms"
  shows "\<exists>n. node_at h (ps ! i) = Inr n \<and> item n = ms ! i"
proof -
  obtain as q bs us v ws n where ps: "ps = as @ q # bs" and xs: "ms = us @ v # ws"
    and len: "length as = i" "length us = i" "length bs = length ws"
    and q: "q \<noteq> 0" "q < fresh h" "cells h q = Some \<lparr>item = v, nxt = n\<rparr>"
    and ch: "chain h (sl_head l) as us q" "chain h n bs ws 0" and n0: "n = 0 \<longleftrightarrow> bs = []"
    using rep_middle [OF assms] .
  then show ?thesis by (auto simp: node_at_def nth_append)
qed

lemma find_mount_spec:
  assumes "slist_rep ps ms s"
  shows "find_mount P s = Inr (if \<exists>m\<in>set ms. P m then Some (ps ! first_index P ms, ms ! first_index P ms) else None)"
proof -
  obtain h l where s: "s = (h, l)" by fastforce
  have rep: "slist_rep ps ms (h, l)" using assms s by simp
  have e: "slist_end (h, l) = Inr 0" using rep_end [OF rep] by simp
  have f: "slist_find_loop (fresh h) h P (slist_begin l) 0 = Inr (if \<exists>x\<in>set ms. P x then ps ! first_index P ms else 0)"
    using rep_find [OF rep, of P] by (simp add: slist_begin_def first_index_def)
  show ?thesis
  proof (cases "\<exists>m\<in>set ms. P m")
    case True
    then have i: "first_index P ms < length ms" by (rule first_index_less)
    then obtain n where n: "node_at h (ps ! first_index P ms) = Inr n" "item n = ms ! first_index P ms" using rep_item [OF rep] by blast
    then have "ps ! first_index P ms \<noteq> 0" by (auto simp: node_at_def split: if_splits)
    then show ?thesis using e f True n by (simp add: find_mount_def s)
  next
    case False
    then show ?thesis using e f by (simp add: find_mount_def s)
  qed
qed

section \<open>Resolving paths\<close>

lemma takeWhile_prefix_iff:
  assumes "c \<notin> set p"
  shows "(take (length p) r = p \<and> (drop (length p) r = [] \<or> hd (drop (length p) r) = c)) \<longleftrightarrow> p = takeWhile (\<lambda>x. x \<noteq> c) r"
  using assms
proof (induction p arbitrary: r)
  case Nil
  then show ?case by (cases r) auto
next
  case (Cons a p)
  then show ?case by (cases r) auto
qed

lemma mount_match_iff:
  assumes "CHR ''/'' \<notin> set (m_path m)"
  shows "mount_match r m \<longleftrightarrow> m_path m = takeWhile (\<lambda>c. c \<noteq> CHR ''/'') r"
  using takeWhile_prefix_iff [OF assms, of r] by (auto simp: mount_match_def strprefix_def)

text \<open>
  C24: path resolution is lookup by first component. When the mount points contain no slash, an
  absolute path is served by the first mount whose name is the path's first component, which gets the
  rest of the path from the slash on; \<open>fsForPath\<close> on the whole path and \<open>findfs\<close> on the component find
  the same filesystem.
\<close>

theorem vfs_path_resolution:
  assumes "slist_rep ps ms (vfs_mounts S)" and "\<forall>m\<in>set ms. CHR ''/'' \<notin> set (m_path m)"
  shows "let name = takeWhile (\<lambda>c. c \<noteq> CHR ''/'') r; found = List.find (\<lambda>m. m_path m = name) ms in
    getfs (Some (CHR ''/'' # r)) S = Inr (case found of Some m \<Rightarrow> (m_fs m, dropWhile (\<lambda>c. c \<noteq> CHR ''/'') r) | None \<Rightarrow> (0, []))
    \<and> fsForPath (Some (CHR ''/'' # r)) S = Inr (case found of Some m \<Rightarrow> m_fs m | None \<Rightarrow> 0)
    \<and> findfs name S = Inr (case found of Some m \<Rightarrow> m_fs m | None \<Rightarrow> 0)"
proof -
  define name where "name = takeWhile (\<lambda>c. c \<noteq> CHR ''/'') r"
  define Q where "Q = (\<lambda>m :: mount_t. m_path m = name)"
  have ex: "(\<exists>m\<in>set ms. mount_match r m) \<longleftrightarrow> (\<exists>m\<in>set ms. Q m)"
    using mount_match_iff assms(2) by (auto simp: Q_def name_def)
  have "takeWhile (\<lambda>m. \<not> mount_match r m) ms = takeWhile (\<lambda>m. \<not> Q m) ms"
    by (rule takeWhile_cong) (use mount_match_iff assms(2) in \<open>auto simp: Q_def name_def\<close>)
  then have fi: "first_index (mount_match r) ms = first_index Q ms" by (simp add: first_index_def)
  have nm: "m_path (ms ! first_index Q ms) = name" if "\<exists>m\<in>set ms. Q m"
    using that find_first_index [of Q ms] by (auto simp: find_Some_iff Q_def)
  have dr: "drop (length name) r = dropWhile (\<lambda>c. c \<noteq> CHR ''/'') r" by (simp add: name_def dropWhile_eq_drop)
  have tk: "take (length (takeWhile (\<lambda>c. c \<noteq> CHR ''/'') r)) r = name"
    unfolding name_def by (rule takeWhile_eq_take [symmetric])
  have "getfs (Some (CHR ''/'' # r)) S = Inr (case List.find Q ms of Some m \<Rightarrow> (m_fs m, dropWhile (\<lambda>c. c \<noteq> CHR ''/'') r) | None \<Rightarrow> (0, []))"
    using find_mount_spec [OF assms(1), of "mount_match r"] nm
    by (simp add: getfs_def skip_slash_def ex fi find_first_index dr)
  moreover have "fsForPath (Some (CHR ''/'' # r)) S = Inr (case List.find Q ms of Some m \<Rightarrow> m_fs m | None \<Rightarrow> 0)"
    using find_mount_spec [OF assms(1), of Q] tk
    by (simp add: fsForPath_def skip_slash_def Let_def find_first_index Q_def)
  moreover have "findfs name S = Inr (case List.find Q ms of Some m \<Rightarrow> m_fs m | None \<Rightarrow> 0)"
    using find_mount_spec [OF assms(1), of Q] by (simp add: findfs_def find_first_index Q_def)
  ultimately show ?thesis by (simp add: Let_def name_def Q_def)
qed

section \<open>Unmounting\<close>

lemma slist_remove_deletes:
  assumes "slist_remove p (h, l) = Inr (h', l')" and "p \<noteq> 0" and "p \<noteq> sl_head l"
  shows "cells h' p = None"
  using assms by (auto simp: slist_remove_def kbind_eq_Inr_iff delete_node_def Let_def split: option.splits if_splits)

lemma slist_remove_head_keeps:
  assumes "slist_remove (sl_head l) (h, l) = Inr (h', l')"
  shows "h' = h"
  using assms by (auto simp: slist_remove_def kbind_eq_Inr_iff split: if_splits)

lemma rep_head:
  assumes "slist_rep ps ms (h, l)" and "i < length ms"
  shows "ps ! i = sl_head l \<longleftrightarrow> i = 0" and "ps ! i \<noteq> 0"
proof -
  have c: "chain h (sl_head l) ps ms 0" and d: "distinct ps" and len: "length ps = length ms"
    using assms(1) rep_length by (auto simp: slist_rep_def)
  have "ps \<noteq> []" using assms(2) len by auto
  then have "sl_head l = ps ! 0" using c by (cases ps; cases ms) auto
  then show "ps ! i = sl_head l \<longleftrightarrow> i = 0" using nth_eq_iff_index_eq [OF d, of i 0] assms(2) len by (cases ps) auto
  show "ps ! i \<noteq> 0" using chain_nonnull [OF c] assms(2) len by (metis nth_mem)
qed

text \<open>
  C25: unmounting. A mount whose filesystem has no other mount and still has open objects is kept; so
  is one whose filesystem has no reference at all. The first mount in the list is otherwise removed, and
  its filesystem is deleted exactly when that was its last reference, which is never while it has
  open objects. Unmounting any other mount deletes the list node and then reads the path in it: the
  code accesses freed memory.
\<close>

theorem unmount_spec:
  assumes rep: "slist_rep ps ms (vfs_mounts S)" and ex: "\<exists>m\<in>set ms. m_path m = skip_slash path"
    and i: "i = length (takeWhile (\<lambda>m. m_path m \<noteq> skip_slash path) ms)"
    and f: "m_fs (ms ! i) \<noteq> 0" "vfs_fs S (m_fs (ms ! i)) = Some F"
  shows "if fs_refcount F = 0 \<or> (fs_refcount F = 1 \<and> fs_openObjects F \<noteq> 0) then unmount path S = Inr (False, S)
    else if i = 0 then
      \<exists>S' ps'. unmount path S = Inr (True, S') \<and> slist_rep ps' (tl ms) (vfs_mounts S')
        \<and> (vfs_fs S' (m_fs (ms ! i)) = None \<longleftrightarrow> fs_refcount F = 1)
        \<and> (vfs_fs S' (m_fs (ms ! i)) = None \<longrightarrow> fs_openObjects F = 0)
    else unmount path S = Inl Dangling"
proof -
  define Q where "Q = (\<lambda>m :: mount_t. m_path m = skip_slash path)"
  obtain h l where m: "vfs_mounts S = (h, l)" by fastforce
  have r: "slist_rep ps ms (h, l)" using rep m by simp
  have i': "i = first_index Q ms" using i by (simp add: first_index_def Q_def)
  have lt: "i < length ms" using first_index_less [of ms Q] ex by (auto simp: i' Q_def)
  have fm: "find_mount Q (vfs_mounts S) = Inr (Some (ps ! i, ms ! i))"
    using find_mount_spec [OF rep, of Q] ex by (auto simp: i' Q_def)
  have at: "fs_at S (m_fs (ms ! i)) = Inr F" using f by (simp add: fs_at_def)
  define okay where "okay \<longleftrightarrow> fs_refcount F > 1 \<or> (fs_refcount F = 1 \<and> fs_openObjects F = 0)"
  have ok: "okay \<longleftrightarrow> \<not> (fs_refcount F = 0 \<or> (fs_refcount F = 1 \<and> fs_openObjects F \<noteq> 0))"
  proof -
    have gt: "x > 1 \<longleftrightarrow> x \<noteq> 0 \<and> x \<noteq> 1" for x :: u32
      by (metis linorder_neqE_nat not_less_zero unat_1 unat_0 word_less_nat_alt less_one word_unat_eq_iff order.asym)
    show ?thesis unfolding okay_def gt [of "fs_refcount F"] by (cases "fs_refcount F = 1") simp_all
  qed
  have refused: "unmount path S = Inr (False, S)" if "\<not> okay"
    using fm at that by (simp add: unmount_def Q_def [symmetric] okay_def)
  define S1 where "S1 = (if rc_decref (fs_refcount F) = 0 then S\<lparr>vfs_fs := (vfs_fs S)(m_fs (ms ! i) := None)\<rparr>
    else put_fs (m_fs (ms ! i)) (F\<lparr>fs_refcount := rc_decref (fs_refcount F)\<rparr>) S)"
  have m1: "vfs_mounts S1 = (h, l)" by (simp add: S1_def put_fs_def m)
  obtain h' l' ps' where rm: "slist_remove (ps ! i) (h, l) = Inr (h', l')" "slist_rep ps' (take i ms @ drop (Suc i) ms) (h', l')"
    using slist_remove_implements [OF r lt] by (auto simp: slist_implements_def)
  have um: "unmount path S = kbind (node_at h' (ps ! i)) (\<lambda>n. Inr (True, S1\<lparr>vfs_mounts := (h', l')\<rparr>))" if "okay"
    using fm at that rm(1) m1 by (simp add: unmount_def Q_def [symmetric] okay_def fs_decref_def Let_def S1_def [symmetric]) blast
  show ?thesis
  proof (cases "okay")
    case False
    then show ?thesis using refused ok by simp
  next
    case True
    have c: "fs_refcount F \<noteq> 0" using True ok by blast
    show ?thesis
    proof (cases "i = 0")
      case True
      have "h' = h" using slist_remove_head_keeps rm(1) rep_head(1) [OF r lt] True by metis
      moreover obtain n where "node_at h (ps ! i) = Inr n" using rep_item [OF r lt] by blast
      ultimately have "unmount path S = Inr (True, S1\<lparr>vfs_mounts := (h', l')\<rparr>)" using um \<open>okay\<close> by simp
      moreover have "slist_rep ps' (tl ms) (h', l')" using rm(2) True by (cases ms) auto
      moreover have "vfs_fs S1 (m_fs (ms ! i)) = None \<longleftrightarrow> fs_refcount F = 1" using rc_decref_0 [OF c] by (simp add: S1_def put_fs_def)
      moreover have "fs_refcount F = 1 \<longrightarrow> fs_openObjects F = 0" using \<open>okay\<close> by (auto simp: okay_def)
      ultimately show ?thesis using True \<open>okay\<close> ok by auto
    next
      case False
      then have "cells h' (ps ! i) = None" using slist_remove_deletes [OF rm(1)] rep_head [OF r lt] by simp
      then have "unmount path S = Inl Dangling" using um \<open>okay\<close> rep_head(2) [OF r lt] by (simp add: node_at_def)
      then show ?thesis using False \<open>okay\<close> ok by simp
    qed
  qed
qed

section \<open>A mounted system\<close>

definition example_mounts :: "mount_t list" where
  "example_mounts =
     [\<lparr>m_path = ''initrd'', m_when = 0, m_volume = 0, m_fs = 1\<rparr>, \<lparr>m_path = ''pipes'', m_when = 0, m_volume = 0, m_fs = 2\<rparr>]"

definition example_vfs :: "(nat, unit) vfs" where
  "example_vfs =
     \<lparr>vfs_mounts =
        (\<lparr>cells = [1 \<mapsto> \<lparr>item = example_mounts ! 0, nxt = 2\<rparr>, 2 \<mapsto> \<lparr>item = example_mounts ! 1, nxt = 0\<rparr>], fresh = 3\<rparr>,
         \<lparr>sl_size = 2, sl_head = 1, sl_tail = 2\<rparr>),
      vfs_fs = [1 \<mapsto> fs_new (), 2 \<mapsto> fs_new ()]\<rparr>"

lemma example_rep: "slist_rep [1, 2] example_mounts (vfs_mounts example_vfs)"
  by (simp add: slist_rep_def example_vfs_def example_mounts_def)

theorem vfs_path_resolution_witness: "getfs (Some ''/pipes/a'') example_vfs = Inr (2, ''/a'')"
  using vfs_path_resolution [OF example_rep, of "''pipes/a''"] by (simp add: example_mounts_def)

theorem unmount_spec_witness: "unmount ''/pipes'' example_vfs = Inl Dangling"
  using unmount_spec [OF example_rep, of "''/pipes''" 1 "fs_new ()"]
  by (simp add: example_mounts_def skip_slash_def example_vfs_def fs_new_def)

end
