(* ===== verification/Calendar.thy ===== *)
theory Calendar
  imports Puppy_Prelude
begin

text \<open>
  Dates and times of day (\<open>src/kernel/include/libc/time.h\<close>, \<open>src/kernel/src/libc/time.cpp\<close>): the
  conversion of a date and a time to seconds since 1970, by adding up years and months, and the
  conversion back by counting eras of 400 years from the first of March. All values have the width
  they have in the code; the proofs move to natural numbers first and show there that the two
  conversions are inverse.
\<close>

section \<open>Conversions\<close>

record date_components_t =
  dc_day :: u8
  dc_month :: u8
  dc_year :: u16

record time_components_t =
  tc_hour :: u8
  tc_minute :: u8
  tc_second :: u8

definition gSecondsInDay :: u64 where
  "gSecondsInDay = 60 * 60 * 24"

definition leap :: "u16 \<Rightarrow> bool" where
  "leap year =
     (if 0 \<noteq> year mod 4 then False
      else if 0 \<noteq> year mod 100 then True
      else 0 = year mod 400)"

definition gDays :: "u8 list" where
  "gDays = [0, 31, 28, 31, 30, 31, 30, 31, 31, 30, 31, 30, 31]"

definition gLeapDays :: "u8 list" where
  "gLeapDays = [0, 31, 29, 31, 30, 31, 30, 31, 31, 30, 31, 30, 31]"

text \<open>The loop over the months reads the table of their lengths, which ends at December.\<close>

definition date_components_to_epoch :: "date_components_t \<Rightarrow> u64 kernel" where
  "date_components_to_epoch cs =
     (let is_leap = leap (dc_year cs);
          val = fold (\<lambda>y val. val + gSecondsInDay * (if leap (of_nat y) then 366 else 365)) [1970..<unat (dc_year cs)] 0;
          days = (if is_leap then gLeapDays else gDays) in
      kbind (kfold (\<lambda>m val. if m \<ge> length days then Inl OutOfBounds else Inr (val + gSecondsInDay * ucast (days ! m)))
               [1..<unat (dc_month cs)] val) (\<lambda>val.
      Inr (val + (ucast (dc_day cs) - 1) * gSecondsInDay)))"

definition time_components_to_epoch :: "time_components_t \<Rightarrow> u64" where
  "time_components_to_epoch cs = ucast (tc_second cs) + (60 * (ucast (tc_minute cs) + (60 * ucast (tc_hour cs))))"

definition epoch_to_time_and_date_components :: "u64 \<Rightarrow> date_components_t \<times> time_components_t" where
  "epoch_to_time_and_date_components timestamp =
     (let wc_portion = timestamp mod gSecondsInDay;
          timestamp = timestamp div gSecondsInDay;
          second = ucast (wc_portion mod 60);
          wc_portion = wc_portion div 60;
          minute = ucast (wc_portion mod 60);
          hour = ucast (wc_portion div 60);
          timestamp = timestamp + 719468;
          era = timestamp div 146097;
          doe = timestamp - era * 146097;
          yoe = (doe - doe div 1460 + doe div 36524 - doe div 146096) div 365;
          year = ucast (yoe + era * 400);
          doy = doe - (365 * yoe + yoe div 4 - yoe div 100);
          mp = (5 * doy + 2) div 153;
          day = ucast (doy - (153 * mp + 2) div 5 + 1);
          month = ucast (mp + (if mp < 10 then 3 else - 9));
          year = year + (if month \<le> 2 then 1 else 0) in
      (\<lparr>dc_day = day, dc_month = month, dc_year = year\<rparr>, \<lparr>tc_hour = hour, tc_minute = minute, tc_second = second\<rparr>))"

section \<open>Years of natural numbers\<close>

definition is_leap :: "nat \<Rightarrow> bool" where
  "is_leap y \<longleftrightarrow> y mod 4 = 0 \<and> (y mod 100 \<noteq> 0 \<or> y mod 400 = 0)"

definition month_days :: "nat \<Rightarrow> nat \<Rightarrow> nat" where
  "month_days y m = (if m = 2 then (if is_leap y then 29 else 28) else if m \<in> {4, 6, 9, 11} then 30 else 31)"

definition valid_date :: "nat \<Rightarrow> nat \<Rightarrow> nat \<Rightarrow> bool" where
  "valid_date y m d \<longleftrightarrow> 1970 \<le> y \<and> 1 \<le> m \<and> m \<le> 12 \<and> 1 \<le> d \<and> d \<le> month_days y m"

fun days_before_year :: "nat \<Rightarrow> nat" where
  "days_before_year y = (\<Sum>i = 1970..<y. if is_leap i then 366 else 365)"

fun days_before_month :: "nat \<Rightarrow> nat \<Rightarrow> nat" where
  "days_before_month y m = (\<Sum>i = 1..<m. month_days y i)"

declare days_before_year.simps [simp del] days_before_month.simps [simp del]

definition day_number :: "nat \<Rightarrow> nat \<Rightarrow> nat \<Rightarrow> nat" where
  "day_number y m d = days_before_year y + days_before_month y m + (d - 1)"

text \<open>Days from the first of March of the year 0 to the first of March of year \<open>y\<close>.\<close>

definition march_days :: "nat \<Rightarrow> nat" where
  "march_days y = 365 * y + y div 4 - y div 100 + y div 400"

lemma count_leap:
  fixes a b c :: nat
  assumes "C \<longrightarrow> B" and "B \<longrightarrow> A"
  shows "a + (if A then 1 else 0) + b + (c + (if C then 1 else 0)) =
    a + (b + (if B then 1 else 0)) + c + (if A \<and> (\<not> B \<or> C) then 1 else 0)"
  using assms by (cases A; cases B; cases C) simp_all

lemma leap_step: "Suc y div 4 + y div 100 + Suc y div 400 = y div 4 + Suc y div 100 + y div 400 + (if is_leap (Suc y) then 1 else 0)"
proof -
  have d: "Suc y div k = y div k + (if Suc y mod k = 0 then 1 else 0)" for k
    by (simp add: div_Suc)
  have "Suc y mod 400 = 0 \<longrightarrow> Suc y mod 100 = 0"
    using dvd_trans [of "100 :: nat" 400 "Suc y"] by (simp add: mod_eq_0_iff_dvd)
  moreover have "Suc y mod 100 = 0 \<longrightarrow> Suc y mod 4 = 0"
    using dvd_trans [of "4 :: nat" 100 "Suc y"] by (simp add: mod_eq_0_iff_dvd)
  ultimately show ?thesis unfolding is_leap_def d [of 4] d [of 100] d [of 400] by (rule count_leap)
qed

lemma march_step:
  fixes a b c :: nat
  assumes "b \<le> a" and "b' \<le> a'" and "a' + b + c' = a + b' + c + l"
  shows "365 * Suc y + a' - b' + c' = 365 * y + a - b + c + (365 + l)"
  using assms by simp

lemma march_days_Suc: "march_days (Suc y) = march_days y + (if is_leap (Suc y) then 366 else 365)"
proof -
  have "y div 100 \<le> y div 4" "Suc y div 100 \<le> Suc y div 4" by (simp_all add: div_le_mono2)
  then have "march_days (Suc y) = march_days y + (365 + (if is_leap (Suc y) then 1 else 0))"
    unfolding march_days_def by (rule march_step [OF _ _ leap_step])
  then show ?thesis by simp
qed

lemma days_before_year_march: "1970 \<le> y \<Longrightarrow> days_before_year y + 719468 = march_days (y - 1) + 306"
proof (induction y rule: dec_induct)
  case base
  show ?case by (simp add: days_before_year.simps march_days_def)
next
  case (step y)
  have "days_before_year (Suc y) = days_before_year y + (if is_leap y then 366 else 365)" using step(1) by (simp add: days_before_year.simps)
  moreover have "march_days y = march_days (y - 1) + (if is_leap y then 366 else 365)"
    using march_days_Suc [of "y - 1"] step(1) by simp
  ultimately show ?case using step by simp
qed

text \<open>Years begin in March: the shifted month, the shifted year and the day in it.\<close>

definition march_month :: "nat \<Rightarrow> nat" where
  "march_month m = (if m \<le> 2 then m + 9 else m - 3)"

definition march_year :: "nat \<Rightarrow> nat \<Rightarrow> nat" where
  "march_year y m = (if m \<le> 2 then y - 1 else y)"

definition march_day :: "nat \<Rightarrow> nat \<Rightarrow> nat" where
  "march_day m d = (153 * march_month m + 2) div 5 + (d - 1)"

lemma month_cases:
  assumes "1 \<le> m" and "m \<le> (12 :: nat)"
  shows "m = 1 \<or> m = 2 \<or> m = 3 \<or> m = 4 \<or> m = 5 \<or> m = 6 \<or> m = 7 \<or> m = 8 \<or> m = 9 \<or> m = 10 \<or> m = 11 \<or> m = 12"
  using assms by presburger

lemma days_before_month_step: "1 \<le> m \<Longrightarrow> days_before_month y (m + 1) = days_before_month y m + month_days y m"
  by (simp add: days_before_month.simps)

lemma days_before_month_table:
  shows
    "days_before_month y 1 = 0"
    "days_before_month y 2 = 31"
    "days_before_month y 3 = (if is_leap y then 60 else 59)"
    "days_before_month y 4 = (if is_leap y then 91 else 90)"
    "days_before_month y 5 = (if is_leap y then 121 else 120)"
    "days_before_month y 6 = (if is_leap y then 152 else 151)"
    "days_before_month y 7 = (if is_leap y then 182 else 181)"
    "days_before_month y 8 = (if is_leap y then 213 else 212)"
    "days_before_month y 9 = (if is_leap y then 244 else 243)"
    "days_before_month y 10 = (if is_leap y then 274 else 273)"
    "days_before_month y 11 = (if is_leap y then 305 else 304)"
    "days_before_month y 12 = (if is_leap y then 335 else 334)"
proof -
  show m1: "days_before_month y 1 = 0" by (simp add: days_before_month.simps)
  show m2: "days_before_month y 2 = 31"
    using days_before_month_step [of 1 y] m1 by (simp add: month_days_def numeral_2_eq_2)
  show m3: "days_before_month y 3 = (if is_leap y then 60 else 59)"
    using days_before_month_step [of 2 y] m2 by (simp add: month_days_def)
  show m4: "days_before_month y 4 = (if is_leap y then 91 else 90)"
    using days_before_month_step [of 3 y] m3 by (simp add: month_days_def)
  show m5: "days_before_month y 5 = (if is_leap y then 121 else 120)"
    using days_before_month_step [of 4 y] m4 by (simp add: month_days_def)
  show m6: "days_before_month y 6 = (if is_leap y then 152 else 151)"
    using days_before_month_step [of 5 y] m5 by (simp add: month_days_def)
  show m7: "days_before_month y 7 = (if is_leap y then 182 else 181)"
    using days_before_month_step [of 6 y] m6 by (simp add: month_days_def)
  show m8: "days_before_month y 8 = (if is_leap y then 213 else 212)"
    using days_before_month_step [of 7 y] m7 by (simp add: month_days_def)
  show m9: "days_before_month y 9 = (if is_leap y then 244 else 243)"
    using days_before_month_step [of 8 y] m8 by (simp add: month_days_def)
  show m10: "days_before_month y 10 = (if is_leap y then 274 else 273)"
    using days_before_month_step [of 9 y] m9 by (simp add: month_days_def)
  show m11: "days_before_month y 11 = (if is_leap y then 305 else 304)"
    using days_before_month_step [of 10 y] m10 by (simp add: month_days_def)
  show m12: "days_before_month y 12 = (if is_leap y then 335 else 334)"
    using days_before_month_step [of 11 y] m11 by (simp add: month_days_def)
qed

lemma days_before_month_march:
  assumes "1 \<le> m" and "m \<le> 12"
  shows "days_before_month y m + (if m \<le> 2 then 306 else 0) =
    (153 * march_month m + 2) div 5 + (if m \<le> 2 then 0 else if is_leap y then 60 else 59)"
  using month_cases [OF assms]
  by (elim disjE) (simp_all add: days_before_month_table march_month_def del: One_nat_def)

lemma day_number_march:
  assumes "valid_date y m d"
  shows "day_number y m d + 719468 = march_days (march_year y m) + march_day m d"
proof -
  have v: "1970 \<le> y" "1 \<le> m" "m \<le> 12" using assms by (auto simp: valid_date_def)
  have "march_days y = march_days (y - 1) + (if is_leap y then 366 else 365)" using march_days_Suc [of "y - 1"] v(1) by simp
  then show ?thesis
    using days_before_month_march [OF v(2,3), of y] days_before_year_march [OF v(1)]
    by (auto simp: day_number_def march_year_def march_day_def split: if_splits)
qed

section \<open>Eras\<close>

lemma era_decompose:
  fixes y :: nat
  obtains e c q r where "y = 400 * e + 100 * c + 4 * q + r" and "c \<le> 3" and "q \<le> 24" and "r \<le> 3"
proof -
  define a where "a = y mod 400"
  define b where "b = a mod 100"
  have "y = 400 * (y div 400) + a" "a = 100 * (a div 100) + b" "b = 4 * (b div 4) + b mod 4" by (simp_all add: a_def b_def)
  then have "y = 400 * (y div 400) + 100 * (a div 100) + 4 * (b div 4) + b mod 4" by linarith
  moreover have "a < 400" "b < 100" by (simp_all add: a_def b_def)
  ultimately show ?thesis using that [of "y div 400" "a div 100" "b div 4" "b mod 4"] by auto
qed

lemma mod_bounded_0: "0 < k \<Longrightarrow> k \<le> n \<Longrightarrow> k mod n = 0 \<longleftrightarrow> k = (n :: nat)"
  by (cases "k = n") auto

lemma era_year:
  fixes e :: nat
  assumes y: "y = 400 * e + 100 * c + 4 * q + r" and c: "c \<le> 3" and q: "q \<le> 24" and r: "r \<le> 3"
  shows "march_days y = 146097 * e + (36524 * c + 1461 * q + 365 * r)"
    and "is_leap (Suc y) \<longleftrightarrow> r = 3 \<and> (q \<noteq> 24 \<or> c = 3)"
proof -
  have d4: "y div 4 = 100 * e + 25 * c + q" using y r by simp
  have d100: "y div 100 = 4 * e + c" using y q r by simp
  have d400: "y div 400 = e" using y c q r by simp
  show "march_days y = 146097 * e + (36524 * c + 1461 * q + 365 * r)" unfolding march_days_def d4 d100 d400 using y by simp
  have "Suc y = (r + 1) + (100 * e + 25 * c + q) * 4" "Suc y = (4 * q + r + 1) + (4 * e + c) * 100"
    "Suc y = (100 * c + 4 * q + r + 1) + e * 400" using y by simp_all
  then have "Suc y mod 4 = (r + 1) mod 4" "Suc y mod 100 = (4 * q + r + 1) mod 100" "Suc y mod 400 = (100 * c + 4 * q + r + 1) mod 400"
    by (metis mod_mult_self1)+
  then have "Suc y mod 4 = 0 \<longleftrightarrow> r = 3" "Suc y mod 100 = 0 \<longleftrightarrow> 4 * q + r = 99" "Suc y mod 400 = 0 \<longleftrightarrow> 100 * c + 4 * q + r = 399"
    using c q r mod_bounded_0 [of "r + 1" 4] mod_bounded_0 [of "4 * q + r + 1" 100] mod_bounded_0 [of "100 * c + 4 * q + r + 1" 400] by auto
  then show "is_leap (Suc y) \<longleftrightarrow> r = 3 \<and> (q \<noteq> 24 \<or> c = 3)" unfolding is_leap_def using c q r by auto
qed

text \<open>The year of the era, from the day of the era.\<close>

lemma year_of_era:
  fixes c q r doy :: nat
  assumes c: "c \<le> 3" and q: "q \<le> 24" and r: "r \<le> 3" and doy: "doy \<le> 365" and last: "doy = 365 \<longrightarrow> r = 3 \<and> (q \<noteq> 24 \<or> c = 3)"
    and doe: "doe = 36524 * c + 1461 * q + 365 * r + doy"
  shows "doe < 146097" and "(doe - doe div 1460 + doe div 36524 - doe div 146096) div 365 = 100 * c + 4 * q + r"
proof -
  show lt: "doe < 146097" using assms by (cases "doy = 365") auto
  define s where "s = 24 * c + q + 365 * r + doy"
  have d1: "doe div 1460 = 25 * c + q + s div 1460" using doe by (simp add: s_def)
  have s1: "s div 1460 \<le> 1" "s div 1460 \<le> doy" "doy - s div 1460 \<le> 364"
    using c q r doy last by (auto simp: s_def)
  show "(doe - doe div 1460 + doe div 36524 - doe div 146096) div 365 = 100 * c + 4 * q + r"
  proof (cases "doe = 146096")
    case True
    then have "c = 3" "q = 24" "r = 3" using assms by auto
    then show ?thesis using True by simp
  next
    case False
    then have d3: "doe div 146096 = 0" using lt by simp
    have d2: "doe div 36524 = c"
    proof -
      have "1461 * q + 365 * r + doy < 36524 \<or> doe = 146096" using assms by auto
      then show ?thesis using False doe by simp
    qed
    obtain w where w: "doy = s div 1460 + w" using s1(2) le_Suc_ex by blast
    have "doe = (25 * c + q + s div 1460) + (36499 * c + 1460 * q + 365 * r + w)" using doe w by simp
    then have "doe - (25 * c + q + s div 1460) = 36499 * c + 1460 * q + 365 * r + w" by (metis diff_add_inverse)
    then have "doe - doe div 1460 + doe div 36524 - doe div 146096 = 365 * (100 * c + 4 * q + r) + w"
      unfolding d1 d2 d3 by simp
    moreover have "w < 365" using w s1(3) by simp
    ultimately show ?thesis by simp
  qed
qed

lemma day_of_march_year:
  assumes "valid_date y m d"
  shows "march_day m d \<le> 365" and "march_day m d = 365 \<longrightarrow> is_leap (Suc (march_year y m))"
    and "(5 * march_day m d + 2) div 153 = march_month m" and "march_day m d - (153 * march_month m + 2) div 5 + 1 = d"
proof -
  have v: "1 \<le> m" "m \<le> 12" "1 \<le> d" "d \<le> month_days y m" "1970 \<le> y" using assms by (auto simp: valid_date_def)
  show "march_day m d - (153 * march_month m + 2) div 5 + 1 = d" using v(3) by (simp add: march_day_def)
  have *: "march_day m d \<le> 365 \<and> (march_day m d = 365 \<longrightarrow> m = 2 \<and> d = 29) \<and> (5 * march_day m d + 2) div 153 = march_month m"
    using month_cases [OF v(1,2)] v(3,4)
    by (elim disjE) (auto simp: month_days_def march_day_def march_month_def intro!: div_nat_eqI split: if_splits)
  then show "march_day m d \<le> 365" "(5 * march_day m d + 2) div 153 = march_month m" by simp_all
  show "march_day m d = 365 \<longrightarrow> is_leap (Suc (march_year y m))"
    using * v by (auto simp: march_year_def month_days_def split: if_splits)
qed

text \<open>The algorithm on natural numbers recovers the date from the number of its day.\<close>

lemma civil_from_days:
  assumes v: "valid_date y m d" and z: "z = day_number y m d + 719468"
    and era: "era = z div 146097" and doe: "doe = z - era * 146097"
    and yoe: "yoe = (doe - doe div 1460 + doe div 36524 - doe div 146096) div 365"
    and doy: "doy = doe - (365 * yoe + yoe div 4 - yoe div 100)" and mp: "mp = (5 * doy + 2) div 153"
  shows "yoe + era * 400 = march_year y m" and "mp = march_month m" and "doy - (153 * mp + 2) div 5 + 1 = d"
    and "doe < 146097" and "yoe < 400" and "doy < 366" and "365 * yoe + yoe div 4 - yoe div 100 \<le> doe" and "doy = march_day m d"
proof -
  obtain e c q r where y: "march_year y m = 400 * e + 100 * c + 4 * q + r" and b: "c \<le> 3" "q \<le> 24" "r \<le> 3" by (rule era_decompose)
  note ey = era_year [OF y b] and dm = day_of_march_year [OF v]
  define doe' where "doe' = 36524 * c + 1461 * q + 365 * r + march_day m d"
  note yo = year_of_era [OF b dm(1) _ doe'_def, OF dm(2) [unfolded ey(2)]]
  have "z = doe' + e * 146097" using z day_number_march [OF v] ey(1) by (simp add: doe'_def)
  then have e: "era = e" "doe = doe'" using yo(1) era doe by simp_all
  then have yy: "yoe = 100 * c + 4 * q + r" using yoe yo(2) by simp
  have "yoe div 4 = 25 * c + q" "yoe div 100 = c" using yy b by simp_all
  then have off: "365 * yoe + yoe div 4 - yoe div 100 = 36524 * c + 1461 * q + 365 * r" using yy by simp
  then have dd: "doy = march_day m d" using doy e(2) by (simp add: doe'_def)
  show "doy = march_day m d" by (rule dd)
  show "yoe + era * 400 = march_year y m" using yy e y by simp
  show m: "mp = march_month m" using mp dd dm(3) by simp
  show "doy - (153 * mp + 2) div 5 + 1 = d" using m dd dm(4) by simp
  show "doe < 146097" "yoe < 400" "doy < 366" using e yo(1) yy b dd dm(1) by simp_all
  show "365 * yoe + yoe div 4 - yoe div 100 \<le> doe" unfolding off e(2) doe'_def by simp
qed

section \<open>Counting up\<close>

lemma leap_is_leap: "leap y \<longleftrightarrow> is_leap (unat y)"
proof -
  have "0 = y mod k \<longleftrightarrow> unat y mod unat k = 0" for k by (metis unat_eq_zero unat_mod)
  from this [of 4] this [of 100] this [of 400] show ?thesis by (auto simp: leap_def is_leap_def)
qed

lemma years_sum:
  assumes "n \<le> 65536"
  shows "fold (\<lambda>y val. val + gSecondsInDay * (if leap (of_nat y) then 366 else 365)) [1970..<n] 0 = of_nat (86400 * days_before_year n)"
  using assms
proof (induction n)
  case 0
  then show ?case by (simp add: days_before_year.simps)
next
  case (Suc n)
  show ?case
  proof (cases "1970 \<le> n")
    case True
    have "leap (of_nat n) \<longleftrightarrow> is_leap n" using Suc.prems by (simp add: leap_is_leap unat_of_nat)
    moreover have "days_before_year (Suc n) = days_before_year n + (if is_leap n then 366 else 365)" using True by (simp add: days_before_year.simps)
    ultimately show ?thesis using Suc True by (simp add: gSecondsInDay_def algebra_simps)
  next
    case False
    then show ?thesis by (simp add: days_before_year.simps)
  qed
qed

lemma month_table:
  assumes "1 \<le> m" and "m \<le> 12"
  shows "ucast ((if is_leap y then gLeapDays else gDays) ! m) = (of_nat (month_days y m) :: u64)"
  using month_cases [OF assms] by (elim disjE) (simp_all add: gLeapDays_def gDays_def month_days_def nth_Cons' del: One_nat_def)

lemma months_sum:
  assumes "days = (if is_leap y then gLeapDays else gDays)" and "1 \<le> m" and "m \<le> 12"
  shows "kfold (\<lambda>m val. if m \<ge> length days then Inl OutOfBounds else Inr (val + gSecondsInDay * ucast (days ! m))) [1..<m] v
    = Inr (v + of_nat (86400 * days_before_month y m))"
  using assms(2,3)
proof (induction m rule: dec_induct)
  case base
  then show ?case by (simp add: days_before_month.simps)
next
  case (step m)
  have l: "length days = 13" using assms(1) by (simp add: gLeapDays_def gDays_def)
  have "(ucast (days ! m) :: u64) = of_nat (month_days y m)" using month_table [of m y] step assms(1) by simp
  moreover have "days_before_month y (Suc m) = days_before_month y m + month_days y m" using days_before_month_step [of m y] step(1) by simp
  ultimately show ?case using step l by (simp add: kfold_append gSecondsInDay_def algebra_simps)
qed

lemma date_epoch:
  assumes "valid_date (unat (dc_year cs)) (unat (dc_month cs)) (unat (dc_day cs))"
  shows "date_components_to_epoch cs = Inr (of_nat (86400 * day_number (unat (dc_year cs)) (unat (dc_month cs)) (unat (dc_day cs))))"
proof -
  have v: "1 \<le> unat (dc_month cs)" "unat (dc_month cs) \<le> 12" "1 \<le> unat (dc_day cs)" using assms by (auto simp: valid_date_def)
  have "unat (dc_year cs) < 2 ^ LENGTH(16)" by (rule unsigned_less)
  then have y: "unat (dc_year cs) \<le> 65536" by simp
  have "(ucast (dc_day cs) - 1 :: u64) = of_nat (unat (dc_day cs) - 1)" using v(3) by (simp add: of_nat_diff)
  then show ?thesis
    unfolding date_components_to_epoch_def Let_def leap_is_leap [of "dc_year cs"] years_sum [OF y] months_sum [OF refl v(1,2)]
    by (simp add: day_number_def gSecondsInDay_def distrib_left mult.commute)
qed

lemma time_epoch:
  "time_components_to_epoch cs = of_nat (unat (tc_second cs) + 60 * (unat (tc_minute cs) + 60 * unat (tc_hour cs)))"
  by (simp add: time_components_to_epoch_def)

section \<open>Counting back\<close>

lemma u64_arith:
  fixes x y :: u64
  shows "unat x + unat y < 2 ^ 64 \<Longrightarrow> unat (x + y) = unat x + unat y"
    and "unat x * unat y < 2 ^ 64 \<Longrightarrow> unat (x * y) = unat x * unat y"
    and "unat y \<le> unat x \<Longrightarrow> unat (x - y) = unat x - unat y"
  by (simp_all add: unat_word_ariths unat_sub word_le_nat_alt)

lemma unat_of_nat_u64: "n < 2 ^ 64 \<Longrightarrow> unat (of_nat n :: u64) = n"
  by (simp add: unat_of_nat)

lemma ucast_unat: "unat w = n \<Longrightarrow> ucast w = of_nat n"
  by (metis of_nat_unat)

lemma day_number_bound: "valid_date y m d \<Longrightarrow> y \<le> 65535 \<Longrightarrow> day_number y m d + 719468 < 24000000"
proof -
  assume v: "valid_date y m d" and y: "y \<le> 65535"
  have "march_days k \<le> 366 * k" for k by (induction k) (simp_all add: march_days_Suc, simp add: march_days_def)
  then have "march_days (march_year y m) \<le> 366 * march_year y m" .
  moreover have "march_year y m \<le> 65535" using y by (auto simp: march_year_def)
  ultimately show ?thesis using day_number_march [OF v] day_of_march_year(1) [OF v] by linarith
qed

lemma components_of_epoch:
  assumes v: "valid_date y m d" and y: "y \<le> 65535" and t: "h < 24" "mi < 60" "s < 60"
    and x: "x = of_nat (86400 * day_number y m d + (s + 60 * (mi + 60 * h)))"
  shows "epoch_to_time_and_date_components x =
    (\<lparr>dc_day = of_nat d, dc_month = of_nat m, dc_year = of_nat y\<rparr>, \<lparr>tc_hour = of_nat h, tc_minute = of_nat mi, tc_second = of_nat s\<rparr>)"
proof -
  define k where "k = s + 60 * (mi + 60 * h)"
  have k: "k < 86400" using t by (simp add: k_def)
  define D where "D = day_number y m d"
  have D: "D + 719468 < 24000000" using day_number_bound [OF v y] by (simp add: D_def)
  have ux: "unat x = 86400 * D + k"
    unfolding x D_def [symmetric] k_def [symmetric] by (rule unat_of_nat_u64) (use D k in simp)
  have wc: "unat (x mod gSecondsInDay) = k" using ux k by (simp add: unat_mod gSecondsInDay_def)
  define z where "z = x div gSecondsInDay + 719468"
  have "unat (x div gSecondsInDay) = D" using ux k by (simp add: unat_div gSecondsInDay_def)
  then have z: "unat z = D + 719468" using D by (simp add: z_def u64_arith)
  define era where "era = z div 146097"
  have era: "unat era = unat z div 146097" by (simp add: era_def unat_div)
  define doe where "doe = z - era * 146097"
  have em: "unat (era * 146097) = unat era * 146097" using era z D by (subst u64_arith) simp_all
  have doe: "unat doe = unat z - unat era * 146097" using em era by (simp add: doe_def u64_arith)
  define yoe where "yoe = (doe - doe div 1460 + doe div 36524 - doe div 146096) div 365"
  have a: "unat doe < 146097" unfolding doe era by (simp add: minus_div_mult_eq_mod)
  have yoe: "unat yoe = (unat doe - unat doe div 1460 + unat doe div 36524 - unat doe div 146096) div 365"
  proof -
    have "unat (doe - doe div 1460) = unat doe - unat doe div 1460" by (simp add: u64_arith unat_div)
    then have "unat (doe - doe div 1460 + doe div 36524) = unat doe - unat doe div 1460 + unat doe div 36524"
      using a by (subst u64_arith) (simp_all add: unat_div)
    moreover have "unat doe div 146096 \<le> unat doe - unat doe div 1460 + unat doe div 36524"
      using div_le_mono2 [of 36524 146096 "unat doe"] by simp
    ultimately show ?thesis by (simp add: yoe_def unat_div u64_arith)
  qed
  note c = civil_from_days [OF v _ era doe yoe refl refl, folded D_def, OF z]
  define doy where "doy = doe - (365 * yoe + yoe div 4 - yoe div 100)"
  have doy: "unat doy = unat doe - (365 * unat yoe + unat yoe div 4 - unat yoe div 100)"
  proof -
    have "unat (365 * yoe) = 365 * unat yoe" using c(5) by (subst u64_arith) simp_all
    then have "unat (365 * yoe + yoe div 4) = 365 * unat yoe + unat yoe div 4" using c(5) by (subst u64_arith) (simp_all add: unat_div)
    then have "unat (365 * yoe + yoe div 4 - yoe div 100) = 365 * unat yoe + unat yoe div 4 - unat yoe div 100"
      by (subst u64_arith) (simp_all add: unat_div trans_le_add1)
    then show ?thesis using c(7) by (simp add: doy_def u64_arith)
  qed
  note c = c [folded doy]
  define mp where "mp = (5 * doy + 2) div 153"
  have "unat (5 * doy) = 5 * unat doy" using c(6) by (subst u64_arith) simp_all
  then have "unat (5 * doy + 2) = 5 * unat doy + 2" using c(6) by (subst u64_arith) simp_all
  then have mp: "unat mp = march_month m" using c(2) by (simp add: mp_def unat_div)
  have m: "1 \<le> m" "m \<le> 12" "1970 \<le> y" using v by (auto simp: valid_date_def)
  have day: "ucast (doy - (153 * mp + 2) div 5 + 1) = (of_nat d :: u8)"
  proof (rule ucast_unat)
    have small: "march_month m \<le> 11" using m by (auto simp: march_month_def)
    have "unat (153 * mp) = 153 * march_month m" using mp small by (subst u64_arith) simp_all
    then have off: "unat ((153 * mp + 2) div 5) = (153 * march_month m + 2) div 5"
      using small by (subst unat_div, subst u64_arith) simp_all
    have "unat doy = march_day m d" by (rule c(8))
    then have "unat (doy - (153 * mp + 2) div 5) = unat doy - (153 * march_month m + 2) div 5"
      using off by (subst u64_arith) (simp_all add: march_day_def)
    then show "unat (doy - (153 * mp + 2) div 5 + 1) = d" using c(2,3,6) by (subst u64_arith) simp_all
  qed
  have month: "ucast (mp + (if mp < 10 then 3 else - 9)) = (of_nat m :: u8)"
  proof -
    have w: "mp = of_nat (march_month m)" using mp by (metis of_nat_unat ucast_id)
    have "mp < 10 \<longleftrightarrow> march_month m < 10" using mp by (simp add: word_less_nat_alt)
    then have "mp + (if mp < 10 then 3 else - 9) = of_nat m" using m w by (auto simp: march_month_def of_nat_diff)
    then show ?thesis using m by (simp add: ucast_unat unat_of_nat)
  qed
  have year: "ucast (yoe + era * 400) + (if (of_nat m :: u8) \<le> 2 then 1 else 0) = (of_nat y :: u16)"
  proof -
    have "unat era < 200" using era z D by simp
    then have "unat (era * 400) = unat era * 400" by (subst u64_arith) simp_all
    then have "unat (yoe + era * 400) = march_year y m" using c(1,5) \<open>unat era < 200\<close> by (subst u64_arith) simp_all
    then have "ucast (yoe + era * 400) = (of_nat (march_year y m) :: u16)" by (rule ucast_unat)
    moreover have "(of_nat m :: u8) \<le> 2 \<longleftrightarrow> m \<le> 2" using m by (simp add: word_le_nat_alt unat_of_nat)
    ultimately show ?thesis using m by (simp add: march_year_def of_nat_diff)
  qed
  have time: "ucast (x mod gSecondsInDay mod 60) = (of_nat s :: u8)" "ucast (x mod gSecondsInDay div 60 mod 60) = (of_nat mi :: u8)"
    "ucast (x mod gSecondsInDay div 60 div 60) = (of_nat h :: u8)"
  proof -
    define p where "p = x mod gSecondsInDay"
    have p: "unat p = k" using wc by (simp add: p_def)
    have kd: "k mod 60 = s" "k div 60 = mi + 60 * h" using t by (simp_all add: k_def del: distrib_left_numeral)
    show "ucast (p mod 60) = (of_nat s :: u8)" "ucast (p div 60 mod 60) = (of_nat mi :: u8)" "ucast (p div 60 div 60) = (of_nat h :: u8)"
      using t by (simp_all add: ucast_unat unat_mod unat_div p kd)
  qed
  show ?thesis
    unfolding epoch_to_time_and_date_components_def Let_def
    by (simp only: z_def [symmetric] era_def [symmetric] doe_def [symmetric] yoe_def [symmetric] doy_def [symmetric] mp_def [symmetric]
      day month year time)
qed

section \<open>Every second has a date\<close>

lemma next_day:
  assumes "valid_date y m d" and "d < month_days y m \<or> m < 12 \<or> y < Y" and "y \<le> Y"
  obtains y' m' d' where "valid_date y' m' d'" and "y' \<le> Y" and "day_number y' m' d' = Suc (day_number y m d)"
proof -
  have v: "1970 \<le> y" "1 \<le> m" "m \<le> 12" "1 \<le> d" "d \<le> month_days y m" using assms(1) by (auto simp: valid_date_def)
  have pos: "1 \<le> month_days y' m'" for y' m' by (simp add: month_days_def)
  consider "d < month_days y m" | "d = month_days y m" "m < 12" | "d = month_days y m" "m = 12" using v by linarith
  then show ?thesis
  proof cases
    case 1
    then show ?thesis using that [of y m "d + 1"] v assms(3) by (simp add: valid_date_def day_number_def)
  next
    case 2
    then show ?thesis using that [of y "m + 1" 1] v assms(3) pos days_before_month_step [of m y]
      by (simp add: valid_date_def day_number_def)
  next
    case 3
    have "days_before_year (y + 1) = days_before_year y + (if is_leap y then 366 else 365)" using v(1) by (simp add: days_before_year.simps)
    moreover have "d = 31" using 3 by (simp add: month_days_def)
    moreover have "days_before_month (y + 1) 1 = 0" by (rule days_before_month_table)
    moreover have "days_before_month y 12 = (if is_leap y then 335 else 334)" by (rule days_before_month_table)
    ultimately show ?thesis using that [of "y + 1" 1 1] 3 v assms(2,3) pos by (simp add: valid_date_def day_number_def split: if_splits)
  qed
qed

lemma every_day:
  assumes "n < 23217004"
  shows "\<exists>y m d. valid_date y m d \<and> y \<le> 65535 \<and> day_number y m d = n"
  using assms
proof (induction n)
  case 0
  have "valid_date 1970 1 1" "day_number 1970 1 1 = 0"
    by (simp_all add: valid_date_def month_days_def day_number_def days_before_year.simps days_before_month.simps)
  then show ?case by (intro exI [of _ 1970] exI [of _ 1]) simp
next
  case (Suc n)
  then obtain y m d where v: "valid_date y m d" "y \<le> 65535" "day_number y m d = n" by auto
  have "d < month_days y m \<or> m < 12 \<or> y < 65535"
  proof (rule ccontr)
    assume "\<not> ?thesis"
    then have e: "y = 65535" "m = 12" "d = 31" using v(1,2) by (auto simp: valid_date_def month_days_def)
    then have "n + 719468 = march_days 65535 + march_day 12 31" using day_number_march [OF v(1)] v(3) by (simp add: march_year_def)
    then show False using Suc.prems by (simp add: march_days_def march_day_def march_month_def)
  qed
  then show ?case using next_day [OF v(1) _ v(2)] v(3) by metis
qed

section \<open>Round trips\<close>

definition valid_components :: "date_components_t \<Rightarrow> time_components_t \<Rightarrow> bool" where
  "valid_components dc tc \<longleftrightarrow> valid_date (unat (dc_year dc)) (unat (dc_month dc)) (unat (dc_day dc))
     \<and> tc_hour tc < 24 \<and> tc_minute tc < 60 \<and> tc_second tc < 60"

lemma components_round_trip:
  assumes "valid_components dc tc"
  shows "\<exists>v. date_components_to_epoch dc = Inr v \<and> epoch_to_time_and_date_components (v + time_components_to_epoch tc) = (dc, tc)"
proof -
  have v: "valid_date (unat (dc_year dc)) (unat (dc_month dc)) (unat (dc_day dc))"
    and t: "unat (tc_hour tc) < 24" "unat (tc_minute tc) < 60" "unat (tc_second tc) < 60"
    using assms by (auto simp: valid_components_def word_less_nat_alt)
  have "unat (dc_year dc) < 2 ^ LENGTH(16)" by (rule unsigned_less)
  then have y: "unat (dc_year dc) \<le> 65535" by simp
  define w where "w = of_nat (86400 * day_number (unat (dc_year dc)) (unat (dc_month dc)) (unat (dc_day dc))) + time_components_to_epoch tc"
  have w: "w = of_nat (86400 * day_number (unat (dc_year dc)) (unat (dc_month dc)) (unat (dc_day dc))
    + (unat (tc_second tc) + 60 * (unat (tc_minute tc) + 60 * unat (tc_hour tc))))"
    unfolding w_def time_epoch by (simp only: of_nat_add)
  show ?thesis using components_of_epoch [OF v y t w] date_epoch [OF v] by (simp add: w_def)
qed

lemma epoch_round_trip:
  assumes "x < (2005949145600 :: u64)"
  shows "\<exists>dc tc v. epoch_to_time_and_date_components x = (dc, tc) \<and> valid_components dc tc
    \<and> date_components_to_epoch dc = Inr v \<and> v + time_components_to_epoch tc = x"
proof -
  define n where "n = unat x div 86400"
  define k where "k = unat x mod 86400"
  have "n < 23217004" using assms by (simp add: word_less_nat_alt n_def less_mult_imp_div_less)
  then obtain y m d where v: "valid_date y m d" "y \<le> 65535" "day_number y m d = n" using every_day by blast
  have "d \<le> 31" "m \<le> 12" using v(1) by (auto simp: valid_date_def month_days_def split: if_splits)
  define dc where "dc = \<lparr>dc_day = of_nat d, dc_month = of_nat m, dc_year = of_nat y\<rparr>"
  define tc where "tc = \<lparr>tc_hour = of_nat (k div 60 div 60), tc_minute = of_nat (k div 60 mod 60), tc_second = of_nat (k mod 60)\<rparr>"
  have dc: "unat (dc_year dc) = y" "unat (dc_month dc) = m" "unat (dc_day dc) = d"
    using v(2) \<open>d \<le> 31\<close> \<open>m \<le> 12\<close> by (simp_all add: dc_def unat_of_nat)
  have "k < 86400" by (simp add: k_def)
  then have "k div 60 div 60 < 24" by (simp add: less_mult_imp_div_less)
  then have tc: "unat (tc_hour tc) = k div 60 div 60" "unat (tc_minute tc) = k div 60 mod 60" "unat (tc_second tc) = k mod 60"
    by (simp_all add: tc_def unat_of_nat)
  have "valid_components dc tc" using v(1) dc tc \<open>k div 60 div 60 < 24\<close> by (simp add: valid_components_def word_less_nat_alt)
  moreover have de: "date_components_to_epoch dc = Inr (of_nat (86400 * n))" using date_epoch [of dc] v(1,3) dc by simp
  moreover have "of_nat (86400 * n) + time_components_to_epoch tc = x"
  proof -
    have "k = k mod 60 + 60 * (k div 60 mod 60 + 60 * (k div 60 div 60))" by simp
    then have "time_components_to_epoch tc = of_nat k" unfolding time_epoch tc by metis
    moreover have "unat x = 86400 * n + k" by (simp add: n_def k_def)
    ultimately show ?thesis by (metis of_nat_add of_nat_unat ucast_id)
  qed
  ultimately show ?thesis using components_round_trip [of dc tc] by auto
qed

text \<open>
  C26: the conversions between dates and seconds since 1970 are inverse, over the whole range of a
  16-bit year: every valid date and time of day from 1970 to 65535 converts to a timestamp, without
  reading past the table of months, and back to itself; and every timestamp before the year 65536
  converts to a valid date and time, and back to itself.
\<close>

theorem calendar_round_trip:
  "(valid_components dc tc \<longrightarrow>
      (\<exists>v. date_components_to_epoch dc = Inr v \<and> epoch_to_time_and_date_components (v + time_components_to_epoch tc) = (dc, tc)))
   \<and> (x < 2005949145600 \<longrightarrow>
      (\<exists>dc tc v. epoch_to_time_and_date_components x = (dc, tc) \<and> valid_components dc tc
        \<and> date_components_to_epoch dc = Inr v \<and> v + time_components_to_epoch tc = x))"
  using components_round_trip epoch_round_trip by blast

theorem calendar_round_trip_witness:
  "valid_components \<lparr>dc_day = 29, dc_month = 2, dc_year = 2020\<rparr> \<lparr>tc_hour = 23, tc_minute = 59, tc_second = 59\<rparr>
   \<and> (1583020799 :: u64) < 2005949145600
   \<and> (\<exists>dc tc v. epoch_to_time_and_date_components 1583020799 = (dc, tc) \<and> date_components_to_epoch dc = Inr v
        \<and> v + time_components_to_epoch tc = 1583020799)"
proof -
  have "valid_components \<lparr>dc_day = 29, dc_month = 2, dc_year = 2020\<rparr> \<lparr>tc_hour = 23, tc_minute = 59, tc_second = 59\<rparr>"
    by (simp add: valid_components_def valid_date_def month_days_def is_leap_def)
  moreover have "(1583020799 :: u64) < 2005949145600" by simp
  ultimately show ?thesis
    using calendar_round_trip [of "\<lparr>dc_day = 29, dc_month = 2, dc_year = 2020\<rparr>" "\<lparr>tc_hour = 23, tc_minute = 59, tc_second = 59\<rparr>" 1583020799]
    by blast
qed

end
