(* ===== verification/Time_Manager.thy ===== *)
theory Time_Manager
  imports Calendar
begin

text \<open>
  The time manager (\<open>src/kernel/include/time/manager.h\<close>, \<open>src/kernel/src/time/manager.cpp\<close>,
  \<open>src/kernel/src/time/callback.cpp\<close>) and the real-time clock that gives it the date at boot and
  its seconds (\<open>src/kernel/src/drivers/rtc/rtc.cpp\<close>). A tick handler is a function pointer with its
  baton; what a call does to the rest of the kernel is the parameter \<open>run\<close>. The registers of the
  clock are a function from their number to their value.
\<close>

section \<open>Tick handlers\<close>

record time_tick_callback_t =
  cb_func :: nat
  cb_baton :: nat

definition cb_set :: "nat \<Rightarrow> nat \<Rightarrow> time_tick_callback_t \<Rightarrow> time_tick_callback_t" where
  "cb_set f b c = c\<lparr>cb_func := f, cb_baton := b\<rparr>"

definition cb_clear :: "time_tick_callback_t \<Rightarrow> time_tick_callback_t" where
  "cb_clear c = cb_set 0 0 c"

definition cb_valid :: "time_tick_callback_t \<Rightarrow> bool" where
  "cb_valid c \<longleftrightarrow> cb_func c \<noteq> 0"

type_synonym 'w runner = "nat \<Rightarrow> u64 \<Rightarrow> nat \<Rightarrow> 'w \<Rightarrow> bool \<times> 'w"

definition cb_run :: "'w runner \<Rightarrow> time_tick_callback_t \<Rightarrow> u64 \<Rightarrow> 'w \<Rightarrow> bool \<times> 'w" where
  "cb_run run c n w = (if cb_func c \<noteq> 0 then run (cb_func c) n (cb_baton c) w else (False, w))"

record tick_handler =
  th_callback :: time_tick_callback_t
  th_every_N :: u32
  th_every_countdown :: u32

record TimeManager =
  tm_millis :: u64
  tm_bootDuration :: u64
  tm_unix :: u64
  tm_handlers :: "tick_handler list"
  tm_source :: string
  tm_millisPerTick :: u32

definition gMaxTickFunctions :: nat where
  "gMaxTickFunctions = 10"

definition no_handler :: tick_handler where
  "no_handler = \<lparr>th_callback = \<lparr>cb_func = 0, cb_baton = 0\<rparr>, th_every_N = 0, th_every_countdown = 0\<rparr>"

definition tm_new :: TimeManager where
  "tm_new = \<lparr>tm_millis = 0, tm_bootDuration = 0, tm_unix = 0, tm_handlers = replicate gMaxTickFunctions no_handler,
     tm_source = [], tm_millisPerTick = 0\<rparr>"

definition registerTimeSource :: "string \<Rightarrow> u32 \<Rightarrow> TimeManager \<Rightarrow> TimeManager" where
  "registerTimeSource name ms tm = tm\<lparr>tm_source := name, tm_millisPerTick := ms\<rparr>"

definition handler_tick :: "'w runner \<Rightarrow> u64 \<Rightarrow> nat \<Rightarrow> tick_handler list \<times> bool \<times> 'w \<Rightarrow> tick_handler list \<times> bool \<times> 'w" where
  "handler_tick run new_count i = (\<lambda>(funcs, want_yield, w).
     let ti = funcs ! i in
     if cb_valid (th_callback ti) then
       if 0 = th_every_countdown ti then
         let (vote, w) = cb_run run (th_callback ti) new_count w;
             want_yield = (if vote then True else want_yield) in
         (funcs[i := ti\<lparr>th_every_countdown := th_every_N ti\<rparr>], want_yield, w)
       else (funcs[i := ti\<lparr>th_every_countdown := th_every_countdown ti - 1\<rparr>], want_yield, w)
     else (funcs, want_yield, w))"

definition tick :: "'w runner \<Rightarrow> TimeManager \<times> 'w \<Rightarrow> (bool \<times> TimeManager \<times> 'w) kernel" where
  "tick run = (\<lambda>(tm, w).
     if tm_millisPerTick tm = 0 then Inl (Panic ''TimeManager asked to tick without a known time source'')
     else
       let new_count = tm_millis tm + ucast (tm_millisPerTick tm);
           (funcs, want_yield, w) = fold (handler_tick run new_count) [0..<gMaxTickFunctions] (tm_handlers tm, False, w) in
       Inr (want_yield, tm\<lparr>tm_millis := new_count, tm_handlers := funcs\<rparr>, w))"

fun free_handler :: "nat \<Rightarrow> tick_handler list \<Rightarrow> nat option" where
  "free_handler i [] = None"
| "free_handler i (th # ths) = (if cb_valid (th_callback th) then free_handler (Suc i) ths else Some i)"

definition registerTickHandler :: "nat \<Rightarrow> nat \<Rightarrow> u32 \<Rightarrow> TimeManager \<Rightarrow> u32 \<times> TimeManager" where
  "registerTickHandler f baton every_N tm =
     (case free_handler 0 (tm_handlers tm) of
        Some i \<Rightarrow>
          let th = tm_handlers tm ! i;
              th = th\<lparr>th_every_N := every_N, th_every_countdown := every_N, th_callback := cb_set f baton (th_callback th)\<rparr> in
          (of_nat i, tm\<lparr>tm_handlers := (tm_handlers tm)[i := th]\<rparr>)
      | None \<Rightarrow> (- 1, tm))"

definition unregisterTickHandler :: "u32 \<Rightarrow> TimeManager \<Rightarrow> TimeManager" where
  "unregisterTickHandler i tm =
     (if i = - 1 then tm
      else if unat i \<ge> gMaxTickFunctions then tm
      else
        let th = tm_handlers tm ! unat i in
        tm\<lparr>tm_handlers := (tm_handlers tm)[unat i := th\<lparr>th_callback := cb_clear (th_callback th)\<rparr>]\<rparr>)"

definition millisUptime :: "TimeManager \<Rightarrow> u64" where
  "millisUptime tm = tm_millis tm"

definition UNIXtime :: "TimeManager \<Rightarrow> u64" where
  "UNIXtime tm = tm_unix tm"

definition UNIXtimeIncrement :: "u64 \<Rightarrow> TimeManager \<Rightarrow> TimeManager" where
  "UNIXtimeIncrement seconds tm = tm\<lparr>tm_unix := tm_unix tm + seconds\<rparr>"

definition bootCompleted :: "TimeManager \<Rightarrow> TimeManager" where
  "bootCompleted tm = tm\<lparr>tm_bootDuration := tm_millis tm\<rparr>"

definition millisBootTime :: "TimeManager \<Rightarrow> u64" where
  "millisBootTime tm = tm_bootDuration tm"

section \<open>The real-time clock\<close>

record cmos_now_t =
  cm_time :: time_components_t
  cm_date :: date_components_t

definition cmos_eq :: "cmos_now_t \<Rightarrow> cmos_now_t \<Rightarrow> bool" where
  "cmos_eq m n \<longleftrightarrow>
     (dc_day (cm_date n) = dc_day (cm_date m) \<and> dc_month (cm_date n) = dc_month (cm_date m) \<and> dc_year (cm_date n) = dc_year (cm_date m))
     \<and> (tc_second (cm_time n) = tc_second (cm_time m) \<and> tc_minute (cm_time n) = tc_minute (cm_time m) \<and> tc_hour (cm_time n) = tc_hour (cm_time m))"

definition timestamp :: "cmos_now_t \<Rightarrow> u64 kernel" where
  "timestamp n =
     kbind (date_components_to_epoch (cm_date n)) (\<lambda>d. Inr (d + time_components_to_epoch (cm_time n)))"

definition rtc_now :: "(u8 \<Rightarrow> u8) \<Rightarrow> cmos_now_t" where
  "rtc_now reg =
     \<lparr>cm_time = \<lparr>tc_hour = reg 4, tc_minute = reg 2, tc_second = reg 0\<rparr>,
      cm_date = \<lparr>dc_day = reg 7, dc_month = reg 8, dc_year = ucast (reg 9)\<rparr>\<rparr>"

text \<open>
  The constructor reads the registers until two readings agree; \<open>regs k\<close> are the registers at the
  \<open>k\<close>-th reading.
\<close>

fun rtc_read :: "nat \<Rightarrow> (nat \<Rightarrow> u8 \<Rightarrow> u8) \<Rightarrow> nat \<Rightarrow> cmos_now_t kernel" where
  "rtc_read fuel regs k =
     (case fuel of
        0 \<Rightarrow> Inl Diverges
      | Suc fuel \<Rightarrow>
          let now1 = rtc_now (regs k); now2 = rtc_now (regs (Suc k)) in
          if cmos_eq now1 now2 then Inr now1 else rtc_read fuel regs (Suc (Suc k)))"

declare rtc_read.simps [simp del]

definition BCD_TO_BINARY :: "'a::len word \<Rightarrow> 'a word" where
  "BCD_TO_BINARY bcd = (bcd AND 0x0F) + (bcd div 16) * 10"

definition rtc_decode :: "u8 \<Rightarrow> cmos_now_t \<Rightarrow> cmos_now_t" where
  "rtc_decode regb rightnow =
     (let militarytime = (0 \<noteq> regb AND 2);
          binary = (0 \<noteq> regb AND 4) in
      if \<not> binary then
        let t = cm_time rightnow; d = cm_date rightnow;
            t = \<lparr>tc_hour = BCD_TO_BINARY (tc_hour t), tc_minute = BCD_TO_BINARY (tc_minute t), tc_second = BCD_TO_BINARY (tc_second t)\<rparr>;
            d = \<lparr>dc_day = BCD_TO_BINARY (dc_day d), dc_month = BCD_TO_BINARY (dc_month d), dc_year = BCD_TO_BINARY (dc_year d)\<rparr>;
            t = (if \<not> militarytime then
                   if tc_hour t = 12 then t\<lparr>tc_hour := 0\<rparr>
                   else if tc_hour t AND 0x80 \<noteq> 0 then t\<lparr>tc_hour := 12 + (tc_hour t AND 0x7F)\<rparr>
                   else t
                 else t);
            d = (if dc_year d \<ge> 18 then d\<lparr>dc_year := dc_year d + 2000\<rparr> else d\<lparr>dc_year := dc_year d + 2100\<rparr>) in
        \<lparr>cm_time = t, cm_date = d\<rparr>
      else rightnow)"

definition rtc_boot :: "nat \<Rightarrow> u8 \<Rightarrow> (nat \<Rightarrow> u8 \<Rightarrow> u8) \<Rightarrow> TimeManager \<Rightarrow> TimeManager kernel" where
  "rtc_boot fuel regb regs tm =
     kbind (rtc_read fuel regs 0) (\<lambda>rightnow.
     kbind (timestamp (rtc_decode regb rightnow)) (\<lambda>gBoot_RTC_Timestamp.
     Inr (UNIXtimeIncrement gBoot_RTC_Timestamp tm)))"

text \<open>The clock interrupts twice a second; \<open>gIncrement\<close> alternates.\<close>

definition rtchandler :: "TimeManager \<times> u8 \<Rightarrow> TimeManager \<times> u8" where
  "rtchandler = (\<lambda>(tm, gIncrement). (UNIXtimeIncrement (ucast gIncrement) tm, 1 - gIncrement))"

section \<open>When handlers run\<close>

text \<open>The rest of the kernel as a log of the calls it received.\<close>

definition logging :: "(nat \<Rightarrow> u64 \<Rightarrow> nat \<Rightarrow> bool) \<Rightarrow> (nat \<times> nat \<times> u64) list runner" where
  "logging vote f n b w = (vote f n b, w @ [(f, b, n)])"

fun run_ticks :: "'w runner \<Rightarrow> nat \<Rightarrow> TimeManager \<times> 'w \<Rightarrow> (TimeManager \<times> 'w) kernel" where
  "run_ticks run 0 s = Inr s"
| "run_ticks run (Suc n) s = kbind (run_ticks run n s) (\<lambda>s. kbind (tick run s) (\<lambda>(vote, s). Inr s))"

definition handler_due :: "tick_handler \<Rightarrow> bool" where
  "handler_due h \<longleftrightarrow> cb_valid (th_callback h) \<and> th_every_countdown h = 0"

definition advance :: "tick_handler \<Rightarrow> tick_handler" where
  "advance h =
     (if cb_valid (th_callback h) then
        h\<lparr>th_every_countdown := if th_every_countdown h = 0 then th_every_N h else th_every_countdown h - 1\<rparr>
      else h)"

definition call_of :: "u64 \<Rightarrow> tick_handler \<Rightarrow> nat \<times> nat \<times> u64" where
  "call_of n h = (cb_func (th_callback h), cb_baton (th_callback h), n)"

lemma fold_handlers:
  "k \<le> length hs \<Longrightarrow> \<exists>v. fold (handler_tick (logging vote) c) [0..<k] (hs, y, w) =
    (map advance (take k hs) @ drop k hs, v, w @ map (call_of c) (filter handler_due (take k hs)))"
proof (induction k)
  case 0
  show ?case by simp
next
  case (Suc k)
  then obtain v where v: "fold (handler_tick (logging vote) c) [0..<k] (hs, y, w) =
    (map advance (take k hs) @ drop k hs, v, w @ map (call_of c) (filter handler_due (take k hs)))" by auto
  have k: "take (Suc k) hs = take k hs @ [hs ! k]" "drop k hs = hs ! k # drop (Suc k) hs" "(map advance (take k hs) @ drop k hs) ! k = hs ! k"
    using Suc.prems by (simp_all add: take_Suc_conv_app_nth Cons_nth_drop_Suc nth_append)
  have "\<exists>v'. handler_tick (logging vote) c k (map advance (take k hs) @ drop k hs, v, w @ map (call_of c) (filter handler_due (take k hs)))
    = (map advance (take k hs) @ advance (hs ! k) # drop (Suc k) hs, v', w @ map (call_of c) (filter handler_due (take k hs @ [hs ! k])))"
    unfolding handler_tick_def prod.case k(3)
    using Suc.prems k(2)
    by (auto simp: Let_def cb_run_def cb_valid_def logging_def handler_due_def advance_def call_of_def list_update_append)
  then show ?case using v k by simp
qed

lemma tick_logging:
  assumes "length (tm_handlers tm) = gMaxTickFunctions" and "tm_millisPerTick tm \<noteq> 0"
  shows "\<exists>v. tick (logging vote) (tm, w) = Inr (v,
    tm\<lparr>tm_millis := tm_millis tm + ucast (tm_millisPerTick tm), tm_handlers := map advance (tm_handlers tm)\<rparr>,
    w @ map (call_of (tm_millis tm + ucast (tm_millisPerTick tm))) (filter handler_due (tm_handlers tm)))"
  using fold_handlers [of gMaxTickFunctions "tm_handlers tm" vote "tm_millis tm + ucast (tm_millisPerTick tm)" False w] assms
  by (auto simp: tick_def Let_def)

definition mine :: "nat \<Rightarrow> nat \<Rightarrow> tick_handler \<Rightarrow> bool" where
  "mine f b h \<longleftrightarrow> cb_func (th_callback h) = f \<and> cb_baton (th_callback h) = b"

lemma filter_only_one:
  assumes "i < length hs" and "\<And>j. j < length hs \<Longrightarrow> j \<noteq> i \<Longrightarrow> \<not> P (hs ! j)"
  shows "filter P hs = (if P (hs ! i) then [hs ! i] else [])"
proof -
  have "filter P (take i hs) = []" using assms by (auto simp: filter_empty_conv in_set_conv_nth)
  moreover have "filter P (drop (Suc i) hs) = []" using assms by (auto simp: filter_empty_conv in_set_conv_nth)
  moreover have "filter P hs = filter P (take i hs) @ filter P [hs ! i] @ filter P (drop (Suc i) hs)"
    using id_take_nth_drop [OF assms(1)] by (metis append_Cons append_Nil filter_append)
  ultimately show ?thesis by simp
qed

text \<open>Slot \<open>i\<close> is the only one of the handler, and \<open>n\<close> ticks have passed since it was registered.\<close>

definition ticked :: "nat \<Rightarrow> nat \<Rightarrow> u32 \<Rightarrow> nat \<Rightarrow> nat \<Rightarrow> tick_handler list \<Rightarrow> bool" where
  "ticked f b N i n hs \<longleftrightarrow> length hs = gMaxTickFunctions \<and> i < gMaxTickFunctions \<and> f \<noteq> 0
     \<and> mine f b (hs ! i) \<and> th_every_N (hs ! i) = N \<and> unat (th_every_countdown (hs ! i)) = unat N - n mod Suc (unat N)
     \<and> (\<forall>j<gMaxTickFunctions. j \<noteq> i \<longrightarrow> cb_valid (th_callback (hs ! j)) \<longrightarrow> \<not> mine f b (hs ! j))"

lemma mod_last: "k \<le> n mod Suc k \<longleftrightarrow> n mod Suc k = k"
  using mod_Suc_le_divisor [of n k] by linarith

lemma ticked_due:
  assumes "ticked f b N i n hs"
  shows "filter (\<lambda>h. mine f b h \<and> handler_due h) hs = (if Suc n mod Suc (unat N) = 0 then [hs ! i] else [])"
proof -
  have "handler_due (hs ! i) \<longleftrightarrow> unat N - n mod Suc (unat N) = 0"
    using assms by (auto simp: ticked_def handler_due_def mine_def cb_valid_def unat_eq_zero)
  also have "\<dots> \<longleftrightarrow> n mod Suc (unat N) = unat N" by (simp add: mod_last)
  also have "\<dots> \<longleftrightarrow> Suc n mod Suc (unat N) = 0" by (auto simp: mod_Suc)
  finally have "handler_due (hs ! i) \<longleftrightarrow> Suc n mod Suc (unat N) = 0" .
  then show ?thesis
    using filter_only_one [of i hs "\<lambda>h. mine f b h \<and> handler_due h"] assms by (auto simp: ticked_def handler_due_def)
qed

lemma ticked_advance:
  assumes "ticked f b N i n hs"
  shows "ticked f b N i (Suc n) (map advance hs)"
proof -
  have v: "cb_valid (th_callback (hs ! i))" using assms by (auto simp: ticked_def mine_def cb_valid_def)
  have c: "unat (th_every_countdown (hs ! i)) = unat N - n mod Suc (unat N)" "th_every_N (hs ! i) = N" using assms by (auto simp: ticked_def)
  have "unat (th_every_countdown (advance (hs ! i))) = unat N - Suc n mod Suc (unat N)"
  proof (cases "th_every_countdown (hs ! i) = 0")
    case True
    then have "n mod Suc (unat N) = unat N" using c(1) by (simp add: mod_last)
    then show ?thesis using v True c(2) by (simp add: advance_def mod_Suc)
  next
    case False
    then have "unat N - n mod Suc (unat N) \<noteq> 0" using c(1) by (metis unat_eq_zero)
    then have "Suc n mod Suc (unat N) = Suc (n mod Suc (unat N))" by (simp add: mod_Suc)
    moreover have "unat (th_every_countdown (hs ! i) - 1) = unat (th_every_countdown (hs ! i)) - 1" using False by (simp add: unat_minus_one)
    ultimately show ?thesis using v False c by (simp add: advance_def)
  qed
  moreover have "mine f b (advance h) = mine f b h" "th_every_N (advance h) = th_every_N h" "cb_valid (th_callback (advance h)) = cb_valid (th_callback h)" for h
    by (simp_all add: mine_def advance_def)
  ultimately show ?thesis using assms by (auto simp: ticked_def)
qed

lemma multiples_snoc:
  "map g [1..<Suc (Suc n div Suc k)] = map g [1..<Suc (n div Suc k)] @ (if Suc n mod Suc k = 0 then [g (Suc n div Suc k)] else [])"
  by (simp add: div_Suc)

lemma multiples_div: "Suc n mod Suc k = 0 \<Longrightarrow> Suc n div Suc k * Suc k = Suc n"
  using div_mult_mod_eq [of "Suc n" "Suc k"] by linarith

lemma ticks_log:
  assumes "ticked f b N i 0 (tm_handlers tm)" and "tm_millisPerTick tm \<noteq> 0"
  shows "\<exists>tm' log. run_ticks (logging vote) n (tm, []) = Inr (tm', log) \<and> ticked f b N i n (tm_handlers tm')
    \<and> tm_millisPerTick tm' = tm_millisPerTick tm \<and> tm_millis tm' = tm_millis tm + of_nat n * ucast (tm_millisPerTick tm)
    \<and> filter (\<lambda>(f', b', t). f' = f \<and> b' = b) log =
        map (\<lambda>k. (f, b, tm_millis tm + of_nat (k * Suc (unat N)) * ucast (tm_millisPerTick tm))) [1..<Suc (n div Suc (unat N))]"
proof -
  define g where "g = (\<lambda>k. (f, b, tm_millis tm + of_nat (k * Suc (unat N)) * ucast (tm_millisPerTick tm)))"
  show ?thesis unfolding g_def [symmetric]
proof (induction n)
  case 0
  then show ?case using assms by simp
next
  case (Suc n)
  then obtain tm' log where IH: "run_ticks (logging vote) n (tm, []) = Inr (tm', log)" "ticked f b N i n (tm_handlers tm')"
    "tm_millisPerTick tm' = tm_millisPerTick tm" "tm_millis tm' = tm_millis tm + of_nat n * ucast (tm_millisPerTick tm)"
    "filter (\<lambda>(f', b', t). f' = f \<and> b' = b) log = map g [1..<Suc (n div Suc (unat N))]" by blast
  define c where "c = tm_millis tm' + ucast (tm_millisPerTick tm')"
  have c: "c = tm_millis tm + of_nat (Suc n) * ucast (tm_millisPerTick tm)" using IH(3,4) by (simp add: c_def algebra_simps)
  have gc: "(f, b, c) = g (Suc n div Suc (unat N))" if "Suc n mod Suc (unat N) = 0"
    unfolding g_def c multiples_div [OF that] ..
  define new where "new = map (call_of c) (filter handler_due (tm_handlers tm'))"
  obtain v where t: "tick (logging vote) (tm', log) = Inr (v, tm'\<lparr>tm_millis := c, tm_handlers := map advance (tm_handlers tm')\<rparr>, log @ new)"
    using tick_logging [of tm' vote log] IH(2,3) assms(2) by (auto simp: ticked_def c_def new_def)
  have "filter (\<lambda>(f', b', t). f' = f \<and> b' = b) new = map (call_of c) (filter (\<lambda>h. mine f b h \<and> handler_due h) (tm_handlers tm'))"
    by (simp add: new_def filter_map o_def call_of_def mine_def filter_filter conj_ac)
  also have "\<dots> = (if Suc n mod Suc (unat N) = 0 then [(f, b, c)] else [])"
    unfolding ticked_due [OF IH(2)] using IH(2) by (simp add: call_of_def ticked_def mine_def)
  finally have "filter (\<lambda>(f', b', t). f' = f \<and> b' = b) new = (if Suc n mod Suc (unat N) = 0 then [g (Suc n div Suc (unat N))] else [])"
    using gc by (simp cong: if_cong)
  then have "filter (\<lambda>(f', b', t). f' = f \<and> b' = b) (log @ new) = map g [1..<Suc (Suc n div Suc (unat N))]"
    using IH(5) multiples_snoc [of g n "unat N"] by simp
  then show ?case using IH t ticked_advance [OF IH(2)] c by auto
qed
qed

lemma free_handler_spec:
  "free_handler k hs = Some i \<Longrightarrow> k \<le> i \<and> i - k < length hs \<and> \<not> cb_valid (th_callback (hs ! (i - k)))"
  by (induction k hs rule: free_handler.induct) (auto simp: nth_Cons' split: if_splits)



section \<open>The time at boot\<close>

definition bcd :: "nat \<Rightarrow> u8" where
  "bcd n = of_nat (16 * (n div 10) + n mod 10)"

lemma BCD_TO_BINARY_bcd:
  assumes "n < 100"
  shows "BCD_TO_BINARY (bcd n) = of_nat n" and "BCD_TO_BINARY (ucast (bcd n) :: u16) = of_nat n"
proof -
  have l: "n div 10 < 10" "n mod 10 < 10" using assms by (simp_all add: less_mult_imp_div_less)
  define m where "m = 16 * (n div 10) + n mod 10"
  have m: "m < 160" "m div 16 = n div 10" "m mod 16 = n mod 10" using l by (simp_all add: m_def)
  have a: "m AND 15 = n mod 10" using m(3) take_bit_eq_mask [of 4 m] by (simp add: take_bit_eq_mod mask_eq_exp_minus_1)
  have u: "unat (bcd n) = m" using m(1) by (simp add: bcd_def m_def [symmetric] unat_of_nat)
  have "unat (BCD_TO_BINARY (bcd n)) = n"
    using u a m l by (simp add: BCD_TO_BINARY_def unat_word_ariths unsigned_and_eq unat_div)
  then show "BCD_TO_BINARY (bcd n) = of_nat n" by (metis of_nat_unat ucast_id)
  have u': "unat (ucast (bcd n) :: u16) = m" using u by (simp add: unsigned_ucast_eq take_bit_nat_eq_self m(1) less_trans [OF m(1)])
  have "unat (BCD_TO_BINARY (ucast (bcd n) :: u16)) = n"
    using u' a m l by (simp add: BCD_TO_BINARY_def unat_word_ariths unsigned_and_eq unat_div)
  then show "BCD_TO_BINARY (ucast (bcd n) :: u16) = of_nat n" by (metis of_nat_unat ucast_id)
qed

text \<open>What the registers of a clock in decimal mode hold: with a 12-hour clock, hours 1 to 12 and a flag for the afternoon.\<close>

definition hour_register :: "bool \<Rightarrow> nat \<Rightarrow> u8" where
  "hour_register military h =
     (if military then bcd h
      else bcd (if h mod 12 = 0 then 12 else h mod 12) OR (if h \<ge> 12 then 0x80 else 0))"

definition clock_registers :: "bool \<Rightarrow> date_components_t \<Rightarrow> time_components_t \<Rightarrow> u8 \<Rightarrow> u8" where
  "clock_registers military dc tc r =
     (if r = 0 then bcd (unat (tc_second tc))
      else if r = 2 then bcd (unat (tc_minute tc))
      else if r = 4 then hour_register military (unat (tc_hour tc))
      else if r = 7 then bcd (unat (dc_day dc))
      else if r = 8 then bcd (unat (dc_month dc))
      else if r = 9 then bcd (unat (dc_year dc) mod 100)
      else 0)"

text \<open>Hours by which an afternoon time is read too late.\<close>

definition hours_late :: "nat \<Rightarrow> nat" where
  "hours_late h = (if h < 12 then 0 else if h = 12 then 80 else 68)"

lemma twelve_hour_clock:
  assumes "h < 24"
  shows "(let t = BCD_TO_BINARY (hour_register False h) in
      if t = 12 then 0 else if t AND 0x80 \<noteq> 0 then 12 + (t AND 0x7F) else t) = of_nat (h + hours_late h)"
proof -
  have "list_all (\<lambda>h. (let t = BCD_TO_BINARY (hour_register False h) in
      if t = 12 then 0 else if t AND 0x80 \<noteq> 0 then 12 + (t AND 0x7F) else t) = of_nat (h + hours_late h)) [0..<24]"
    by code_simp
  then show ?thesis using assms by (simp add: list_all_iff)
qed

lemma two_digit_year:
  assumes "2018 \<le> y" and "y \<le> 2117"
  shows "(let d = of_nat (y mod 100) in if (d :: u16) \<ge> 18 then d + 2000 else d + 2100) = of_nat y"
proof -
  have *: "(18 :: u16) \<le> of_nat k \<longleftrightarrow> 18 \<le> k" if "k < 100" for k using that by (simp add: word_le_nat_alt unat_of_nat)
  show ?thesis
  proof (cases "y < 2100")
    case True
    then obtain k where k: "y = 2000 + k" "k < 100" "18 \<le> k" using assms(1) le_Suc_ex [of 2000 y] by auto
    have "y mod 100 = k" using mod_mult_self1 [of k 20 100] k by (simp add: add.commute)
    then show ?thesis using * [OF k(2)] k by (simp add: Let_def)
  next
    case False
    then obtain k where k: "y = 2100 + k" "k < 18" using assms(2) le_Suc_ex [of 2100 y] by auto
    have "y mod 100 = k" using mod_mult_self1 [of k 21 100] k by (simp add: add.commute)
    then show ?thesis using * [of k] k by (simp add: Let_def)
  qed
qed

lemma of_nat_unat_id: "of_nat (unat w) = (w :: 'a::len word)"
  by simp

lemma rtc_decode_registers:
  assumes v: "valid_components dc tc" and y: "2018 \<le> dc_year dc" "dc_year dc \<le> 2117" and b: "regb AND 4 = 0"
  shows "rtc_decode regb (rtc_now (clock_registers (regb AND 2 \<noteq> 0) dc tc)) =
    \<lparr>cm_time = tc\<lparr>tc_hour := if regb AND 2 \<noteq> 0 then tc_hour tc else of_nat (unat (tc_hour tc) + hours_late (unat (tc_hour tc)))\<rparr>, cm_date = dc\<rparr>"
proof -
  have t: "unat (tc_hour tc) < 24" "unat (tc_minute tc) < 60" "unat (tc_second tc) < 60"
    using v by (auto simp: valid_components_def word_less_nat_alt)
  have d: "unat (dc_month dc) \<le> 12" "unat (dc_day dc) \<le> 31"
    using v by (auto simp: valid_components_def valid_date_def month_days_def split: if_splits)
  have yy: "2018 \<le> unat (dc_year dc)" "unat (dc_year dc) \<le> 2117" using y by (simp_all add: word_le_nat_alt)
  have small: "unat (tc_minute tc) < 100" "unat (tc_second tc) < 100" "unat (tc_hour tc) < 100" "unat (dc_day dc) < 100" "unat (dc_month dc) < 100"
    using t d by simp_all
  have n: "rtc_now (clock_registers mil dc tc) =
    \<lparr>cm_time = \<lparr>tc_hour = hour_register mil (unat (tc_hour tc)), tc_minute = bcd (unat (tc_minute tc)), tc_second = bcd (unat (tc_second tc))\<rparr>,
     cm_date = \<lparr>dc_day = bcd (unat (dc_day dc)), dc_month = bcd (unat (dc_month dc)), dc_year = ucast (bcd (unat (dc_year dc) mod 100))\<rparr>\<rparr>" for mil
    by (simp add: rtc_now_def clock_registers_def)
  note eqs = small [THEN BCD_TO_BINARY_bcd(1), unfolded of_nat_unat_id]
  have ye: "(if (18 :: u16) \<le> BCD_TO_BINARY (ucast (bcd (unat (dc_year dc) mod 100))) then BCD_TO_BINARY (ucast (bcd (unat (dc_year dc) mod 100))) + 2000
    else BCD_TO_BINARY (ucast (bcd (unat (dc_year dc) mod 100))) + 2100) = dc_year dc"
    using two_digit_year [OF yy] BCD_TO_BINARY_bcd(2) [of "unat (dc_year dc) mod 100"] by (simp add: Let_def split: if_splits)
  have hr: "BCD_TO_BINARY (hour_register True (unat (tc_hour tc))) = tc_hour tc" using eqs(3) by (simp add: hour_register_def)
  define D where "D = BCD_TO_BINARY (ucast (bcd (unat (dc_year dc) mod 100)) :: u16)"
  have dd: "(if 18 \<le> D then \<lparr>dc_day = dc_day dc, dc_month = dc_month dc, dc_year = D + 2000\<rparr>
    else \<lparr>dc_day = dc_day dc, dc_month = dc_month dc, dc_year = D + 2100\<rparr>) = dc" using ye unfolding D_def [symmetric] by (cases dc) auto
  define T where "T = BCD_TO_BINARY (hour_register False (unat (tc_hour tc)))"
  have tt: "(if T = 12 then 0 else if T AND 0x80 \<noteq> 0 then 12 + (T AND 0x7F) else T) = of_nat (unat (tc_hour tc) + hours_late (unat (tc_hour tc)))"
    using twelve_hour_clock [OF t(1)] unfolding T_def Let_def .
  have tr: "(if T = 12 then \<lparr>tc_hour = 0, tc_minute = tc_minute tc, tc_second = tc_second tc\<rparr>
    else if T AND 0x80 \<noteq> 0 then \<lparr>tc_hour = 12 + (T AND 0x7F), tc_minute = tc_minute tc, tc_second = tc_second tc\<rparr>
    else \<lparr>tc_hour = T, tc_minute = tc_minute tc, tc_second = tc_second tc\<rparr>) = tc\<lparr>tc_hour := of_nat (unat (tc_hour tc) + hours_late (unat (tc_hour tc)))\<rparr>"
    unfolding tt [symmetric] by (cases tc) simp
  show ?thesis
  proof (cases "regb AND 2 = 0")
    case False
    then show ?thesis using b dd [unfolded D_def] by (simp add: rtc_decode_def Let_def n eqs hr split del: if_split cong: if_cong)
  next
    case True
    then show ?thesis using b dd [unfolded D_def] tr [unfolded T_def] by (simp add: rtc_decode_def Let_def n eqs split del: if_split cong: if_cong)
  qed
qed

lemma rtc_read_stable:
  assumes "regs 0 = r" and "regs (Suc 0) = r"
  shows "rtc_read (Suc fuel) regs 0 = Inr (rtc_now r)"
  using assms by (simp add: rtc_read.simps cmos_eq_def)

lemma time_epoch_later:
  assumes "unat (tc_hour tc) + k < 256"
  shows "time_components_to_epoch (tc\<lparr>tc_hour := of_nat (unat (tc_hour tc) + k)\<rparr>) = time_components_to_epoch tc + of_nat (3600 * k)"
proof -
  have "unat (of_nat (unat (tc_hour tc) + k) :: u8) = unat (tc_hour tc) + k"
    unfolding unat_of_nat using assms by simp
  then show ?thesis unfolding time_epoch by (simp add: algebra_simps)
qed

text \<open>
  C28: the time at boot. From a clock that counts in decimal, for a valid date and time from 2018 to
  2117, the kernel starts with the timestamp of that date and time if the clock is a 24-hour clock or it
  is before noon. From a 12-hour clock in the afternoon it starts 68 hours late, and 80 hours late from
  12 to 1: the flag for the afternoon is converted as a decimal digit before it is tested.
\<close>

theorem rtc_boot_time:
  assumes "valid_components dc tc" and "2018 \<le> dc_year dc" and "dc_year dc \<le> 2117" and "regb AND 4 = 0"
    and "regs 0 = clock_registers (regb AND 2 \<noteq> 0) dc tc" and "regs 1 = clock_registers (regb AND 2 \<noteq> 0) dc tc"
  shows "\<exists>v tm'. date_components_to_epoch dc = Inr v \<and> rtc_boot (Suc fuel) regb regs tm_new = Inr tm'
    \<and> UNIXtime tm' = v + time_components_to_epoch tc
        + (if regb AND 2 \<noteq> 0 \<or> tc_hour tc < 12 then 0 else if tc_hour tc = 12 then 80 * 3600 else 68 * 3600)"
proof -
  define h where "h = unat (tc_hour tc)"
  have h: "h < 24" using assms(1) by (simp add: h_def valid_components_def word_less_nat_alt)
  obtain v where v: "date_components_to_epoch dc = Inr v" using components_round_trip [OF assms(1)] by blast
  have late: "hours_late h < 100" by (simp add: hours_late_def)
  define tc' where "tc' = tc\<lparr>tc_hour := if regb AND 2 \<noteq> 0 then tc_hour tc else of_nat (h + hours_late h)\<rparr>"
  have "rtc_decode regb (rtc_now (clock_registers (regb AND 2 \<noteq> 0) dc tc)) = \<lparr>cm_time = tc', cm_date = dc\<rparr>"
    using rtc_decode_registers [OF assms(1-4)] by (simp add: tc'_def h_def)
  then have "rtc_boot (Suc fuel) regb regs tm_new = Inr (UNIXtimeIncrement (v + time_components_to_epoch tc') tm_new)"
    using rtc_read_stable [of regs, OF assms(5)] assms(6) v by (simp add: rtc_boot_def timestamp_def)
  moreover have "time_components_to_epoch tc' = time_components_to_epoch tc
      + (if regb AND 2 \<noteq> 0 \<or> tc_hour tc < 12 then 0 else if tc_hour tc = 12 then 80 * 3600 else 68 * 3600)"
  proof (cases "regb AND 2 = 0")
    case True
    have "tc_hour tc < 12 \<longleftrightarrow> h < 12" "tc_hour tc = 12 \<longleftrightarrow> h = 12" by (simp_all add: h_def word_less_nat_alt word_unat_eq_iff)
    then show ?thesis using True time_epoch_later [of tc "hours_late h"] h late by (simp add: tc'_def h_def [symmetric] hours_late_def)
  next
    case False
    then show ?thesis by (simp add: tc'_def)
  qed
  ultimately show ?thesis using v by (simp add: UNIXtime_def UNIXtimeIncrement_def tm_new_def add.assoc)
qed

text \<open>Two in the afternoon of the 28th of June 2019 is read as ten in the morning of the first of July.\<close>

definition example_date :: date_components_t where
  "example_date = \<lparr>dc_day = 28, dc_month = 6, dc_year = 2019\<rparr>"

definition example_time :: time_components_t where
  "example_time = \<lparr>tc_hour = 14, tc_minute = 0, tc_second = 0\<rparr>"

theorem rtc_boot_time_witness:
  "\<exists>v tm'. date_components_to_epoch example_date = Inr v
    \<and> rtc_boot 1 0 (\<lambda>k. clock_registers False example_date example_time) tm_new = Inr tm'
    \<and> UNIXtime tm' = v + time_components_to_epoch example_time + 68 * 3600"
proof -
  have "valid_components example_date example_time"
    by (simp add: valid_components_def example_date_def example_time_def valid_date_def month_days_def)
  from rtc_boot_time [OF this, of 0 "\<lambda>k. clock_registers False example_date example_time" 0] show ?thesis
    by (simp add: example_date_def example_time_def)
qed

end
