(* ===== verification/Memmgr.thy ===== *)
theory Memmgr
  imports Kernel_Heap Cow Vfs
begin

text \<open>
  The memory of a process: its regions (\<open>src/kernel/include/mm/memmgr.h\<close>,
  \<open>src/kernel/src/mm/memmgr.cpp\<close>), what a page fault does with them (\<open>src/kernel/src/mm/pagefault.cpp\<close>)
  and the system calls on them (\<open>src/kernel/src/syscalls/impl/mem.cpp\<close>). The state has the page manager of
  the running process, its region list and the mounted filesystems, for regions that map a file.
  The virtual functions of a file are parameters: \<open>seek\<close>, and \<open>read\<close>, which gives the bytes it stores.
\<close>

section \<open>Regions\<close>

record region_t = interval +
  r_permission :: map_options_t
  r_fhandle :: filehandle_t
  r_mmap_size :: u32

definition region_new :: "u32 \<Rightarrow> u32 \<Rightarrow> map_options_t \<Rightarrow> region_t" where
  "region_new f t p = \<lparr>ifrom = f, ito = t, r_permission = p, r_fhandle = null_handle, r_mmap_size = 0\<rparr>"

definition region_of :: "u32 \<Rightarrow> u32 \<Rightarrow> region_t" where
  "region_of f t = region_new f t map_options_kernel"

definition isMmapRegion :: "region_t \<Rightarrow> bool" where
  "isMmapRegion r \<longleftrightarrow> fh_valid (r_fhandle r) \<and> r_mmap_size r > 0"

definition isKernelRegion :: "region_t \<Rightarrow> bool" where
  "isKernelRegion r \<longleftrightarrow> iskernel (ifrom r)"

record ('x, 'p) mm =
  mm_vm :: vmm
  mm_regions :: "region_t list"
  mm_size :: u32
  mm_vfs :: "('x, 'p) vfs"

definition gKernelFinal :: u32 where
  "gKernelFinal = 0xFFFFFFFF"

definition memmgr_new :: "region_t list" where
  "memmgr_new = il_add (il_add [] (region_of 0 0xFFF)) (region_of gKernelBase gKernelFinal)"

definition toPage :: "u32 \<Rightarrow> u32" where
  "toPage sz = (let m = sz mod gPageSize in if m = 0 then sz else sz - m + gPageSize)"

definition isWithinRegion :: "u32 \<Rightarrow> ('x, 'p) mm \<Rightarrow> region_t option" where
  "isWithinRegion addr M =
     (if page addr = 0 then None
      else if iskernel addr then
        map_option (\<lambda>ival. region_of (ifrom ival + gKernelBase) (ito ival + gKernelBase)) (isWithinKernelRegion addr (mm_vm M))
      else il_contains (mm_regions M) addr)"

definition protect_page :: "map_options_t \<Rightarrow> u32 \<Rightarrow> vmm \<Rightarrow> vmm kernel" where
  "protect_page new_opts pp s =
     kbind (mapped_with pp map_options_default s) (\<lambda>m.
     kbind (if m = None then zeroPageMapped pp map_options_default s else Inr None) (\<lambda>z.
     if m \<noteq> None \<or> z \<noteq> None then
       let page_opts = (case m of Some p \<Rightarrow> p | None \<Rightarrow> the z) in
       if m \<noteq> None \<and> o_rw new_opts \<and> o_cow page_opts then Inr s
       else kbind (newoptions pp (page_opts\<lparr>o_rw := o_rw new_opts\<rparr>) s) (\<lambda>(_, s). Inr s)
     else Inr s))"

definition protectRegionAtAddress :: "u32 \<Rightarrow> map_options_t \<Rightarrow> ('x, 'p) mm \<Rightarrow> (bool \<times> ('x, 'p) mm) kernel" where
  "protectRegionAtAddress address new_opts M =
     (case isWithinRegion address M of
        None \<Rightarrow> Inr (False, M)
      | Some rgn \<Rightarrow>
          let regions = fst (il_foreach (\<lambda>R u. if ifrom R = ifrom rgn \<and> ito R = ito rgn then (False, R\<lparr>r_permission := new_opts\<rparr>, ())
                                                else (True, R, ())) (mm_regions M) ()) in
          kbind (for_pages (\<lambda>pp. pp \<le> ito rgn) (protect_page new_opts) (ifrom rgn) (mm_vm M)) (\<lambda>s.
          Inr (True, M\<lparr>mm_regions := regions, mm_vm := s\<rparr>)))"

definition findRegionImpl :: "u32 \<Rightarrow> ('x, 'p) mm \<Rightarrow> region_t option" where
  "findRegionImpl sz M = il_findFree region_of (- 1) (toPage sz) (mm_regions M)"

definition findRegion :: "u32 \<Rightarrow> ('x, 'p) mm \<Rightarrow> region_t" where
  "findRegion sz M = (case findRegionImpl sz M of Some region \<Rightarrow> region | None \<Rightarrow> region_of 0 0)"

definition count_available :: "u32 \<Rightarrow> ('x, 'p) mm \<Rightarrow> ('x, 'p) mm kernel" where
  "count_available amount M =
     (case vm_stats (mm_vm M) of
        None \<Rightarrow> Inl NullDeref
      | Some p \<Rightarrow> Inr (M\<lparr>mm_vm := (mm_vm M)\<lparr>vm_stats := Some (p\<lparr>available := available p + amount\<rparr>)\<rparr>\<rparr>))"

definition addRegion :: "region_t \<Rightarrow> ('x, 'p) mm \<Rightarrow> (region_t \<times> ('x, 'p) mm) kernel" where
  "addRegion region M =
     (let M = M\<lparr>mm_size := mm_size M + isize region\<rparr> in
      kbind (count_available (isize region) M) (\<lambda>M.
      Inr (region, M\<lparr>mm_regions := il_add (mm_regions M) region\<rparr>)))"

definition findAndMapRegion :: "u32 \<Rightarrow> map_options_t \<Rightarrow> ('x, 'p) mm \<Rightarrow> (region_t \<times> ('x, 'p) mm) kernel" where
  "findAndMapRegion sz opts M =
     (case findRegionImpl sz M of
        Some region \<Rightarrow>
          let region = region\<lparr>r_permission := opts\<rparr> in
          kbind (for_pages (\<lambda>b. b < ito region) (\<lambda>b s. kbind (mapAnyPhysicalPage b opts s) (\<lambda>(_, s). Inr s)) (ifrom region) (mm_vm M)) (\<lambda>s.
          addRegion region (M\<lparr>mm_vm := s\<rparr>))
      | None \<Rightarrow> Inr (region_of 0 0, M))"

definition findAndZeroPageRegion :: "u32 \<Rightarrow> map_options_t \<Rightarrow> ('x, 'p) mm \<Rightarrow> (region_t \<times> ('x, 'p) mm) kernel" where
  "findAndZeroPageRegion sz opts M =
     (case findRegionImpl sz M of
        Some region \<Rightarrow>
          let region = region\<lparr>r_permission := opts\<rparr> in
          kbind (mapZeroPage_range (ifrom region) (ito region) opts (mm_vm M)) (\<lambda>(_, s).
          addRegion region (M\<lparr>mm_vm := s\<rparr>))
      | None \<Rightarrow> Inr (region_of 0 0, M))"

definition findAndFileMapRegion :: "filehandle_t \<Rightarrow> u32 \<Rightarrow> ('x, 'p) mm \<Rightarrow> (region_t \<times> ('x, 'p) mm) kernel" where
  "findAndFileMapRegion fhandle sz M =
     (case if fh_valid fhandle then findRegionImpl sz M else None of
        Some region \<Rightarrow>
          let opts = map_options_default\<lparr>o_rw := True, o_user := True\<rparr> in
          kbind (mapZeroPage_range (ifrom region) (ito region) opts (mm_vm M)) (\<lambda>(_, s).
          let fhandle = fhandle\<lparr>fh_region := unat (ifrom region)\<rparr> in
          kbind (fs_at (mm_vfs M) (fh_filesystem fhandle)) (\<lambda>F.
          kbind (object_incref (fh_object fhandle) F) (\<lambda>(_, F).
          let region = region\<lparr>r_fhandle := fhandle, r_mmap_size := sz, r_permission := opts\<rparr> in
          addRegion region (M\<lparr>mm_vm := s, mm_vfs := put_fs (fh_filesystem fhandle) F (mm_vfs M)\<rparr>))))
      | None \<Rightarrow> Inr (region_of 0 0, M))"

definition addMappedRegion :: "u32 \<Rightarrow> u32 \<Rightarrow> ('x, 'p) mm \<Rightarrow> (region_t \<times> ('x, 'p) mm) kernel" where
  "addMappedRegion f t M = addRegion (region_of f t) M"

definition addUnmappedRegion :: "u32 \<Rightarrow> u32 \<Rightarrow> ('x, 'p) mm \<Rightarrow> (region_t \<times> ('x, 'p) mm) kernel" where
  "addUnmappedRegion f t M = addRegion (region_of f t) M"

definition removeRegion :: "('x, 'p) vtable \<Rightarrow> region_t \<Rightarrow> ('x, 'p) mm \<Rightarrow> ('x, 'p) mm kernel" where
  "removeRegion vt region M =
     (let (found, regions) = il_del (mm_regions M) region in
      if found then
        let M = M\<lparr>mm_regions := regions, mm_size := mm_size M - isize region\<rparr> in
        kbind (count_available (- isize region) M) (\<lambda>M.
        kbind (for_pages (\<lambda>b. b < ito region) vm_unmap (ifrom region) (mm_vm M)) (\<lambda>s.
        let M = M\<lparr>mm_vm := s\<rparr> in
        if isMmapRegion region then kbind (fh_close vt (r_fhandle region) (mm_vfs M)) (\<lambda>v. Inr (M\<lparr>mm_vfs := v\<rparr>))
        else Inr M))
      else Inr M)"

definition getTotalRegionsSize :: "('x, 'p) mm \<Rightarrow> u32" where
  "getTotalRegionsSize M = mm_size M"

definition memmgr_clone :: "('x, 'p) mm \<Rightarrow> ('x, 'p) mm \<Rightarrow> ('x, 'p) mm" where
  "memmgr_clone M ret = ret\<lparr>mm_regions := mm_regions M, mm_size := mm_size M\<rparr>"

text \<open>
  The walk removes list nodes as it passes them. It meets the regions in order, so each one it
  removes is the first of the list, and the list does not free its first node: the walk goes on from a
  node that is still there. It visits the regions of the list as it was.
\<close>

definition cleanupAllRegions :: "('x, 'p) vtable \<Rightarrow> ('x, 'p) mm \<Rightarrow> ('x, 'p) mm kernel" where
  "cleanupAllRegions vt M = kfold (\<lambda>rgn M. if \<not> isKernelRegion rgn then removeRegion vt rgn M else Inr M) (mm_regions M) M"

section \<open>Page faults\<close>

definition pf_P :: "u32 \<Rightarrow> bool" where "pf_P err \<longleftrightarrow> err AND 0x01 \<noteq> 0"
definition pf_W :: "u32 \<Rightarrow> bool" where "pf_W err \<longleftrightarrow> err AND 0x02 \<noteq> 0"
definition pf_U :: "u32 \<Rightarrow> bool" where "pf_U err \<longleftrightarrow> err AND 0x04 \<noteq> 0"
definition pf_R :: "u32 \<Rightarrow> bool" where "pf_R err \<longleftrightarrow> err AND 0x08 \<noteq> 0"
definition pf_I :: "u32 \<Rightarrow> bool" where "pf_I err \<longleftrightarrow> err AND 0x10 \<noteq> 0"

definition pageflt_description :: "u32 \<Rightarrow> string" where
  "pageflt_description err =
     (if pf_R err then
        if pf_U err then ''userspace attempt to modify reserved paging structure''
        else ''attempt to modify reserved paging structure''
      else if pf_P err then
        if pf_I err then
          if pf_U err then ''userspace failed to fetch privileged instruction'' else ''privileged instruction could not be fetched''
        else if pf_W err then
          if pf_U err then ''userspace write to privileged memory'' else ''write to privileged memory''
        else if pf_U err then ''userspace read from privileged memory'' else ''read from privileged memory''
      else
        if pf_I err then
          if pf_U err then ''userspace failed to fetch invalid memory'' else ''invalid memory could not be executed''
        else if pf_W err then
          if pf_U err then ''userspace write to invalid memory'' else ''write to invalid memory''
        else if pf_U err then ''userspace read from invalid memory'' else ''read from invalid memory'')"

type_synonym ('x, 'p) seek_f = "filehandle_t \<Rightarrow> u32 \<Rightarrow> ('x, 'p) vfs \<Rightarrow> (bool \<times> ('x, 'p) vfs) kernel"
type_synonym ('x, 'p) read_f = "filehandle_t \<Rightarrow> u32 \<Rightarrow> ('x, 'p) vfs \<Rightarrow> (u8 list \<times> ('x, 'p) vfs) kernel"

definition mmap_fault_recover ::
  "('x, 'p) seek_f \<Rightarrow> ('x, 'p) read_f \<Rightarrow> u32 \<Rightarrow> region_t \<Rightarrow> ('x, 'p) mm \<Rightarrow> (bool \<times> ('x, 'p) mm) kernel" where
  "mmap_fault_recover seek readf vaddr rgn M =
     (let rgn_offset = vaddr - ifrom rgn;
          vpage = page vaddr;
          base_offset = page rgn_offset in
      if rgn_offset > r_mmap_size rgn then Inr (False, M)
      else
        let file = r_fhandle rgn in
        if \<not> fh_valid file then Inr (False, M)
        else
          kbind (fh_asFile file (mm_vfs M)) (\<lambda>realFile.
          if realFile = 0 then Inr (False, M)
          else
            kbind (seek file base_offset (mm_vfs M)) (\<lambda>(sk, v).
            let M = M\<lparr>mm_vfs := v\<rparr> in
            if \<not> sk then Inr (False, M)
            else
              kbind (mapAnyPhysicalPage vpage ((r_permission rgn)\<lparr>o_clear := True\<rparr>) (mm_vm M)) (\<lambda>(_, s).
              kbind (readf file gPageSize (mm_vfs M)) (\<lambda>(bytes, v).
              kbind (kfold (\<lambda>(k, c) s. vstore_byte (vpage + of_nat k) c s) (enumerate 0 bytes) s) (\<lambda>s.
              Inr (bytes \<noteq> [], M\<lparr>mm_vm := s, mm_vfs := v\<rparr>)))))))"

definition zeropage_recover ::
  "('x, 'p) seek_f \<Rightarrow> ('x, 'p) read_f \<Rightarrow> u32 \<Rightarrow> ('x, 'p) mm \<Rightarrow> (bool \<times> ('x, 'p) mm) kernel" where
  "zeropage_recover seek readf vaddr M =
     (if vm_stats (mm_vm M) = None then Inl NullDeref
      else case isWithinRegion vaddr M of
        Some region \<Rightarrow>
          if isMmapRegion region then mmap_fault_recover seek readf vaddr region M
          else kbind (mapAnyPhysicalPage (page vaddr) (r_permission region) (mm_vm M)) (\<lambda>(_, s). Inr (True, M\<lparr>mm_vm := s\<rparr>))
      | None \<Rightarrow> Inr (False, M))"

definition cow_recover :: "u32 \<Rightarrow> ('x, 'p) mm \<Rightarrow> (bool \<times> ('x, 'p) mm) kernel" where
  "cow_recover vaddr M =
     kbind (mapped_with vaddr map_options_default (mm_vm M)) (\<lambda>m.
     case m of
       Some opts \<Rightarrow>
         kbind (clonePage vaddr opts (mm_vm M)) (\<lambda>(phys_result, s).
         kbind (using_result (\<lambda>r. Inr (kr_result_into r)) phys_result) (\<lambda>ok.
         case ok of
           Some phys \<Rightarrow> Inr (phys AND 1 = 0, M\<lparr>mm_vm := s\<rparr>)
         | None \<Rightarrow> Inr (False, M\<lparr>mm_vm := s\<rparr>)))
     | None \<Rightarrow> Inr (False, M))"

text \<open>The process goes on, or it is stopped with a description of the fault.\<close>

datatype fault_response = Resume | AppPanic string

definition pageflt_handler ::
  "('x, 'p) seek_f \<Rightarrow> ('x, 'p) read_f \<Rightarrow> u32 \<Rightarrow> u32 \<Rightarrow> ('x, 'p) mm \<Rightarrow> (fault_response \<times> ('x, 'p) mm) kernel" where
  "pageflt_handler seek readf err vaddr M =
     (let M = M\<lparr>mm_vm := (mm_vm M)\<lparr>vm_stats := map_option (\<lambda>p. p\<lparr>pagefaults := pagefaults p + 1\<rparr>) (vm_stats (mm_vm M))\<rparr>\<rparr> in
      kbind (isZeroPageAccess vaddr (mm_vm M)) (\<lambda>z.
      kbind (if z then zeropage_recover seek readf vaddr M
             else kbind (isCOWAccess err vaddr (mm_vm M)) (\<lambda>c. if c then cow_recover vaddr M else Inr (False, M))) (\<lambda>(ok, M).
      if ok then Inr (Resume, M) else Inr (AppPanic (pageflt_description err), M))))"

section \<open>System calls\<close>

definition syscall_error_code :: "u16 \<Rightarrow> u32" where
  "syscall_error_code code = (push_bit 5 (ucast code)) OR 1"

abbreviation "ERR_OUT_OF_MEMORY \<equiv> syscall_error_code 5"
abbreviation "ERR_UNIMPLEMENTED \<equiv> syscall_error_code 8"
abbreviation "ERR_NO_SUCH_OBJECT \<equiv> syscall_error_code 10"
abbreviation "ERR_NOT_ALLOWED \<equiv> syscall_error_code 11"
abbreviation "OK \<equiv> 0 :: u32"

definition mapregion_syscall_handler :: "u32 \<Rightarrow> u32 \<Rightarrow> ('x, 'p) mm \<Rightarrow> (u32 \<times> ('x, 'p) mm) kernel" where
  "mapregion_syscall_handler sz perm M =
     (if offset sz \<noteq> 0 then Inr (ERR_UNIMPLEMENTED, M)
      else
        let opts = map_options_default\<lparr>o_user := True, o_clear := True, o_cached := True, o_rw := (1 = perm AND 1)\<rparr> in
        kbind (findAndZeroPageRegion sz opts M) (\<lambda>(rgn, M).
        if ifrom rgn \<noteq> 0 then Inr (OK OR ifrom rgn, M) else Inr (ERR_OUT_OF_MEMORY, M)))"

definition setregionperms_syscall_handler :: "u32 \<Rightarrow> u32 \<Rightarrow> ('x, 'p) mm \<Rightarrow> (u32 \<times> ('x, 'p) mm) kernel" where
  "setregionperms_syscall_handler address perm M =
     (if iskernel address then Inr (ERR_NOT_ALLOWED, M)
      else case isWithinRegion address M of
        None \<Rightarrow> Inr (ERR_NO_SUCH_OBJECT, M)
      | Some region \<Rightarrow>
          let opts = (r_permission region)\<lparr>o_rw := (1 = perm AND 1)\<rparr> in
          kbind (protectRegionAtAddress address opts M) (\<lambda>(ok, M).
          if ok then Inr (OK, M) else Inr (ERR_OUT_OF_MEMORY, M)))"

definition unmapregion_syscall_handler :: "('x, 'p) vtable \<Rightarrow> u32 \<Rightarrow> ('x, 'p) mm \<Rightarrow> (u32 \<times> ('x, 'p) mm) kernel" where
  "unmapregion_syscall_handler vt address M =
     (if iskernel address then Inr (ERR_NOT_ALLOWED, M)
      else case isWithinRegion address M of
        Some rgn \<Rightarrow> kbind (removeRegion vt rgn M) (\<lambda>M. Inr (OK, M))
      | None \<Rightarrow> Inr (ERR_NO_SUCH_OBJECT, M))"

definition isSamePage :: "u32 \<Rightarrow> u32 \<Rightarrow> bool" where
  "isSamePage start sz = (let stop = start + sz - 1 in page start = page stop)"

definition isPageReadable :: "vmm \<Rightarrow> u32 \<Rightarrow> bool kernel" where
  "isPageReadable s pg =
     kbind (mapped_with pg map_options_default s) (\<lambda>m.
     case m of
       Some options \<Rightarrow> Inr (o_user options)
     | None \<Rightarrow> kbind (zeroPageMapped pg map_options_default s) (\<lambda>z. Inr (case z of Some options \<Rightarrow> o_user options | None \<Rightarrow> False)))"

definition isPageWritable :: "vmm \<Rightarrow> u32 \<Rightarrow> bool kernel" where
  "isPageWritable s pg =
     kbind (mapped_with pg map_options_default s) (\<lambda>m.
     case m of
       Some options \<Rightarrow> Inr (o_user options \<and> o_rw options)
     | None \<Rightarrow> kbind (zeroPageMapped pg map_options_default s) (\<lambda>z.
         Inr (case z of Some options \<Rightarrow> o_user options \<and> o_rw options | None \<Rightarrow> False)))"

text \<open>The loop over the pages of a range; it comes back to where it started after \<open>2 ^ 20\<close> pages.\<close>

fun check_pages :: "nat \<Rightarrow> (u32 \<Rightarrow> bool kernel) \<Rightarrow> u32 \<Rightarrow> u32 \<Rightarrow> bool kernel" where
  "check_pages 0 checkf pg_start pg_stop = (if pg_start \<le> pg_stop then Inl Diverges else Inr True)"
| "check_pages (Suc n) checkf pg_start pg_stop =
     (if pg_start \<le> pg_stop then
        kbind (checkf pg_start) (\<lambda>ok. if \<not> ok then Inr False else check_pages n checkf (pg_start + gPageSize) pg_stop)
      else Inr True)"

definition checkPageRange :: "u32 \<Rightarrow> u32 \<Rightarrow> (u32 \<Rightarrow> bool kernel) \<Rightarrow> bool kernel" where
  "checkPageRange address sz checkf =
     (if isSamePage address sz then checkf (page address)
      else check_pages 0x100000 checkf (page address) (page (address + sz - 1)))"

definition vmcheckreadable_syscall_handler :: "u32 \<Rightarrow> u32 \<Rightarrow> ('x, 'p) mm \<Rightarrow> u32 kernel" where
  "vmcheckreadable_syscall_handler address sz M =
     kbind (checkPageRange address sz (isPageReadable (mm_vm M))) (\<lambda>ok. Inr (if ok then OK else ERR_NOT_ALLOWED))"

definition vmcheckwritable_syscall_handler :: "u32 \<Rightarrow> u32 \<Rightarrow> ('x, 'p) mm \<Rightarrow> u32 kernel" where
  "vmcheckwritable_syscall_handler address sz M =
     kbind (checkPageRange address sz (isPageWritable (mm_vm M))) (\<lambda>ok. Inr (if ok then OK else ERR_NOT_ALLOWED))"

end
