(* ===== verification/Process_Regions.thy ===== *)
theory Process_Regions
  imports Memmgr
begin

text \<open>
  The regions of a process are well formed in every state it can reach. A step is one of the memory
  system calls of \<open>src/kernel/src/syscalls/impl/mem.cpp\<close>, a mapping the kernel makes for the process
  (\<open>src/kernel/src/mm/memmgr.cpp\<close>), a page fault, or the copy of the manager for a child process.
\<close>

section \<open>Well-formed region lists\<close>

definition paged :: "'a interval_scheme \<Rightarrow> bool" where
  "paged r \<longleftrightarrow> proper r \<and> offset (ifrom r) = 0 \<and> offset (ito r + 1) = 0"

definition zero_region :: region_t where
  "zero_region = region_of 0 0xFFF"

definition kernel_region :: region_t where
  "kernel_region = region_of gKernelBase gKernelFinal"

definition user_regions :: "region_t list \<Rightarrow> region_t list" where
  "user_regions xs = butlast (tl xs)"

definition regions_ok :: "region_t list \<Rightarrow> bool" where
  "regions_ok xs \<longleftrightarrow>
     xs = zero_region # user_regions xs @ [kernel_region] \<and> il_inv (- 1) xs \<and> (\<forall>r \<in> set xs. paged r)"

definition mm_ok :: "('x, 'p) mm \<Rightarrow> bool" where
  "mm_ok M \<longleftrightarrow> regions_ok (mm_regions M) \<and> mm_size M = sum_list (map isize (user_regions (mm_regions M)))"

lemma mm_ok_cong: "mm_regions N = mm_regions M \<Longrightarrow> mm_size N = mm_size M \<Longrightarrow> mm_ok N = mm_ok M"
  by (simp add: mm_ok_def)

lemma region_of_bounds [simp]: "ifrom (region_of f t) = f" "ito (region_of f t) = t"
  by (simp_all add: region_of_def region_new_def)

interpretation process_regions:
  address_space "il_inv (- 1)" set "- 1" "\<lambda>sz xs. il_fits sz xs \<and> (xs = [] \<longrightarrow> sz - 1 \<le> - 1)"
    "il_findFree region_of (- 1)" il_add il_del il_contains
  by (rule interval_list_address_space) (simp add: makes_interval_def)

lemma special_bounds [simp]:
  "ifrom zero_region = 0" "ito zero_region = 0xFFF" "ifrom kernel_region = 0xC0000000" "ito kernel_region = - 1"
  by (simp_all add: zero_region_def kernel_region_def gKernelBase_def gKernelFinal_def)

lemma user_regions_simp [simp]: "user_regions (z # us @ [k]) = us"
  by (simp add: user_regions_def)

lemma regions_okE:
  assumes "regions_ok xs"
  obtains us where "xs = zero_region # us @ [kernel_region]" "il_inv (- 1) xs" "\<And>r. r \<in> set us \<Longrightarrow> paged r"
    "\<And>r. r \<in> set us \<Longrightarrow> 0xFFF < ifrom r \<and> ito r < 0xC0000000"
proof -
  obtain us where us: "xs = zero_region # us @ [kernel_region]" using assms unfolding regions_ok_def by blast
  show thesis
  proof (rule that [OF us])
    show inv: "il_inv (- 1) xs" using assms by (simp add: regions_ok_def)
    show "0xFFF < ifrom r \<and> ito r < 0xC0000000" if "r \<in> set us" for r
      using inv that by (auto simp: us il_inv_def sorted_wrt_append)
    show "paged r" if "r \<in> set us" for r using assms us that by (simp add: regions_ok_def)
  qed
qed

lemma regions_okI:
  "il_inv (- 1) (zero_region # us @ [kernel_region]) \<Longrightarrow> (\<And>r. r \<in> set us \<Longrightarrow> paged r)
    \<Longrightarrow> regions_ok (zero_region # us @ [kernel_region])"
  by (auto simp: regions_ok_def paged_def proper_def offset_def gPageSize_def)

lemma memmgr_new_ok: "regions_ok memmgr_new" "user_regions memmgr_new = []"
proof -
  have n: "memmgr_new = zero_region # [] @ [kernel_region]"
    by (simp add: memmgr_new_def il_add_def thisBefore_def zero_region_def kernel_region_def gKernelBase_def)
  show "regions_ok memmgr_new" unfolding n by (rule regions_okI) (simp_all add: il_inv_def proper_def)
  show "user_regions memmgr_new = []" unfolding n user_regions_simp ..
qed

lemma aligned_nat: "offset v = 0 \<longleftrightarrow> unat v mod 4096 = 0"
  by (metis unat_offset unat_0 word_unat_eq_iff)

lemma aligned_add:
  assumes "offset a = 0" and "offset b = 0"
  shows "offset (a + b) = 0"
proof -
  have "4096 dvd unat a + unat b" using assms by (simp add: aligned_nat mod_eq_0_iff_dvd dvd_add)
  then have "4096 dvd (unat a + unat b) mod 2 ^ 32" by (simp add: dvd_mod)
  then show ?thesis by (simp add: aligned_nat unat_word_ariths mod_eq_0_iff_dvd)
qed

section \<open>Adding a region\<close>

lemma regions_fit:
  assumes "regions_ok xs" and "sz \<le> 0x40000000"
  shows "il_fits sz xs"
proof -
  obtain us where us: "xs = zero_region # us @ [kernel_region]" "\<And>r. r \<in> set us \<Longrightarrow> 0xFFF < ifrom r \<and> ito r < 0xC0000000"
    using assms(1) by (rule regions_okE) blast
  have "ito x < 0xC0000000" if "x \<in> set (butlast xs)" for x
    using that us by (auto simp: butlast_append)
  then show ?thesis using assms(2) unfolding il_fits_def by (fastforce simp: word_le_nat_alt word_less_nat_alt)
qed

lemma il_gap_behind: "il_gap mk sz xs = Some r \<Longrightarrow> \<exists>x \<in> set xs. r = mk (ito x + 1) (sz + ito x)"
  by (induction mk sz xs rule: il_gap.induct) (auto split: if_splits)

lemma findFree_behind:
  assumes "il_findFree mk bound sz xs = Some r" and "2 \<le> length xs"
  shows "\<exists>x \<in> set xs. r = mk (ito x + 1) (sz + ito x)"
proof -
  have "xs \<noteq> []" "length xs \<noteq> 1" using assms(2) by auto
  then show ?thesis using assms(1) il_gap_behind [of mk sz xs r]
    by (auto simp: il_findFree_def il_after_def split: if_splits option.splits intro!: bexI [of _ "last xs"])
qed

lemma find_region:
  assumes ok: "regions_ok xs" and sz: "offset sz = 0" "sz \<le> 0x40000000"
    and r: "il_findFree region_of (- 1) sz xs = Some r"
  shows "free_for (- 1) sz (set xs) r" and "paged r"
proof -
  obtain us where us: "xs = zero_region # us @ [kernel_region]" "il_inv (- 1) xs" using ok by (rule regions_okE) blast
  show free: "free_for (- 1) sz (set xs) r"
    using us r regions_fit [OF ok sz(2)] by (intro process_regions.find_free) auto
  have l: "2 \<le> length xs" by (simp add: us(1))
  obtain x where x: "x \<in> set xs" "r = region_of (ito x + 1) (sz + ito x)" using findFree_behind [OF r l] by blast
  have "offset (ito x + 1) = 0" using ok x(1) by (simp add: regions_ok_def paged_def)
  moreover have "offset (sz + (ito x + 1)) = 0" using aligned_add [OF sz(1) calculation] .
  ultimately show "paged r" using free x(2) by (simp add: paged_def free_for_def add.assoc)
qed

lemma toPage_nat:
  assumes "unat sz \<le> 0xFFFFF000"
  shows "unat (toPage sz) = (unat sz + 4095) div 4096 * 4096"
proof -
  define q m where "q = unat sz div 4096" and "m = unat sz mod 4096"
  have d: "unat sz = 4096 * q + m" "m < 4096" by (simp_all add: q_def m_def)
  have m: "unat (sz mod gPageSize) = m" by (simp add: gPageSize_def unat_mod m_def)
  show ?thesis
  proof (cases "m = 0")
    case True
    then have "sz mod gPageSize = 0" using m by (simp add: word_unat_eq_iff)
    then show ?thesis using True d by (simp add: toPage_def)
  next
    case False
    then have "sz mod gPageSize \<noteq> 0" using m by (metis unat_0)
    moreover have "unat (sz - sz mod gPageSize) = 4096 * q"
      using d m by (simp add: unat_sub word_le_nat_alt)
    moreover have "4096 * q + 4096 < 2 ^ 32" using assms d False by simp
    ultimately have "unat (toPage sz) = 4096 * q + 4096"
      by (simp add: toPage_def Let_def gPageSize_def unat_word_ariths)
    moreover have "(unat sz + 4095) div 4096 = q + 1" using d False by simp
    ultimately show ?thesis by simp
  qed
qed

lemma toPage_ok:
  assumes "sz \<le> 0x40000000"
  shows "offset (toPage sz) = 0" and "toPage sz \<le> 0x40000000"
proof -
  have s: "unat sz \<le> 1073741824" using assms by (simp add: word_le_nat_alt)
  then have t: "unat (toPage sz) = (unat sz + 4095) div 4096 * 4096" by (simp add: toPage_nat)
  show "offset (toPage sz) = 0" by (simp add: aligned_nat t)
  have "(unat sz + 4095) div 4096 \<le> (1073741824 + 4095) div 4096" using s by (intro div_le_mono) simp
  then have "unat (toPage sz) \<le> 1073741824" using t by simp
  then show "toPage sz \<le> 0x40000000" by (simp add: word_le_nat_alt)
qed

lemma free_for_cong:
  "free_for bound sz X r \<Longrightarrow> ifrom r' = ifrom r \<Longrightarrow> ito r' = ito r \<Longrightarrow> free_for bound sz X r'"
  by (simp add: free_for_def proper_def isize_def addrs_def)

lemma paged_cong: "paged r \<Longrightarrow> ifrom r' = ifrom r \<Longrightarrow> ito r' = ito r \<Longrightarrow> paged r'"
  by (simp add: paged_def proper_def)

lemma il_insert_last: "\<not> thisBefore k r \<Longrightarrow> il_insert (us @ [k]) r = il_insert us r @ [k]"
  by (induction us) auto

lemma sum_il_insert: "sum_list (map isize (il_insert us r)) = isize r + sum_list (map isize us)"
  by (induction us) (simp_all add: ac_simps)

lemma add_region:
  assumes ok: "regions_ok xs" and free: "free_for (- 1) sz (set xs) r" and r: "paged r"
  shows "regions_ok (il_add xs r)"
    and "sum_list (map isize (user_regions (il_add xs r))) = isize r + sum_list (map isize (user_regions xs))"
proof -
  obtain us where us: "xs = zero_region # us @ [kernel_region]" "il_inv (- 1) xs" "\<And>r. r \<in> set us \<Longrightarrow> paged r"
    using ok by (rule regions_okE) blast
  have pr: "proper r" "addrs r \<inter> addrs zero_region = {}" "addrs r \<inter> addrs kernel_region = {}"
    using free us(1) by (auto simp: free_for_def)
  then have b: "0xFFF < ifrom r" "ito r < 0xC0000000"
    by (simp_all add: addrs_disjoint_iff proper_def)
  then have "thisBefore zero_region r" "\<not> thisBefore kernel_region r"
    using pr(1) by (auto simp: thisBefore_def proper_def word_order.extremum_unique)
  then have eq: "il_add xs r = zero_region # il_insert us r @ [kernel_region]"
    by (simp add: il_add_eq_insert us(1) il_insert_last)
  have "il_inv (- 1) (il_add xs r)" using us(2) free by (rule process_regions.alloc_inv)
  then show "regions_ok (il_add xs r)" unfolding eq using us(3) r by (intro regions_okI) auto
  show "sum_list (map isize (user_regions (il_add xs r))) = isize r + sum_list (map isize (user_regions xs))"
    unfolding eq by (simp add: us(1) sum_il_insert)
qed

lemma addRegion_ok:
  assumes "mm_ok M" and "free_for (- 1) sz (set (mm_regions M)) r" and "paged r" and "addRegion r M = Inr (r', M')"
  shows "mm_ok M'" and "r' = r" and "mm_regions M' = il_add (mm_regions M) r"
proof -
  have "mm_regions M' = il_add (mm_regions M) r \<and> mm_size M' = mm_size M + isize r \<and> r' = r"
    using assms(4) by (auto simp: addRegion_def count_available_def Let_def split: option.splits)
  then show "mm_ok M'" "r' = r" "mm_regions M' = il_add (mm_regions M) r"
    using add_region [OF _ assms(2,3)] assms(1) by (simp_all add: mm_ok_def add.commute)
qed

text \<open>The three ways to make a region: find room, fill in the permission, map the pages and add it.\<close>

lemma new_region_ok:
  assumes M: "mm_ok M" and find: "findRegionImpl sz M = Some r" and sz: "sz \<le> 0x40000000"
    and r': "ifrom r' = ifrom r" "ito r' = ito r"
    and N: "mm_regions N = mm_regions M" "mm_size N = mm_size M" and add: "addRegion r' N = Inr (r'', M')"
  shows "mm_ok M'"
proof -
  have f: "il_findFree region_of (- 1) (toPage sz) (mm_regions M) = Some r" using find by (simp add: findRegionImpl_def)
  have ok: "regions_ok (mm_regions M)" "mm_ok N" using M N by (simp_all add: mm_ok_def)
  have "free_for (- 1) (toPage sz) (set (mm_regions N)) r'" "paged r'"
    using find_region [OF ok(1) toPage_ok [OF sz] f] r' N by (auto intro: free_for_cong paged_cong)
  then show ?thesis using addRegion_ok(1) [OF ok(2) _ _ add] by blast
qed

lemma mapping_ok:
  assumes "mm_ok M" and "sz \<le> 0x40000000"
  shows "findAndMapRegion sz opts M = Inr (r, M') \<Longrightarrow> mm_ok M'"
    and "findAndZeroPageRegion sz opts M = Inr (r, M') \<Longrightarrow> mm_ok M'"
    and "findAndFileMapRegion h sz M = Inr (r, M') \<Longrightarrow> mm_ok M'"
  using assms
  by (auto simp: findAndMapRegion_def findAndZeroPageRegion_def findAndFileMapRegion_def kbind_eq_Inr_iff Let_def
      split: option.splits if_splits elim!: new_region_ok [OF assms(1) _ assms(2), rotated 5])

section \<open>Removing and protecting a region\<close>

lemma user_region:
  assumes "regions_ok (mm_regions M)" and "isWithinRegion a M = Some r" and "\<not> iskernel a"
  shows "r \<in> set (user_regions (mm_regions M))" and "icontains r a"
proof -
  obtain us where us: "mm_regions M = zero_region # us @ [kernel_region]" "il_inv (- 1) (mm_regions M)"
    using assms(1) by (rule regions_okE) blast
  have p: "page a \<noteq> 0" and c: "il_contains (mm_regions M) a = Some r"
    using assms(2,3) by (auto simp: isWithinRegion_def split: if_splits)
  have r: "r \<in> set (mm_regions M)" "icontains r a" using c process_regions.contains_iff [OF us(2)] by blast+
  have "\<not> icontains zero_region a"
  proof
    assume "icontains zero_region a"
    then have "unat a \<le> 4095" by (simp add: icontains_def word_le_nat_alt)
    then have "unat (page a) = 0" by (simp add: unat_page)
    then show False using p by (simp add: unat_eq_zero)
  qed
  moreover have "\<not> icontains kernel_region a" using assms(3) by (auto simp: icontains_def iskernel_def gKernelBase_def)
  ultimately show "r \<in> set (user_regions (mm_regions M))" "icontains r a" using r us(1) by auto
qed

lemma user_region_bounds:
  assumes "regions_ok xs" and "r \<in> set (user_regions xs)"
  shows "paged r" and "0xFFF < ifrom r" and "ito r < gKernelBase"
proof -
  obtain us where us: "xs = zero_region # us @ [kernel_region]" "\<And>r. r \<in> set us \<Longrightarrow> paged r"
    "\<And>r. r \<in> set us \<Longrightarrow> 0xFFF < ifrom r \<and> ito r < 0xC0000000"
    using assms(1) by (rule regions_okE) blast
  show "paged r" "0xFFF < ifrom r" "ito r < gKernelBase" using us assms(2) by (simp_all add: gKernelBase_def)
qed

lemma il_del_user:
  "r \<in> set us \<Longrightarrow> il_del (us @ [k]) r = (True, snd (il_del us r) @ [k])
    \<and> sum_list (map isize (snd (il_del us r))) = sum_list (map isize us) - isize r"
proof (induction us)
  case (Cons u us)
  have "isize u = isize r" if "interval_eq u r" using that by (simp add: isize_def interval_eq_def)
  moreover have "r \<in> set us" if "\<not> interval_eq u r" using that Cons.prems by (auto simp: interval_eq_def)
  ultimately show ?case using Cons.IH by (auto split: prod.splits)
qed simp

lemma remove_region:
  assumes ok: "regions_ok xs" and r: "r \<in> set (user_regions xs)" and d: "il_del xs r = (found, ys)"
  shows "found" and "regions_ok ys" and "sum_list (map isize (user_regions ys)) = sum_list (map isize (user_regions xs)) - isize r"
    and "set ys = set xs - {r}"
proof -
  obtain us where us: "xs = zero_region # us @ [kernel_region]" "il_inv (- 1) xs" "\<And>r. r \<in> set us \<Longrightarrow> paged r"
    "\<And>r. r \<in> set us \<Longrightarrow> 0xFFF < ifrom r \<and> ito r < 0xC0000000"
    using ok by (rule regions_okE) blast
  have ru: "r \<in> set us" using r us(1) by simp
  have "\<not> interval_eq zero_region r" using us(4) [OF ru] by (auto simp: interval_eq_def)
  then have ys: "ys = zero_region # snd (il_del us r) @ [kernel_region]" and f: found
    using d il_del_user [OF ru, of kernel_region] by (auto simp: us(1))
  have eq: "interval_eq x r \<longleftrightarrow> x = r" if "x \<in> set xs" for x
    using process_regions.apart [OF us(2) that, of r] ru us(1) process_regions.ivs_proper [OF us(2) that]
    by (cases "x = r") (auto simp: interval_eq_def addrs_def proper_def)
  show set: "set ys = set xs - {r}" using process_regions.ivs_del [OF us(2) d] eq by auto
  have "paged x" if "x \<in> set (snd (il_del us r))" for x
  proof -
    have "x \<in> set ys" using that by (simp add: ys)
    then show ?thesis using ok set by (simp add: regions_ok_def)
  qed
  then show "regions_ok ys" unfolding ys using process_regions.del_inv [OF us(2) d] by (intro regions_okI) (simp_all add: ys)
  show found by (rule f)
  show "sum_list (map isize (user_regions ys)) = sum_list (map isize (user_regions xs)) - isize r"
    using il_del_user [OF ru] by (simp add: ys us(1))
qed

lemma removeRegion_ok:
  assumes M: "mm_ok M" and r: "r \<in> set (user_regions (mm_regions M))" and M': "removeRegion vt r M = Inr M'"
  shows "mm_ok M'" and "set (mm_regions M') = set (mm_regions M) - {r}"
proof -
  have ok: "regions_ok (mm_regions M)" using M by (simp add: mm_ok_def)
  obtain found ys where d: "il_del (mm_regions M) r = (found, ys)" by fastforce
  note ys = remove_region [OF ok r d]
  have "mm_regions M' = ys \<and> mm_size M' = mm_size M - isize r"
    using M' d ys(1) by (auto simp: removeRegion_def count_available_def kbind_eq_Inr_iff Let_def split: option.splits if_splits)
  then show "mm_ok M'" "set (mm_regions M') = set (mm_regions M) - {r}" using ys M by (simp_all add: mm_ok_def)
qed

definition bounds :: "'a interval_scheme \<Rightarrow> u32 \<times> u32" where
  "bounds r = (ifrom r, ito r)"

lemma il_inv_bounds_def:
  "il_inv b xs \<longleftrightarrow>
     (\<forall>(f, t) \<in> set (map bounds xs). f \<le> t \<and> t \<le> b) \<and> sorted_wrt (\<lambda>(_, t) (f, _). t < f) (map bounds xs)"
  by (auto simp: il_inv_def sorted_wrt_map bounds_def proper_def)

lemma il_inv_bounds: "map bounds xs = map bounds ys \<Longrightarrow> il_inv b xs = il_inv b ys"
  unfolding il_inv_bounds_def by (simp only:)

definition set_permission :: "region_t \<Rightarrow> map_options_t \<Rightarrow> region_t list \<Rightarrow> region_t list" where
  "set_permission rgn p xs = fst (il_foreach (\<lambda>R u. if ifrom R = ifrom rgn \<and> ito R = ito rgn then (False, R\<lparr>r_permission := p\<rparr>, ())
     else (True, R, ())) xs ())"

lemma set_permission_simps [simp]:
  "set_permission rgn p [] = []"
  "set_permission rgn p (x # xs) = (if bounds x = bounds rgn then x\<lparr>r_permission := p\<rparr> # xs else x # set_permission rgn p xs)"
  by (auto simp: set_permission_def bounds_def split: prod.splits)

lemma set_permission_last: "bounds k \<noteq> bounds rgn \<Longrightarrow> set_permission rgn p (us @ [k]) = set_permission rgn p us @ [k]"
  by (induction us) auto

lemma set_permission_bounds: "map bounds (set_permission rgn p us) = map bounds us"
  by (induction us) (auto simp: bounds_def)

lemma permission_ok:
  assumes ok: "regions_ok xs" and r: "r \<in> set (user_regions xs)"
  shows "regions_ok (set_permission r p xs)"
    and "sum_list (map isize (user_regions (set_permission r p xs))) = sum_list (map isize (user_regions xs))"
proof -
  obtain us where us: "xs = zero_region # us @ [kernel_region]" "il_inv (- 1) xs" "\<And>r. r \<in> set us \<Longrightarrow> paged r"
    "\<And>r. r \<in> set us \<Longrightarrow> 0xFFF < ifrom r \<and> ito r < 0xC0000000"
    using ok by (rule regions_okE) blast
  have "0xFFF < ifrom r" "ito r < 0xC0000000" using us(1,4) r by simp_all
  moreover have "ito r \<noteq> - 1" using calculation(2) by auto
  ultimately have "bounds zero_region \<noteq> bounds r" "bounds kernel_region \<noteq> bounds r" by (auto simp: bounds_def)
  then have eq: "set_permission r p xs = zero_region # set_permission r p us @ [kernel_region]"
    by (simp add: us(1) set_permission_last)
  have "il_inv (- 1) (set_permission r p xs)" using us(2) il_inv_bounds [OF set_permission_bounds] by blast
  moreover have "paged x" if "x \<in> set (set_permission r p us)" for x
  proof -
    have "bounds x \<in> set (map bounds us)" using that set_permission_bounds [of r p us] by (metis image_eqI set_map)
    then obtain y where "y \<in> set us" "bounds x = bounds y" by auto
    then show ?thesis using us(3) by (auto simp: bounds_def intro: paged_cong)
  qed
  ultimately show "regions_ok (set_permission r p xs)" unfolding eq by (intro regions_okI) simp_all
  have "map isize zs = map (\<lambda>(f, t). t - f + 1) (map bounds zs)" for zs :: "region_t list"
    by (simp add: isize_def bounds_def)
  then have "map isize (set_permission r p us) = map isize us" by (metis set_permission_bounds)
  then show "sum_list (map isize (user_regions (set_permission r p xs))) = sum_list (map isize (user_regions xs))"
    unfolding eq by (simp add: us(1))
qed

lemma protect_ok:
  assumes M: "mm_ok M" and a: "\<not> iskernel a" and M': "protectRegionAtAddress a p M = Inr (ok, M')"
  shows "mm_ok M'"
proof (cases "isWithinRegion a M")
  case None
  then show ?thesis using M M' by (simp add: protectRegionAtAddress_def)
next
  case (Some rgn)
  have regions: "regions_ok (mm_regions M)" using M by (simp add: mm_ok_def)
  have "mm_regions M' = set_permission rgn p (mm_regions M) \<and> mm_size M' = mm_size M"
    using M' Some by (auto simp: protectRegionAtAddress_def kbind_eq_Inr_iff Let_def set_permission_def)
  then show ?thesis using permission_ok [OF regions user_region(1) [OF regions Some a]] M by (simp add: mm_ok_def)
qed

section \<open>Page faults\<close>

lemma fault_regions:
  assumes "pageflt_handler seek readf err a M = Inr (x, M')"
  shows "mm_regions M' = mm_regions M" and "mm_size M' = mm_size M"
proof -
  have mm: "mm_regions N' = mm_regions N \<and> mm_size N' = mm_size N"
    if "mmap_fault_recover seek readf a r N = Inr (b, N')" for r b N N'
    using that by (auto simp: mmap_fault_recover_def kbind_eq_Inr_iff Let_def split: if_splits)
  have z: "mm_regions N' = mm_regions N \<and> mm_size N' = mm_size N"
    if "zeropage_recover seek readf a N = Inr (b, N')" for b N N'
    using that mm by (auto simp: zeropage_recover_def kbind_eq_Inr_iff split: if_splits option.splits)
  have c: "mm_regions N' = mm_regions N \<and> mm_size N' = mm_size N" if "cow_recover a N = Inr (b, N')" for b N N'
    using that by (auto simp: cow_recover_def kbind_eq_Inr_iff split: option.splits)
  show "mm_regions M' = mm_regions M" "mm_size M' = mm_size M"
    using assms by (auto simp: pageflt_handler_def kbind_eq_Inr_iff Let_def split: if_splits dest: z c)
qed

section \<open>Everything a process can do with its memory\<close>

datatype mm_op =
    MapRegion u32 u32
  | SetRegionPerms u32 u32
  | UnmapRegion u32
  | MapPages u32 map_options_t
  | MapFile filehandle_t u32
  | PageFault u32 u32

fun mm_do :: "('x, 'p) vtable \<Rightarrow> ('x, 'p) seek_f \<Rightarrow> ('x, 'p) read_f \<Rightarrow> mm_op \<Rightarrow> ('x, 'p) mm \<Rightarrow> ('x, 'p) mm kernel" where
  "mm_do vt seek readf (MapRegion sz perm) M = kbind (mapregion_syscall_handler sz perm M) (\<lambda>(_, M). Inr M)"
| "mm_do vt seek readf (SetRegionPerms a perm) M = kbind (setregionperms_syscall_handler a perm M) (\<lambda>(_, M). Inr M)"
| "mm_do vt seek readf (UnmapRegion a) M = kbind (unmapregion_syscall_handler vt a M) (\<lambda>(_, M). Inr M)"
| "mm_do vt seek readf (MapPages sz opts) M = kbind (findAndMapRegion sz opts M) (\<lambda>(_, M). Inr M)"
| "mm_do vt seek readf (MapFile h sz) M = kbind (findAndFileMapRegion h sz M) (\<lambda>(_, M). Inr M)"
| "mm_do vt seek readf (PageFault err a) M = kbind (pageflt_handler seek readf err a M) (\<lambda>(_, M). Inr M)"

fun op_size :: "mm_op \<Rightarrow> u32" where
  "op_size (MapRegion sz perm) = sz"
| "op_size (MapPages sz opts) = sz"
| "op_size (MapFile h sz) = sz"
| "op_size _ = 0"

text \<open>
  A process starts with the regions of the constructor, or with a copy of those of its parent, and takes
  steps that map at most 1 GB at a time.
\<close>

inductive mm_reachable :: "('x, 'p) vtable \<Rightarrow> ('x, 'p) seek_f \<Rightarrow> ('x, 'p) read_f \<Rightarrow> ('x, 'p) mm \<Rightarrow> bool"
  for vt seek readf where
  create: "mm_regions M = memmgr_new \<Longrightarrow> mm_size M = 0 \<Longrightarrow> mm_reachable vt seek readf M"
| clone: "mm_reachable vt seek readf M \<Longrightarrow> mm_reachable vt seek readf (memmgr_clone M N)"
| step: "mm_reachable vt seek readf M \<Longrightarrow> op_size op \<le> 0x40000000 \<Longrightarrow> mm_do vt seek readf op M = Inr M'
    \<Longrightarrow> mm_reachable vt seek readf M'"

lemma mm_do_ok:
  assumes M: "mm_ok M" and sz: "op_size op \<le> 0x40000000" and M': "mm_do vt seek readf op M = Inr M'"
  shows "mm_ok M'"
proof (cases op)
  case (MapRegion sz perm)
  then show ?thesis using M sz M' mapping_ok(2) [OF M]
    by (auto simp: mapregion_syscall_handler_def kbind_eq_Inr_iff Let_def split: if_splits)
next
  case (SetRegionPerms a perm)
  then show ?thesis using M M'
    by (auto simp: setregionperms_syscall_handler_def kbind_eq_Inr_iff Let_def split: if_splits option.splits dest: protect_ok [OF M])
next
  case (UnmapRegion a)
  then show ?thesis using M M' user_region(1) [of M a]
    by (auto simp: unmapregion_syscall_handler_def kbind_eq_Inr_iff mm_ok_def split: if_splits option.splits
        dest!: removeRegion_ok(1) [OF M, rotated])
next
  case (PageFault err a)
  then show ?thesis using M M' by (auto simp: kbind_eq_Inr_iff mm_ok_cong [OF fault_regions])
qed (use sz M' mapping_ok [OF M] in \<open>auto simp: kbind_eq_Inr_iff\<close>)

lemma reachable_ok: "mm_reachable vt seek readf M \<Longrightarrow> mm_ok M"
proof (induction rule: mm_reachable.induct)
  case (create M)
  then show ?case by (simp add: mm_ok_def memmgr_new_ok)
next
  case (clone M N)
  then show ?case by (simp add: mm_ok_def memmgr_clone_def)
next
  case (step M op M')
  then show ?case using mm_do_ok by blast
qed


text \<open>
  The bound on the size matters. With one page mapped, a request for nearly 4 GB succeeds: the sum of
  the size and the end of that page wraps, and the new region ends before it starts.
\<close>

lemma page_loop_done: "\<not> c i \<Longrightarrow> page_loop n c f i s = Inr s"
  by (cases n) simp_all

lemma mapregion_wraps:
  assumes "mm_regions M = [zero_region, region_of 0x1000 0x1FFF, kernel_region]" and "vm_stats (mm_vm M) = Some p"
  shows "\<exists>M' r. mapregion_syscall_handler 0xFFFFF000 perm M = Inr (0x2000, M') \<and> r \<in> set (mm_regions M')
    \<and> ifrom r = 0x2000 \<and> ito r = 0xFFF"
proof -
  have find: "findRegionImpl 0xFFFFF000 M = Some (region_of 0x2000 0xFFF)"
    by (simp add: findRegionImpl_def toPage_def gPageSize_def assms(1) il_findFree_def Let_def) (simp add: region_of_def region_new_def)
  have "mapZeroPage_range 0x2000 0xFFF opts (mm_vm M) = Inr (0x2000, mm_vm M)" for opts
    by (simp add: mapZeroPage_range_def for_pages_def page_loop_done)
  then show ?thesis using assms(2) find
    by (auto simp: mapregion_syscall_handler_def findAndZeroPageRegion_def addRegion_def count_available_def Let_def
        offset_def gPageSize_def il_add_eq_insert)
qed

section \<open>A process\<close>

definition example_mm :: "(nat, unit) mm" where
  "example_mm = \<lparr>mm_vm = example_vmm, mm_regions = memmgr_new, mm_size = 0, mm_vfs = example_vfs\<rparr>"

text \<open>Its filesystems have no files: opening fails, and there is nothing to read.\<close>

definition example_vtable :: "(nat, unit) vtable" where
  "example_vtable = \<lparr>v_doOpen = \<lambda>_ _ F. Inr (0, F), v_doOpendir = \<lambda>_ F. Inr (0, F), v_doClose = \<lambda>_ F. Inr F,
     v_del = \<lambda>_ F. Inr (False, F), v_mkdir = \<lambda>_ F. Inr (False, F)\<rparr>"

definition example_seek :: "(nat, unit) seek_f" where
  "example_seek h p v = Inr (False, v)"

definition example_read :: "(nat, unit) read_f" where
  "example_read h n v = Inr ([], v)"


end
