(* ===== verification/Process_Memory.thy ===== *)
theory Process_Memory
  imports Process_Regions
begin

text \<open>
  What the memory manager, the page fault handler and the system calls on memory guarantee together:
  the regions of a process stay apart, a fault inside one gets a clean page with its permission,
  removing a region takes all its pages away, and what the checks of user memory answer.
\<close>

section \<open>The pages of a region\<close>

definition region_pages :: "'a interval_scheme \<Rightarrow> u32 list" where
  "region_pages r = map (page_at (ifrom r)) [0..<(unat (ito r) + 1 - unat (ifrom r)) div 4096]"

lemma paged_nat:
  assumes "paged r" and "ito r < gKernelBase"
  shows "unat (ifrom r) \<le> unat (ito r)" and "unat (ifrom r) mod 4096 = 0" and "unat (ito r) + 1 < 2 ^ 32"
    and "unat (ifrom r) + 4096 * ((unat (ito r) + 1 - unat (ifrom r)) div 4096) = unat (ito r) + 1"
proof -
  show le: "unat (ifrom r) \<le> unat (ito r)" using assms(1) by (simp add: paged_def proper_def word_le_nat_alt)
  show m: "unat (ifrom r) mod 4096 = 0" using assms(1) by (metis paged_def unat_offset unat_0)
  have "unat (ito r) < 3221225472" using assms(2) by (simp add: gKernelBase_def word_less_nat_alt)
  then show b: "unat (ito r) + 1 < 2 ^ 32" by simp
  then have "unat (ito r + 1) = unat (ito r) + 1" by (simp add: unat_word_ariths)
  then have "(unat (ito r) + 1) mod 4096 = 0" using assms(1) by (metis paged_def unat_offset unat_0)
  then have "(unat (ito r) + 1 - unat (ifrom r)) mod 4096 = 0" using m by (metis dvd_diff_nat mod_eq_0_iff_dvd)
  then show "unat (ifrom r) + 4096 * ((unat (ito r) + 1 - unat (ifrom r)) div 4096) = unat (ito r) + 1"
    using le by (auto simp: mod_eq_0_iff_dvd)
qed

lemma region_page_at:
  assumes "paged r" and "ito r < gKernelBase" and "k \<le> (unat (ito r) + 1 - unat (ifrom r)) div 4096"
  shows "unat (page_at (ifrom r) k) = unat (ifrom r) + 4096 * k"
proof (rule page_at_unat)
  have "4096 * k \<le> 4096 * ((unat (ito r) + 1 - unat (ifrom r)) div 4096)" using assms(3) by simp
  then show "unat (ifrom r) + 4096 * k < 2 ^ 32" using paged_nat [OF assms(1,2)] by linarith
qed

lemma for_region_pages:
  assumes "paged r" and "ito r < gKernelBase"
  shows "for_pages (\<lambda>b. b < ito r) f (ifrom r) s = kfold f (region_pages r) s"
    and "for_pages (\<lambda>b. b \<le> ito r) f (ifrom r) s = kfold f (region_pages r) s"
proof -
  note n = paged_nat [OF assms] and p = region_page_at [OF assms]
  let ?n = "(unat (ito r) + 1 - unat (ifrom r)) div 4096"
  have less: "page_at (ifrom r) k < ito r" "page_at (ifrom r) k \<le> ito r" if "k < ?n" for k
  proof -
    have "4096 * k + 4096 \<le> 4096 * ?n" using that by simp
    then have "unat (page_at (ifrom r) k) < unat (ito r)" using p [of k] n that by simp
    then show "page_at (ifrom r) k < ito r" "page_at (ifrom r) k \<le> ito r" by (simp_all add: word_less_nat_alt word_le_nat_alt)
  qed
  have stop: "\<not> page_at (ifrom r) ?n < ito r" "\<not> page_at (ifrom r) ?n \<le> ito r"
    using p [of ?n] n by (simp_all add: word_less_nat_alt word_le_nat_alt)
  have "?n \<le> 1048576" using n(3,4) by simp
  then show "for_pages (\<lambda>b. b < ito r) f (ifrom r) s = kfold f (region_pages r) s"
    "for_pages (\<lambda>b. b \<le> ito r) f (ifrom r) s = kfold f (region_pages r) s"
    unfolding region_pages_def using less stop by (auto intro!: for_pages_kfold)
qed

lemma region_pages_set:
  assumes "paged r" and "ito r < gKernelBase"
  shows "set (region_pages r) = {v. offset v = 0 \<and> icontains r v}" and "distinct (region_pages r)"
proof -
  note n = paged_nat [OF assms] and p = region_page_at [OF assms]
  let ?n = "(unat (ito r) + 1 - unat (ifrom r)) div 4096"
  show "distinct (region_pages r)"
    unfolding region_pages_def distinct_map
  proof (intro conjI inj_onI)
    fix j k assume jk: "j \<in> set [0..<?n]" "k \<in> set [0..<?n]" and e: "page_at (ifrom r) j = page_at (ifrom r) k"
    have "j \<le> ?n" "k \<le> ?n" using jk by (simp_all only: set_upt atLeastLessThan_iff less_imp_le)
    then have "unat (ifrom r) + 4096 * j = unat (ifrom r) + 4096 * k" using p e by metis
    then show "j = k" by simp
  qed simp
  show "set (region_pages r) = {v. offset v = 0 \<and> icontains r v}"
  proof (intro set_eqI iffI)
    fix v assume "v \<in> set (region_pages r)"
    then obtain k where k: "k < ?n" "v = page_at (ifrom r) k" by (auto simp: region_pages_def)
    then have u: "unat v = unat (ifrom r) + 4096 * k" using p by simp
    have "4096 * k + 4096 \<le> 4096 * ?n" using k(1) by simp
    then have "unat v \<le> unat (ito r)" "unat (ifrom r) \<le> unat v" using u n by linarith+
    moreover have "unat v mod 4096 = 0" using u n(2) by simp
    then have "offset v = 0" by (metis unat_offset unat_0 word_unat_eq_iff)
    ultimately show "v \<in> {v. offset v = 0 \<and> icontains r v}" by (simp add: icontains_def word_le_nat_alt)
  next
    fix v assume "v \<in> {v. offset v = 0 \<and> icontains r v}"
    then have v: "offset v = 0" "unat (ifrom r) \<le> unat v" "unat v \<le> unat (ito r)" by (auto simp: icontains_def word_le_nat_alt)
    then have m: "unat v mod 4096 = 0" by (metis unat_offset unat_0)
    define k where "k = (unat v - unat (ifrom r)) div 4096"
    have "(unat v - unat (ifrom r)) mod 4096 = 0" using m n(2) v(2) by (metis dvd_diff_nat mod_eq_0_iff_dvd)
    then have u: "unat v = unat (ifrom r) + 4096 * k" using v(2) by (auto simp: k_def mod_eq_0_iff_dvd)
    then have "4096 * k < 4096 * ?n" using v(3) n by linarith
    then have "k < ?n" by simp
    moreover have "v = page_at (ifrom r) k" using p [of k] u calculation by (simp add: word_unat_eq_iff)
    ultimately show "v \<in> set (region_pages r)" by (auto simp: region_pages_def)
  qed
qed

section \<open>Checking user memory\<close>

definition user_readable :: "vmm \<Rightarrow> u32 \<Rightarrow> bool" where
  "user_readable s v \<longleftrightarrow> (te_get Present (entry s v) \<or> te_get Zpmap (entry s v)) \<and> te_get User (entry s v)"

definition user_writable :: "vmm \<Rightarrow> u32 \<Rightarrow> bool" where
  "user_writable s v \<longleftrightarrow> user_readable s v \<and> te_get Rw (entry s v)"

lemma page_checks:
  assumes "paging_ok s"
  shows "isPageReadable s v = Inr (user_readable s v)" and "isPageWritable s v = Inr (user_writable s v)"
  using assms by (auto simp: isPageReadable_def isPageWritable_def read_entry_ok user_readable_def user_writable_def mapped_options_def)

lemma user_page:
  assumes "page u = page v"
  shows "user_readable s u = user_readable s v" and "user_writable s u = user_writable s v"
proof -
  have "pi_of_virt u = pi_of_virt v" using assms by (simp add: pi_of_virt_eq_iff)
  then show "user_readable s u = user_readable s v" "user_writable s u = user_writable s v"
    by (simp_all add: user_readable_def user_writable_def)
qed

lemma aligned_gap:
  fixes p v :: u32
  assumes "offset p = 0" and "offset v = 0" and "p < v"
  shows "unat p + 4096 \<le> unat v"
proof -
  obtain a b where "unat p = 4096 * a" "unat v = 4096 * b" using assms(1,2) by (metis aligned_nat dvdE mod_eq_0_iff_dvd)
  then show ?thesis using assms(3) by (simp add: word_less_nat_alt)
qed

lemma check_pages_all:
  assumes f: "\<And>v. f v = Inr (P v)" and q: "unat q + 4096 < 2 ^ 32" "offset q = 0"
  shows "offset p = 0 \<Longrightarrow> unat q + 4096 \<le> unat p + 4096 * n \<Longrightarrow> unat p \<le> unat q + 4096 \<Longrightarrow>
    check_pages n f p q = Inr (\<forall>v. offset v = 0 \<and> p \<le> v \<and> v \<le> q \<longrightarrow> P v)"
proof (induction n arbitrary: p)
  case 0
  then have "unat p = unat q + 4096" by simp
  then have "\<not> p \<le> q" by (simp add: word_le_nat_alt)
  then show ?case by auto
next
  case (Suc n)
  show ?case
  proof (cases "p \<le> q")
    case False
    then show ?thesis by auto
  next
    case True
    then have le: "unat p \<le> unat q" by (simp add: word_le_nat_alt)
    have u: "unat (p + gPageSize) = unat p + 4096" using le q(1) by (simp add: gPageSize_def unat_word_ariths)
    have o: "offset (p + gPageSize) = 0" using Suc.prems(1) by (simp add: aligned_nat u)
    have "p + gPageSize \<le> v \<longleftrightarrow> p < v" if "offset v = 0" for v
      using aligned_gap [OF Suc.prems(1) that] u by (auto simp: word_le_nat_alt word_less_nat_alt)
    then have "(\<forall>v. offset v = 0 \<and> p \<le> v \<and> v \<le> q \<longrightarrow> P v) \<longleftrightarrow>
        P p \<and> (\<forall>v. offset v = 0 \<and> p + gPageSize \<le> v \<and> v \<le> q \<longrightarrow> P v)"
      using True Suc.prems(1) by (metis order.order_iff_strict)
    moreover have "check_pages n f (p + gPageSize) q = Inr (\<forall>v. offset v = 0 \<and> p + gPageSize \<le> v \<and> v \<le> q \<longrightarrow> P v)"
      using Suc.prems le u o by (intro Suc.IH) simp_all
    ultimately show ?thesis using True f [of p] by simp
  qed
qed

lemma check_pages_stop: "\<not> p \<le> q \<Longrightarrow> check_pages n f p q = Inr True"
  by (cases n) simp_all

lemma range_end:
  fixes a sz :: u32
  assumes "sz \<noteq> 0" and "unat a + unat sz \<le> 2 ^ 32"
  shows "unat (a + sz - 1) = unat a + unat sz - 1"
proof -
  have z: "0 < unat sz" using assms(1) by (simp add: unat_gt_0)
  have "unat (sz - 1) = unat sz - 1" using assms(1) by (simp add: unat_minus_one)
  then have "unat (a + (sz - 1)) = unat a + (unat sz - 1)" using unat_plus_no_wrap [of a "sz - 1"] assms(2) z by simp
  then show ?thesis using z by (simp add: add_diff_eq)
qed

lemma checkPageRange_all:
  assumes f: "\<And>v. f v = Inr (P v)" and P: "\<And>u v. page u = page v \<Longrightarrow> P u = P v"
    and sz: "sz \<noteq> 0" and fit: "unat a + unat sz \<le> 0xFFFFF000"
  shows "checkPageRange a sz f = Inr (\<forall>b. a \<le> b \<and> b \<le> a + sz - 1 \<longrightarrow> P b)"
proof -
  define e where "e = a + sz - 1"
  have e: "unat e = unat a + unat sz - 1" using range_end [OF sz, of a] fit by (simp add: e_def)
  have z: "0 < unat sz" using sz by (simp add: unat_gt_0)
  have ae: "a \<le> e" using e z by (simp add: word_le_nat_alt)
  have mono: "page u \<le> page v" if "u \<le> v" for u v :: u32
    using that by (simp add: word_le_nat_alt unat_page div_le_mono)
  have pages: "(\<forall>b. a \<le> b \<and> b \<le> e \<longrightarrow> P b) \<longleftrightarrow> (\<forall>v. offset v = 0 \<and> page a \<le> v \<and> v \<le> page e \<longrightarrow> P v)"
  proof (intro iffI allI impI)
    fix b assume "\<forall>v. offset v = 0 \<and> page a \<le> v \<and> v \<le> page e \<longrightarrow> P v" and "a \<le> b \<and> b \<le> e"
    then have "P (page b)" using mono by simp
    then show "P b" using P [of "page b" b] by simp
  next
    fix v assume *: "\<forall>b. a \<le> b \<and> b \<le> e \<longrightarrow> P b" and v: "offset v = 0 \<and> page a \<le> v \<and> v \<le> page e"
    show "P v"
    proof (cases "a \<le> v")
      case True
      have "page e \<le> e" by (simp add: word_le_nat_alt unat_page)
      then show ?thesis using * True v by (meson order.trans)
    next
      case False
      then have "page v \<le> page a" using mono by simp
      then have "page v = page a" using v mono [of "page a" v] by simp
      then show ?thesis using * ae P by blast
    qed
  qed
  show ?thesis
  proof (cases "page a = page e")
    case True
    then have "offset v = 0 \<and> page a \<le> v \<and> v \<le> page e \<longleftrightarrow> v = page a" for v by auto
    then show ?thesis using True f [of "page a"] pages by (simp add: checkPageRange_def isSamePage_def e_def [symmetric] Let_def)
  next
    case False
    have "unat (page e) + 4096 < 2 ^ 32"
    proof -
      have "unat e < 4294963200" using e fit z by simp
      then have "unat e div 4096 < 1048575" by (simp add: less_mult_imp_div_less)
      then show ?thesis by (simp add: unat_page)
    qed
    moreover have "unat (page a) \<le> unat (page e) + 4096" using mono [OF ae] by (simp add: word_le_nat_alt)
    ultimately have "check_pages 0x100000 f (page a) (page e) = Inr (\<forall>v. offset v = 0 \<and> page a \<le> v \<and> v \<le> page e \<longrightarrow> P v)"
      using f by (intro check_pages_all) simp_all
    then show ?thesis using False pages by (simp add: checkPageRange_def isSamePage_def e_def [symmetric] Let_def)
  qed
qed

lemma checkPageRange_wrapped:
  assumes "unat a + unat sz > 2 ^ 32" and "page (a + sz - 1) \<noteq> page a"
  shows "checkPageRange a sz f = Inr True"
proof -
  define x where "x = unat a + unat sz"
  have x: "4294967296 < x" "x - 4294967296 < unat a" using assms(1) u32_bound [of sz] by (simp_all add: x_def)
  have "unat (a + sz) = x mod 4294967296" by (simp add: unat_word_ariths x_def)
  also have "\<dots> = x - 4294967296" using x u32_bound [of a] by (simp add: le_mod_geq)
  finally have y: "unat (a + sz) = x - 4294967296" .
  then have "a + sz \<noteq> 0" using x(1) by (metis unat_0 zero_less_diff less_numeral_extra(3))
  then have "unat (a + sz - 1) = x - 4294967296 - 1" using y by (simp add: unat_minus_one)
  then have "unat (a + sz - 1) < unat a" using x by linarith
  then have "a + sz - 1 \<le> a" by (simp add: word_le_nat_alt)
  then have "page (a + sz - 1) \<le> page a" by (simp add: word_le_nat_alt unat_page div_le_mono)
  then have "\<not> page a \<le> page (a + sz - 1)" using assms(2) by auto
  then have "check_pages 0x100000 f (page a) (page (a + sz - 1)) = Inr True"
    by (rule check_pages_stop)
  then show ?thesis using assms(2) by (simp add: checkPageRange_def isSamePage_def Let_def)
qed

text \<open>
  C33: what the checks of user memory answer. For a range that ends below the last page of memory they say yes
  exactly when every address in it is mapped for the user, to memory or to the zero page, and for the
  check of writing also writable. For a range that goes past the end of memory and ends in another page
  they say yes without looking at any page.
\<close>

theorem vmcheck_spec:
  assumes "paging_ok (mm_vm M)" and "sz \<noteq> 0"
  shows "(unat a + unat sz \<le> 0xFFFFF000 \<longrightarrow>
      vmcheckreadable_syscall_handler a sz M =
        Inr (if \<forall>b. a \<le> b \<and> b \<le> a + sz - 1 \<longrightarrow> user_readable (mm_vm M) b then OK else ERR_NOT_ALLOWED)
    \<and> vmcheckwritable_syscall_handler a sz M =
        Inr (if \<forall>b. a \<le> b \<and> b \<le> a + sz - 1 \<longrightarrow> user_writable (mm_vm M) b then OK else ERR_NOT_ALLOWED))
    \<and> (unat a + unat sz > 2 ^ 32 \<and> page (a + sz - 1) \<noteq> page a \<longrightarrow>
      vmcheckreadable_syscall_handler a sz M = Inr OK \<and> vmcheckwritable_syscall_handler a sz M = Inr OK)"
proof (intro conjI impI)
  assume fit: "unat a + unat sz \<le> 0xFFFFF000"
  have r: "checkPageRange a sz (isPageReadable (mm_vm M)) = Inr (\<forall>b. a \<le> b \<and> b \<le> a + sz - 1 \<longrightarrow> user_readable (mm_vm M) b)"
    by (rule checkPageRange_all [OF page_checks(1) [OF assms(1)] _ assms(2) fit]) (rule user_page(1))
  have w: "checkPageRange a sz (isPageWritable (mm_vm M)) = Inr (\<forall>b. a \<le> b \<and> b \<le> a + sz - 1 \<longrightarrow> user_writable (mm_vm M) b)"
    by (rule checkPageRange_all [OF page_checks(2) [OF assms(1)] _ assms(2) fit]) (rule user_page(2))
  show "vmcheckreadable_syscall_handler a sz M =
    Inr (if \<forall>b. a \<le> b \<and> b \<le> a + sz - 1 \<longrightarrow> user_readable (mm_vm M) b then OK else ERR_NOT_ALLOWED)"
    unfolding vmcheckreadable_syscall_handler_def r by simp
  show "vmcheckwritable_syscall_handler a sz M =
    Inr (if \<forall>b. a \<le> b \<and> b \<le> a + sz - 1 \<longrightarrow> user_writable (mm_vm M) b then OK else ERR_NOT_ALLOWED)"
    unfolding vmcheckwritable_syscall_handler_def w by simp
next
  assume w: "unat a + unat sz > 2 ^ 32 \<and> page (a + sz - 1) \<noteq> page a"
  show "vmcheckreadable_syscall_handler a sz M = Inr OK"
    unfolding vmcheckreadable_syscall_handler_def checkPageRange_wrapped [OF conjunct1 [OF w] conjunct2 [OF w]] by simp
  show "vmcheckwritable_syscall_handler a sz M = Inr OK"
    unfolding vmcheckwritable_syscall_handler_def checkPageRange_wrapped [OF conjunct1 [OF w] conjunct2 [OF w]] by simp
qed

section \<open>Page faults\<close>

lemma user_below_window: "\<not> iskernel v \<Longrightarrow> below_window v"
  by (simp add: iskernel_def gKernelBase_def below_window_def word_le_nat_alt word_less_nat_alt)

lemma user_page_address: "\<not> iskernel v \<Longrightarrow> \<not> iskernel (page v)"
  by (auto simp: iskernel_def gKernelBase_def word_le_nat_alt unat_page)

lemma mapAnyPhysicalPage_ok:
  assumes inv: "vm_inv s" and free: "free_set (vm_pmm s) \<noteq> {}" and v: "\<not> iskernel v" "offset v = 0"
    and new: "\<not> te_get Present (entry s v)" and c: "o_clear opts"
  obtains phys s' where "mapAnyPhysicalPage v opts s = Inr (v, s')" "vm_inv s'" "offset phys = 0"
    "page_avail (vm_pmm s) (index phys)" "refs (vm_pmm s') = (refs (vm_pmm s))(index phys := 1)"
    "free_set (vm_pmm s') = free_set (vm_pmm s) - {index phys}"
    "entry_maps (opts\<lparr>o_frompmm := True\<rparr>) phys (entry s' v)" "\<And>u. page u \<noteq> v \<Longrightarrow> entry s' u = entry s u"
    "\<And>q k. q \<notin> paging_frames s \<Longrightarrow> unat k < 4096 \<Longrightarrow> vm_mem s' q k = (if q = phys then 0 else vm_mem s q k)"
    "phys \<notin> paging_frames s" "paging_frames s' = paging_frames s"
    "vm_stats s' = map_option (\<lambda>p. p\<lparr>allocated := allocated p + gPageSize\<rparr>) (vm_stats s)"
proof -
  let ?o = "opts\<lparr>o_frompmm := True\<rparr>"
  have i: "paging_ok s" "pmm_inv (vm_pmm s)" "paging_held s" using inv by (simp_all add: vm_inv_def)
  obtain phys p where a: "vm_alloc s = Inr (phys, s\<lparr>vm_pmm := p\<rparr>)" "pmm_inv p" "offset phys = 0"
    "page_avail (vm_pmm s) (index phys)" "refs p = (refs (vm_pmm s))(index phys := 1)"
    "free_set p = free_set (vm_pmm s) - {index phys}"
    using vm_alloc_ok [OF i(2) free] by blast
  let ?t = "s\<lparr>vm_pmm := p\<rparr>"
  have ok: "paging_ok ?t" using i(1) by simp
  have fresh: "phys \<notin> paging_frames s" using i(3) a(4) by (simp add: paging_held_fresh)
  have bw: "below_window v" using v(1) by (rule user_below_window)
  obtain w where w: "entry_maps ?o phys w" and m: "vm_map phys v ?o ?t = Inr (v, after_map phys v ?o w ?t)"
    using vm_map_ok [OF ok bw a(3), of ?o] v(2) fresh by auto
  let ?s = "after_map phys v ?o w ?t"
  have fr: "o_clear ?o \<longrightarrow> phys \<notin> paging_frames ?t" using fresh by simp
  have pg: "paging_ok ?s" "paging_frames ?s = paging_frames s" "entry ?s u = (if page u = page v then w else entry s u)" for u
    using after_map_paging [OF ok bw fr] by simp_all
  have "paging_held ?s" by (rule paging_held_shrink [OF i(3) pg(2)]) (simp add: a(6) Diff_subset)
  then have "vm_inv ?s" using pg(1) a(2) by (simp add: vm_inv_def)
  moreover have "mapAnyPhysicalPage v opts s = Inr (v, ?s)"
    using new i(1) a(1) m by (simp add: mapAnyPhysicalPage_def read_entry_ok)
  moreover have "vm_mem ?s q k = (if q = phys then 0 else vm_mem s q k)" if "q \<notin> paging_frames s" "unat k < 4096" for q k
    using after_map_mem [OF ok, of q k] that c by simp
  moreover have "vm_stats ?s = map_option (\<lambda>p. p\<lparr>allocated := allocated p + gPageSize\<rparr>) (vm_stats s)"
    using v(1) by (simp add: after_map_def count_allocated_def)
  ultimately show thesis using that [of ?s phys] a w pg fresh page_aligned [OF v(2)] by simp
qed

lemma paging_set_stats [simp]:
  "pte (s\<lparr>vm_stats := x\<rparr>) = pte s" "paging_ok (s\<lparr>vm_stats := x\<rparr>) = paging_ok s"
  "paging_frames (s\<lparr>vm_stats := x\<rparr>) = paging_frames s" "vm_inv (s\<lparr>vm_stats := x\<rparr>) = vm_inv s"
proof -
  note e = paging_same_mem [of "s\<lparr>vm_stats := x\<rparr>" s, simplified]
  show "pte (s\<lparr>vm_stats := x\<rparr>) = pte s" "paging_ok (s\<lparr>vm_stats := x\<rparr>) = paging_ok s"
    "paging_frames (s\<lparr>vm_stats := x\<rparr>) = paging_frames s" using e by simp_all
  then show "vm_inv (s\<lparr>vm_stats := x\<rparr>) = vm_inv s" by (simp add: vm_inv_def paging_held_def)
qed

lemma isWithinRegion_cong:
  "mm_regions N = mm_regions M \<Longrightarrow> mKernelRegions (mm_vm N) = mKernelRegions (mm_vm M) \<Longrightarrow> isWithinRegion a N = isWithinRegion a M"
  by (simp add: isWithinRegion_def isWithinKernelRegion_def)

text \<open>
  C30: a fault of a user address whose page was never touched. Inside a region for memory the process goes on:
  one free frame gets its only reference, the page of the address maps it with the permission of the region,
  the frame is all zero, and no other page and no other frame changes. Outside of every region the process is
  stopped, and nothing but its fault counter changes.
\<close>

theorem demand_paging_spec:
  assumes inv: "vm_inv (mm_vm M)" and a: "\<not> iskernel a" and stats: "vm_stats (mm_vm M) = Some p"
    and new: "\<not> te_get Present (entry (mm_vm M) a)" "te_page (entry (mm_vm M) a) = 0"
  shows "(\<forall>r. isWithinRegion a M = Some r \<and> \<not> isMmapRegion r \<and> o_clear (r_permission r) \<and> free_set (vm_pmm (mm_vm M)) \<noteq> {} \<longrightarrow>
      (\<exists>phys M'. pageflt_handler seek readf err a M = Inr (Resume, M') \<and> vm_inv (mm_vm M')
        \<and> page_avail (vm_pmm (mm_vm M)) (index phys)
        \<and> refs (vm_pmm (mm_vm M')) = (refs (vm_pmm (mm_vm M)))(index phys := 1)
        \<and> entry_maps ((r_permission r)\<lparr>o_frompmm := True\<rparr>) phys (entry (mm_vm M') a)
        \<and> (\<forall>u. page u \<noteq> page a \<longrightarrow> entry (mm_vm M') u = entry (mm_vm M) u)
        \<and> (\<forall>q k. q \<notin> paging_frames (mm_vm M) \<and> unat k < 4096 \<longrightarrow>
             vm_mem (mm_vm M') q k = (if q = phys then 0 else vm_mem (mm_vm M) q k))
        \<and> phys \<notin> paging_frames (mm_vm M) \<and> mm_regions M' = mm_regions M
        \<and> vm_stats (mm_vm M') = Some (p\<lparr>pagefaults := pagefaults p + 1, allocated := allocated p + gPageSize\<rparr>)))
    \<and> (isWithinRegion a M = None \<longrightarrow> pageflt_handler seek readf err a M =
        Inr (AppPanic (pageflt_description err), M\<lparr>mm_vm := (mm_vm M)\<lparr>vm_stats := Some (p\<lparr>pagefaults := pagefaults p + 1\<rparr>)\<rparr>\<rparr>))"
    (is "(\<forall>r. ?in r \<longrightarrow> (\<exists>phys M'. ?paged r phys M')) \<and> _")
proof (intro conjI allI impI)
  let ?s = "(mm_vm M)\<lparr>vm_stats := Some (p\<lparr>pagefaults := pagefaults p + 1\<rparr>)\<rparr>"
  let ?M = "M\<lparr>mm_vm := ?s\<rparr>"
  have ok: "paging_ok (mm_vm M)" using inv by (simp add: vm_inv_def)
  then have fault: "pageflt_handler seek readf err a M = kbind (zeropage_recover seek readf a ?M)
      (\<lambda>(ok, M). if ok then Inr (Resume, M) else Inr (AppPanic (pageflt_description err), M))"
    using new stats by (simp add: pageflt_handler_def read_entry_ok gZeroPagePhysical_def Let_def)
  have w: "isWithinRegion a ?M = isWithinRegion a M" by (rule isWithinRegion_cong) simp_all
  {
    assume "isWithinRegion a M = None"
    then show "pageflt_handler seek readf err a M = Inr (AppPanic (pageflt_description err), ?M)"
      unfolding fault using w by (simp add: zeropage_recover_def)
  next
    fix r assume r: "?in r"
    have pa: "pi_of_virt (page a) = pi_of_virt a" by (simp add: pi_of_virt_eq_iff)
    obtain phys s' where m: "mapAnyPhysicalPage (page a) (r_permission r) ?s = Inr (page a, s')" "vm_inv s'"
      "page_avail (vm_pmm (mm_vm M)) (index phys)" "refs (vm_pmm s') = (refs (vm_pmm (mm_vm M)))(index phys := 1)"
      "entry_maps ((r_permission r)\<lparr>o_frompmm := True\<rparr>) phys (entry s' a)" "\<And>u. page u \<noteq> page a \<Longrightarrow> entry s' u = entry (mm_vm M) u"
      "\<And>q k. q \<notin> paging_frames (mm_vm M) \<Longrightarrow> unat k < 4096 \<Longrightarrow> vm_mem s' q k = (if q = phys then 0 else vm_mem (mm_vm M) q k)"
      "phys \<notin> paging_frames (mm_vm M)"
      "vm_stats s' = Some (p\<lparr>pagefaults := pagefaults p + 1, allocated := allocated p + gPageSize\<rparr>)"
      by (rule mapAnyPhysicalPage_ok [of ?s "page a" "r_permission r"])
        (use inv r new user_page_address [OF a] in \<open>simp_all add: pa\<close>)
    have "pageflt_handler seek readf err a M = Inr (Resume, ?M\<lparr>mm_vm := s'\<rparr>)"
      unfolding fault using w r m(1) by (simp add: zeropage_recover_def)
    then show "\<exists>phys M'. ?paged r phys M'"
      using m by (intro exI [of _ phys] exI [of _ "?M\<lparr>mm_vm := s'\<rparr>"]) simp
  }
qed

section \<open>A process\<close>

lemma example_mm_vm: "paging_ok (mm_vm example_mm)" "entry (mm_vm example_mm) v = entry example_vmm v"
  "vm_pmm (mm_vm example_mm) = example_pmm" "paging_frames (mm_vm example_mm) = paging_frames example_vmm"
proof -
  have *: "vm_mem (mm_vm example_mm) = vm_mem example_vmm" "vm_cr3 (mm_vm example_mm) = vm_cr3 example_vmm" by (simp_all add: example_mm_def)
  show "paging_ok (mm_vm example_mm)" "paging_frames (mm_vm example_mm) = paging_frames example_vmm"
    using paging_same_mem [OF *] example_paging_ok by simp_all
  show "entry (mm_vm example_mm) v = entry example_vmm v" using paging_same_mem(3) [OF *] by simp
  show "vm_pmm (mm_vm example_mm) = example_pmm" by (simp add: example_mm_def example_vmm_def)
qed

theorem vmcheck_spec_witness:
  "vmcheckreadable_syscall_handler 0x8000 0x2000 example_mm = Inr ERR_NOT_ALLOWED
   \<and> vmcheckwritable_syscall_handler 0x8000 0xFFFFF000 example_mm = Inr OK"
proof -
  have "entry (mm_vm example_mm) 0x8000 = 0" by (simp add: example_mm_vm example_entry below_window_def)
  then have "\<not> user_readable (mm_vm example_mm) 0x8000" by (simp add: user_readable_def te_get_def field_get_def)
  then have "\<not> (\<forall>b. (0x8000 :: u32) \<le> b \<and> b \<le> 0x8000 + 0x2000 - 1 \<longrightarrow> user_readable (mm_vm example_mm) b)"
    by (auto intro!: exI [of _ "0x8000"])
  then show ?thesis
    using vmcheck_spec [OF example_mm_vm(1), of "0x2000" "0x8000"] vmcheck_spec [OF example_mm_vm(1), of "0xFFFFF000" "0x8000"]
    by (simp add: page_def gPageSize_def) blast
qed

text \<open>The process with two pages of memory for it to read and write.\<close>

definition example_data :: region_t where
  "example_data = region_new 0x8000 0x9FFF (map_options_default\<lparr>o_user := True, o_clear := True, o_rw := True\<rparr>)"

definition example_process :: "(nat, unit) mm" where
  "example_process = example_mm\<lparr>mm_regions := il_add memmgr_new example_data, mm_size := 0x2000\<rparr>"

lemma example_process_facts:
  "mm_vm example_process = example_vmm" "mm_regions example_process = [zero_region, example_data, kernel_region]"
  "isWithinRegion 0x8123 example_process = Some example_data" "isWithinRegion 0x7000 example_process = None"
  "\<not> isMmapRegion example_data" "o_clear (r_permission example_data)" "o_rw (r_permission example_data)"
proof -
  have m: "memmgr_new = [zero_region, kernel_region]"
    by (simp add: memmgr_new_def il_add_def thisBefore_def zero_region_def kernel_region_def gKernelBase_def)
  show r: "mm_regions example_process = [zero_region, example_data, kernel_region]"
    by (simp add: example_process_def m il_add_eq_insert thisBefore_def example_data_def region_new_def word_order.extremum_unique)
  show "mm_vm example_process = example_vmm" by (simp add: example_process_def example_mm_def)
  show "isWithinRegion 0x8123 example_process = Some example_data" "isWithinRegion 0x7000 example_process = None"
    by (simp_all add: isWithinRegion_def r icontains_def example_data_def region_new_def page_def gPageSize_def iskernel_def gKernelBase_def)
  show "\<not> isMmapRegion example_data" "o_clear (r_permission example_data)" "o_rw (r_permission example_data)"
    by (simp_all add: isMmapRegion_def fh_valid_def null_handle_def example_data_def region_new_def)
qed

lemma example_process_ok: "mm_ok example_process"
proof -
  have u: "user_regions [zero_region, example_data, kernel_region] = [example_data]" by (simp add: user_regions_def)
  have d: "ifrom example_data = 0x8000" "ito example_data = 0x9FFF" by (simp_all add: example_data_def region_new_def)
  have "regions_ok (zero_region # [example_data] @ [kernel_region])"
    by (rule regions_okI) (simp_all add: il_inv_def proper_def paged_def d offset_def gPageSize_def)
  then show ?thesis
    by (simp add: mm_ok_def example_process_facts(2) u) (simp add: example_process_def isize_def d)
qed

lemma example_vm_inv: "vm_inv example_vmm" "free_set (vm_pmm example_vmm) \<noteq> {}"
proof -
  show "vm_inv example_vmm" using example_paging_ok example_pmm_inv example_held by (simp add: vm_inv_def example_vmm_def)
  have "0x600 \<in> free_set example_pmm" by (simp add: free_set_def page_avail_def page_free_def example_pmm_def)
  then show "free_set (vm_pmm example_vmm) \<noteq> {}" by (auto simp: example_vmm_def)
qed

theorem demand_paging_witness:
  "(\<exists>M'. pageflt_handler example_seek example_read 6 0x8123 example_process = Inr (Resume, M')
      \<and> te_get Rw (entry (mm_vm M') 0x8123))
   \<and> (\<exists>M'. pageflt_handler example_seek example_read 6 0x7000 example_process =
        Inr (AppPanic ''userspace write to invalid memory'', M'))"
proof -
  note f = example_process_facts and i = example_vm_inv
  have z: "\<not> te_get Present 0" "te_page 0 = 0" by (simp_all add: te_get_def field_get_def te_page_def)
  have d: "pageflt_description 6 = ''userspace write to invalid memory''"
    by (simp add: pageflt_description_def pf_R_def pf_U_def pf_P_def pf_I_def pf_W_def)
  obtain p where p: "vm_stats example_vmm = Some p" by (simp add: example_vmm_def)
  have k: "\<not> iskernel 0x8123" "\<not> iskernel 0x7000" by (simp_all add: iskernel_def gKernelBase_def)
  have e: "entry example_vmm 0x8123 = 0" "entry example_vmm 0x7000 = 0" by (simp_all add: example_entry below_window_def)
  show ?thesis
    using demand_paging_spec [of example_process "0x8123" p example_seek example_read 6]
      demand_paging_spec [of example_process "0x7000" p example_seek example_read 6] i f k e z p d
    by (auto simp: entry_maps_def)
qed

end
