(* ===== verification/Process_Release.thy ===== *)
theory Process_Release
  imports Process_Memory
begin

text \<open>
  Giving memory back: \<open>unmapregion\<close> (\<open>src/kernel/src/syscalls/impl/mem.cpp\<close>) and the release of all regions
  when a process exits (\<open>MemoryManager::cleanupAllRegions\<close> of \<open>src/kernel/src/mm/memmgr.cpp\<close>). Every page of
  a region loses its mapping and every frame loses one reference for each page that had it.
\<close>

section \<open>Releasing pages\<close>

definition held :: "vmm \<Rightarrow> u32 list \<Rightarrow> u32 \<Rightarrow> nat" where
  "held s vs i = length (filter (\<lambda>v. te_get Frompmm (entry s v) \<and> index (te_page (entry s v)) = i) vs)"

text \<open>
  The pages of a list can be released: they are user pages, those that own a frame are present, and the
  reference counts cover them.
\<close>

definition releasable :: "vmm \<Rightarrow> u32 list \<Rightarrow> bool" where
  "releasable s vs \<longleftrightarrow> paging_ok s \<and> pmm_inv (vm_pmm s) \<and> distinct vs
     \<and> (\<forall>v \<in> set vs. \<not> iskernel v \<and> offset v = 0 \<and> (te_get Frompmm (entry s v) \<longrightarrow> te_get Present (entry s v)))
     \<and> (\<forall>i. held s vs i \<le> refs (vm_pmm s) i)"

definition released :: "vmm \<Rightarrow> u32 list \<Rightarrow> vmm \<Rightarrow> bool" where
  "released s vs s' \<longleftrightarrow> paging_ok s' \<and> pmm_inv (vm_pmm s') \<and> paging_frames s' = paging_frames s
     \<and> (vm_stats s' = None \<longleftrightarrow> vm_stats s = None)
     \<and> (\<forall>i. refs (vm_pmm s') i = refs (vm_pmm s) i - held s vs i)
     \<and> (\<forall>u. if page u \<in> set vs then entry_cleared (entry s' u) else entry s' u = entry s u)
     \<and> (\<forall>q. q \<notin> paging_frames s \<longrightarrow> vm_mem s' q = vm_mem s q)"

lemma held_append: "held s (vs @ ws) i = held s vs i + held s ws i"
  by (simp add: held_def)

lemma held_cong: "(\<And>v. v \<in> set vs \<Longrightarrow> entry s v = entry t v) \<Longrightarrow> held s vs = held t vs"
  by (auto simp: held_def fun_eq_iff intro!: arg_cong [of _ _ length] filter_cong)

lemma releasable_page: "releasable s vs \<Longrightarrow> v \<in> set vs \<Longrightarrow> page v = v"
  by (simp add: releasable_def page_aligned)

lemma releasable_rest:
  assumes r: "releasable s (vs @ ws)" and s': "released s vs s'"
  shows "releasable s' ws" and "held s' ws = held s ws"
proof -
  have e: "entry s' v = entry s v" if "v \<in> set ws" for v
  proof -
    have "page v = v" "v \<notin> set vs" using r that releasable_page [OF r] by (auto simp: releasable_def)
    then show ?thesis using s' unfolding released_def by metis
  qed
  show h: "held s' ws = held s ws" using e by (intro held_cong) blast
  have "held s ws i \<le> refs (vm_pmm s) i - held s vs i" for i
    using r unfolding releasable_def held_append by (metis add_le_imp_le_diff add.commute)
  then show "releasable s' ws" using r s' e h by (auto simp: releasable_def released_def)
qed

lemma released_trans:
  assumes "releasable s (vs @ ws)" and "released s vs s'" and "released s' ws s''"
  shows "released s (vs @ ws) s''"
proof -
  have "if page u \<in> set (vs @ ws) then entry_cleared (entry s'' u) else entry s'' u = entry s u" for u
  proof -
    have "page u \<notin> set vs \<or> page u \<notin> set ws" using assms(1) by (auto simp: releasable_def)
    then show ?thesis using assms(2,3) unfolding released_def set_append Un_iff by metis
  qed
  then show ?thesis
    using assms(2,3) releasable_rest(2) [OF assms(1,2)] by (simp add: released_def held_append)
qed

lemma released_Nil: "releasable s [] \<Longrightarrow> released s [] s"
  by (simp add: releasable_def released_def held_def)

lemma unmap_page:
  assumes "releasable s [v]"
  obtains s' where "vm_unmap v s = Inr s'" "released s [v] s'"
proof -
  let ?e = "entry s v"
  have ok: "paging_ok s" "pmm_inv (vm_pmm s)" "below_window v" "offset v = 0" "te_get Frompmm ?e \<longrightarrow> te_get Present ?e"
    and h: "held s [v] i \<le> refs (vm_pmm s) i" for i
    using assms user_below_window by (auto simp: releasable_def)
  have pos: "te_get Frompmm ?e \<longrightarrow> 0 < refs (vm_pmm s) (index (te_page ?e))" using h [of "index (te_page ?e)"] by (auto simp: held_def)
  obtain p where p: "if te_get Frompmm ?e then phys_dealloc (te_page ?e) (vm_pmm s) = Inr p else p = vm_pmm s" "pmm_inv p"
    "refs p i = refs (vm_pmm s) i - held s [v] i" for i
  proof (cases "te_get Frompmm ?e")
    case True
    then show ?thesis using that phys_dealloc_ok [OF ok(2), of "te_page ?e"] pos by (fastforce simp: held_def)
  next
    case False
    then show ?thesis using that [of "vm_pmm s"] ok(2) by (simp add: held_def)
  qed
  obtain w where w: "entry_cleared w" and u: "vm_unmap v s = Inr (after_unmap v w p s)"
    using vm_unmap_ok [OF ok(1,3,5) p(1)] by blast
  note pg = after_unmap_paging [OF ok(1,3), of w p]
  have "vm_stats (after_unmap v w p s) = None \<longleftrightarrow> vm_stats s = None"
    by (simp add: after_unmap_def count_allocated_def Let_def)
  then have "released s [v] (after_unmap v w p s)"
    using pg p w after_unmap_mem [OF ok(1)] page_aligned [OF ok(4)] by (simp add: released_def)
  then show thesis using that u by blast
qed

lemma unmap_pages:
  "releasable s vs \<Longrightarrow> \<exists>s'. kfold vm_unmap vs s = Inr s' \<and> released s vs s'"
proof (induction vs arbitrary: s)
  case Nil
  then show ?case by (simp add: released_Nil)
next
  case (Cons v vs)
  have r: "releasable s ([v] @ vs)" using Cons.prems by simp
  have "held s [v] i \<le> refs (vm_pmm s) i" for i using r unfolding releasable_def held_append by (metis add_leD1)
  then have "releasable s [v]" using r by (simp add: releasable_def)
  then obtain s1 where s1: "vm_unmap v s = Inr s1" "released s [v] s1" by (rule unmap_page)
  obtain s2 where s2: "kfold vm_unmap vs s1 = Inr s2" "released s1 vs s2" using Cons.IH [OF releasable_rest(1) [OF r s1(2)]] by blast
  then show ?case using s1 released_trans [OF r s1(2) s2(2)] by simp
qed

section \<open>Removing regions\<close>

lemma released_stats:
  assumes "vm_stats s \<noteq> None"
  shows "releasable (s\<lparr>vm_stats := x\<rparr>) vs = releasable s vs"
    and "released (s\<lparr>vm_stats := Some y\<rparr>) vs s' = released s vs s'"
  using assms by (auto simp: releasable_def released_def held_def)

lemma removeRegion_pages:
  assumes d: "il_del (mm_regions M) r = (True, ys)" and r: "paged r" "ito r < gKernelBase" "\<not> isMmapRegion r"
    and stats: "vm_stats (mm_vm M) \<noteq> None" and rel: "releasable (mm_vm M) (region_pages r)"
  shows "\<exists>M'. removeRegion vt r M = Inr M' \<and> mm_regions M' = ys \<and> mm_size M' = mm_size M - isize r
    \<and> released (mm_vm M) (region_pages r) (mm_vm M')"
proof -
  obtain p where p: "vm_stats (mm_vm M) = Some p" using stats by blast
  let ?s = "(mm_vm M)\<lparr>vm_stats := Some (p\<lparr>available := available p + - isize r\<rparr>)\<rparr>"
  obtain s' where s': "kfold vm_unmap (region_pages r) ?s = Inr s'" "released ?s (region_pages r) s'"
    using unmap_pages [of ?s "region_pages r"] rel stats by (auto simp: released_stats)
  then have "removeRegion vt r M = Inr (M\<lparr>mm_regions := ys, mm_size := mm_size M - isize r, mm_vm := s'\<rparr>)"
    using d p r(3) by (simp add: removeRegion_def count_available_def for_region_pages [OF r(1,2)] Let_def)
  then show ?thesis using s'(2) stats by (auto simp: released_stats)
qed

lemma cleanup_regions:
  assumes "\<forall>r \<in> set us. paged r \<and> ito r < gKernelBase \<and> \<not> isMmapRegion r"
  shows "mm_regions M = us @ [kernel_region] \<Longrightarrow> vm_stats (mm_vm M) \<noteq> None
    \<Longrightarrow> releasable (mm_vm M) (concat (map region_pages us))
    \<Longrightarrow> \<exists>M'. kfold (\<lambda>rgn M. if \<not> isKernelRegion rgn then removeRegion vt rgn M else Inr M) (us @ [kernel_region]) M = Inr M'
      \<and> mm_regions M' = [kernel_region] \<and> mm_size M' = mm_size M - sum_list (map isize us)
      \<and> released (mm_vm M) (concat (map region_pages us)) (mm_vm M')"
  using assms
proof (induction us arbitrary: M)
  case Nil
  have "isKernelRegion kernel_region" by (simp add: isKernelRegion_def iskernel_def gKernelBase_def)
  then show ?case using Nil by (simp add: released_Nil)
next
  case (Cons r us)
  have r: "paged r" "ito r < gKernelBase" "\<not> isMmapRegion r" using Cons.prems(4) by simp_all
  have user: "\<not> isKernelRegion r" using r by (auto simp: isKernelRegion_def iskernel_def paged_def proper_def)
  have d: "il_del (mm_regions M) r = (True, us @ [kernel_region])" using Cons.prems(1) by (simp add: interval_eq_def)
  have split: "releasable (mm_vm M) (region_pages r @ concat (map region_pages us))" using Cons.prems(3) by simp
  have "held (mm_vm M) (region_pages r) i \<le> refs (vm_pmm (mm_vm M)) i" for i
    using split unfolding releasable_def held_append by (metis add_leD1)
  then have "releasable (mm_vm M) (region_pages r)" using split by (simp add: releasable_def)
  then obtain N where N: "removeRegion vt r M = Inr N" "mm_regions N = us @ [kernel_region]"
    "mm_size N = mm_size M - isize r" "released (mm_vm M) (region_pages r) (mm_vm N)"
    using removeRegion_pages [OF d r Cons.prems(2)] by blast
  have "vm_stats (mm_vm N) \<noteq> None" using N(4) Cons.prems(2) by (simp add: released_def)
  then obtain M' where M': "kfold (\<lambda>rgn M. if \<not> isKernelRegion rgn then removeRegion vt rgn M else Inr M) (us @ [kernel_region]) N = Inr M'"
    "mm_regions M' = [kernel_region]" "mm_size M' = mm_size N - sum_list (map isize us)"
    "released (mm_vm N) (concat (map region_pages us)) (mm_vm M')"
    using Cons.IH [OF N(2) _ releasable_rest(1) [OF split N(4)]] Cons.prems(4) by auto
  show ?case using user N(1,3) M' released_trans [OF split N(4) M'(4)] by simp
qed


text \<open>The example process with its first page backed by a frame of its own.\<close>

definition example_backed :: "(nat, unit) mm" where
  "example_backed = example_process\<lparr>mm_vm := set_pte (pi_of_virt 0x8000) (0x500000 OR 0x207) example_vmm\<rparr>"

lemma example_backed_facts:
  "mm_regions example_backed = [zero_region, example_data, kernel_region]" "mm_ok example_backed"
  "vm_stats (mm_vm example_backed) \<noteq> None" "isWithinRegion 0x8123 example_backed = Some example_data"
  "refs (vm_pmm (mm_vm example_backed)) 0x500 = 1"
proof -
  show r: "mm_regions example_backed = [zero_region, example_data, kernel_region]"
    using example_process_facts(2) by (simp add: example_backed_def)
  show "mm_ok example_backed" using example_process_ok by (simp add: example_backed_def mm_ok_def)
  show "vm_stats (mm_vm example_backed) \<noteq> None" by (simp add: example_backed_def example_vmm_def)
  show "isWithinRegion 0x8123 example_backed = Some example_data"
    using example_process_facts(3) isWithinRegion_cong [of example_backed example_process "0x8123"]
    by (simp add: example_backed_def example_process_facts(1))
  show "refs (vm_pmm (mm_vm example_backed)) 0x500 = 1"
    by (simp add: example_backed_def example_vmm_def) (simp add: refs_def example_pmm_def)
qed

lemma example_backed_pages: "region_pages example_data = [0x8000, 0x9000]" "region_pages zero_region = [0]"
  by (simp_all add: region_pages_def example_data_def region_new_def page_at_def gPageSize_def upt_rec)

lemma example_backed_held:
  assumes "v \<in> {0, 0x8000, 0x9000}"
  shows "entry (mm_vm example_backed) v = (if v = 0x8000 then 0x500000 OR 0x207 else 0)"
  using assms entry_set [OF example_paging_ok, of "0x8000" _ v] example_entry [of v]
  by (auto simp: example_backed_def below_window_def page_def gPageSize_def)

lemma example_backed_releasable:
  assumes "distinct vs" and "set vs \<subseteq> {0, 0x8000, 0x9000}"
  shows "releasable (mm_vm example_backed) vs" 
    and "0x8000 \<in> set vs \<Longrightarrow> held (mm_vm example_backed) vs 0x500 = 1"
proof -
  have f: "te_get Frompmm (0x500000 OR 0x207)" "te_get Present (0x500000 OR 0x207)" "\<not> te_get Frompmm 0"
    "te_page (0x500000 OR 0x207) = 0x500000" "index 0x500000 = 0x500"
    by (simp_all add: te_page_def te_get_def field_get_def index_def gPageSize_def)
  have eq: "(\<lambda>v. v = 0x8000) = (=) (0x8000 :: u32)" by auto
  have "filter (\<lambda>v. te_get Frompmm (entry (mm_vm example_backed) v) \<and> index (te_page (entry (mm_vm example_backed) v)) = i) vs
      = filter (\<lambda>v. v = 0x8000 \<and> i = 0x500) vs" for i
    using assms(2) f by (intro filter_cong) (auto simp: example_backed_held)
  then have h: "held (mm_vm example_backed) vs i = (if i = 0x500 then count_list vs 0x8000 else 0)" for i
    using eq by (simp add: held_def count_list_eq_length_filter)
  have c: "count_list vs (0x8000 :: u32) = (if 0x8000 \<in> set vs then 1 else 0)"
    using assms(1) by (induction vs) auto
  show "0x8000 \<in> set vs \<Longrightarrow> held (mm_vm example_backed) vs 0x500 = 1" using c h by simp
  have "held (mm_vm example_backed) vs i \<le> refs (vm_pmm (mm_vm example_backed)) i" for i
    using h c example_backed_facts(5) by simp
  moreover have "paging_ok (mm_vm example_backed)" "pmm_inv (vm_pmm (mm_vm example_backed))"
    using example_paging_ok example_vm_inv(1) by (simp_all add: example_backed_def paging_ok_set_entry below_window_def vm_inv_def)
  moreover have "\<not> iskernel v \<and> offset v = 0 \<and> (te_get Frompmm (entry (mm_vm example_backed) v) \<longrightarrow> te_get Present (entry (mm_vm example_backed) v))"
    if "v \<in> set vs" for v
    using that assms(2) f example_backed_held [of v] by (auto simp: iskernel_def gKernelBase_def offset_def gPageSize_def)
  ultimately show "releasable (mm_vm example_backed) vs" using assms(1) by (simp add: releasable_def)
qed


end
