(* ===== verification/Process_Protect.thy ===== *)
theory Process_Protect
  imports Process_Release
begin

text \<open>
  Changing the permission of a region (\<open>setregionperms\<close> of \<open>src/kernel/src/syscalls/impl/mem.cpp\<close>, over
  \<open>MemoryManager::protectRegionAtAddress\<close> of \<open>src/kernel/src/mm/memmgr.cpp\<close>), and what becomes of a
  write protection when a page is shared with another process until it is written.
\<close>

section \<open>Taking write access away from a page\<close>

text \<open>The entry of a page that is there loses its write access and nothing else.\<close>

definition readonly_entry :: "u32 \<Rightarrow> u32 \<Rightarrow> bool" where
  "readonly_entry e w \<longleftrightarrow> te_page w = te_page e \<and> (\<forall>f. te_get f w = (if f = Rw \<and> (te_get Present e \<or> te_get Zpmap e) then False else te_get f e))"

definition write_protected :: "vmm \<Rightarrow> u32 list \<Rightarrow> vmm \<Rightarrow> bool" where
  "write_protected s vs s' \<longleftrightarrow> paging_ok s' \<and> paging_frames s' = paging_frames s \<and> vm_pmm s' = vm_pmm s
     \<and> vm_stats s' = vm_stats s \<and> mScratchLow s' = mScratchLow s \<and> mScratchHigh s' = mScratchHigh s
     \<and> mKernelRegions s' = mKernelRegions s
     \<and> (\<forall>u. if page u \<in> set vs then readonly_entry (entry s u) (entry s' u) else entry s' u = entry s u)
     \<and> (\<forall>q. q \<notin> paging_frames s \<longrightarrow> vm_mem s' q = vm_mem s q)"

lemma cow_zpmap: "te_get Zpmap e = te_get Cow e"
  by (simp add: te_get_def)

lemma protect_page_ok:
  assumes ok: "paging_ok s" and v: "below_window v" "offset v = 0" and ro: "\<not> o_rw opts"
  obtains s' where "protect_page opts v s = Inr s'" "write_protected s [v] s'"
proof -
  let ?e = "entry s v" and ?there = "te_get Present (entry s v) \<or> te_get Zpmap (entry s v)"
  let ?po = "(mapped_options ?e map_options_default)\<lparr>o_rw := False\<rparr>"
  let ?w = "te_set Cow (o_cow ?po) (te_set Frompmm (o_frompmm ?po) (te_set Global (o_global ?po)
     (te_set Cacheoff (\<not> o_cached ?po) (te_set User (o_user ?po) (te_set Rw (o_rw ?po) ?e)))))"
  have pv: "page v = v" using v(2) by (rule page_aligned)
  have np: "newoptions v ?po s = Inr (v, set_pte (pi_of_virt v) ?w s)" if ?there
    using that ok by (simp add: newoptions_def pv entry_load_virt entry_update_virt Let_def)
  have "te_get f ?w = (if f = Rw then False else te_get f ?e)" for f
    by (cases f) (simp_all add: te_get_set mapped_options_def cow_zpmap)
  then have w: "readonly_entry ?e ?w" if ?there
    using that unfolding readonly_entry_def by simp
  show thesis
  proof (cases ?there)
    case True
    let ?s = "set_pte (pi_of_virt v) ?w s"
    have "protect_page opts v s = Inr ?s"
      using True ok ro np by (auto simp: protect_page_def read_entry_ok Let_def)
    moreover have "vm_mem ?s q = vm_mem s q" if "q \<notin> paging_frames s" for q
    proof -
      have "table_at s (pi_dir (pi_of_virt v)) \<noteq> q" using that by (auto simp: paging_frames_def)
      then show ?thesis by (simp add: vm_mem_set_pte)
    qed
    then have "write_protected s [v] ?s"
      using ok v w [OF True] by (auto simp: write_protected_def paging_ok_set_entry paging_frames_set_pte entry_set pv pi_of_virt_eq_iff)
    ultimately show thesis using that by blast
  next
    case False
    then have "protect_page opts v s = Inr s" using ok by (simp add: protect_page_def read_entry_ok)
    moreover have "write_protected s [v] s" using False ok
      by (auto simp: write_protected_def readonly_entry_def pv)
    ultimately show thesis using that by blast
  qed
qed

lemma write_protected_Cons:
  assumes "write_protected s [v] s1" and "write_protected s1 vs s2" and "v \<notin> set vs"
  shows "write_protected s (v # vs) s2"
proof -
  have "if page u \<in> set (v # vs) then readonly_entry (entry s u) (entry s2 u) else entry s2 u = entry s u" for u
    using assms unfolding write_protected_def set_simps insert_iff by (metis empty_iff)
  then show ?thesis using assms(1,2) by (simp add: write_protected_def)
qed

lemma protect_pages:
  assumes "\<not> o_rw opts"
  shows "paging_ok s \<Longrightarrow> distinct vs \<Longrightarrow> \<forall>v \<in> set vs. below_window v \<and> offset v = 0
    \<Longrightarrow> \<exists>s'. kfold (protect_page opts) vs s = Inr s' \<and> write_protected s vs s'"
proof (induction vs arbitrary: s)
  case Nil
  then show ?case by (simp add: write_protected_def)
next
  case (Cons v vs)
  obtain s1 where s1: "protect_page opts v s = Inr s1" "write_protected s [v] s1"
    using protect_page_ok [OF Cons.prems(1) _ _ assms, of v] Cons.prems(3) by auto
  have "paging_ok s1" using s1(2) by (simp add: write_protected_def)
  then obtain s2 where s2: "kfold (protect_page opts) vs s1 = Inr s2" "write_protected s1 vs s2"
    using Cons.IH Cons.prems(2,3) by auto
  show ?case using s1 s2 write_protected_Cons [OF s1(2) s2(2)] Cons.prems(2) by simp
qed

section \<open>The system call\<close>

lemma setregionperms_readonly:
  assumes ok: "mm_ok M" "paging_ok (mm_vm M)" and a: "\<not> iskernel a" "isWithinRegion a M = Some r" and perm: "perm AND 1 = 0"
  shows "\<exists>M'. setregionperms_syscall_handler a perm M = Inr (OK, M') \<and> mm_ok M'
    \<and> mm_regions M' = set_permission r ((r_permission r)\<lparr>o_rw := False\<rparr>) (mm_regions M)
    \<and> write_protected (mm_vm M) (region_pages r) (mm_vm M') \<and> mm_vfs M' = mm_vfs M"
proof -
  have regions: "regions_ok (mm_regions M)" using ok by (simp add: mm_ok_def)
  have ru: "r \<in> set (user_regions (mm_regions M))" using user_region(1) [OF regions a(2,1)] .
  have b: "paged r" "ito r < gKernelBase" using user_region_bounds [OF regions ru] by simp_all
  have w: "\<forall>v \<in> set (region_pages r). below_window v \<and> offset v = 0"
    using region_pages_set(1) [OF b] b(2) by (auto simp: icontains_def iskernel_def intro!: user_below_window)
  let ?o = "(r_permission r)\<lparr>o_rw := False\<rparr>"
  obtain s' where s': "kfold (protect_page ?o) (region_pages r) (mm_vm M) = Inr s'" "write_protected (mm_vm M) (region_pages r) s'"
    using protect_pages [OF _ ok(2) region_pages_set(2) [OF b] w, of ?o] by auto
  let ?M = "M\<lparr>mm_regions := set_permission r ?o (mm_regions M), mm_vm := s'\<rparr>"
  have p: "protectRegionAtAddress a ?o M = Inr (True, ?M)"
    using a s'(1) by (simp add: protectRegionAtAddress_def set_permission_def for_region_pages [OF b] Let_def)
  have "\<not> 1 = perm AND 1" using perm by simp
  then have "setregionperms_syscall_handler a perm M = Inr (OK, ?M)"
    using a p by (simp add: setregionperms_syscall_handler_def Let_def)
  moreover have "mm_ok ?M" using protect_ok [OF ok(1) a(1) p] .
  ultimately show ?thesis using s'(2) by auto
qed

lemma readonly_user:
  assumes "readonly_entry (entry s u) (entry s' u)"
  shows "user_readable s' u = user_readable s u" and "\<not> user_writable s' u"
  using assms by (auto simp: readonly_entry_def user_readable_def user_writable_def)

lemma pages_of_region:
  assumes "paged r" and "ito r < gKernelBase"
  shows "page u \<in> set (region_pages r) \<longleftrightarrow> icontains r u"
proof -
  have o: "offset (ifrom r) = 0" "unat (ito r) + 1 < 2 ^ 32" "unat (ifrom r) \<le> unat (ito r)"
    using assms(1) paged_nat [OF assms] by (simp_all add: paged_def)
  have t: "unat (ito r + 1) = unat (ito r) + 1" using o(2) by (simp add: unat_word_ariths)
  have top: "offset (ito r + 1) = 0" using assms(1) by (simp add: paged_def)
  have "icontains r (page u) \<longleftrightarrow> icontains r u"
  proof
    assume c: "icontains r (page u)"
    have "unat (page u) + 4096 \<le> unat (ito r + 1)"
    proof (rule aligned_gap [OF _ top])
      show "page u < ito r + 1" using c t by (simp add: icontains_def word_le_nat_alt word_less_nat_alt)
    qed simp
    moreover have "unat u < unat (page u) + 4096" "unat (page u) \<le> unat u" by (simp_all add: unat_page mult.commute dividend_less_times_div)
    ultimately show "icontains r u" using c t by (simp add: icontains_def word_le_nat_alt)
  next
    assume c: "icontains r u"
    have "page (ifrom r) \<le> page u" using c by (simp add: icontains_def word_le_nat_alt unat_page div_le_mono)
    moreover have "page u \<le> u" by (simp add: word_le_nat_alt unat_page)
    ultimately show "icontains r (page u)" using c page_aligned [OF o(1)] by (auto simp: icontains_def)
  qed
  then show ?thesis using region_pages_set(1) [OF assms] by simp
qed

section \<open>A write to a page that is copied on write\<close>

text \<open>A page whose frame can be copied: the frame is in use and is not one of the page tables.\<close>

definition copyable :: "vmm \<Rightarrow> u32 \<Rightarrow> bool" where
  "copyable s v \<longleftrightarrow> te_get Present (entry s v) \<and> te_get Cow (entry s v) \<and> te_page (entry s v) \<notin> paging_frames s
     \<and> \<not> page_avail (vm_pmm s) (index (te_page (entry s v)))
     \<and> (te_get Frompmm (entry s v) \<longrightarrow> 0 < refs (vm_pmm s) (index (te_page (entry s v))))
     \<and> free_set (vm_pmm s) \<noteq> {} \<and> (\<exists>sp. scratch_free s sp)"

lemma copyable_cong:
  assumes c: "copyable s v" and ok: "paging_ok s" "paging_ok s'" and p: "paging_frames s' = paging_frames s" "vm_pmm s' = vm_pmm s"
    and e: "\<And>u. te_page (entry s' u) = te_page (entry s u)" "\<And>u f. f \<noteq> Rw \<Longrightarrow> te_get f (entry s' u) = te_get f (entry s u)"
    and w: "mScratchLow s' = mScratchLow s" "mScratchHigh s' = mScratchHigh s"
  shows "copyable s' v"
proof -
  obtain sp where "scratch_free s sp" using c by (auto simp: copyable_def)
  then have "scratch_free s' sp" using scratch_free_cong [of s sp s'] ok e(2) [of Present] w by simp
  then show ?thesis using c p e by (auto simp: copyable_def)
qed

lemma clone_copyable:
  assumes s: "paging_ok s" "pmm_inv (vm_pmm s)" "paging_held s" and a: "\<not> iskernel a" and c: "copyable s a"
  shows "\<exists>phys s'. clonePage a o' s = Inr (kernel_success phys, s') \<and> offset phys = 0 \<and> paging_ok s'
    \<and> mapped_with a opts s' = Inr (Some (o'\<lparr>o_frompmm := True, o_cow := False, o_rw := True, o_clear := o_clear opts\<rparr>))"
proof -
  obtain sp where sp: "scratch_free s sp" using c by (auto simp: copyable_def)
  have "iskernel (page sp)" using sp page_aligned [of sp] by (simp add: scratch_free_def)
  then have ne: "page sp \<noteq> page a" using user_page_address [OF a] by metis
  have *: "free_set (vm_pmm s) \<noteq> {}" "te_get Present (entry s a)" "te_page (entry s a) \<notin> paging_frames s"
    "\<not> page_avail (vm_pmm s) (index (te_page (entry s a)))"
    "te_get Frompmm (entry s a) \<longrightarrow> 0 < refs (vm_pmm s) (index (te_page (entry s a)))"
    using c by (simp_all add: copyable_def)
  from clonePage_ok [OF s *(1) user_below_window [OF a] sp ne *(2-5), of o'] show ?thesis
    by (elim exE conjE, intro exI conjI) (assumption | simp)+
qed

lemma cow_fault_ok:
  assumes inv: "vm_inv (mm_vm M)" and a: "\<not> iskernel a" and c: "copyable (mm_vm M) a"
    and ro: "\<not> te_get Rw (entry (mm_vm M) a)" and err: "err AND 3 = 3"
  shows "\<exists>M'. pageflt_handler seek readf err a M = Inr (Resume, M') \<and> te_get Present (entry (mm_vm M') a)
    \<and> te_get Rw (entry (mm_vm M') a) \<and> te_get User (entry (mm_vm M') a) = te_get User (entry (mm_vm M) a)"
proof -
  let ?s = "(mm_vm M)\<lparr>vm_stats := map_option (\<lambda>p. p\<lparr>pagefaults := pagefaults p + 1\<rparr>) (vm_stats (mm_vm M))\<rparr>"
  let ?e = "entry (mm_vm M) a" and ?o = "mapped_options (entry (mm_vm M) a) map_options_default"
  have i: "paging_ok ?s" "pmm_inv (vm_pmm ?s)" "paging_held ?s" using inv by (simp_all add: vm_inv_def paging_held_def)
  have cs: "copyable ?s a" by (rule copyable_cong [OF c]) (use i in simp_all)
  obtain phys s' where s': "clonePage a ?o ?s = Inr (kernel_success phys, s')" "offset phys = 0" "paging_ok s'"
    "mapped_with a map_options_default s' = Inr (Some (?o\<lparr>o_frompmm := True, o_cow := False, o_rw := True, o_clear := o_clear map_options_default\<rparr>))"
    using clone_copyable [OF i a cs, of ?o map_options_default] by blast
  have there: "te_get Present ?e" "te_get Cow ?e" using c by (simp_all add: copyable_def)
  have p: "te_get Present (entry s' a)"
    and m: "mapped_options (entry s' a) map_options_default
      = ?o\<lparr>o_frompmm := True, o_cow := False, o_rw := True, o_clear := o_clear map_options_default\<rparr>"
    using s'(4) by (simp_all add: read_entry_ok [OF s'(3)] split: if_splits)
  have "te_get Rw (entry s' a)" "te_get User (entry s' a) = te_get User ?e"
    using arg_cong [OF m, of o_rw] arg_cong [OF m, of o_user] by (simp_all add: mapped_options_def)
  moreover have "pageflt_handler seek readf err a M = Inr (Resume, M\<lparr>mm_vm := s'\<rparr>)"
    using i(1) there ro err s'(1) even_aligned [OF s'(2)]
    by (simp add: pageflt_handler_def read_entry_ok cow_recover_def using_result_into Let_def)
  ultimately show ?thesis using p by (intro exI [of _ "M\<lparr>mm_vm := s'\<rparr>"]) simp
qed

text \<open>
  C32: taking write access from a region. The call succeeds, no address of the region can be written by the
  user any more, what can be read stays the same, and so does what can be written elsewhere. A page of the
  region that is copied on write loses the protection again: the next write to it faults, the process gets
  its own copy, and the copy can be written.
\<close>

theorem write_protection_spec:
  assumes ok: "mm_ok M" and inv: "vm_inv (mm_vm M)" and a: "\<not> iskernel a" "isWithinRegion a M = Some r" and perm: "perm AND 1 = 0"
  shows "\<exists>M'. setregionperms_syscall_handler a perm M = Inr (OK, M') \<and> mm_ok M'
    \<and> (\<forall>u. user_readable (mm_vm M') u = user_readable (mm_vm M) u)
    \<and> (\<forall>u. user_writable (mm_vm M') u \<longleftrightarrow> user_writable (mm_vm M) u \<and> \<not> icontains r u)
    \<and> (\<forall>err. copyable (mm_vm M) a \<and> te_get User (entry (mm_vm M) a) \<and> err AND 3 = 3 \<longrightarrow>
        (\<exists>M''. pageflt_handler seek readf err a M' = Inr (Resume, M'') \<and> user_writable (mm_vm M'') a))"
proof -
  have okp: "paging_ok (mm_vm M)" using inv by (simp add: vm_inv_def)
  have regions: "regions_ok (mm_regions M)" using ok by (simp add: mm_ok_def)
  note ru = user_region [OF regions a(2,1)]
  note b = user_region_bounds(1,3) [OF regions ru(1)]
  obtain M' where M': "setregionperms_syscall_handler a perm M = Inr (OK, M')" "mm_ok M'"
    and w: "write_protected (mm_vm M) (region_pages r) (mm_vm M')"
    using setregionperms_readonly [OF ok okp a perm] by blast
  have e: "if icontains r u then readonly_entry (entry (mm_vm M) u) (entry (mm_vm M') u) else entry (mm_vm M') u = entry (mm_vm M) u" for u
    using w pages_of_region [OF b, of u] unfolding write_protected_def by metis
  have same: "te_page (entry (mm_vm M') u) = te_page (entry (mm_vm M) u)"
    "f \<noteq> Rw \<Longrightarrow> te_get f (entry (mm_vm M') u) = te_get f (entry (mm_vm M) u)" for u f
    using e [of u] by (auto simp: readonly_entry_def split: if_splits)
  have rd: "user_readable (mm_vm M') u = user_readable (mm_vm M) u" for u
    by (simp add: user_readable_def same(2))
  have wr: "user_writable (mm_vm M') u \<longleftrightarrow> user_writable (mm_vm M) u \<and> \<not> icontains r u" for u
    using e [of u] readonly_user(2) [of "mm_vm M" u "mm_vm M'"] by (auto simp: user_writable_def user_readable_def split: if_splits)
  have fault: "\<exists>M''. pageflt_handler seek readf err a M' = Inr (Resume, M'') \<and> user_writable (mm_vm M'') a"
    if c: "copyable (mm_vm M) a \<and> te_get User (entry (mm_vm M) a) \<and> err AND 3 = 3" for err
  proof -
    have inv': "vm_inv (mm_vm M')" using inv w by (simp add: vm_inv_def write_protected_def paging_held_def)
    have c': "copyable (mm_vm M') a"
      by (rule copyable_cong [of "mm_vm M"]) (use c okp w same in \<open>simp_all add: write_protected_def\<close>)
    have "\<not> te_get Rw (entry (mm_vm M') a)" using e [of a] ru(2) c by (auto simp: readonly_entry_def copyable_def)
    then show ?thesis
      using cow_fault_ok [OF inv' a(1) c', of err seek readf] c same(2) [of User a]
      by (auto simp: user_writable_def user_readable_def)
  qed
  show ?thesis using M' rd wr fault by blast
qed

text \<open>The example process, with its first page shared until it is written.\<close>

definition example_shared :: "(nat, unit) mm" where
  "example_shared = example_process\<lparr>mm_vm := example_cow\<rparr>"

lemma example_shared_facts:
  "mm_ok example_shared" "vm_inv (mm_vm example_shared)" "isWithinRegion 0x8123 example_shared = Some example_data"
  "copyable (mm_vm example_shared) 0x8123" "te_get User (entry (mm_vm example_shared) 0x8123)"
proof -
  show "mm_ok example_shared" using example_process_ok by (simp add: example_shared_def mm_ok_def)
  show "vm_inv (mm_vm example_shared)" using example_cow_ok(1-3) example_pmm_inv by (simp add: example_shared_def vm_inv_def)
  show "isWithinRegion 0x8123 example_shared = Some example_data"
    using example_process_facts(1,3) isWithinRegion_cong [of example_shared example_process "0x8123"]
    by (simp add: example_shared_def example_cow_def)
  have e: "te_page (0x500000 OR 0x605) = 0x500000" "te_get Present (0x500000 OR 0x605)" "te_get User (0x500000 OR 0x605)"
    "te_get Cow (0x500000 OR 0x605)" "index 0x500000 = 0x500" "page 0x8123 = (0x8000 :: u32)"
    by (simp_all add: te_page_def te_get_def field_get_def index_def page_def gPageSize_def)
  have r: "refs example_pmm 0x500 = 1" "\<not> page_avail example_pmm 0x500" "0x600 \<in> free_set example_pmm"
    by (simp_all add: refs_def example_pmm_def page_avail_def page_free_def free_set_def)
  have entry: "entry (mm_vm example_shared) 0x8123 = 0x500000 OR 0x605" using e(6) example_cow_ok(4) [of "0x8123"] by (simp add: example_shared_def)
  show "te_get User (entry (mm_vm example_shared) 0x8123)" unfolding entry by (rule e)
  have vm: "mm_vm example_shared = example_cow" by (simp add: example_shared_def)
  show "copyable (mm_vm example_shared) 0x8123"
    unfolding copyable_def entry e(1,5) using vm e r example_cow_frame example_cow_ok(3) example_cow_scratch by auto
qed

theorem write_protection_witness:
  "\<exists>M' M''. setregionperms_syscall_handler 0x8123 0 example_shared = Inr (OK, M') \<and> \<not> user_writable (mm_vm M') 0x8123
     \<and> pageflt_handler example_seek example_read 7 0x8123 M' = Inr (Resume, M'') \<and> user_writable (mm_vm M'') 0x8123"
proof -
  have k: "\<not> iskernel 0x8123" by (simp add: iskernel_def gKernelBase_def)
  have c: "icontains example_data 0x8123" by (simp add: icontains_def example_data_def region_new_def)
  have n: "(0 :: u32) AND 1 = 0" "(7 :: u32) AND 3 = 3" by simp_all
  obtain M' where M': "setregionperms_syscall_handler 0x8123 0 example_shared = Inr (OK, M')"
    "\<forall>u. user_writable (mm_vm M') u \<longleftrightarrow> user_writable (mm_vm example_shared) u \<and> \<not> icontains example_data u"
    "\<forall>err. copyable (mm_vm example_shared) 0x8123 \<and> te_get User (entry (mm_vm example_shared) 0x8123) \<and> err AND 3 = 3 \<longrightarrow>
        (\<exists>M''. pageflt_handler example_seek example_read err 0x8123 M' = Inr (Resume, M'') \<and> user_writable (mm_vm M'') 0x8123)"
    using write_protection_spec [OF example_shared_facts(1,2) k example_shared_facts(3) n(1), of example_seek example_read] by blast
  then show ?thesis using c n(2) example_shared_facts(4,5) by blast
qed

end
