(* ===== verification/Spec2Isabelle.thy ===== *)
theory Spec2Isabelle
  imports Interval_List Phys Space_Create Slist Task_Props Exit_Collect Synch Named_Objects Pipe Msg_Queue Vfs Time_Manager Process_Protect
begin

text \<open>
  Puppy is a 32-bit operating system for x86 with a kernel in C++ (\<open>src/kernel\<close>). This library models the
  logic of the kernel, memory, scheduling, synchronisation, files and time, and proves what makes it
  correct. Where the code does not do what it means to, the theorem states what it does.

  \<^bold>\<open>Parts and how they interact.\<close> The physical page manager counts references to frames. The virtual
  page manager maps frames into the address space of the running process through page tables that are
  themselves mapped, and builds, copies and cleans address spaces. The memory manager of a process keeps
  a list of regions; a page fault inside a region gets memory for the page, a write to a shared page gets a
  copy. The process manager moves processes between the ready queue, wait queues and the sleep queue; the
  scheduler, awaker, collector and deleter are kernel tasks over these queues. Mutexes, semaphores,
  events, pipes and message queues block and wake processes through wait queues, and user programs reach
  them as files of filesystems that the virtual file system finds by path. The time manager counts ticks
  and seconds for the scheduler and for files, and takes the date from the real-time clock.

  \<^bold>\<open>Conventions.\<close> \<open>Puppy_Prelude\<close> has the types \<open>u8\<close> to \<open>u64\<close> and the outcome \<open>'a kernel\<close>: \<open>Inr\<close> a result, or
  \<open>Inl\<close> a fault (a panic with its message, an access out of bounds, through a null pointer or to a deleted
  object, a division by zero, a page fault of the kernel, or a loop that never ends). Integers have the
  width they have in the code. A function that blocks is split where it gives up the processor: the
  first part ends in \<open>Blocks\<close>, the part after the wake-up is the definition with the suffix \<open>_resume\<close> or
  \<open>_turn\<close>. A virtual function of a class the code calls is a parameter. The kernel is not preempted inside these
  functions, so a compare-and-exchange loop is one step.

  \<^bold>\<open>Theories.\<close>
  \<^item> \<open>Interval\<close>, \<open>Interval_List\<close> (\<open>libc/interval.cpp\<close>, \<open>libc/intervals.h\<close>): ordered lists of disjoint intervals; the
    locale \<open>address_space\<close> is their contract, interpreted for the kernel's regions and for those of a process.
  \<^item> \<open>Kernel_Result\<close> (\<open>error/result.h\<close>), \<open>Phys\<close> (\<open>mm/phys.cpp\<close>): frames. Lemmas: reference counts are exact in every
    run, allocation is sound and complete, contiguous allocation finds a run if there is one, the count wraps.
  \<^item> \<open>Page_Entry\<close>, \<open>Paging\<close>, \<open>Virt\<close>, \<open>Cow\<close> (\<open>mm/virt.cpp\<close>): entries, the walk of the processor over memory as
    bytes, and the operations on the current address space. Lemmas: mapping and unmapping change one page,
    a copied page has its own frame with the same contents.
  \<^item> \<open>Kernel_Heap\<close> (\<open>mm/heap.cpp\<close> and the kernel regions of \<open>mm/virt.cpp\<close>), \<open>Address_Space\<close>, \<open>Space_Steps\<close>, \<open>Space_Create\<close>:
    the kernel heap, scratch pages, and new address spaces that share the kernel and nothing else.
  \<^item> \<open>Memmgr\<close>, \<open>Process_Regions\<close>, \<open>Process_Memory\<close>, \<open>Process_Release\<close>,
    \<open>Process_Protect\<close> (\<open>mm/memmgr.cpp\<close>, \<open>mm/pagefault.cpp\<close>, \<open>syscalls/impl/mem.cpp\<close>): the regions of a process, page faults
    and the system calls on memory. Lemmas: the regions stay apart and cover the zero page and the kernel, a
    fault in a region gets a clean page, unmapping takes every page away, what the checks of user memory
    answer, and when a write protection is lost.
  \<^item> \<open>Slist\<close> (\<open>libc/slist.h\<close>): linked lists with nodes on a heap refine lists. \<open>Fifo\<close>, \<open>Vec\<close>, \<open>Pqueue\<close> (\<open>libc/queue.h\<close>,
    \<open>vec.h\<close>, \<open>dynqueue.h\<close>, \<open>pqueue.h\<close>): queues and the sorting of the sleep queue. \<open>Slot_Tables\<close>: identifiers and
    handle tables. \<open>Rand\<close>: random numbers.
  \<^item> \<open>Tasks\<close>, \<open>Scheduling\<close>, \<open>Waiting\<close>, \<open>Proc_Life\<close>, \<open>Task_System\<close>, \<open>Task_Props\<close>, \<open>Exit_Collect\<close> (\<open>process/manager.cpp\<close>,
    \<open>synch/waitqueue.cpp\<close>, \<open>src/tasks\<close>): processes, wait queues, the two schedulers, sleeping, exit and collection.
    \<open>Task_System\<close> is the step relation of all operations; its invariant is proved by rule induction.
  \<^item> \<open>Synch\<close>, \<open>Blocking\<close>, \<open>Pipe\<close>, \<open>Msg_Queue\<close> (\<open>src/synch\<close>): mutual exclusion, counting, and delivery in order.
  \<^item> \<open>Filesystem\<close>, \<open>Keyed_Store\<close>, \<open>Named_Objects\<close>, \<open>Vfs\<close> (\<open>src/fs\<close>, \<open>libc/hash.h\<close>, \<open>libc/keyedstore.h\<close>): reference counts
    of open objects, stores of named objects, path resolution and mounting. The locale \<open>fs_provider\<close> is what
    the base class relies on in a filesystem, interpreted for mutexes, semaphores, events, pipes and queues.
  \<^item> \<open>Calendar\<close>, \<open>Time_Manager\<close> (\<open>libc/time.cpp\<close>, \<open>src/time\<close>, \<open>drivers/rtc\<close>): dates and timestamps are inverse,
    tick handlers run at their rate, and the date at boot.

  \<^bold>\<open>Bounds and fuel.\<close> A loop over pages gets \<open>2 ^ 20\<close> steps, after which a 32-bit page address is back at its
  start and a guard that still holds holds forever. A loop over list nodes gets one step for every node
  that was ever made. The search for contiguous frames gets one step per frame. The reading of the clock
  gets as many pairs of readings as given; two equal ones end it. In each case running out is the fault
  \<open>Diverges\<close>, and the theorems state that the code returns.

  \<^bold>\<open>Not modelled.\<close> Assembly, processor set-up and boot; device drivers apart from the decoding of the clock;
  the terminal; disk, in-memory and device filesystems, of which only the contract is used; loading of
  programs and creation of processes, whose state is processor structures; the dispatch of system calls and those
  that copy user buffers; the memory allocator and printing, which are third-party code or have no effect on
  the modelled state; user programs, the C library and other third-party code. Allocation of kernel objects does
  not fail in the model, and logging does nothing.
\<close>

end
